(* ===== verification/Prelude.thy ===== *)
theory Prelude
  imports Main "HOL-Library.Word" "HOL-Library.Monad_Syntax" "HOL-Library.Multiset"
begin

text \<open>
  Shared vocabulary of the development: the fixed-width integers of the C sources, checked
  array access, and the generic facts on lists, multisets and words that the component
  theories use.
\<close>

unbundle bit_operations_syntax

type_synonym u8 = "8 word"
type_synonym u16 = "16 word"
type_synonym u32 = "32 word"
type_synonym u64 = "64 word"

section \<open>Checked array access\<close>

text \<open>
  Reading \<open>a[i]\<close> outside an allocated block is undefined behaviour in C. The model returns
  \<^const>\<open>None\<close> there, so that a theorem \<open>f x = Some y\<close> also says that no access of \<open>f\<close> was out
  of bounds.
\<close>

definition fetch :: "'a list \<Rightarrow> nat \<Rightarrow> 'a option" where
  "fetch xs i = (if i < length xs then Some (xs ! i) else None)"

definition store :: "'a list \<Rightarrow> nat \<Rightarrow> 'a \<Rightarrow> 'a list option" where
  "store xs i v = (if i < length xs then Some (xs[i := v]) else None)"

lemma fetch_in [simp]: "i < length xs \<Longrightarrow> fetch xs i = Some (xs ! i)"
  by (simp add: fetch_def)

lemma fetch_out [simp]: "length xs \<le> i \<Longrightarrow> fetch xs i = None"
  by (simp add: fetch_def)

lemma store_in [simp]: "i < length xs \<Longrightarrow> store xs i v = Some (xs[i := v])"
  by (simp add: store_def)

lemma store_out [simp]: "length xs \<le> i \<Longrightarrow> store xs i v = None"
  by (simp add: store_def)

section \<open>Lists of lists, multisets and filters\<close>

lemma mset_concat_update:
  "i < length xs \<Longrightarrow> mset (concat (xs[i := b])) + mset (xs ! i) = mset (concat xs) + mset b"
proof (induction xs arbitrary: i)
  case (Cons x xs)
  then show ?case by (cases i) auto
qed simp

lemma length_concat_update:
  "i < length xs \<Longrightarrow> length (concat (xs[i := b])) + length (xs ! i) = length (concat xs) + length b"
  by (metis mset_concat_update size_mset size_union)

lemma length_nth_le_concat: "i < length xs \<Longrightarrow> length (xs ! i) \<le> length (concat xs)"
proof (induction xs arbitrary: i)
  case (Cons x xs)
  then show ?case by (cases i) (auto simp: trans_le_add2)
qed simp

lemma length_filter_mset: "length (filter P xs) = size (filter_mset P (mset xs))"
  by (metis mset_filter size_mset)

lemma take_drop_Suc_mset:
  "p < length xs \<Longrightarrow> mset (take p xs @ drop (Suc p) xs) + {#xs ! p#} = mset xs"
  by (metis add_mset_add_single id_take_nth_drop mset.simps(2) mset_append union_mset_add_mset_right)

section \<open>Masks\<close>

lemma unat_and_mask: "unat ((w :: 'a::len word) AND mask n) = unat w mod 2 ^ n"
  by (simp add: unsigned_take_bit_eq flip: take_bit_eq_mask)
    (simp add: take_bit_eq_mod)

lemma word_of_nat_pow2_minus_1: "(word_of_nat (2 ^ n) :: 'a::len word) - 1 = mask n"
  by (simp add: mask_eq_exp_minus_1)

section \<open>Membership in nested lists\<close>

lemma in_set_concat_nth: "e \<in> set (concat xss) \<longleftrightarrow> (\<exists>i<length xss. e \<in> set (xss ! i))"
  unfolding set_concat by (metis (no_types, lifting) UN_E UN_I in_set_conv_nth)

lemma nth_nth_in_concat:
  "i < length xss \<Longrightarrow> p < length (xss ! i) \<Longrightarrow> xss ! i ! p \<in> set (concat xss)"
  unfolding in_set_concat_nth by (meson nth_mem)

lemma mset_exchange:
  fixes A :: "'a multiset"
  assumes "A + C = B + C'" and "C' + X = C + Y"
  shows "A + X = B + Y"
proof -
  have "(A + X) + C = (A + C) + X" by (simp only: ac_simps)
  also have "\<dots> = B + (C' + X)" by (simp only: assms ac_simps)
  also have "\<dots> = (B + Y) + C" by (simp only: assms ac_simps)
  finally show ?thesis by (rule add_right_imp_eq)
qed

section \<open>Checking all bit positions of a 64-bit word\<close>

lemma upt64: "[0..<64] =
    [0, 1, 2, 3, 4, 5, 6, 7, 8, 9, 10, 11, 12, 13, 14, 15, 16, 17, 18, 19, 20, 21, 22, 23, 24,
     25, 26, 27, 28, 29, 30, 31, 32, 33, 34, 35, 36, 37, 38, 39, 40, 41, 42, 43, 44, 45, 46,
     47, 48, 49, 50, 51, 52, 53, 54, 55, 56, 57, 58, 59, 60, 61, 62, 63]"
  by (simp add: upt_rec_numeral upt_conv_Cons)

lemma all64: "(\<forall>i<64. P i) \<longleftrightarrow> (\<forall>i\<in>set [0..<64]. P i)" for P :: "nat \<Rightarrow> bool"
  by auto

lemma unat_u64_less: "unat (w :: u64) < 2 ^ 64"
  using unsigned_less[of w, where ?'a = nat] by simp

lemma unat_u64_of_nat: "unat (word_of_nat x :: u64) = x mod 2 ^ 64"
  by (simp add: unsigned_of_nat take_bit_eq_mod)

lemma sint_word_of_int:
  assumes "- (2 ^ (LENGTH('a) - 1)) \<le> x" "x < 2 ^ (LENGTH('a) - 1)"
  shows "sint (word_of_int x :: 'a::len word) = x"
  using assms by (simp add: sint_sbintrunc' signed_take_bit_int_eq_self)

lemma sint_of_int64: "- (2 ^ 63) \<le> x \<Longrightarrow> x < 2 ^ 63 \<Longrightarrow> sint (word_of_int x :: u64) = x"
  by (rule sint_word_of_int) simp_all

lemma sint_of_int32: "- (2 ^ 31) \<le> x \<Longrightarrow> x < 2 ^ 31 \<Longrightarrow> sint (word_of_int x :: u32) = x"
  by (rule sint_word_of_int) simp_all

lemma sint_of_int16: "- (2 ^ 15) \<le> x \<Longrightarrow> x < 2 ^ 15 \<Longrightarrow> sint (word_of_int x :: u16) = x"
  by (rule sint_word_of_int) simp_all

section \<open>Block copies\<close>

text \<open>
  \<open>memcpy\<close> and \<open>memmove\<close> as a checked read of a block followed by a checked write:
  \<^const>\<open>None\<close> is an access outside the buffer.
\<close>

definition read_at :: "'a list \<Rightarrow> nat \<Rightarrow> nat \<Rightarrow> 'a list option" where
  "read_at xs off n = (if off + n \<le> length xs then Some (take n (drop off xs)) else None)"

definition write_at :: "'a list \<Rightarrow> nat \<Rightarrow> 'a list \<Rightarrow> 'a list option" where
  "write_at xs off ys =
     (if off + length ys \<le> length xs then Some (take off xs @ ys @ drop (off + length ys) xs) else None)"

lemma read_at_in [simp]: "off + n \<le> length xs \<Longrightarrow> read_at xs off n = Some (take n (drop off xs))"
  by (simp add: read_at_def)

lemma write_at_in [simp]:
  "off + length ys \<le> length xs \<Longrightarrow> write_at xs off ys = Some (take off xs @ ys @ drop (off + length ys) xs)"
  by (simp add: write_at_def)

lemma write_at_length: "write_at xs off ys = Some zs \<Longrightarrow> length zs = length xs"
  by (auto simp: write_at_def split: if_splits)

end
