(* ===== verification/Map_Interface.thy ===== *)
theory Map_Interface
  imports Prelude
begin

text \<open>
  The contract of a key-value container as its clients use it. Every operation returns the new
  container, since even a lookup may change the representation (a hash table moves a bucket
  while it is being rehashed); \<^const>\<open>None\<close> stands for undefined behaviour of the C code.
\<close>

locale map_adt =
  fixes inv :: "'m \<Rightarrow> bool"
    and lookup :: "'m \<Rightarrow> 'k \<Rightarrow> 'v option"
    and count :: "'m \<Rightarrow> nat"
    and bound :: nat
    and get :: "'m \<Rightarrow> 'k \<Rightarrow> ('m \<times> 'v option) option"
    and put :: "'m \<Rightarrow> 'k \<Rightarrow> 'v \<Rightarrow> ('m \<times> bool) option"
    and del :: "'m \<Rightarrow> 'k \<Rightarrow> ('m \<times> bool) option"
  assumes get_law: "inv m \<Longrightarrow> \<exists>m'. get m k = Some (m', lookup m k) \<and> inv m' \<and>
      lookup m' = lookup m \<and> count m' = count m"
    and put_law: "inv m \<Longrightarrow> count m \<le> bound \<Longrightarrow> \<exists>m'. put m k v = Some (m', lookup m k = None) \<and>
      inv m' \<and> lookup m' = (lookup m)(k \<mapsto> v) \<and> count m' \<le> count m + 1"
    and del_law: "inv m \<Longrightarrow> \<exists>m'. del m k = Some (m', lookup m k \<noteq> None) \<and> inv m' \<and>
      lookup m' = (lookup m)(k := None) \<and> count m' \<le> count m"

datatype ('k, 'v) map_op = Get 'k | Put 'k 'v | Del 'k

datatype 'v map_reply = Value "'v option" | Flag bool

text \<open>The same operations on the abstract map.\<close>

fun spec_step :: "('k \<rightharpoonup> 'v) \<Rightarrow> ('k, 'v) map_op \<Rightarrow> ('k \<rightharpoonup> 'v) \<times> 'v map_reply" where
  "spec_step f (Get k) = (f, Value (f k))"
| "spec_step f (Put k v) = (f(k \<mapsto> v), Flag (f k = None))"
| "spec_step f (Del k) = (f(k := None), Flag (f k \<noteq> None))"

fun spec_run :: "('k \<rightharpoonup> 'v) \<Rightarrow> ('k, 'v) map_op list \<Rightarrow> ('k \<rightharpoonup> 'v) \<times> 'v map_reply list" where
  "spec_run f [] = (f, [])"
| "spec_run f (x # xs) =
     (let (f, r) = spec_step f x; (f, rs) = spec_run f xs in (f, r # rs))"

text \<open>A run of operations on a container, given its three operations.\<close>

fun op_step ::
    "('m \<Rightarrow> 'k \<Rightarrow> ('m \<times> 'v option) option) \<Rightarrow> ('m \<Rightarrow> 'k \<Rightarrow> 'v \<Rightarrow> ('m \<times> bool) option) \<Rightarrow>
     ('m \<Rightarrow> 'k \<Rightarrow> ('m \<times> bool) option) \<Rightarrow> 'm \<Rightarrow> ('k, 'v) map_op \<Rightarrow> ('m \<times> 'v map_reply) option" where
  "op_step get put del m (Get k) = map_option (\<lambda>(m, v). (m, Value v)) (get m k)"
| "op_step get put del m (Put k v) = map_option (\<lambda>(m, b). (m, Flag b)) (put m k v)"
| "op_step get put del m (Del k) = map_option (\<lambda>(m, b). (m, Flag b)) (del m k)"

fun op_run ::
    "('m \<Rightarrow> ('k, 'v) map_op \<Rightarrow> ('m \<times> 'v map_reply) option) \<Rightarrow> 'm \<Rightarrow> ('k, 'v) map_op list \<Rightarrow>
     ('m \<times> 'v map_reply list) option" where
  "op_run step m [] = Some (m, [])"
| "op_run step m (x # xs) =
     do { (m, r) \<leftarrow> step m x; (m, rs) \<leftarrow> op_run step m xs; Some (m, r # rs) }"

context map_adt
begin

lemma step_refines:
  assumes "inv m" and "count m \<le> bound"
  shows "\<exists>m'. op_step get put del m x = Some (m', snd (spec_step (lookup m) x)) \<and> inv m' \<and>
    lookup m' = fst (spec_step (lookup m) x) \<and> count m' \<le> count m + 1"
proof (cases x)
  case (Get k)
  with get_law[OF assms(1), of k] show ?thesis by auto
next
  case (Put k v)
  with put_law[OF assms, of k v] show ?thesis by auto
next
  case (Del k)
  with del_law[OF assms(1), of k] show ?thesis by force
qed

text \<open>Any run within the bound answers like the abstract map and ends in the same map.\<close>

lemma run_refines:
  assumes "inv m" and "count m + length xs \<le> bound"
  shows "\<exists>m'. op_run (op_step get put del) m xs = Some (m', snd (spec_run (lookup m) xs)) \<and>
    inv m' \<and> lookup m' = fst (spec_run (lookup m) xs)"
  using assms
proof (induction xs arbitrary: m)
  case (Cons x xs)
  from step_refines[of m x] Cons.prems obtain m1 where m1:
    "op_step get put del m x = Some (m1, snd (spec_step (lookup m) x))" "inv m1"
    "lookup m1 = fst (spec_step (lookup m) x)" "count m1 \<le> count m + 1" by auto
  with Cons.IH[of m1] Cons.prems obtain m2 where
    "op_run (op_step get put del) m1 xs = Some (m2, snd (spec_run (lookup m1) xs))" "inv m2"
    "lookup m2 = fst (spec_run (lookup m1) xs)" by auto
  with m1 show ?case by (auto simp: split_beta Let_def)
qed simp

end

end
