(* ===== verification/Dict.thy ===== *)
theory Dict
  imports Prelude Map_Interface
begin

text \<open>
  The chained hash table of \<open>dict.c\<close>: two tables, incremental rehashing from \<open>ht[0]\<close> to
  \<open>ht[1]\<close>, automatic expansion. A collision chain (the \<open>next\<close> pointers) is a list of entries
  and a \<open>dictEntry *\<close> is the place of the entry: table number, bucket and position in the
  chain. Operations return \<^const>\<open>None\<close> where the C code would read outside a table or fail an
  \<open>assert\<close>.
\<close>

section \<open>Data\<close>

record ('k, 'v) dictType =
  hashFunction :: "'k \<Rightarrow> u64"
  keyDup :: "('k \<Rightarrow> 'k) option"
  valDup :: "('v \<Rightarrow> 'v) option"
  keyCompare :: "('k \<Rightarrow> 'k \<Rightarrow> bool) option"

record ('k, 'v) dictEntry =
  de_key :: 'k
  de_val :: 'v

record ('k, 'v) dictht =
  ht_table :: "('k, 'v) dictEntry list list"
  ht_size :: nat
  ht_sizemask :: u64
  ht_used :: nat

record ('k, 'v) dict =
  dtype :: "('k, 'v) dictType"
  ht0 :: "('k, 'v) dictht"
  ht1 :: "('k, 'v) dictht"
  rehashidx :: int
  iterators :: nat

datatype dict_status = DICT_OK | DICT_ERR

type_synonym entry_ref = "nat \<times> nat \<times> nat"

definition DICT_HT_INITIAL_SIZE :: nat where
  "DICT_HT_INITIAL_SIZE = 4"

definition dict_force_resize_ratio :: nat where
  "dict_force_resize_ratio = 5"

definition LONG_MAX :: nat where
  "LONG_MAX = 2 ^ 63 - 1"

section \<open>Macros of dict.h\<close>

definition dictIsRehashing :: "('k, 'v) dict \<Rightarrow> bool" where
  "dictIsRehashing d \<longleftrightarrow> rehashidx d \<noteq> -1"

definition dictSize :: "('k, 'v) dict \<Rightarrow> nat" where
  "dictSize d = ht_used (ht0 d) + ht_used (ht1 d)"

definition dictSlots :: "('k, 'v) dict \<Rightarrow> nat" where
  "dictSlots d = ht_size (ht0 d) + ht_size (ht1 d)"

definition dictHashKey :: "('k, 'v) dict \<Rightarrow> 'k \<Rightarrow> u64" where
  "dictHashKey d key = hashFunction (dtype d) key"

definition dictCompareKeys :: "('k, 'v) dict \<Rightarrow> 'k \<Rightarrow> 'k \<Rightarrow> bool" where
  "dictCompareKeys d key1 key2 =
     (case keyCompare (dtype d) of Some cmp \<Rightarrow> cmp key1 key2 | None \<Rightarrow> key1 = key2)"

definition dup_key :: "('k, 'v) dict \<Rightarrow> 'k \<Rightarrow> 'k" where
  "dup_key d key = (case keyDup (dtype d) of Some dup \<Rightarrow> dup key | None \<Rightarrow> key)"

definition dup_val :: "('k, 'v) dict \<Rightarrow> 'v \<Rightarrow> 'v" where
  "dup_val d val = (case valDup (dtype d) of Some dup \<Rightarrow> dup val | None \<Rightarrow> val)"

text \<open>The test \<open>key==he->key || dictCompareKeys(d, key, he->key)\<close> of every chain walk.\<close>

definition key_match :: "('k, 'v) dict \<Rightarrow> 'k \<Rightarrow> 'k \<Rightarrow> bool" where
  "key_match d key key' \<longleftrightarrow> key = key' \<or> dictCompareKeys d key key'"

text \<open>\<open>ht[t]\<close>, and the store of an updated table.\<close>

definition get_ht :: "('k, 'v) dict \<Rightarrow> nat \<Rightarrow> ('k, 'v) dictht" where
  "get_ht d t = (if t = 0 then ht0 d else ht1 d)"

definition set_ht :: "('k, 'v) dict \<Rightarrow> nat \<Rightarrow> ('k, 'v) dictht \<Rightarrow> ('k, 'v) dict" where
  "set_ht d t h = (if t = 0 then d\<lparr>ht0 := h\<rparr> else d\<lparr>ht1 := h\<rparr>)"

text \<open>\<open>hash & ht->sizemask\<close> as an index.\<close>

definition ht_index :: "('k, 'v) dictht \<Rightarrow> u64 \<Rightarrow> nat" where
  "ht_index ht h = unat (h AND ht_sizemask ht)"

section \<open>Creation and resizing\<close>

definition dictReset :: "('k, 'v) dictht" where
  "dictReset = \<lparr>ht_table = [], ht_size = 0, ht_sizemask = 0, ht_used = 0\<rparr>"

definition dictCreate :: "('k, 'v) dictType \<Rightarrow> ('k, 'v) dict" where
  "dictCreate ty =
     \<lparr>dtype = ty, ht0 = dictReset, ht1 = dictReset, rehashidx = -1, iterators = 0\<rparr>"

text \<open>The doubling loop of \<open>_dictNextPower\<close>; it starts at 4, and 0 would not grow.\<close>

function next_power_loop :: "nat \<Rightarrow> nat \<Rightarrow> nat" where
  "next_power_loop i sz = (if i \<ge> sz \<or> i = 0 then i else next_power_loop (i * 2) sz)"
  by pat_completeness auto
termination
  by (relation "measure (\<lambda>(i, sz). sz - i)") auto

definition dictNextPower :: "nat \<Rightarrow> nat" where
  "dictNextPower sz =
     (if sz \<ge> LONG_MAX then LONG_MAX + 1 else next_power_loop DICT_HT_INITIAL_SIZE sz)"

definition dictExpand :: "('k, 'v) dict \<Rightarrow> nat \<Rightarrow> ('k, 'v) dict \<times> dict_status" where
  "dictExpand d sz =
     (if dictIsRehashing d \<or> ht_used (ht0 d) > sz then (d, DICT_ERR)
      else let realsize = dictNextPower sz in
        if realsize = ht_size (ht0 d) then (d, DICT_ERR)
        else let n = \<lparr>ht_table = replicate realsize [], ht_size = realsize,
                      ht_sizemask = word_of_nat realsize - 1, ht_used = 0\<rparr> in
          if ht_table (ht0 d) = [] then (d\<lparr>ht0 := n\<rparr>, DICT_OK)
          else (d\<lparr>ht1 := n, rehashidx := 0\<rparr>, DICT_OK))"

definition dictResize :: "bool \<Rightarrow> ('k, 'v) dict \<Rightarrow> ('k, 'v) dict \<times> dict_status" where
  "dictResize dict_can_resize d =
     (if \<not> dict_can_resize \<or> dictIsRehashing d then (d, DICT_ERR)
      else let minimal = ht_used (ht0 d);
               minimal = (if minimal < DICT_HT_INITIAL_SIZE then DICT_HT_INITIAL_SIZE else minimal)
        in dictExpand d minimal)"

definition dictExpandIfNeeded :: "bool \<Rightarrow> ('k, 'v) dict \<Rightarrow> ('k, 'v) dict \<times> dict_status" where
  "dictExpandIfNeeded dict_can_resize d =
     (if dictIsRehashing d then (d, DICT_OK)
      else if ht_size (ht0 d) = 0 then dictExpand d DICT_HT_INITIAL_SIZE
      else if ht_used (ht0 d) \<ge> ht_size (ht0 d) \<and>
              (dict_can_resize \<or>
               ht_used (ht0 d) div ht_size (ht0 d) > dict_force_resize_ratio)
      then dictExpand d (ht_used (ht0 d) * 2)
      else (d, DICT_OK))"

section \<open>Incremental rehashing\<close>

text \<open>
  The loop over empty buckets: the index of the first non-empty bucket and the visits left, or
  \<^const>\<open>True\<close> when the budget of empty visits is used up. \<open>empty_visits\<close> is an \<open>int\<close> in the
  source, tested for zero after each decrement.
\<close>

function skip_empty :: "'e list list \<Rightarrow> nat \<Rightarrow> int \<Rightarrow> (nat \<times> int \<times> bool) option" where
  "skip_empty t idx ev =
     (if idx \<ge> length t then None
      else if t ! idx \<noteq> [] then Some (idx, ev, False)
      else if ev - 1 = 0 then Some (idx + 1, 0, True)
      else skip_empty t (idx + 1) (ev - 1))"
  by pat_completeness auto
termination
  by (relation "measure (\<lambda>(t, idx, ev). length t - idx)") auto

text \<open>Moving the entries of one chain, each to the head of its new chain.\<close>

fun move_chain :: "('k, 'v) dict \<Rightarrow> ('k, 'v) dictEntry list \<Rightarrow> ('k, 'v) dict option" where
  "move_chain d [] = Some d"
| "move_chain d (de # nextde) =
     (let h = ht_index (ht1 d) (dictHashKey d (de_key de)) in
      do {
        chain \<leftarrow> fetch (ht_table (ht1 d)) h;
        let d = d\<lparr>ht1 := (ht1 d)\<lparr>ht_table := (ht_table (ht1 d))[h := de # chain],
                                ht_used := ht_used (ht1 d) + 1\<rparr>,
                  ht0 := (ht0 d)\<lparr>ht_used := ht_used (ht0 d) - 1\<rparr>\<rparr>;
        move_chain d nextde
      })"

text \<open>The main loop of \<open>dictRehash\<close>; \<^const>\<open>True\<close> is its early \<open>return 1\<close>.\<close>

fun rehash_loop :: "('k, 'v) dict \<Rightarrow> nat \<Rightarrow> int \<Rightarrow> (('k, 'v) dict \<times> bool) option" where
  "rehash_loop d 0 ev = Some (d, False)"
| "rehash_loop d (Suc n) ev =
     (if ht_used (ht0 d) = 0 then Some (d, False)
      else if \<not> ht_size (ht0 d) > nat (rehashidx d) then None
      else do {
        (idx, ev, out) \<leftarrow> skip_empty (ht_table (ht0 d)) (nat (rehashidx d)) ev;
        let d = d\<lparr>rehashidx := int idx\<rparr>;
        if out then Some (d, True)
        else do {
          d \<leftarrow> move_chain d (ht_table (ht0 d) ! idx);
          let d = d\<lparr>ht0 := (ht0 d)\<lparr>ht_table := (ht_table (ht0 d))[idx := []]\<rparr>,
                    rehashidx := int idx + 1\<rparr>;
          rehash_loop d n ev
        }
      })"

definition dictRehash :: "('k, 'v) dict \<Rightarrow> nat \<Rightarrow> (('k, 'v) dict \<times> bool) option" where
  "dictRehash d n =
     (if \<not> dictIsRehashing d then Some (d, False)
      else do {
        (d, out) \<leftarrow> rehash_loop d n (int n * 10);
        if out then Some (d, True)
        else if ht_used (ht0 d) = 0
        then Some (d\<lparr>ht0 := ht1 d, ht1 := dictReset, rehashidx := -1\<rparr>, False)
        else Some (d, True)
      })"

text \<open>
  \<open>dictRehashMilliseconds\<close>, with the successive readings of the clock as a parameter. The loop
  has no bound of its own, so not returning is a possible outcome of the definition.
\<close>

partial_function (option) rehash_ms_loop ::
    "(nat \<Rightarrow> int) \<Rightarrow> nat \<Rightarrow> int \<Rightarrow> int \<Rightarrow> ('k, 'v) dict \<Rightarrow> nat \<Rightarrow> (('k, 'v) dict \<times> nat) option" where
  "rehash_ms_loop clock i start ms d rehashes =
     do {
       (d, more) \<leftarrow> dictRehash d 100;
       if \<not> more then Some (d, rehashes)
       else if clock i - start > ms then Some (d, rehashes + 100)
       else rehash_ms_loop clock (Suc i) start ms d (rehashes + 100)
     }"

definition dictRehashMilliseconds ::
    "(nat \<Rightarrow> int) \<Rightarrow> ('k, 'v) dict \<Rightarrow> int \<Rightarrow> (('k, 'v) dict \<times> nat) option" where
  "dictRehashMilliseconds clock d ms = rehash_ms_loop clock 1 (clock 0) ms d 0"

definition dictRehashStep :: "('k, 'v) dict \<Rightarrow> ('k, 'v) dict option" where
  "dictRehashStep d = (if iterators d = 0 then map_option fst (dictRehash d 1) else Some d)"

section \<open>Lookup, insertion, replacement, deletion\<close>

text \<open>The walk of one chain: the position of the first entry with a matching key.\<close>

fun chain_find :: "('k, 'v) dict \<Rightarrow> 'k \<Rightarrow> ('k, 'v) dictEntry list \<Rightarrow> nat option" where
  "chain_find d key [] = None"
| "chain_find d key (he # next) =
     (if key_match d key (de_key he) then Some 0 else map_option Suc (chain_find d key next))"

text \<open>
  The loop \<open>for (table = 0; table <= 1; table++)\<close> of the lookups, which stops after \<open>ht[0]\<close>
  when the dictionary is not rehashing. The first component is the last index computed.
\<close>

definition search_tables ::
    "('k, 'v) dict \<Rightarrow> 'k \<Rightarrow> u64 \<Rightarrow> (nat \<times> entry_ref option) option" where
  "search_tables d key h =
     (let idx = ht_index (ht0 d) h in
      do {
        he \<leftarrow> fetch (ht_table (ht0 d)) idx;
        case chain_find d key he of
          Some p \<Rightarrow> Some (idx, Some (0, idx, p))
        | None \<Rightarrow>
            if \<not> dictIsRehashing d then Some (idx, None)
            else let idx = ht_index (ht1 d) h in
              do {
                he \<leftarrow> fetch (ht_table (ht1 d)) idx;
                case chain_find d key he of
                  Some p \<Rightarrow> Some (idx, Some (1, idx, p))
                | None \<Rightarrow> Some (idx, None)
              }
      })"

text \<open>\<open>_dictKeyIndex\<close>: the slot index or \<open>-1\<close>, and \<open>*existing\<close>.\<close>

definition dictKeyIndex ::
    "bool \<Rightarrow> ('k, 'v) dict \<Rightarrow> 'k \<Rightarrow> u64 \<Rightarrow> (('k, 'v) dict \<times> int \<times> entry_ref option) option" where
  "dictKeyIndex dict_can_resize d key hash =
     (case dictExpandIfNeeded dict_can_resize d of
        (d, DICT_ERR) \<Rightarrow> Some (d, -1, None)
      | (d, DICT_OK) \<Rightarrow>
          do {
            (idx, found) \<leftarrow> search_tables d key hash;
            case found of
              Some he \<Rightarrow> Some (d, -1, Some he)
            | None \<Rightarrow> Some (d, int idx, None)
          })"

text \<open>
  The value of a fresh entry is whatever \<open>zmalloc\<close> returned: an unspecified value until the
  caller sets it.
\<close>

definition dictAddRaw ::
    "bool \<Rightarrow> ('k, 'v) dict \<Rightarrow> 'k \<Rightarrow>
       (('k, 'v) dict \<times> entry_ref option \<times> entry_ref option) option" where
  "dictAddRaw dict_can_resize d key =
     do {
       d \<leftarrow> (if dictIsRehashing d then dictRehashStep d else Some d);
       (d, index, existing) \<leftarrow> dictKeyIndex dict_can_resize d key (dictHashKey d key);
       if index = -1 then Some (d, None, existing)
       else let t = (if dictIsRehashing d then 1 else 0);
                ht = get_ht d t;
                entry = \<lparr>de_key = dup_key d key, de_val = undefined\<rparr>
         in do {
           chain \<leftarrow> fetch (ht_table ht) (nat index);
           let ht = ht\<lparr>ht_table := (ht_table ht)[nat index := entry # chain],
                       ht_used := ht_used ht + 1\<rparr>;
           Some (set_ht d t ht, Some (t, nat index, 0), None)
         }
     }"

definition entry_at :: "('k, 'v) dict \<Rightarrow> entry_ref \<Rightarrow> ('k, 'v) dictEntry option" where
  "entry_at d = (\<lambda>(t, idx, p). do {
     chain \<leftarrow> fetch (ht_table (get_ht d t)) idx;
     fetch chain p
   })"

definition dictSetVal :: "('k, 'v) dict \<Rightarrow> entry_ref \<Rightarrow> 'v \<Rightarrow> ('k, 'v) dict option" where
  "dictSetVal d = (\<lambda>(t, idx, p) val. do {
     chain \<leftarrow> fetch (ht_table (get_ht d t)) idx;
     e \<leftarrow> fetch chain p;
     let ht = get_ht d t;
     Some (set_ht d t (ht\<lparr>ht_table := (ht_table ht)[idx := chain[p := e\<lparr>de_val := dup_val d val\<rparr>]]\<rparr>))
   })"

definition dictAdd ::
    "bool \<Rightarrow> ('k, 'v) dict \<Rightarrow> 'k \<Rightarrow> 'v \<Rightarrow> (('k, 'v) dict \<times> dict_status) option" where
  "dictAdd dict_can_resize d key val =
     do {
       (d, entry, existing) \<leftarrow> dictAddRaw dict_can_resize d key;
       case entry of
         None \<Rightarrow> Some (d, DICT_ERR)
       | Some e \<Rightarrow> do { d \<leftarrow> dictSetVal d e val; Some (d, DICT_OK) }
     }"

text \<open>\<open>dictReplace\<close>: 1 (\<^const>\<open>True\<close>) when the key was added, 0 when its value was replaced.\<close>

definition dictReplace ::
    "bool \<Rightarrow> ('k, 'v) dict \<Rightarrow> 'k \<Rightarrow> 'v \<Rightarrow> (('k, 'v) dict \<times> bool) option" where
  "dictReplace dict_can_resize d key val =
     do {
       (d, entry, existing) \<leftarrow> dictAddRaw dict_can_resize d key;
       case entry of
         Some e \<Rightarrow> do { d \<leftarrow> dictSetVal d e val; Some (d, True) }
       | None \<Rightarrow> do { e \<leftarrow> existing; d \<leftarrow> dictSetVal d e val; Some (d, False) }
     }"

definition dictAddOrFind ::
    "bool \<Rightarrow> ('k, 'v) dict \<Rightarrow> 'k \<Rightarrow> (('k, 'v) dict \<times> entry_ref option) option" where
  "dictAddOrFind dict_can_resize d key =
     do {
       (d, entry, existing) \<leftarrow> dictAddRaw dict_can_resize d key;
       Some (d, case entry of Some e \<Rightarrow> Some e | None \<Rightarrow> existing)
     }"

text \<open>Unlinking position \<open>p\<close> of a chain: \<open>prevHe->next = he->next\<close>.\<close>

definition unlink_at :: "nat \<Rightarrow> 'e list \<Rightarrow> 'e list" where
  "unlink_at p chain = take p chain @ drop (Suc p) chain"

definition dictGenericDelete ::
    "('k, 'v) dict \<Rightarrow> 'k \<Rightarrow> (('k, 'v) dict \<times> ('k, 'v) dictEntry option) option" where
  "dictGenericDelete d key =
     (if ht_used (ht0 d) = 0 \<and> ht_used (ht1 d) = 0 then Some (d, None)
      else do {
        d \<leftarrow> (if dictIsRehashing d then dictRehashStep d else Some d);
        (_, found) \<leftarrow> search_tables d key (dictHashKey d key);
        case found of
          None \<Rightarrow> Some (d, None)
        | Some (t, idx, p) \<Rightarrow>
            let ht = get_ht d t; chain = ht_table ht ! idx in
            Some (set_ht d t (ht\<lparr>ht_table := (ht_table ht)[idx := unlink_at p chain],
                                ht_used := ht_used ht - 1\<rparr>),
                  Some (chain ! p))
      })"

definition dictDelete :: "('k, 'v) dict \<Rightarrow> 'k \<Rightarrow> (('k, 'v) dict \<times> dict_status) option" where
  "dictDelete d key =
     do {
       (d, he) \<leftarrow> dictGenericDelete d key;
       Some (d, case he of Some _ \<Rightarrow> DICT_OK | None \<Rightarrow> DICT_ERR)
     }"

definition dictUnlink ::
    "('k, 'v) dict \<Rightarrow> 'k \<Rightarrow> (('k, 'v) dict \<times> ('k, 'v) dictEntry option) option" where
  "dictUnlink d key = dictGenericDelete d key"

definition dictFind ::
    "('k, 'v) dict \<Rightarrow> 'k \<Rightarrow> (('k, 'v) dict \<times> entry_ref option) option" where
  "dictFind d key =
     (if dictSize d = 0 then Some (d, None)
      else do {
        d \<leftarrow> (if dictIsRehashing d then dictRehashStep d else Some d);
        (_, found) \<leftarrow> search_tables d key (dictHashKey d key);
        Some (d, found)
      })"

definition dictFetchValue :: "('k, 'v) dict \<Rightarrow> 'k \<Rightarrow> (('k, 'v) dict \<times> 'v option) option" where
  "dictFetchValue d key =
     do {
       (d, found) \<leftarrow> dictFind d key;
       case found of
         None \<Rightarrow> Some (d, None)
       | Some r \<Rightarrow> do { he \<leftarrow> entry_at d r; Some (d, Some (de_val he)) }
     }"

text \<open>
  \<open>_dictClear\<close>: the chains are freed bucket by bucket while \<open>used\<close> says entries are left. The
  second component lists the entries freed.
\<close>

fun clear_loop :: "('k, 'v) dictEntry list list \<Rightarrow> nat \<Rightarrow> ('k, 'v) dictEntry list" where
  "clear_loop [] used = []"
| "clear_loop (he # rest) used =
     (if used > 0 then he @ clear_loop rest (used - length he) else [])"

definition dictClear :: "('k, 'v) dictht \<Rightarrow> ('k, 'v) dictht \<times> ('k, 'v) dictEntry list" where
  "dictClear ht = (dictReset, clear_loop (take (ht_size ht) (ht_table ht)) (ht_used ht))"

definition dictEmpty :: "('k, 'v) dict \<Rightarrow> ('k, 'v) dict \<times> ('k, 'v) dictEntry list" where
  "dictEmpty d =
     (let (h0, freed0) = dictClear (ht0 d); (h1, freed1) = dictClear (ht1 d)
      in (d\<lparr>ht0 := h0, ht1 := h1, rehashidx := -1, iterators := 0\<rparr>, freed0 @ freed1))"

section \<open>Invariant and abstraction\<close>

text \<open>
  A table is well formed when its size is zero or a power of two with the matching mask, \<open>used\<close>
  counts the entries and every entry sits in the bucket its hash selects.
\<close>

definition ht_ok :: "('k \<Rightarrow> u64) \<Rightarrow> ('k, 'v) dictht \<Rightarrow> bool" where
  "ht_ok hash ht \<longleftrightarrow>
     length (ht_table ht) = ht_size ht \<and>
     (ht_size ht = 0 \<and> ht_sizemask ht = 0 \<or>
      (\<exists>n<64. ht_size ht = 2 ^ n \<and> ht_sizemask ht = mask n)) \<and>
     ht_used ht = length (concat (ht_table ht)) \<and>
     (\<forall>i<ht_size ht. \<forall>e\<in>set (ht_table ht ! i). ht_index ht (hash (de_key e)) = i)"

text \<open>What the table relies on of its \<open>dictType\<close>: matching keys form classes with one hash.\<close>

definition type_ok :: "('k, 'v) dict \<Rightarrow> bool" where
  "type_ok d \<longleftrightarrow>
     (\<forall>a b. key_match d a b \<longrightarrow> key_match d b a) \<and>
     (\<forall>a b c. key_match d a b \<longrightarrow> key_match d b c \<longrightarrow> key_match d a c) \<and>
     (\<forall>a b. key_match d a b \<longrightarrow> dictHashKey d a = dictHashKey d b) \<and>
     (\<forall>a. key_match d a (dup_key d a))"

definition dict_mset :: "('k, 'v) dict \<Rightarrow> ('k, 'v) dictEntry multiset" where
  "dict_mset d = mset (concat (ht_table (ht0 d))) + mset (concat (ht_table (ht1 d)))"

definition keys_unique :: "('k, 'v) dict \<Rightarrow> bool" where
  "keys_unique d \<longleftrightarrow> (\<forall>k. size (filter_mset (\<lambda>e. key_match d k (de_key e)) (dict_mset d)) \<le> 1)"

definition dict_inv :: "('k, 'v) dict \<Rightarrow> bool" where
  "dict_inv d \<longleftrightarrow>
     type_ok d \<and>
     ht_ok (dictHashKey d) (ht0 d) \<and> ht_ok (dictHashKey d) (ht1 d) \<and>
     (if rehashidx d = -1 then ht1 d = dictReset
      else 0 \<le> rehashidx d \<and> ht_size (ht0 d) > 0 \<and> ht_size (ht1 d) > 0 \<and>
           nat (rehashidx d) \<le> ht_size (ht0 d) \<and>
           (\<forall>i<nat (rehashidx d). ht_table (ht0 d) ! i = [])) \<and>
     keys_unique d"

text \<open>The finite map the dictionary stands for.\<close>

definition dict_lookup :: "('k, 'v) dict \<Rightarrow> 'k \<Rightarrow> 'v option" where
  "dict_lookup d k =
     map_option de_val (find (\<lambda>e. key_match d k (de_key e))
       (concat (ht_table (ht0 d)) @ concat (ht_table (ht1 d))))"

section \<open>Table sizes\<close>

declare next_power_loop.simps [simp del]
declare skip_empty.simps [simp del]

lemma next_power_loop_pow2:
  assumes "i = 2 ^ k" and "k \<le> 63" and "sz \<le> 2 ^ 63"
  shows "\<exists>m\<le>63. next_power_loop i sz = 2 ^ m \<and> sz \<le> 2 ^ m \<and> (m = k \<or> 2 ^ m < 2 * sz)"
  using assms
proof (induction i sz arbitrary: k rule: next_power_loop.induct)
  case (1 i sz)
  show ?case
  proof (cases "i \<ge> sz")
    case True
    with 1 show ?thesis by (subst next_power_loop.simps) auto
  next
    case False
    with 1 have "(2::nat) ^ k < 2 ^ 63" by linarith
    then have "k < 63" by (meson power_strict_increasing_iff one_less_numeral_iff semiring_norm(76))
    with 1 False obtain m where m: "m \<le> 63" "next_power_loop (i * 2) sz = 2 ^ m"
      "sz \<le> 2 ^ m" "m = Suc k \<or> 2 ^ m < 2 * sz"
      using "1.IH"[of "Suc k"] by auto
    then have "m = k \<or> 2 ^ m < 2 * sz" using False 1 by auto
    with m False 1 show ?thesis by (subst next_power_loop.simps) auto
  qed
qed

lemma dictNextPower_pow2:
  assumes "sz \<le> 2 ^ 63"
  shows "\<exists>m\<le>63. dictNextPower sz = 2 ^ m \<and> sz \<le> 2 ^ m \<and> (m = 2 \<or> 2 ^ m < 2 * sz \<or> m = 63)"
proof (cases "sz \<ge> LONG_MAX")
  case True
  with assms show ?thesis by (intro exI[of _ 63]) (simp add: dictNextPower_def LONG_MAX_def)
next
  case False
  then show ?thesis
    using next_power_loop_pow2[of 4 2 sz] assms
    by (auto simp: dictNextPower_def DICT_HT_INITIAL_SIZE_def)
qed

section \<open>Well-formed tables\<close>

lemma ht_ok_reset [simp]: "ht_ok hash dictReset"
  by (simp add: ht_ok_def dictReset_def)

lemma ht_index_less:
  assumes "ht_ok hash ht" and "ht_size ht > 0"
  shows "ht_index ht h < length (ht_table ht)"
proof -
  obtain n where "ht_size ht = 2 ^ n" "ht_sizemask ht = mask n" "length (ht_table ht) = ht_size ht"
    using assms by (auto simp: ht_ok_def)
  then show ?thesis by (simp add: ht_index_def unat_and_mask)
qed

lemma ht_index_update [simp]:
  "ht_index (ht\<lparr>ht_table := t\<rparr>) h = ht_index ht h" "ht_index (ht\<lparr>ht_used := u\<rparr>) h = ht_index ht h"
  by (simp_all add: ht_index_def)

lemma ht_ok_fresh:
  assumes "m \<le> 63"
  shows "ht_ok hash \<lparr>ht_table = replicate (2 ^ m) [], ht_size = 2 ^ m,
                      ht_sizemask = word_of_nat (2 ^ m) - 1, ht_used = 0\<rparr>"
  using assms by (auto simp: ht_ok_def mask_eq_exp_minus_1 intro!: exI[of _ m])

text \<open>Replacing one chain of a table: the shape of every update of the module.\<close>

lemma ht_ok_set_chain:
  assumes "ht_ok hash ht" and "i < ht_size ht"
    and "\<And>e. e \<in> set b \<Longrightarrow> ht_index ht (hash (de_key e)) = i"
    and "u + length (ht_table ht ! i) = ht_used ht + length b"
  shows "ht_ok hash (ht\<lparr>ht_table := (ht_table ht)[i := b], ht_used := u\<rparr>)"
proof -
  have "i < length (ht_table ht)" using assms by (simp add: ht_ok_def)
  from length_concat_update[OF this, of b] assms show ?thesis
    by (auto simp: ht_ok_def nth_list_update)
qed

lemma ht_ok_used_pos: "ht_ok hash ht \<Longrightarrow> ht_used ht > 0 \<Longrightarrow> ht_size ht > 0"
  by (auto simp: ht_ok_def)

section \<open>The map a dictionary stands for\<close>

lemma dict_lookup_Some_iff:
  fixes d :: "('a, 'b) dict"
  assumes "keys_unique d"
  shows "dict_lookup d k = Some v \<longleftrightarrow> (\<exists>e\<in>#dict_mset d. key_match d k (de_key e) \<and> de_val e = v)"
    (is "_ \<longleftrightarrow> ?R")
proof -
  define es where "es = concat (ht_table (ht0 d)) @ concat (ht_table (ht1 d))"
  define P where "P = (\<lambda>e :: ('a, 'b) dictEntry. key_match d k (de_key e))"
  have ms: "dict_mset d = mset es" by (simp add: dict_mset_def es_def)
  have one: "length (filter P es) \<le> 1"
    using assms by (simp add: keys_unique_def ms length_filter_mset P_def)
  have look: "dict_lookup d k = map_option de_val (find P es)"
    by (simp add: dict_lookup_def es_def P_def)
  show ?thesis
  proof (cases "filter P es")
    case Nil
    then have "find P es = None" by (simp add: find_None_iff filter_empty_conv)
    moreover have "\<not> P e" if "e \<in> set es" for e using Nil that by (simp add: filter_empty_conv)
    ultimately show ?thesis by (auto simp: look ms P_def)
  next
    case (Cons a l)
    with one have single: "filter P es = [a]" by simp
    then have "set (filter P es) = {a}" by simp
    then have mem: "e \<in> set es \<and> P e \<longleftrightarrow> e = a" for e by auto
    then have "find P es \<noteq> None" by (auto simp: find_None_iff)
    then obtain b where b: "find P es = Some b" by auto
    then have "b \<in> set es \<and> P b" by (auto simp: find_Some_iff)
    with mem have "b = a" by blast
    with b have "dict_lookup d k = Some (de_val a)" by (simp add: look)
    moreover have "?R \<longleftrightarrow> (\<exists>e. (e \<in> set es \<and> P e) \<and> de_val e = v)" by (auto simp: ms P_def)
    ultimately show ?thesis by (simp add: mem)
  qed
qed

lemma dict_lookup_None_iff:
  "dict_lookup d k = None \<longleftrightarrow> (\<forall>e\<in>#dict_mset d. \<not> key_match d k (de_key e))"
  by (auto simp: dict_lookup_def dict_mset_def find_None_iff)

lemma dict_lookup_cong:
  assumes "keys_unique d" and "dict_mset d' = dict_mset d" and "dtype d' = dtype d"
  shows "dict_lookup d' = dict_lookup d" and "keys_unique d'"
proof -
  have km: "key_match d' = key_match d"
    using assms(3) by (intro ext) (simp add: key_match_def dictCompareKeys_def)
  with assms show u: "keys_unique d'" by (simp add: keys_unique_def)
  show "dict_lookup d' = dict_lookup d"
  proof
    fix k
    have "dict_lookup d' k = Some v \<longleftrightarrow> dict_lookup d k = Some v" for v
      by (simp add: dict_lookup_Some_iff u assms km)
    then show "dict_lookup d' k = dict_lookup d k" by (metis option.exhaust)
  qed
qed

lemma type_ok_cong: "dtype d' = dtype d \<Longrightarrow> type_ok d' = type_ok d"
  by (simp add: type_ok_def key_match_def dictCompareKeys_def dictHashKey_def dup_key_def)

lemma dictHashKey_cong: "dtype d' = dtype d \<Longrightarrow> dictHashKey d' = dictHashKey d"
  by (intro ext) (simp add: dictHashKey_def)

lemma key_match_cong: "dtype d' = dtype d \<Longrightarrow> key_match d' = key_match d"
  by (intro ext) (simp add: key_match_def dictCompareKeys_def)

section \<open>Expansion keeps the invariant and the map\<close>

lemma dict_inv_create: "type_ok (dictCreate ty) \<Longrightarrow> dict_inv (dictCreate ty)"
  by (simp add: dict_inv_def dictCreate_def keys_unique_def dict_mset_def dictReset_def ht_ok_def)

lemma dict_lookup_create [simp]: "dict_lookup (dictCreate ty) k = None"
  by (simp add: dict_lookup_def dictCreate_def dictReset_def)

lemma dict_inv_not_rehashing:
  "dict_inv d \<Longrightarrow> \<not> dictIsRehashing d \<Longrightarrow> ht1 d = dictReset"
  by (simp add: dict_inv_def dictIsRehashing_def)

lemma concat_replicate_Nil [simp]: "concat (replicate n []) = []"
  by (induction n) auto

lemma dictExpand_preserves:
  assumes inv: "dict_inv d" and exp: "dictExpand d sz = (d', st)" and sz: "sz \<le> 2 ^ 63"
  shows "dict_inv d' \<and> dict_mset d' = dict_mset d \<and> dtype d' = dtype d \<and> iterators d' = iterators d"
proof (cases "st = DICT_OK")
  case False
  with exp have "d' = d" by (auto simp: dictExpand_def Let_def split: if_splits)
  with inv show ?thesis by simp
next
  case True
  obtain m where m: "m \<le> 63" "dictNextPower sz = 2 ^ m" using dictNextPower_pow2[OF sz] by auto
  have nr: "\<not> dictIsRehashing d" and h1: "ht1 d = dictReset"
    using exp True dict_inv_not_rehashing[OF inv] by (auto simp: dictExpand_def split: if_splits)
  define n where "n = \<lparr>ht_table = replicate (2 ^ m) ([] :: ('a, 'b) dictEntry list), ht_size = 2 ^ m,
    ht_sizemask = word_of_nat (2 ^ m) - 1, ht_used = 0\<rparr>"
  have n_ok: "ht_ok (dictHashKey d) n" unfolding n_def by (rule ht_ok_fresh[OF m(1)])
  have n_sz: "ht_size n > 0" and n_es: "concat (ht_table n) = []" by (simp_all add: n_def)
  have d': "d' = (if ht_table (ht0 d) = [] then d\<lparr>ht0 := n\<rparr> else d\<lparr>ht1 := n, rehashidx := 0\<rparr>)"
    using exp True m by (auto simp: dictExpand_def n_def Let_def split: if_splits)
  have ty: "dtype d' = dtype d" and ms: "dict_mset d' = dict_mset d"
    using d' h1 n_es by (auto simp: dict_mset_def dictReset_def)
  have ok: "ht_ok (dictHashKey d') (ht0 d')" "ht_ok (dictHashKey d') (ht1 d')"
    using inv n_ok h1 dictHashKey_cong[OF ty] by (auto simp: d' dict_inv_def split: if_splits)
  have pos: "ht_table (ht0 d) \<noteq> [] \<Longrightarrow> ht_size (ht0 d) > 0"
    using inv by (auto simp: dict_inv_def ht_ok_def)
  have "keys_unique d'" and "type_ok d'"
    using dict_lookup_cong(2)[OF _ ms ty] type_ok_cong[OF ty] inv by (auto simp: dict_inv_def)
  then have "dict_inv d'"
    using ok n_sz nr h1 pos by (auto simp: dict_inv_def d' dictIsRehashing_def)
  then show ?thesis using ms ty d' by auto
qed

text \<open>An expansion that the load factor asks for never fails: an insertion has room.\<close>

lemma dictExpandIfNeeded_ok:
  assumes inv: "dict_inv d" and small: "ht_used (ht0 d) \<le> 2 ^ 62"
  shows "\<exists>d'. dictExpandIfNeeded b d = (d', DICT_OK) \<and> dict_inv d' \<and> dict_mset d' = dict_mset d \<and>
           dtype d' = dtype d \<and> iterators d' = iterators d \<and> ht_size (ht0 d') > 0"
proof -
  have sized: "ht_size (ht0 d) > 0" if "dictIsRehashing d" using inv that
    by (auto simp: dict_inv_def dictIsRehashing_def)
  have grows: "\<exists>d'. dictExpand d sz = (d', DICT_OK) \<and> ht_size (ht0 d') > 0"
    if nr: "\<not> dictIsRehashing d" and ge: "ht_used (ht0 d) \<le> sz" and gt: "ht_size (ht0 d) < sz"
      and le: "sz \<le> 2 ^ 63" for sz
  proof -
    obtain m where m: "m \<le> 63" "dictNextPower sz = 2 ^ m" "sz \<le> 2 ^ m"
      using dictNextPower_pow2[OF le] by auto
    have len: "length (ht_table (ht0 d)) = ht_size (ht0 d)" using inv by (simp add: dict_inv_def ht_ok_def)
    show ?thesis using nr ge gt m by (auto simp: dictExpand_def Let_def simp flip: len)
  qed
  consider (same) "dictExpandIfNeeded b d = (d, DICT_OK)" "ht_size (ht0 d) > 0"
    | (exp) sz where "\<not> dictIsRehashing d" "ht_used (ht0 d) \<le> sz" "ht_size (ht0 d) < sz"
      "sz \<le> 2 ^ 63" "dictExpandIfNeeded b d = dictExpand d sz"
  proof (cases "dictIsRehashing d")
    case True
    then show thesis using that(1) sized by (simp add: dictExpandIfNeeded_def)
  next
    case False
    show thesis
    proof (cases "ht_size (ht0 d) = 0")
      case True
      then have "ht_used (ht0 d) = 0" using inv by (auto simp: dict_inv_def ht_ok_def)
      with True False show thesis
        using that(2)[of 4] by (simp add: dictExpandIfNeeded_def DICT_HT_INITIAL_SIZE_def)
    next
      case nz: False
      then show thesis using that(1) that(2)[of "ht_used (ht0 d) * 2"] False small
        by (cases "ht_used (ht0 d) \<ge> ht_size (ht0 d) \<and>
          (b \<or> ht_used (ht0 d) div ht_size (ht0 d) > dict_force_resize_ratio)")
          (auto simp: dictExpandIfNeeded_def)
    qed
  qed
  then show ?thesis
  proof cases
    case same
    with inv show ?thesis by auto
  next
    case (exp sz)
    with grows obtain d' where d': "dictExpand d sz = (d', DICT_OK)" "ht_size (ht0 d') > 0" by blast
    with dictExpand_preserves[OF inv d'(1)] exp show ?thesis by auto
  qed
qed

section \<open>Rehashing keeps the invariant and the map\<close>

lemma skip_empty_spec:
  assumes "\<exists>j. idx \<le> j \<and> j < length t \<and> t ! j \<noteq> []" and "\<forall>i<idx. t ! i = []"
  shows "\<exists>idx' ev' out. skip_empty t idx ev = Some (idx', ev', out) \<and> idx \<le> idx' \<and>
           idx' < length t \<and> (\<forall>i<idx'. t ! i = []) \<and> (\<not> out \<longrightarrow> t ! idx' \<noteq> [])"
  using assms
proof (induction t idx ev rule: skip_empty.induct)
  case (1 t idx ev)
  from 1(2) obtain j where j: "idx \<le> j" "j < length t" "t ! j \<noteq> []" by blast
  show ?case
  proof (cases "t ! idx = []")
    case False
    with 1 j show ?thesis by (subst skip_empty.simps) auto
  next
    case True
    with j have lt: "idx + 1 \<le> j" by (metis Suc_eq_plus1 le_neq_implies_less Suc_leI)
    have emp: "\<forall>i<idx + 1. t ! i = []" using 1(3) True by (auto simp: less_Suc_eq)
    show ?thesis
    proof (cases "ev - 1 = 0")
      case ev: True
      with True j lt emp show ?thesis by (subst skip_empty.simps) auto
    next
      case ev: False
      have "\<exists>j. idx + 1 \<le> j \<and> j < length t \<and> t ! j \<noteq> []" using lt j by blast
      moreover have "\<not> length t \<le> idx" "\<not> t ! idx \<noteq> []" using True j by auto
      ultimately obtain idx' ev' out where
        "skip_empty t (idx + 1) (ev - 1) = Some (idx', ev', out)" "idx + 1 \<le> idx'"
        "idx' < length t" "\<forall>i<idx'. t ! i = []" "\<not> out \<longrightarrow> t ! idx' \<noteq> []"
        using "1.IH" ev emp by blast
      with True ev j show ?thesis by (subst skip_empty.simps) auto
    qed
  qed
qed

lemma move_chain_spec:
  assumes "ht_ok (dictHashKey d) (ht1 d)" and "ht_size (ht1 d) > 0"
    and "length es \<le> ht_used (ht0 d)"
  shows "\<exists>h1. move_chain d es = Some (d\<lparr>ht1 := h1,
             ht0 := (ht0 d)\<lparr>ht_used := ht_used (ht0 d) - length es\<rparr>\<rparr>) \<and>
           ht_ok (dictHashKey d) h1 \<and> ht_size h1 = ht_size (ht1 d) \<and>
           mset (concat (ht_table h1)) = mset es + mset (concat (ht_table (ht1 d)))"
  using assms
proof (induction es arbitrary: d)
  case Nil
  have "d = d\<lparr>ht1 := ht1 d, ht0 := (ht0 d)\<lparr>ht_used := ht_used (ht0 d)\<rparr>\<rparr>" by simp
  with Nil show ?case by (auto intro!: exI[of _ "ht1 d"])
next
  case (Cons e es)
  define h where "h = ht_index (ht1 d) (dictHashKey d (de_key e))"
  define n1 where "n1 = (ht1 d)\<lparr>ht_table := (ht_table (ht1 d))[h := e # ht_table (ht1 d) ! h],
                                ht_used := ht_used (ht1 d) + 1\<rparr>"
  define d1 where "d1 = d\<lparr>ht1 := n1, ht0 := (ht0 d)\<lparr>ht_used := ht_used (ht0 d) - 1\<rparr>\<rparr>"
  have h: "h < length (ht_table (ht1 d))"
    unfolding h_def by (rule ht_index_less[OF Cons.prems(1,2)])
  then have hs: "h < ht_size (ht1 d)" using Cons.prems(1) by (simp add: ht_ok_def)
  have hk: "dictHashKey d1 = dictHashKey d" by (rule dictHashKey_cong) (simp add: d1_def)
  have n1: "ht_ok (dictHashKey d) n1"
    unfolding n1_def
    by (rule ht_ok_set_chain[OF Cons.prems(1) hs])
      (use Cons.prems(1) hs in \<open>auto simp: h_def ht_ok_def\<close>)
  have ms: "mset (concat (ht_table n1)) = add_mset e (mset (concat (ht_table (ht1 d))))"
    using mset_concat_update[OF h, of "e # ht_table (ht1 d) ! h"] by (simp add: n1_def)
  have "ht_ok (dictHashKey d1) (ht1 d1)" "ht_size (ht1 d1) > 0" "length es \<le> ht_used (ht0 d1)"
    using n1 hk Cons.prems by (auto simp: d1_def n1_def)
  from Cons.IH[OF this] obtain h1 where h1:
    "move_chain d1 es = Some (d1\<lparr>ht1 := h1, ht0 := (ht0 d1)\<lparr>ht_used := ht_used (ht0 d1) - length es\<rparr>\<rparr>)"
    "ht_ok (dictHashKey d) h1" "ht_size h1 = ht_size (ht1 d1)"
    "mset (concat (ht_table h1)) = mset es + mset (concat (ht_table (ht1 d1)))"
    by (auto simp: hk)
  have "move_chain d (e # es) = move_chain d1 es"
    using h by (simp add: d1_def n1_def h_def Let_def)
  also have "\<dots> = Some (d\<lparr>ht1 := h1, ht0 := (ht0 d)\<lparr>ht_used := ht_used (ht0 d) - length (e # es)\<rparr>\<rparr>)"
    using h1(1) by (simp add: d1_def)
  finally show ?case using h1 ms by (auto simp: d1_def n1_def)
qed

text \<open>Moving one whole bucket, as the body of the loop of \<open>dictRehash\<close> does.\<close>

lemma move_bucket_inv:
  assumes inv: "dict_inv d" and re: "dictIsRehashing d"
    and idx: "idx < length (ht_table (ht0 d))" and emp: "\<forall>i<idx. ht_table (ht0 d) ! i = []"
  shows "\<exists>d1. move_chain d (ht_table (ht0 d) ! idx) = Some d1 \<and>
           (let d2 = d1\<lparr>ht0 := (ht0 d1)\<lparr>ht_table := (ht_table (ht0 d1))[idx := []]\<rparr>,
                        rehashidx := int idx + 1\<rparr>
            in dict_inv d2 \<and> dict_mset d2 = dict_mset d \<and> dtype d2 = dtype d \<and>
               iterators d2 = iterators d)"
proof -
  let ?b = "ht_table (ht0 d) ! idx"
  from inv re have ok: "ht_ok (dictHashKey d) (ht0 d)" "ht_ok (dictHashKey d) (ht1 d)"
      "ht_size (ht1 d) > 0" "ht_size (ht0 d) > 0"
    by (auto simp: dict_inv_def dictIsRehashing_def)
  have le: "length ?b \<le> ht_used (ht0 d)"
    using length_nth_le_concat[OF idx] ok(1) by (simp add: ht_ok_def)
  from move_chain_spec[OF ok(2,3) le] obtain h1 where h1:
    "move_chain d ?b = Some (d\<lparr>ht1 := h1, ht0 := (ht0 d)\<lparr>ht_used := ht_used (ht0 d) - length ?b\<rparr>\<rparr>)"
    "ht_ok (dictHashKey d) h1" "ht_size h1 = ht_size (ht1 d)"
    "mset (concat (ht_table h1)) = mset ?b + mset (concat (ht_table (ht1 d)))"
    by blast
  define n0 where "n0 = (ht0 d)\<lparr>ht_table := (ht_table (ht0 d))[idx := []],
                                ht_used := ht_used (ht0 d) - length ?b\<rparr>"
  define d2 where "d2 = d\<lparr>ht1 := h1, ht0 := n0, rehashidx := int idx + 1\<rparr>"
  have n0: "ht_ok (dictHashKey d) n0"
    unfolding n0_def
    by (rule ht_ok_set_chain[OF ok(1)]) (use idx le ok(1) in \<open>auto simp: ht_ok_def\<close>)
  have ty: "dtype d2 = dtype d" by (simp add: d2_def)
  have ms: "dict_mset d2 = dict_mset d"
    using mset_concat_update[OF idx, of "[]"] h1(4) by (simp add: dict_mset_def d2_def n0_def ac_simps)
  have "\<forall>i<Suc idx. ht_table n0 ! i = []"
    using emp idx by (auto simp: n0_def nth_list_update less_Suc_eq)
  moreover have "Suc idx \<le> ht_size n0" "ht_size n0 > 0"
    using idx ok(1) by (auto simp: n0_def ht_ok_def)
  moreover have "keys_unique d2" "type_ok d2"
    using dict_lookup_cong(2)[OF _ ms ty] type_ok_cong[OF ty] inv by (auto simp: dict_inv_def)
  ultimately have "dict_inv d2"
    using h1(2,3) n0 ok dictHashKey_cong[OF ty]
    by (auto simp: dict_inv_def d2_def nat_add_distrib)
  moreover have "n0 = (ht0 d)\<lparr>ht_used := ht_used (ht0 d) - length ?b,
                             ht_table := (ht_table (ht0 d))[idx := []]\<rparr>"
    by (rule dictht.equality) (simp_all add: n0_def)
  ultimately show ?thesis using h1(1) ms ty by (auto simp: d2_def Let_def)
qed

lemma rehash_finish_inv:
  assumes inv: "dict_inv d" and re: "dictIsRehashing d" and z: "ht_used (ht0 d) = 0"
  shows "dict_inv (d\<lparr>ht0 := ht1 d, ht1 := dictReset, rehashidx := -1\<rparr>)" (is "dict_inv ?d'")
    and "dict_mset (d\<lparr>ht0 := ht1 d, ht1 := dictReset, rehashidx := -1\<rparr>) = dict_mset d"
proof -
  have "concat (ht_table (ht0 d)) = []" using inv z by (simp add: dict_inv_def ht_ok_def)
  then show ms: "dict_mset ?d' = dict_mset d" by (simp add: dict_mset_def dictReset_def)
  have ty: "dtype ?d' = dtype d" by simp
  show "dict_inv ?d'"
    using inv dict_lookup_cong(2)[OF _ ms ty] type_ok_cong[OF ty] dictHashKey_cong[OF ty]
    by (auto simp: dict_inv_def)
qed

lemma rehash_loop_spec:
  assumes "dict_inv d" and "dictIsRehashing d"
  shows "\<exists>d' out. rehash_loop d n ev = Some (d', out) \<and> dict_inv d' \<and> dictIsRehashing d' \<and>
           dict_mset d' = dict_mset d \<and> dtype d' = dtype d \<and> iterators d' = iterators d"
  using assms
proof (induction n arbitrary: d ev)
  case 0
  then show ?case by (auto intro!: exI[of _ False])
next
  case (Suc n)
  let ?t = "ht_table (ht0 d)" and ?r = "nat (rehashidx d)"
  from Suc.prems have ok: "ht_ok (dictHashKey d) (ht0 d)" and r: "0 \<le> rehashidx d" "?r \<le> ht_size (ht0 d)"
    and emp: "\<forall>i<?r. ?t ! i = []"
    by (auto simp: dict_inv_def dictIsRehashing_def)
  show ?case
  proof (cases "ht_used (ht0 d) = 0")
    case True
    with Suc.prems show ?thesis by (auto intro!: exI[of _ False])
  next
    case False
    then have "concat ?t \<noteq> []" using ok by (auto simp: ht_ok_def)
    then obtain j where j: "j < length ?t" "?t ! j \<noteq> []" by (metis concat_eq_Nil_conv in_set_conv_nth)
    with emp have jr: "?r \<le> j" by (meson not_le)
    with j ok have lt: "ht_size (ht0 d) > ?r" by (simp add: ht_ok_def)
    obtain idx ev' out where sk: "skip_empty ?t ?r ev = Some (idx, ev', out)" "?r \<le> idx"
      "idx < length ?t" "\<forall>i<idx. ?t ! i = []" "\<not> out \<longrightarrow> ?t ! idx \<noteq> []"
      using skip_empty_spec[of ?r ?t ev] j jr emp by blast
    define d1 where "d1 = d\<lparr>rehashidx := int idx\<rparr>"
    have ty: "dtype d1 = dtype d" and ms: "dict_mset d1 = dict_mset d"
      by (simp_all add: d1_def dict_mset_def)
    have inv1: "dict_inv d1" and re1: "dictIsRehashing d1"
      using Suc.prems sk ok dict_lookup_cong(2)[OF _ ms ty] type_ok_cong[OF ty] dictHashKey_cong[OF ty]
      by (auto simp: dict_inv_def dictIsRehashing_def d1_def ht_ok_def)
    show ?thesis
    proof (cases out)
      case True
      with False lt sk show ?thesis using inv1 re1 ms ty by (auto simp: d1_def)
    next
      case nout: False
      have "idx < length (ht_table (ht0 d1))" "\<forall>i<idx. ht_table (ht0 d1) ! i = []"
        using sk by (simp_all add: d1_def)
      from move_bucket_inv[OF inv1 re1 this] obtain d2 where d2: "move_chain d1 (?t ! idx) = Some d2"
        and "let d3 = d2\<lparr>ht0 := (ht0 d2)\<lparr>ht_table := (ht_table (ht0 d2))[idx := []]\<rparr>,
                        rehashidx := int idx + 1\<rparr>
            in dict_inv d3 \<and> dict_mset d3 = dict_mset d1 \<and> dtype d3 = dtype d1 \<and>
               iterators d3 = iterators d1"
        by (auto simp: d1_def)
      then obtain d3 where d3: "d3 = d2\<lparr>ht0 := (ht0 d2)\<lparr>ht_table := (ht_table (ht0 d2))[idx := []]\<rparr>,
                        rehashidx := int idx + 1\<rparr>" "dict_inv d3" "dict_mset d3 = dict_mset d1"
        "dtype d3 = dtype d1" "iterators d3 = iterators d1"
        by (auto simp: Let_def)
      have "dictIsRehashing d3" by (simp add: d3(1) dictIsRehashing_def)
      with Suc.IH[OF d3(2)] obtain d' out' where d': "rehash_loop d3 n ev' = Some (d', out')"
        "dict_inv d'" "dictIsRehashing d'" "dict_mset d' = dict_mset d3" "dtype d' = dtype d3"
        "iterators d' = iterators d3" by blast
      have "rehash_loop d (Suc n) ev = rehash_loop d3 n ev'"
        using False lt sk(1) nout d2 by (simp add: d1_def d3(1))
      with d' d3 ms ty show ?thesis by (auto simp: d1_def)
    qed
  qed
qed

lemma dictRehash_spec:
  assumes inv: "dict_inv d"
  shows "\<exists>d' more. dictRehash d n = Some (d', more) \<and> dict_inv d' \<and> dict_mset d' = dict_mset d \<and>
           dtype d' = dtype d \<and> iterators d' = iterators d"
proof (cases "dictIsRehashing d")
  case False
  with inv show ?thesis by (auto simp: dictRehash_def)
next
  case True
  from rehash_loop_spec[OF inv True, of n "int n * 10"] obtain d1 out where
    d1: "rehash_loop d n (int n * 10) = Some (d1, out)" "dict_inv d1" "dictIsRehashing d1"
    "dict_mset d1 = dict_mset d" "dtype d1 = dtype d" "iterators d1 = iterators d" by blast
  with True rehash_finish_inv[OF d1(2,3)] show ?thesis by (auto simp: dictRehash_def)
qed

lemma dictRehashStep_spec:
  assumes "dict_inv d"
  shows "\<exists>d'. dictRehashStep d = Some d' \<and> dict_inv d' \<and> dict_mset d' = dict_mset d \<and>
           dtype d' = dtype d \<and> iterators d' = iterators d"
  using dictRehash_spec[OF assms, of 1] assms by (auto simp: dictRehashStep_def)

section \<open>Lookup\<close>

lemma chain_find_Some:
  "chain_find d key es = Some p \<Longrightarrow> p < length es \<and> key_match d key (de_key (es ! p))"
  by (induction es arbitrary: p) (auto split: if_splits)

lemma chain_find_None:
  "chain_find d key es = None \<longleftrightarrow> (\<forall>e\<in>set es. \<not> key_match d key (de_key e))"
  by (induction es) auto

lemma type_ok_hash: "type_ok d \<Longrightarrow> key_match d a b \<Longrightarrow> dictHashKey d a = dictHashKey d b"
  unfolding type_ok_def by blast

lemma type_ok_sym: "type_ok d \<Longrightarrow> key_match d a b \<Longrightarrow> key_match d b a"
  unfolding type_ok_def by blast

lemma type_ok_trans: "type_ok d \<Longrightarrow> key_match d a b \<Longrightarrow> key_match d b c \<Longrightarrow> key_match d a c"
  unfolding type_ok_def by blast

lemma type_ok_dup: "type_ok d \<Longrightarrow> key_match d a (dup_key d a)"
  unfolding type_ok_def by blast

lemma entry_in_bucket:
  assumes "ht_ok hash ht" and "e \<in> set (concat (ht_table ht))"
  shows "e \<in> set (ht_table ht ! ht_index ht (hash (de_key e)))"
proof -
  from assms(2) obtain i where i: "i < length (ht_table ht)" "e \<in> set (ht_table ht ! i)"
    unfolding in_set_concat_nth by blast
  then have "ht_index ht (hash (de_key e)) = i" using assms(1) unfolding ht_ok_def by simp
  with i show ?thesis by simp
qed

lemma no_match_in_table:
  assumes ty: "type_ok d" and ok: "ht_ok (dictHashKey d) ht"
    and none: "chain_find d key (ht_table ht ! ht_index ht (dictHashKey d key)) = None"
    and e: "e \<in> set (concat (ht_table ht))"
  shows "\<not> key_match d key (de_key e)"
proof
  assume m: "key_match d key (de_key e)"
  with ty have "dictHashKey d key = dictHashKey d (de_key e)" by (rule type_ok_hash)
  with entry_in_bucket[OF ok e] none m show False by (auto simp: chain_find_None)
qed

definition ref_ok :: "('k, 'v) dict \<Rightarrow> entry_ref \<Rightarrow> bool" where
  "ref_ok d = (\<lambda>(t, idx, p). (t = 0 \<or> t = 1) \<and> idx < length (ht_table (get_ht d t)) \<and>
     p < length (ht_table (get_ht d t) ! idx))"

lemma entry_at_ref_ok:
  "ref_ok d (t, idx, p) \<Longrightarrow> entry_at d (t, idx, p) = Some (ht_table (get_ht d t) ! idx ! p)"
  by (simp add: ref_ok_def entry_at_def)

lemma ref_ok_in_mset:
  "ref_ok d (t, idx, p) \<Longrightarrow> ht_table (get_ht d t) ! idx ! p \<in># dict_mset d"
  by (auto simp: ref_ok_def dict_mset_def get_ht_def simp del: set_concat dest: nth_nth_in_concat)

lemma search_tables_spec:
  assumes inv: "dict_inv d" and sz: "ht_size (ht0 d) > 0"
  shows "\<exists>idx r. search_tables d key (dictHashKey d key) = Some (idx, r) \<and>
     (case r of
        None \<Rightarrow> (\<forall>e\<in>#dict_mset d. \<not> key_match d key (de_key e)) \<and>
          idx = ht_index (get_ht d (if dictIsRehashing d then 1 else 0)) (dictHashKey d key)
      | Some (t, i, p) \<Rightarrow> ref_ok d (t, i, p) \<and> key_match d key (de_key (ht_table (get_ht d t) ! i ! p)))"
proof -
  let ?h = "dictHashKey d key"
  have ty: "type_ok d" and ok0: "ht_ok (dictHashKey d) (ht0 d)" and ok1: "ht_ok (dictHashKey d) (ht1 d)"
    using inv by (auto simp: dict_inv_def)
  let ?i0 = "ht_index (ht0 d) ?h" and ?i1 = "ht_index (ht1 d) ?h"
  have i0: "?i0 < length (ht_table (ht0 d))" by (rule ht_index_less[OF ok0 sz])
  have no0: "\<forall>e\<in>set (concat (ht_table (ht0 d))). \<not> key_match d key (de_key e)"
    if "chain_find d key (ht_table (ht0 d) ! ?i0) = None"
    using no_match_in_table[OF ty ok0 that] by blast
  have no1: "\<forall>e\<in>set (concat (ht_table (ht1 d))). \<not> key_match d key (de_key e)"
    if "chain_find d key (ht_table (ht1 d) ! ?i1) = None"
    using no_match_in_table[OF ty ok1 that] by blast
  show ?thesis
  proof (cases "chain_find d key (ht_table (ht0 d) ! ?i0)")
    case (Some p)
    with i0 chain_find_Some[OF Some] show ?thesis
      by (auto simp: search_tables_def Let_def ref_ok_def get_ht_def)
  next
    case none0: None
    show ?thesis
    proof (cases "dictIsRehashing d")
      case False
      with inv have "ht1 d = dictReset" by (rule dict_inv_not_rehashing)
      with no0[OF none0] False none0 i0 show ?thesis
        by (auto simp: search_tables_def Let_def get_ht_def dict_mset_def dictReset_def)
    next
      case True
      with inv have "ht_size (ht1 d) > 0" by (auto simp: dict_inv_def dictIsRehashing_def)
      then have i1: "?i1 < length (ht_table (ht1 d))" by (rule ht_index_less[OF ok1])
      show ?thesis
      proof (cases "chain_find d key (ht_table (ht1 d) ! ?i1)")
        case (Some p)
        with i0 i1 none0 True chain_find_Some[OF Some] show ?thesis
          by (auto simp: search_tables_def Let_def ref_ok_def get_ht_def)
      next
        case None
        with i0 i1 none0 True no0[OF none0] no1[OF None] show ?thesis
          by (auto simp: search_tables_def Let_def get_ht_def dict_mset_def)
      qed
    qed
  qed
qed

lemma rehash_step_if_spec:
  assumes "dict_inv d"
  shows "\<exists>d'. (if dictIsRehashing d then dictRehashStep d else Some d) = Some d' \<and> dict_inv d' \<and>
           dict_mset d' = dict_mset d \<and> dtype d' = dtype d \<and> iterators d' = iterators d"
  using dictRehashStep_spec[OF assms] assms by auto

lemma dictSize_mset: "dict_inv d \<Longrightarrow> dictSize d = size (dict_mset d)"
  by (simp add: dict_inv_def ht_ok_def dictSize_def dict_mset_def)

lemma size0_pos:
  assumes inv: "dict_inv d" and "dict_mset d \<noteq> {#}"
  shows "ht_size (ht0 d) > 0"
proof (rule ccontr)
  assume z: "\<not> ht_size (ht0 d) > 0"
  with inv have "ht1 d = dictReset" by (auto simp: dict_inv_def split: if_splits)
  moreover have "concat (ht_table (ht0 d)) = []" using z inv by (auto simp: dict_inv_def ht_ok_def)
  ultimately show False using assms(2) by (simp add: dict_mset_def dictReset_def)
qed

lemma dictFind_spec:
  assumes inv: "dict_inv d"
  shows "\<exists>d' r. dictFind d key = Some (d', r) \<and> dict_inv d' \<and> dict_mset d' = dict_mset d \<and>
           dtype d' = dtype d \<and> iterators d' = iterators d \<and>
           (case r of None \<Rightarrow> dict_lookup d key = None
            | Some ref \<Rightarrow> ref_ok d' ref \<and> (\<exists>e. entry_at d' ref = Some e \<and> key_match d key (de_key e) \<and>
                dict_lookup d key = Some (de_val e)))"
proof (cases "dictSize d = 0")
  case True
  with inv have "dict_mset d = {#}" by (simp add: dictSize_mset)
  with True inv show ?thesis by (auto simp: dictFind_def dict_lookup_None_iff)
next
  case False
  from rehash_step_if_spec[OF inv] obtain d1 where d1:
    "(if dictIsRehashing d then dictRehashStep d else Some d) = Some d1" "dict_inv d1"
    "dict_mset d1 = dict_mset d" "dtype d1 = dtype d" "iterators d1 = iterators d" by blast
  have "dict_mset d1 \<noteq> {#}" using False d1 dictSize_mset[OF inv] by auto
  then have sz: "ht_size (ht0 d1) > 0" by (rule size0_pos[OF d1(2)])
  have km: "key_match d1 = key_match d" by (rule key_match_cong[OF d1(4)])
  have look: "dict_lookup d1 = dict_lookup d"
    by (rule dict_lookup_cong[OF _ d1(3,4)]) (use inv in \<open>simp add: dict_inv_def\<close>)
  from search_tables_spec[OF d1(2) sz, of key] obtain idx r where
    r: "search_tables d1 key (dictHashKey d1 key) = Some (idx, r)" and
    rs: "case r of
        None \<Rightarrow> (\<forall>e\<in>#dict_mset d1. \<not> key_match d1 key (de_key e)) \<and>
          idx = ht_index (get_ht d1 (if dictIsRehashing d1 then 1 else 0)) (dictHashKey d1 key)
      | Some (t, i, p) \<Rightarrow> ref_ok d1 (t, i, p) \<and> key_match d1 key (de_key (ht_table (get_ht d1 t) ! i ! p))"
    by blast
  have eq: "dictFind d key = Some (d1, r)" using False d1(1) r by (simp add: dictFind_def)
  show ?thesis
  proof (cases r)
    case None
    with rs d1 eq show ?thesis by (auto simp: dict_lookup_None_iff km)
  next
    case (Some ref)
    obtain t i p where ref: "ref = (t, i, p)" by (cases ref)
    let ?e = "ht_table (get_ht d1 t) ! i ! p"
    have ro: "ref_ok d1 (t, i, p)" and m: "key_match d key (de_key ?e)"
      using rs Some ref by (auto simp: km)
    have "dict_lookup d1 key = Some (de_val ?e)"
      using d1(2) ref_ok_in_mset[OF ro] m by (subst dict_lookup_Some_iff) (auto simp: dict_inv_def km)
    then have lk: "dict_lookup d key = Some (de_val ?e)" by (simp add: look)
    show ?thesis using eq d1 Some ref ro m lk entry_at_ref_ok[OF ro] by auto
  qed
qed

section \<open>Insertion and update\<close>

lemma dict_lookup_add_mset:
  assumes "keys_unique d'" and "keys_unique d" and "dtype d' = dtype d"
    and ms: "dict_mset d' = add_mset e (dict_mset d)"
  shows "dict_lookup d' k = (if key_match d k (de_key e) then Some (de_val e) else dict_lookup d k)"
proof -
  have km: "key_match d' = key_match d" by (rule key_match_cong[OF assms(3)])
  have 1: "dict_lookup d' k = Some (de_val e)" if "key_match d k (de_key e)"
    using that by (simp add: dict_lookup_Some_iff[OF assms(1)] ms km)
  have 2: "dict_lookup d' k = Some v \<longleftrightarrow> dict_lookup d k = Some v" if "\<not> key_match d k (de_key e)" for v
    using that by (auto simp: dict_lookup_Some_iff[OF assms(1)] dict_lookup_Some_iff[OF assms(2)] ms km)
  show ?thesis
  proof (cases "key_match d k (de_key e)")
    case True
    with 1 show ?thesis by simp
  next
    case False
    with 2 show ?thesis by (metis option.exhaust)
  qed
qed

lemma keys_unique_add:
  assumes u: "keys_unique d" and ty: "type_ok d" and "dtype d' = dtype d"
    and ms: "dict_mset d' = add_mset e (dict_mset d)"
    and new: "\<forall>x\<in>#dict_mset d. \<not> key_match d (de_key e) (de_key x)"
  shows "keys_unique d'"
proof -
  have km: "key_match d' = key_match d" by (rule key_match_cong[OF assms(3)])
  have "size (filter_mset (\<lambda>x. key_match d k (de_key x)) (add_mset e (dict_mset d))) \<le> 1" for k
  proof (cases "key_match d k (de_key e)")
    case True
    have "\<not> key_match d k (de_key x)" if "x \<in># dict_mset d" for x
      using new that True type_ok_sym[OF ty] type_ok_trans[OF ty] by blast
    then have "filter_mset (\<lambda>x. key_match d k (de_key x)) (dict_mset d) = {#}"
      by (auto simp: filter_mset_eq_conv)
    with True show ?thesis by simp
  next
    case False
    with u show ?thesis by (simp add: keys_unique_def)
  qed
  then show ?thesis by (simp add: keys_unique_def km ms)
qed

text \<open>Replacing one chain of either table, for every operation that edits a chain in place.\<close>

lemma set_chain_inv:
  assumes inv: "dict_inv d" and t: "t = 0 \<or> t = 1" and i: "i < length (ht_table (get_ht d t))"
    and b: "\<And>e. e \<in> set b \<Longrightarrow> ht_index (get_ht d t) (dictHashKey d (de_key e)) = i"
    and u: "u + length (ht_table (get_ht d t) ! i) = ht_used (get_ht d t) + length b"
    and ne: "ht_table (get_ht d t) ! i = [] \<Longrightarrow> t = 0 \<Longrightarrow> dictIsRehashing d \<Longrightarrow> b = []"
    and d': "d' = set_ht d t ((get_ht d t)\<lparr>ht_table := (ht_table (get_ht d t))[i := b], ht_used := u\<rparr>)"
    and uniq: "keys_unique d'"
  shows "dict_inv d'" and "dtype d' = dtype d" and "iterators d' = iterators d"
    and "dict_mset d' + mset (ht_table (get_ht d t) ! i) = dict_mset d + mset b"
proof -
  let ?n = "(get_ht d t)\<lparr>ht_table := (ht_table (get_ht d t))[i := b], ht_used := u\<rparr>"
  show ty: "dtype d' = dtype d" and "iterators d' = iterators d" by (simp_all add: d' set_ht_def)
  have ok: "ht_ok (dictHashKey d) (get_ht d t)" using inv t by (auto simp: dict_inv_def get_ht_def)
  then have n: "ht_ok (dictHashKey d) ?n"
    by (rule ht_ok_set_chain) (use ok i b u in \<open>auto simp: ht_ok_def\<close>)
  show "dict_mset d' + mset (ht_table (get_ht d t) ! i) = dict_mset d + mset b"
    using t mset_concat_update[OF i, of b] by (auto simp: d' dict_mset_def set_ht_def get_ht_def ac_simps)
  have re: "rehashidx d \<noteq> -1" if "t = 1"
    using inv i that by (auto simp: dict_inv_def get_ht_def dictReset_def)
  have emp: "\<forall>j<nat (rehashidx d). ht_table (ht0 d') ! j = []" if "rehashidx d \<noteq> -1"
  proof (cases "t = 0")
    case True
    with inv that have old: "\<forall>j<nat (rehashidx d). ht_table (ht0 d) ! j = []" by (simp add: dict_inv_def)
    have "(ht_table (ht0 d))[i := b] ! j = []" if "j < nat (rehashidx d)" for j
      using old that i ne True \<open>rehashidx d \<noteq> -1\<close>
      by (cases "i = j") (auto simp: get_ht_def dictIsRehashing_def)
    with True show ?thesis by (simp add: d' set_ht_def get_ht_def)
  next
    case False
    with inv that t show ?thesis by (auto simp: d' set_ht_def dict_inv_def)
  qed
  have oks: "ht_ok (dictHashKey d) (ht0 d')" "ht_ok (dictHashKey d) (ht1 d')"
    using inv n by (auto simp: d' set_ht_def dict_inv_def)
  have shape: "rehashidx d' = rehashidx d" "ht_size (ht0 d') = ht_size (ht0 d)"
      "ht_size (ht1 d') = ht_size (ht1 d)" "t = 0 \<Longrightarrow> ht1 d' = ht1 d"
    using t by (auto simp: d' set_ht_def get_ht_def)
  show "dict_inv d'"
    unfolding dict_inv_def dictHashKey_cong[OF ty] type_ok_cong[OF ty] shape
    using inv oks emp uniq re t shape(4) by (auto simp: dict_inv_def)
qed

definition fresh_entry :: "('k, 'v) dict \<Rightarrow> 'k \<Rightarrow> ('k, 'v) dictEntry" where
  "fresh_entry d key = \<lparr>de_key = dup_key d key, de_val = undefined\<rparr>"

lemma insert_entry_inv:
  assumes inv: "dict_inv d" and sz: "ht_size (ht0 d) > 0"
    and new: "\<forall>e\<in>#dict_mset d. \<not> key_match d key (de_key e)"
    and t: "t = (if dictIsRehashing d then 1 else 0)"
    and i: "i = ht_index (get_ht d t) (dictHashKey d key)"
    and d': "d' = set_ht d t ((get_ht d t)\<lparr>
       ht_table := (ht_table (get_ht d t))[i := fresh_entry d key # ht_table (get_ht d t) ! i],
       ht_used := ht_used (get_ht d t) + 1\<rparr>)"
  shows "i < length (ht_table (get_ht d t))" and "dict_inv d'" and "dtype d' = dtype d"
    and "iterators d' = iterators d"
    and "dict_mset d' = add_mset (fresh_entry d key) (dict_mset d)"
    and "ref_ok d' (t, i, 0)" and "entry_at d' (t, i, 0) = Some (fresh_entry d key)"
proof -
  let ?b = "fresh_entry d key # ht_table (get_ht d t) ! i"
  have ty: "type_ok d" and u: "keys_unique d" using inv by (auto simp: dict_inv_def)
  have ok: "ht_ok (dictHashKey d) (get_ht d t)" and pos: "ht_size (get_ht d t) > 0"
    using inv sz t by (auto simp: dict_inv_def get_ht_def dictIsRehashing_def)
  show il: "i < length (ht_table (get_ht d t))" unfolding i by (rule ht_index_less[OF ok pos])
  have mk: "key_match d key (de_key (fresh_entry d key))"
    using type_ok_dup[OF ty] by (simp add: fresh_entry_def)
  have t01: "t = 0 \<or> t = 1" using t by simp
  have ms: "dict_mset d' = add_mset (fresh_entry d key) (dict_mset d)"
    using t01 mset_concat_update[OF il, of ?b]
    by (auto simp: d' dict_mset_def set_ht_def get_ht_def ac_simps)
  have ty': "dtype d' = dtype d" by (simp add: d' set_ht_def)
  have nw: "\<forall>x\<in>#dict_mset d. \<not> key_match d (de_key (fresh_entry d key)) (de_key x)"
    using new mk type_ok_trans[OF ty] by blast
  have u': "keys_unique d'" by (rule keys_unique_add[OF u ty ty' ms nw])
  have bi: "ht_index (get_ht d t) (dictHashKey d (de_key e)) = i" if "e \<in> set ?b" for e
    using that ok il type_ok_hash[OF ty mk] i by (auto simp: ht_ok_def)
  show "dict_inv d'" "dtype d' = dtype d" "iterators d' = iterators d"
    using set_chain_inv[OF inv t01 il bi _ _ d' u'] t by auto
  show "dict_mset d' = add_mset (fresh_entry d key) (dict_mset d)" by (rule ms)
  show ref: "ref_ok d' (t, i, 0)" "entry_at d' (t, i, 0) = Some (fresh_entry d key)"
    using t01 il by (auto simp: ref_ok_def entry_at_def d' set_ht_def get_ht_def)
qed

lemma dictAddRaw_spec:
  assumes inv: "dict_inv d" and small: "dictSize d \<le> 2 ^ 62"
  shows "\<exists>d' e ex. dictAddRaw b d key = Some (d', e, ex) \<and> dict_inv d' \<and> dtype d' = dtype d \<and>
     iterators d' = iterators d \<and>
     (case dict_lookup d key of
        Some v \<Rightarrow> e = None \<and> dict_mset d' = dict_mset d \<and>
          (\<exists>r x. ex = Some r \<and> ref_ok d' r \<and> entry_at d' r = Some x \<and> key_match d key (de_key x) \<and> de_val x = v)
      | None \<Rightarrow> ex = None \<and> dict_mset d' = add_mset (fresh_entry d key) (dict_mset d) \<and>
          (\<exists>r. e = Some r \<and> ref_ok d' r \<and> entry_at d' r = Some (fresh_entry d key)))"
proof -
  from rehash_step_if_spec[OF inv] obtain d1 where d1:
    "(if dictIsRehashing d then dictRehashStep d else Some d) = Some d1" "dict_inv d1"
    "dict_mset d1 = dict_mset d" "dtype d1 = dtype d" "iterators d1 = iterators d" by blast
  have "ht_used (ht0 d1) \<le> 2 ^ 62"
    using small d1 dictSize_mset[OF inv] dictSize_mset[OF d1(2)] by (simp add: dictSize_def)
  from dictExpandIfNeeded_ok[OF d1(2) this, of b] obtain d2 where d2:
    "dictExpandIfNeeded b d1 = (d2, DICT_OK)" "dict_inv d2" "dict_mset d2 = dict_mset d1"
    "dtype d2 = dtype d1" "iterators d2 = iterators d1" "ht_size (ht0 d2) > 0" by blast
  have ms: "dict_mset d2 = dict_mset d" and ty: "dtype d2 = dtype d" using d1 d2 by auto
  have km: "key_match d2 = key_match d" by (rule key_match_cong[OF ty])
  have fe: "fresh_entry d2 key = fresh_entry d key" by (simp add: fresh_entry_def dup_key_def ty)
  have look: "dict_lookup d2 = dict_lookup d"
    by (rule dict_lookup_cong[OF _ ms ty]) (use inv in \<open>simp add: dict_inv_def\<close>)
  have hk: "dictHashKey d1 key = dictHashKey d2 key"
    using dictHashKey_cong[OF d2(4)] by simp
  let ?t = "if dictIsRehashing d2 then 1 else 0 :: nat"
  from search_tables_spec[OF d2(2,6), of key] obtain idx r where
    r: "search_tables d2 key (dictHashKey d2 key) = Some (idx, r)" and
    rs: "case r of
        None \<Rightarrow> (\<forall>e\<in>#dict_mset d2. \<not> key_match d2 key (de_key e)) \<and>
          idx = ht_index (get_ht d2 ?t) (dictHashKey d2 key)
      | Some (t, i, p) \<Rightarrow> ref_ok d2 (t, i, p) \<and> key_match d2 key (de_key (ht_table (get_ht d2 t) ! i ! p))"
    by blast
  show ?thesis
  proof (cases r)
    case None
    let ?d' = "set_ht d2 ?t ((get_ht d2 ?t)\<lparr>
       ht_table := (ht_table (get_ht d2 ?t))[idx := fresh_entry d2 key # ht_table (get_ht d2 ?t) ! idx],
       ht_used := ht_used (get_ht d2 ?t) + 1\<rparr>)"
    have new: "\<forall>e\<in>#dict_mset d2. \<not> key_match d2 key (de_key e)"
      and ix: "idx = ht_index (get_ht d2 ?t) (dictHashKey d2 key)" using rs None by auto
    note ins = insert_entry_inv[OF d2(2,6) new refl ix refl]
    have nl: "dict_lookup d key = None" using new by (simp add: dict_lookup_None_iff km ms)
    have "dictAddRaw b d key = Some (?d', Some (?t, idx, 0), None)"
      using d1(1) d2(1) r None hk ins(1)
      by (simp add: dictAddRaw_def dictKeyIndex_def fresh_entry_def Let_def)
    with ins nl ms ty d1(5) d2(5) show ?thesis by (auto simp: fe)
  next
    case (Some ref)
    obtain t i p where ref: "ref = (t, i, p)" by (cases ref)
    let ?e = "ht_table (get_ht d2 t) ! i ! p"
    have ro: "ref_ok d2 (t, i, p)" and m: "key_match d key (de_key ?e)"
      using rs Some ref by (auto simp: km)
    have "dict_lookup d2 key = Some (de_val ?e)"
      using d2(2) ref_ok_in_mset[OF ro] m by (subst dict_lookup_Some_iff) (auto simp: dict_inv_def km)
    then have lk: "dict_lookup d key = Some (de_val ?e)" by (simp add: look)
    have "dictAddRaw b d key = Some (d2, None, Some ref)"
      using d1(1) d2(1) r Some hk by (simp add: dictAddRaw_def dictKeyIndex_def Let_def)
    with d1 d2 lk ref ro m entry_at_ref_ok[OF ro] show ?thesis by auto
  qed
qed

lemma dictSetVal_spec:
  assumes inv: "dict_inv d" and ro: "ref_ok d r" and e: "entry_at d r = Some e"
  shows "\<exists>d'. dictSetVal d r v = Some d' \<and> dict_inv d' \<and> dtype d' = dtype d \<and>
     iterators d' = iterators d \<and> dict_mset d' = add_mset (e\<lparr>de_val := dup_val d v\<rparr>) (dict_mset d - {#e#})"
proof -
  obtain t i p where r: "r = (t, i, p)" by (cases r)
  let ?ht = "get_ht d t" and ?chain = "ht_table (get_ht d t) ! i" and ?e' = "e\<lparr>de_val := dup_val d v\<rparr>"
  have t: "t = 0 \<or> t = 1" and i: "i < length (ht_table ?ht)" and p: "p < length ?chain"
    using ro by (auto simp: ref_ok_def r)
  have ep: "e = ?chain ! p" using e entry_at_ref_ok[of d t i p] ro by (simp add: r)
  define d' where "d' = set_ht d t (?ht\<lparr>ht_table := (ht_table ?ht)[i := ?chain[p := ?e']]\<rparr>)"
  have d'_eq: "d' = set_ht d t (?ht\<lparr>ht_table := (ht_table ?ht)[i := ?chain[p := ?e']],
      ht_used := ht_used ?ht\<rparr>)"
    unfolding d'_def by (rule arg_cong[where f = "set_ht d t"]) (rule dictht.equality, simp_all)
  have call: "dictSetVal d r v = Some d'"
    using i p ep by (simp add: r dictSetVal_def d'_def Let_def)
  have in_d: "e \<in># dict_mset d" using ref_ok_in_mset[of d t i p] ro ep r by simp
  have "mset (concat ((ht_table ?ht)[i := ?chain[p := ?e']])) + {#e#} =
      mset (concat (ht_table ?ht)) + {#?e'#}"
  proof -
    have "mset (?chain[p := ?e']) + {#e#} = mset ?chain + {#?e'#}"
      using p ep by (simp add: mset_update)
    moreover have "mset (concat ((ht_table ?ht)[i := ?chain[p := ?e']])) + mset ?chain =
        mset (concat (ht_table ?ht)) + mset (?chain[p := ?e'])"
      by (rule mset_concat_update[OF i])
    ultimately show ?thesis by (blast intro: mset_exchange)
  qed
  then have ms1: "dict_mset d' + {#e#} = dict_mset d + {#?e'#}"
    using t by (auto simp: d'_def dict_mset_def set_ht_def get_ht_def)
  then have ms: "dict_mset d' = add_mset ?e' (dict_mset d - {#e#})"
    using in_d by (metis add_diff_cancel_right' add_mset_add_single diff_union_swap2)
  have ty: "dtype d' = dtype d" by (simp add: d'_def set_ht_def)
  have km: "key_match d' = key_match d" by (rule key_match_cong[OF ty])
  have "size (filter_mset (\<lambda>x. key_match d k (de_key x)) (dict_mset d')) =
      size (filter_mset (\<lambda>x. key_match d k (de_key x)) (dict_mset d))" for k
    using arg_cong[OF ms1, of "\<lambda>M. size (filter_mset (\<lambda>x. key_match d k (de_key x)) M)"]
    by (auto split: if_splits)
  then have uniq: "keys_unique d'" using inv by (simp add: dict_inv_def keys_unique_def km)
  have ok: "ht_ok (dictHashKey d) ?ht" using inv t by (auto simp: dict_inv_def get_ht_def)
  have b: "ht_index ?ht (dictHashKey d (de_key x)) = i" if "x \<in> set (?chain[p := ?e'])" for x
  proof -
    have "de_key x \<in> de_key ` set ?chain"
      using set_update_subset_insert[of ?chain p ?e'] that nth_mem[OF p] ep by auto
    with ok i show ?thesis by (auto simp: ht_ok_def)
  qed
  have "dict_inv d'" "iterators d' = iterators d"
    using set_chain_inv[OF inv t i b _ _ d'_eq uniq] by auto
  with call ty ms show ?thesis by blast
qed

text \<open>The abstract map after an insertion or an overwrite of \<open>key\<close>.\<close>

definition map_put :: "('k, 'v) dict \<Rightarrow> 'k \<Rightarrow> 'v \<Rightarrow> 'k \<Rightarrow> 'v option" where
  "map_put d key v k = (if key_match d key k then Some (dup_val d v) else dict_lookup d k)"

lemma key_match_swap: "type_ok d \<Longrightarrow> key_match d a b = key_match d b a"
  by (rule iffI) (erule (1) type_ok_sym)+

lemma dict_lookup_overwrite:
  assumes inv: "dict_inv d" "dict_inv d'" and ty: "dtype d' = dtype d"
    and ms: "dict_mset d' = add_mset (e\<lparr>de_val := w\<rparr>) (dict_mset d - {#e#})"
    and e: "e \<in># dict_mset d" and m: "key_match d key (de_key e)"
  shows "dict_lookup d' k = (if key_match d key k then Some w else dict_lookup d k)"
proof -
  have u: "keys_unique d" "keys_unique d'" "type_ok d" using inv by (auto simp: dict_inv_def)
  have km: "key_match d' = key_match d" by (rule key_match_cong[OF ty])
  have mk: "key_match d k (de_key e) = key_match d key k"
    using m type_ok_trans[OF u(3)] type_ok_sym[OF u(3)] by blast
  have "dict_lookup d' k = Some w" if "key_match d key k"
    using that by (simp add: dict_lookup_Some_iff[OF u(2)] ms km mk)
  moreover have "dict_lookup d' k = Some v \<longleftrightarrow> dict_lookup d k = Some v" if "\<not> key_match d key k" for v
  proof -
    have "x \<in># dict_mset d - {#e#} \<longleftrightarrow> x \<in># dict_mset d" if "key_match d k (de_key x)" for x
      using that mk \<open>\<not> key_match d key k\<close> by (auto simp: in_diff_count)
    then show ?thesis using that e
      by (auto simp: dict_lookup_Some_iff[OF u(2)] dict_lookup_Some_iff[OF u(1)] ms km mk)
  qed
  ultimately show ?thesis by (cases "key_match d key k"; cases "dict_lookup d k"; cases "dict_lookup d' k") auto
qed

lemma add_then_set:
  assumes inv: "dict_inv d" and d1: "dict_inv d1" "dtype d1 = dtype d"
    and ms: "dict_mset d1 = add_mset (fresh_entry d key) (dict_mset d)"
    and r: "ref_ok d1 r" "entry_at d1 r = Some (fresh_entry d key)"
    and new: "dict_lookup d key = None"
  shows "\<exists>d'. dictSetVal d1 r v = Some d' \<and> dict_inv d' \<and> dtype d' = dtype d \<and>
     iterators d' = iterators d1 \<and> dict_lookup d' = map_put d key v \<and>
     dictSize d' = dictSize d + 1"
proof -
  from dictSetVal_spec[OF d1(1) r, of v] obtain d' where d':
    "dictSetVal d1 r v = Some d'" "dict_inv d'" "dtype d' = dtype d1" "iterators d' = iterators d1"
    "dict_mset d' = add_mset ((fresh_entry d key)\<lparr>de_val := dup_val d1 v\<rparr>) (dict_mset d1 - {#fresh_entry d key#})"
    by blast
  have dv: "dup_val d1 v = dup_val d v" using d1(2) by (simp add: dup_val_def)
  have ms': "dict_mset d' = add_mset ((fresh_entry d key)\<lparr>de_val := dup_val d v\<rparr>) (dict_mset d)"
    using d'(5) ms dv by simp
  have ty: "type_ok d" "keys_unique d" "keys_unique d'" "dtype d' = dtype d"
    using inv d'(2,3) d1(2) by (auto simp: dict_inv_def)
  have mk: "key_match d k (dup_key d key) = key_match d key k" for k
    using type_ok_dup[OF ty(1), of key] type_ok_sym[OF ty(1)] type_ok_trans[OF ty(1)] by blast
  have "dict_lookup d' = map_put d key v"
    by (intro ext, subst dict_lookup_add_mset[OF ty(3,2,4) ms'])
      (simp add: map_put_def mk fresh_entry_def)
  moreover have "dictSize d' = dictSize d + 1"
    using dictSize_mset[OF inv] dictSize_mset[OF d'(2)] ms' by simp
  ultimately show ?thesis using d' ty by auto
qed

lemma dictAdd_spec:
  assumes inv: "dict_inv d" and small: "dictSize d \<le> 2 ^ 62"
  shows "\<exists>d' st. dictAdd b d key v = Some (d', st) \<and> dict_inv d' \<and> dtype d' = dtype d \<and>
     iterators d' = iterators d \<and>
     (if dict_lookup d key = None
      then st = DICT_OK \<and> dict_lookup d' = map_put d key v \<and> dictSize d' = dictSize d + 1
      else st = DICT_ERR \<and> dict_lookup d' = dict_lookup d \<and> dictSize d' = dictSize d)"
proof -
  from dictAddRaw_spec[OF assms, of b key] obtain d1 e ex where raw:
    "dictAddRaw b d key = Some (d1, e, ex)" "dict_inv d1" "dtype d1 = dtype d" "iterators d1 = iterators d"
    "case dict_lookup d key of
        Some v \<Rightarrow> e = None \<and> dict_mset d1 = dict_mset d \<and>
          (\<exists>r x. ex = Some r \<and> ref_ok d1 r \<and> entry_at d1 r = Some x \<and> key_match d key (de_key x) \<and> de_val x = v)
      | None \<Rightarrow> ex = None \<and> dict_mset d1 = add_mset (fresh_entry d key) (dict_mset d) \<and>
          (\<exists>r. e = Some r \<and> ref_ok d1 r \<and> entry_at d1 r = Some (fresh_entry d key))"
    by blast
  show ?thesis
  proof (cases "dict_lookup d key")
    case None
    with raw obtain r where r: "e = Some r" "ref_ok d1 r" "entry_at d1 r = Some (fresh_entry d key)"
      and ms: "dict_mset d1 = add_mset (fresh_entry d key) (dict_mset d)" by auto
    from add_then_set[OF inv raw(2,3) ms r(2,3) None, of v] obtain d' where
      "dictSetVal d1 r v = Some d'" "dict_inv d'" "dtype d' = dtype d" "iterators d' = iterators d1"
      "dict_lookup d' = map_put d key v" "dictSize d' = dictSize d + 1" by blast
    with raw(1,4) r(1) None show ?thesis by (auto simp: dictAdd_def)
  next
    case (Some w)
    with raw have e: "e = None" and ms: "dict_mset d1 = dict_mset d" by auto
    have "dict_lookup d1 = dict_lookup d"
      by (rule dict_lookup_cong[OF _ ms raw(3)]) (use inv in \<open>simp add: dict_inv_def\<close>)
    moreover have "dictSize d1 = dictSize d" using dictSize_mset[OF inv] dictSize_mset[OF raw(2)] ms by simp
    ultimately show ?thesis using raw e Some by (auto simp: dictAdd_def)
  qed
qed

lemma dictReplace_spec:
  assumes inv: "dict_inv d" and small: "dictSize d \<le> 2 ^ 62"
  shows "\<exists>d'. dictReplace b d key v = Some (d', dict_lookup d key = None) \<and> dict_inv d' \<and>
     dtype d' = dtype d \<and> iterators d' = iterators d \<and> dict_lookup d' = map_put d key v \<and>
     dictSize d' \<le> dictSize d + 1"
proof -
  from dictAddRaw_spec[OF assms, of b key] obtain d1 e ex where raw:
    "dictAddRaw b d key = Some (d1, e, ex)" "dict_inv d1" "dtype d1 = dtype d" "iterators d1 = iterators d"
    "case dict_lookup d key of
        Some v \<Rightarrow> e = None \<and> dict_mset d1 = dict_mset d \<and>
          (\<exists>r x. ex = Some r \<and> ref_ok d1 r \<and> entry_at d1 r = Some x \<and> key_match d key (de_key x) \<and> de_val x = v)
      | None \<Rightarrow> ex = None \<and> dict_mset d1 = add_mset (fresh_entry d key) (dict_mset d) \<and>
          (\<exists>r. e = Some r \<and> ref_ok d1 r \<and> entry_at d1 r = Some (fresh_entry d key))"
    by blast
  show ?thesis
  proof (cases "dict_lookup d key")
    case None
    with raw obtain r where r: "e = Some r" "ref_ok d1 r" "entry_at d1 r = Some (fresh_entry d key)"
      and ms: "dict_mset d1 = add_mset (fresh_entry d key) (dict_mset d)" by auto
    from add_then_set[OF inv raw(2,3) ms r(2,3) None, of v] obtain d' where
      "dictSetVal d1 r v = Some d'" "dict_inv d'" "dtype d' = dtype d" "iterators d' = iterators d1"
      "dict_lookup d' = map_put d key v" "dictSize d' = dictSize d + 1" by blast
    with raw(1,4) r(1) None show ?thesis by (auto simp: dictReplace_def)
  next
    case (Some w)
    with raw obtain r x where e: "e = None" "ex = Some r" and ms: "dict_mset d1 = dict_mset d"
      and r: "ref_ok d1 r" "entry_at d1 r = Some x" and m: "key_match d key (de_key x)" by auto
    from dictSetVal_spec[OF raw(2) r, of v] obtain d' where d':
      "dictSetVal d1 r v = Some d'" "dict_inv d'" "dtype d' = dtype d1" "iterators d' = iterators d1"
      "dict_mset d' = add_mset (x\<lparr>de_val := dup_val d1 v\<rparr>) (dict_mset d1 - {#x#})" by blast
    have dv: "dup_val d1 v = dup_val d v" using raw(3) by (simp add: dup_val_def)
    have x: "x \<in># dict_mset d"
    proof -
      obtain t i p where "r = (t, i, p)" by (cases r)
      with r ref_ok_in_mset[of d1 t i p] entry_at_ref_ok[of d1 t i p] ms show ?thesis by simp
    qed
    have ty: "dtype d' = dtype d" using d' raw by simp
    have "dict_lookup d' = map_put d key v"
      unfolding map_put_def
      by (intro ext) (rule dict_lookup_overwrite[OF inv d'(2) ty _ x m], simp add: d'(5) dv ms)
    moreover have "dictSize d' = dictSize d"
      using dictSize_mset[OF inv] dictSize_mset[OF d'(2)] d'(5) ms x
      by (auto simp: dest!: multi_member_split)
    ultimately show ?thesis using raw(1,4) d' e Some ty by (auto simp: dictReplace_def)
  qed
qed

section \<open>Deletion\<close>

lemma unlink_entry_spec:
  assumes inv: "dict_inv d" and ro: "ref_ok d (t, i, p)"
    and e: "e = ht_table (get_ht d t) ! i ! p"
    and d2: "d2 = set_ht d t ((get_ht d t)\<lparr>
       ht_table := (ht_table (get_ht d t))[i := unlink_at p (ht_table (get_ht d t) ! i)],
       ht_used := ht_used (get_ht d t) - 1\<rparr>)"
  shows "dict_inv d2" and "dtype d2 = dtype d" and "iterators d2 = iterators d"
    and "dict_mset d = add_mset e (dict_mset d2)"
proof -
  let ?ht = "get_ht d t" and ?chain = "ht_table (get_ht d t) ! i"
  have t: "t = 0 \<or> t = 1" and i: "i < length (ht_table ?ht)" and p: "p < length ?chain"
    using ro by (auto simp: ref_ok_def)
  have cm: "mset (unlink_at p ?chain) + {#e#} = mset ?chain"
    unfolding unlink_at_def e by (rule take_drop_Suc_mset[OF p])
  have ok: "ht_ok (dictHashKey d) ?ht" using inv t by (auto simp: dict_inv_def get_ht_def)
  have "ht_used ?ht = length (concat (ht_table ?ht))" using ok by (simp add: ht_ok_def)
  then have "ht_used ?ht > 0" using p length_nth_le_concat[OF i] by linarith
  then have u: "ht_used ?ht - 1 + length ?chain = ht_used ?ht + length (unlink_at p ?chain)"
    using p by (simp add: unlink_at_def)
  have b: "ht_index ?ht (dictHashKey d (de_key x)) = i" if "x \<in> set (unlink_at p ?chain)" for x
    using that ok i by (auto simp: unlink_at_def ht_ok_def dest: in_set_takeD in_set_dropD)
  have "mset (concat ((ht_table ?ht)[i := unlink_at p ?chain])) + {#e#} = mset (concat (ht_table ?ht)) + {#}"
    by (rule mset_exchange[OF mset_concat_update[OF i]]) (simp add: cm[simplified])
  then show ms: "dict_mset d = add_mset e (dict_mset d2)"
    using t by (auto simp: d2 dict_mset_def set_ht_def get_ht_def)
  show ty: "dtype d2 = dtype d" by (simp add: d2 set_ht_def)
  have "size (filter_mset P (dict_mset d2)) \<le> size (filter_mset P (dict_mset d))" for P
    by (simp add: ms)
  then have uniq: "keys_unique d2"
    using inv unfolding dict_inv_def keys_unique_def key_match_cong[OF ty] by (meson le_trans)
  show "dict_inv d2" "iterators d2 = iterators d"
    using set_chain_inv[OF inv t i b u _ d2 uniq] p by (auto simp: unlink_at_def)
qed

lemma dict_lookup_removed:
  assumes inv: "dict_inv d" "dict_inv d2" and ty: "dtype d2 = dtype d"
    and ms: "dict_mset d = add_mset e (dict_mset d2)" and m: "key_match d key (de_key e)"
  shows "dict_lookup d2 = (\<lambda>k. if key_match d key k then None else dict_lookup d k)"
proof
  fix k
  have ok: "type_ok d" "keys_unique d" "keys_unique d2" using inv by (auto simp: dict_inv_def)
  have km: "key_match d2 = key_match d" by (rule key_match_cong[OF ty])
  have mk: "key_match d k (de_key e) = key_match d key k"
    using m type_ok_trans[OF ok(1)] type_ok_sym[OF ok(1)] by blast
  show "dict_lookup d2 k = (if key_match d key k then None else dict_lookup d k)"
  proof (cases "key_match d key k")
    case True
    have "size (filter_mset (\<lambda>x. key_match d k (de_key x)) (add_mset e (dict_mset d2))) \<le> 1"
      using ok(2) unfolding keys_unique_def ms by blast
    then have "filter_mset (\<lambda>x. key_match d k (de_key x)) (dict_mset d2) = {#}"
      using mk True by simp
    with True show ?thesis by (auto simp: dict_lookup_None_iff km filter_mset_eq_conv)
  next
    case False
    with dict_lookup_add_mset[OF ok(2,3) ty[symmetric] ms, of k] show ?thesis by (simp add: km mk)
  qed
qed

lemma dictGenericDelete_spec:
  assumes inv: "dict_inv d"
  shows "\<exists>d' he. dictGenericDelete d key = Some (d', he) \<and> dict_inv d' \<and> dtype d' = dtype d \<and>
     iterators d' = iterators d \<and> map_option de_val he = dict_lookup d key \<and>
     dict_lookup d' = (\<lambda>k. if key_match d key k then None else dict_lookup d k) \<and>
     dictSize d' = dictSize d - (if he = None then 0 else 1)"
proof (cases "dictSize d = 0")
  case True
  with inv have "dict_mset d = {#}" by (simp add: dictSize_mset)
  then have "dict_lookup d = (\<lambda>k. None)" by (intro ext) (simp add: dict_lookup_None_iff)
  with True inv show ?thesis by (auto simp: dictGenericDelete_def dictSize_def)
next
  case False
  from dictFind_spec[OF inv, of key] obtain d1 r where d1: "dictFind d key = Some (d1, r)"
    "dict_inv d1" "dict_mset d1 = dict_mset d" "dtype d1 = dtype d" "iterators d1 = iterators d"
    and r: "case r of None \<Rightarrow> dict_lookup d key = None
            | Some ref \<Rightarrow> ref_ok d1 ref \<and> (\<exists>e. entry_at d1 ref = Some e \<and> key_match d key (de_key e) \<and>
                dict_lookup d key = Some (de_val e))" by blast
  have ty: "type_ok d" "keys_unique d" using inv by (auto simp: dict_inv_def)
  have km: "key_match d1 = key_match d" by (rule key_match_cong[OF d1(4)])
  have look: "dict_lookup d1 = dict_lookup d" by (rule dict_lookup_cong[OF ty(2) d1(3,4)])
  have ds: "dictSize d1 = dictSize d" using dictSize_mset[OF inv] dictSize_mset[OF d1(2)] d1 by simp
  show ?thesis
  proof (cases r)
    case None
    have "dict_lookup d k = None" if "key_match d key k" for k
      using r None that type_ok_trans[OF ty(1) that] by (auto simp: dict_lookup_None_iff)
    then have "dict_lookup d = (\<lambda>k. if key_match d key k then None else dict_lookup d k)" by auto
    moreover have "dictGenericDelete d key = Some (d1, None)"
      using d1(1) None False
      by (auto simp: dictGenericDelete_def dictFind_def dictSize_def bind_eq_Some_conv)
    ultimately show ?thesis using r None d1 look ds by auto
  next
    case (Some ref)
    obtain t i p where ref: "ref = (t, i, p)" by (cases ref)
    define e where "e = ht_table (get_ht d1 t) ! i ! p"
    have ro: "ref_ok d1 (t, i, p)" and m: "key_match d1 key (de_key e)"
      and lk: "dict_lookup d key = Some (de_val e)"
      using r Some ref entry_at_ref_ok[of d1 t i p] by (auto simp: e_def km)
    define d2 where "d2 = set_ht d1 t ((get_ht d1 t)\<lparr>
       ht_table := (ht_table (get_ht d1 t))[i := unlink_at p (ht_table (get_ht d1 t) ! i)],
       ht_used := ht_used (get_ht d1 t) - 1\<rparr>)"
    note un = unlink_entry_spec[OF d1(2) ro e_def d2_def]
    have "dictGenericDelete d key = Some (d2, Some e)"
      using d1(1) Some ref False
      by (auto simp: dictGenericDelete_def dictFind_def dictSize_def bind_eq_Some_conv d2_def e_def Let_def)
    moreover have "dict_lookup d2 = (\<lambda>k. if key_match d key k then None else dict_lookup d k)"
      using dict_lookup_removed[OF d1(2) un(1,2,4) m] unfolding km look .
    moreover have "dictSize d2 = dictSize d - 1"
      using dictSize_mset[OF un(1)] dictSize_mset[OF d1(2)] ds un(4) by simp
    ultimately show ?thesis using un d1 lk by auto
  qed
qed

section \<open>Progress of rehashing\<close>

lemma skip_empty_progress:
  "skip_empty t idx ev = Some (idx', ev', out) \<Longrightarrow> idx \<le> idx' \<and> (out \<longrightarrow> idx < idx')"
proof (induction t idx ev rule: skip_empty.induct)
  case (1 t idx ev)
  then show ?case by (subst (asm) (2) skip_empty.simps) (auto split: if_splits)
qed

lemma move_chain_frame:
  "move_chain d es = Some d' \<Longrightarrow> rehashidx d' = rehashidx d \<and> ht_size (ht0 d') = ht_size (ht0 d)"
  by (induction es arbitrary: d) (fastforce simp: Let_def bind_eq_Some_conv)+

lemma rehash_loop_progress:
  assumes "rehash_loop d n ev = Some (d', out)" and "0 \<le> rehashidx d"
  shows "rehashidx d \<le> rehashidx d' \<and> ht_size (ht0 d') = ht_size (ht0 d) \<and>
    (0 < n \<longrightarrow> ht_used (ht0 d) \<noteq> 0 \<longrightarrow> rehashidx d < rehashidx d')"
  using assms
proof (induction n arbitrary: d ev)
  case (Suc n)
  show ?case
  proof (cases "ht_used (ht0 d) = 0")
    case False
    with Suc.prems(1) obtain idx ev' o' where
      sk: "skip_empty (ht_table (ht0 d)) (nat (rehashidx d)) ev = Some (idx, ev', o')"
      by (auto simp: bind_eq_Some_conv split: if_splits)
    note ge = skip_empty_progress[OF sk]
    show ?thesis
    proof (cases o')
      case True
      with Suc.prems False sk ge show ?thesis by (auto split: if_splits)
    next
      case no: False
      with Suc.prems(1) False sk obtain d2 where
        mv: "move_chain (d\<lparr>rehashidx := int idx\<rparr>) (ht_table (ht0 d) ! idx) = Some d2"
        and rl: "rehash_loop (d2\<lparr>ht0 := (ht0 d2)\<lparr>ht_table := (ht_table (ht0 d2))[idx := []]\<rparr>,
                        rehashidx := int idx + 1\<rparr>) n ev' = Some (d', out)"
        by (auto simp: bind_eq_Some_conv split: if_splits)
      with Suc.IH[OF rl] move_chain_frame[OF mv] ge Suc.prems(2) show ?thesis by auto
    qed
  qed (use Suc.prems in auto)
qed auto

lemma dictRehash_progress:
  assumes inv: "dict_inv d" and eq: "dictRehash d n = Some (d', True)" and n: "0 < n"
  shows "dictIsRehashing d \<and> dictIsRehashing d' \<and> ht_size (ht0 d') = ht_size (ht0 d) \<and>
    rehashidx d < rehashidx d'"
proof -
  from eq have re: "dictIsRehashing d" by (auto simp: dictRehash_def split: if_splits)
  then have ge: "0 \<le> rehashidx d" using inv by (simp add: dict_inv_def dictIsRehashing_def)
  from eq re obtain out where rl: "rehash_loop d n (int n * 10) = Some (d', out)"
    by (auto simp: dictRehash_def bind_eq_Some_conv split: if_splits)
  have "ht_used (ht0 d) \<noteq> 0"
  proof
    assume "ht_used (ht0 d) = 0"
    moreover from this have "rehash_loop d n (int n * 10) = Some (d, False)" using n by (cases n) auto
    ultimately show False using eq re by (simp add: dictRehash_def)
  qed
  with rehash_loop_progress[OF rl ge] n ge re show ?thesis by (auto simp: dictIsRehashing_def)
qed

lemma dictRehash_done:
  assumes inv: "dict_inv d" and eq: "dictRehash d n = Some (d', False)"
  shows "\<not> dictIsRehashing d'"
  using eq by (auto simp: dictRehash_def bind_eq_Some_conv dictIsRehashing_def split: if_splits)

lemma rehash_ms_loop_terminates:
  assumes "dict_inv d" and "ht_size (ht0 d) - nat (rehashidx d) \<le> m"
  shows "\<exists>d' r. rehash_ms_loop clock i start ms d k = Some (d', r) \<and> dict_inv d' \<and>
    dict_mset d' = dict_mset d \<and> dtype d' = dtype d \<and>
    ((\<forall>j. clock j - start \<le> ms) \<longrightarrow> \<not> dictIsRehashing d')"
  using assms
proof (induction m arbitrary: d i k)
  case (Suc m)
  from dictRehash_spec[OF Suc.prems(1), of 100] obtain d1 more where d1:
    "dictRehash d 100 = Some (d1, more)" "dict_inv d1" "dict_mset d1 = dict_mset d" "dtype d1 = dtype d" by blast
  show ?case
  proof (cases more)
    case False
    with d1 dictRehash_done[OF Suc.prems(1)] show ?thesis by (subst rehash_ms_loop.simps) auto
  next
    case True
    with dictRehash_progress[OF Suc.prems(1), of 100 d1] d1 have pr: "dictIsRehashing d"
      "ht_size (ht0 d1) = ht_size (ht0 d)" "rehashidx d < rehashidx d1" by auto
    show ?thesis
    proof (cases "clock i - start > ms")
      case stop: True
      then have "\<not> (\<forall>j. clock j - start \<le> ms)" by (meson not_le)
      with stop True d1 show ?thesis by (subst rehash_ms_loop.simps) (simp, blast)
    next
      case cont: False
      have "0 \<le> rehashidx d" "nat (rehashidx d1) \<le> ht_size (ht0 d1)"
        using Suc.prems(1) pr d1(2) by (auto simp: dict_inv_def dictIsRehashing_def split: if_splits)
      then have "ht_size (ht0 d1) - nat (rehashidx d1) \<le> m" using Suc.prems(2) pr by linarith
      from Suc.IH[OF d1(2) this, of "Suc i" "k + 100"] cont True d1 show ?thesis
        by (subst rehash_ms_loop.simps) auto
    qed
  qed
next
  case 0
  from dictRehash_spec[OF "0.prems"(1), of 100] obtain d1 more where d1:
    "dictRehash d 100 = Some (d1, more)" "dict_inv d1" "dict_mset d1 = dict_mset d" "dtype d1 = dtype d" by blast
  have "\<not> more"
  proof
    assume more
    with dictRehash_progress[OF "0.prems"(1), of 100 d1] d1 have pr: "dictIsRehashing d"
      "ht_size (ht0 d1) = ht_size (ht0 d)" "rehashidx d < rehashidx d1" "dictIsRehashing d1" by auto
    with "0.prems" d1(2) show False
      by (auto simp: dict_inv_def dictIsRehashing_def split: if_splits)
  qed
  with d1 dictRehash_done[OF "0.prems"(1)] show ?case by (subst rehash_ms_loop.simps) auto
qed

section \<open>Clearing\<close>

lemma clear_loop_all: "used = length (concat t) \<Longrightarrow> clear_loop t used = concat t"
  by (induction t arbitrary: used) auto

lemma dictEmpty_spec:
  assumes "dict_inv d"
  shows "mset (snd (dictEmpty d)) = dict_mset d" and "dict_inv (fst (dictEmpty d))"
    and "dict_lookup (fst (dictEmpty d)) = (\<lambda>k. None)"
proof -
  have "clear_loop (take (ht_size h) (ht_table h)) (ht_used h) = concat (ht_table h)"
    if "ht_ok (dictHashKey d) h" for h :: "('a, 'b) dictht"
    using that clear_loop_all[of "ht_used h" "ht_table h"] by (simp add: ht_ok_def)
  then show "mset (snd (dictEmpty d)) = dict_mset d"
    using assms by (simp add: dictEmpty_def dictClear_def dict_mset_def dict_inv_def)
  let ?d = "fst (dictEmpty d)"
  have "dtype ?d = dtype d" "ht0 ?d = dictReset" "ht1 ?d = dictReset" "rehashidx ?d = -1"
    by (simp_all add: dictEmpty_def dictClear_def)
  then show "dict_inv ?d" "dict_lookup ?d = (\<lambda>k. None)"
    using assms type_ok_cong[of ?d d]
    by (auto simp: dict_inv_def keys_unique_def dict_mset_def dict_lookup_def dictReset_def ht_ok_def)
qed

section \<open>The dictionary as a map\<close>

lemma dictFetchValue_spec:
  assumes inv: "dict_inv d"
  shows "\<exists>d'. dictFetchValue d key = Some (d', dict_lookup d key) \<and> dict_inv d' \<and> dtype d' = dtype d \<and>
    dict_lookup d' = dict_lookup d \<and> dictSize d' = dictSize d"
proof -
  from dictFind_spec[OF inv, of key] obtain d1 r where d1: "dictFind d key = Some (d1, r)"
    "dict_inv d1" "dict_mset d1 = dict_mset d" "dtype d1 = dtype d"
    and r: "case r of None \<Rightarrow> dict_lookup d key = None
            | Some ref \<Rightarrow> ref_ok d1 ref \<and> (\<exists>e. entry_at d1 ref = Some e \<and> key_match d key (de_key e) \<and>
                dict_lookup d key = Some (de_val e))" by blast
  have "dict_lookup d1 = dict_lookup d"
    by (rule dict_lookup_cong[OF _ d1(3,4)]) (use inv in \<open>simp add: dict_inv_def\<close>)
  moreover have "dictSize d1 = dictSize d" using dictSize_mset[OF inv] dictSize_mset[OF d1(2)] d1 by simp
  ultimately show ?thesis using d1 r by (auto simp: dictFetchValue_def split: option.splits)
qed

lemma dictDelete_spec:
  assumes inv: "dict_inv d"
  shows "\<exists>d'. dictDelete d key = Some (d', if dict_lookup d key = None then DICT_ERR else DICT_OK) \<and>
    dict_inv d' \<and> dtype d' = dtype d \<and>
    dict_lookup d' = (\<lambda>k. if key_match d key k then None else dict_lookup d k) \<and> dictSize d' \<le> dictSize d"
  using dictGenericDelete_spec[OF inv, of key] by (auto simp: dictDelete_def split: option.splits)

text \<open>Types whose keys match by equality and whose values are stored as they are.\<close>

definition plain_type :: "('k, 'v) dict \<Rightarrow> bool" where
  "plain_type d \<longleftrightarrow> (\<forall>a b. key_match d a b = (a = b)) \<and> (\<forall>v. dup_val d v = v)"

lemma plain_type_cong: "dtype d' = dtype d \<Longrightarrow> plain_type d' = plain_type d"
  by (simp add: plain_type_def key_match_def dictCompareKeys_def dup_val_def)

definition dict_del :: "('k, 'v) dict \<Rightarrow> 'k \<Rightarrow> (('k, 'v) dict \<times> bool) option" where
  "dict_del d key = map_option (\<lambda>(d, st). (d, st = DICT_OK)) (dictDelete d key)"

interpretation hm: map_adt "\<lambda>d. dict_inv d \<and> plain_type d" dict_lookup dictSize "2 ^ 62"
    dictFetchValue "dictReplace b" dict_del for b
proof unfold_locales
  fix d :: "('k, 'v) dict" and k v
  assume d: "dict_inv d \<and> plain_type d"
  then have pt: "key_match d a c = (a = c)" "dup_val d w = w" for a c w
    by (simp_all add: plain_type_def)
  obtain m1 where "dictFetchValue d k = Some (m1, dict_lookup d k)" "dict_inv m1" "dtype m1 = dtype d"
      "dict_lookup m1 = dict_lookup d" "dictSize m1 = dictSize d"
    using dictFetchValue_spec[of d k] d by blast
  then show "\<exists>m'. dictFetchValue d k = Some (m', dict_lookup d k) \<and> (dict_inv m' \<and> plain_type m') \<and>
      dict_lookup m' = dict_lookup d \<and> dictSize m' = dictSize d"
    using d plain_type_cong[of m1 d] by blast
  obtain m2 where m2: "dictDelete d k = Some (m2, if dict_lookup d k = None then DICT_ERR else DICT_OK)"
      "dict_inv m2" "dtype m2 = dtype d"
      "dict_lookup m2 = (\<lambda>x. if key_match d k x then None else dict_lookup d x)" "dictSize m2 \<le> dictSize d"
    using dictDelete_spec[of d k] d by blast
  have "dict_lookup m2 = (dict_lookup d)(k := None)" by (rule ext) (simp add: m2(4) pt)
  then show "\<exists>m'. dict_del d k = Some (m', dict_lookup d k \<noteq> None) \<and> (dict_inv m' \<and> plain_type m') \<and>
      dict_lookup m' = (dict_lookup d)(k := None) \<and> dictSize m' \<le> dictSize d"
    using d m2 plain_type_cong[of m2 d] by (intro exI[of _ m2]) (simp add: dict_del_def)
  assume "dictSize d \<le> 2 ^ 62"
  then obtain m3 where m3: "dictReplace b d k v = Some (m3, dict_lookup d k = None)" "dict_inv m3"
      "dtype m3 = dtype d" "dict_lookup m3 = map_put d k v" "dictSize m3 \<le> dictSize d + 1"
    using dictReplace_spec[of d b k v] d by blast
  have "dict_lookup m3 = (dict_lookup d)(k \<mapsto> v)" by (rule ext) (simp add: m3(4) map_put_def pt)
  then show "\<exists>m'. dictReplace b d k v = Some (m', dict_lookup d k = None) \<and> (dict_inv m' \<and> plain_type m') \<and>
      dict_lookup m' = (dict_lookup d)(k \<mapsto> v) \<and> dictSize m' \<le> dictSize d + 1"
    using d m3 plain_type_cong[of m3 d] by (intro exI[of _ m3]) simp
qed

section \<open>Properties\<close>

definition demo_type :: "(nat, nat) dictType" where
  "demo_type = \<lparr>hashFunction = word_of_nat, keyDup = None, valDup = None, keyCompare = None\<rparr>"

lemma demo_match [simp]: "key_match (dictCreate demo_type) a b \<longleftrightarrow> a = b"
  by (simp add: key_match_def dictCompareKeys_def dictCreate_def demo_type_def)

lemma demo_inv: "dict_inv (dictCreate demo_type)" and demo_plain: "plain_type (dictCreate demo_type)"
proof -
  have "dup_key (dictCreate demo_type) a = a" "dup_val (dictCreate demo_type) v = v" for a v
    by (simp_all add: dup_key_def dup_val_def dictCreate_def demo_type_def)
  then show "dict_inv (dictCreate demo_type)" "plain_type (dictCreate demo_type)"
    by (auto simp: type_ok_def plain_type_def intro!: dict_inv_create)
qed

lemma demo_size: "dictSize (dictCreate ty) = 0"
  by (simp add: dictSize_def dictCreate_def dictReset_def)

text \<open>
  C10: Any sequence of lookups, \<open>dictReplace\<close> and \<open>dictDelete\<close> calls on a dictionary, with all the
  expansions and incremental rehashing steps they trigger, returns exactly the replies of a
  finite map, ends in the map's final state and never reads outside a table.
\<close>

theorem dict_run_refines_map:
  assumes "dict_inv d" and "plain_type d" and "dictSize d + length xs \<le> 2 ^ 62"
  shows "\<exists>d'. op_run (op_step dictFetchValue (dictReplace b) dict_del) d xs =
      Some (d', snd (spec_run (dict_lookup d) xs)) \<and>
    dict_inv d' \<and> dict_lookup d' = fst (spec_run (dict_lookup d) xs)"
  using hm.run_refines[of d xs b] assms by auto

theorem dict_run_refines_map_witness:
  "\<exists>d'. op_run (op_step dictFetchValue (dictReplace True) dict_del) (dictCreate demo_type)
      [Put 3 30, Put 7 70, Put 3 31, Get 3, Del 7, Get 7] =
      Some (d', [Flag True, Flag True, Flag False, Value (Some 31), Flag True, Value None]) \<and>
    dict_inv d' \<and> dict_lookup d' 3 = Some 31"
proof -
  let ?xs = "[Put 3 30, Put 7 70, Put 3 31, Get 3, Del 7, Get 7] :: (nat, nat) map_op list"
  have "dictSize (dictCreate demo_type) + length ?xs \<le> 2 ^ 62" by (simp add: demo_size)
  from dict_run_refines_map[OF demo_inv demo_plain this, of True] obtain d' where
    d': "op_run (op_step dictFetchValue (dictReplace True) dict_del) (dictCreate demo_type) ?xs =
      Some (d', snd (spec_run (dict_lookup (dictCreate demo_type)) ?xs))" "dict_inv d'"
      "dict_lookup d' = fst (spec_run (dict_lookup (dictCreate demo_type)) ?xs)" by blast
  have "snd (spec_run (dict_lookup (dictCreate demo_type)) ?xs) =
      [Flag True, Flag True, Flag False, Value (Some 31), Flag True, Value None]"
    by simp
  with d' show ?thesis by (intro exI[of _ d']) simp
qed

text \<open>
  C20: \<open>dictAdd\<close> inserts a key that is not there and reports \<open>DICT_OK\<close>; if a matching key exists it
  reports \<open>DICT_ERR\<close> and every lookup answers as before.
\<close>

theorem dictAdd_inserts_only_new:
  assumes "dict_inv d" and "dictSize d \<le> 2 ^ 62"
  shows "\<exists>d' st. dictAdd b d key v = Some (d', st) \<and> dict_inv d' \<and>
    (st = DICT_OK \<longleftrightarrow> dict_lookup d key = None) \<and>
    (\<forall>k. dict_lookup d' k =
       (if st = DICT_OK \<and> key_match d key k then Some (dup_val d v) else dict_lookup d k)) \<and>
    dictSize d' = dictSize d + (if st = DICT_OK then 1 else 0)"
proof -
  from dictAdd_spec[OF assms, of b key v] obtain d' st where
    "dictAdd b d key v = Some (d', st)" "dict_inv d'"
    "if dict_lookup d key = None
      then st = DICT_OK \<and> dict_lookup d' = map_put d key v \<and> dictSize d' = dictSize d + 1
      else st = DICT_ERR \<and> dict_lookup d' = dict_lookup d \<and> dictSize d' = dictSize d" by blast
  then show ?thesis
    by (intro exI[of _ d'] exI[of _ st]) (simp add: map_put_def split: if_splits)
qed

theorem dictAdd_inserts_only_new_witness:
  "\<exists>d'. dictAdd True (dictCreate demo_type) 5 50 = Some (d', DICT_OK) \<and> dict_inv d' \<and>
    dict_lookup d' 5 = Some 50 \<and> dictSize d' = 1"
  using dictAdd_inserts_only_new[OF demo_inv, of True 5 50] demo_plain
  by (force simp: demo_size plain_type_def)

text \<open>
  C21: \<open>dictDelete\<close> reports \<open>DICT_OK\<close> exactly when a matching key was stored, and removes that key
  and no other, in whichever table it was.
\<close>

theorem dictDelete_removes_exactly:
  assumes "dict_inv d"
  shows "\<exists>d'. dictDelete d key = Some (d', if dict_lookup d key = None then DICT_ERR else DICT_OK) \<and>
    dict_inv d' \<and> (\<forall>k. dict_lookup d' k = (if key_match d key k then None else dict_lookup d k))"
  using dictDelete_spec[OF assms, of key] by auto

theorem dictDelete_removes_exactly_witness:
  "\<exists>d1 d2. dictAdd True (dictCreate demo_type) 5 50 = Some (d1, DICT_OK) \<and>
    dictDelete d1 5 = Some (d2, DICT_OK) \<and> dict_lookup d2 5 = None"
proof -
  from dictAdd_spec[OF demo_inv, of True 5 50] demo_plain obtain d1 where
    d1: "dictAdd True (dictCreate demo_type) 5 50 = Some (d1, DICT_OK)" "dict_inv d1"
      "dict_lookup d1 5 = Some 50"
    by (auto simp: demo_size map_put_def plain_type_def)
  from dictDelete_removes_exactly[OF d1(2), of 5] d1 show ?thesis by (auto simp: key_match_def)
qed


definition demo_rehash :: "(nat, nat) dict" where
  "demo_rehash = fst (dictExpand (fst (dictExpand (dictCreate demo_type) 4)) 16)"

lemma demo_rehash_ok: "dict_inv demo_rehash" "dictIsRehashing demo_rehash"
proof -
  have "dict_inv (fst (dictExpand d sz))" if "dict_inv d" "sz \<le> 2 ^ 63" for d :: "(nat, nat) dict" and sz
    using dictExpand_preserves[OF that(1) prod.collapse[symmetric] that(2)] by blast
  then show "dict_inv demo_rehash" unfolding demo_rehash_def using demo_inv by simp
  show "dictIsRehashing demo_rehash"
    by (simp add: demo_rehash_def dictExpand_def dictCreate_def dictReset_def dictNextPower_def
      LONG_MAX_def DICT_HT_INITIAL_SIZE_def next_power_loop.simps dictIsRehashing_def Let_def)
qed


end
