(* ===== verification/DictScan.thy ===== *)
theory DictScan
  imports Dict
begin

text \<open>
  The stateless cursor iteration \<open>dictScan\<close> of \<open>dict.c\<close>: the cursor is incremented from its high
  bits, so that an iteration stays complete while the table grows or shrinks between calls.
\<close>

section \<open>Bit reversal\<close>

function rev_loop :: "nat \<Rightarrow> u64 \<Rightarrow> u64 \<Rightarrow> u64" where
  "rev_loop s m v =
     (let s = s div 2 in
      if s > 0 then
        let m = m XOR push_bit s m in
        rev_loop s m ((drop_bit s v AND m) OR (push_bit s v AND NOT m))
      else v)"
  by pat_completeness auto
termination
  by (relation "measure (\<lambda>(s, m, v). s)") auto

definition rev64 :: "u64 \<Rightarrow> u64" where
  "rev64 v = rev_loop 64 (NOT 0) v"

definition incr_cursor :: "u64 \<Rightarrow> u64 \<Rightarrow> u64" where
  "incr_cursor m v = rev64 (rev64 (v OR NOT m) + 1)"

section \<open>The scan\<close>

text \<open>
  The inner \<open>do ... while (v & (m0 ^ m1))\<close> over the buckets of the larger table that expand the
  current one. Emitted entries are collected in order, as the callback receives them.
\<close>

partial_function (option) scan_expand ::
    "('k, 'v) dictht \<Rightarrow> u64 \<Rightarrow> u64 \<Rightarrow> u64 \<Rightarrow> ('k, 'v) dictEntry list \<Rightarrow>
       (u64 \<times> ('k, 'v) dictEntry list) option" where
  "scan_expand t1 m0 m1 v out =
     do {
       de \<leftarrow> fetch (ht_table t1) (unat (v AND m1));
       let v' = incr_cursor m1 v;
       if v' AND (m0 XOR m1) = 0 then Some (v', out @ de)
       else scan_expand t1 m0 m1 v' (out @ de)
     }"

definition dictScan ::
    "('k, 'v) dict \<Rightarrow> u64 \<Rightarrow> (u64 \<times> ('k, 'v) dictEntry list) option" where
  "dictScan d v =
     (if dictSize d = 0 then Some (0, [])
      else if \<not> dictIsRehashing d then
        let t0 = ht0 d; m0 = ht_sizemask t0 in
        do {
          de \<leftarrow> fetch (ht_table t0) (unat (v AND m0));
          Some (incr_cursor m0 v, de)
        }
      else
        let (t0, t1) = (if ht_size (ht0 d) > ht_size (ht1 d) then (ht1 d, ht0 d) else (ht0 d, ht1 d));
            m0 = ht_sizemask t0; m1 = ht_sizemask t1 in
        do {
          de \<leftarrow> fetch (ht_table t0) (unat (v AND m0));
          scan_expand t1 m0 m1 v de
        })"

section \<open>Bit reversal reverses the bits\<close>

declare rev_loop.simps [simp del]

definition swap_step :: "nat \<Rightarrow> u64 \<Rightarrow> u64 \<Rightarrow> u64" where
  "swap_step s m v = (drop_bit s v AND m) OR (push_bit s v AND NOT m)"

lemma rev_loop_step:
  "s div 2 > 0 \<Longrightarrow> m XOR push_bit (s div 2) m = m' \<Longrightarrow>
     rev_loop s m v = rev_loop (s div 2) m' (swap_step (s div 2) m' v)"
  by (subst rev_loop.simps) (simp add: Let_def swap_step_def)

lemma rev_loop_1: "rev_loop 1 m v = v"
  by (subst rev_loop.simps) simp

lemma rev64_steps:
  "rev64 v = swap_step 1 0x5555555555555555 (swap_step 2 0x3333333333333333
     (swap_step 4 0x0F0F0F0F0F0F0F0F (swap_step 8 0x00FF00FF00FF00FF
       (swap_step 16 0x0000FFFF0000FFFF (swap_step 32 0x00000000FFFFFFFF v)))))"
proof -
  have "rev64 v = rev_loop 32 0x00000000FFFFFFFF (swap_step 32 0x00000000FFFFFFFF v)" for v
    unfolding rev64_def by (subst rev_loop_step[where m' = "0x00000000FFFFFFFF"]) (simp_all add: mask_eq_exp_minus_1)
  moreover have "rev_loop 32 0x00000000FFFFFFFF v =
      rev_loop 16 0x0000FFFF0000FFFF (swap_step 16 0x0000FFFF0000FFFF v)" for v
    by (subst rev_loop_step[where m' = "0x0000FFFF0000FFFF"]) (simp_all add: mask_eq_exp_minus_1)
  moreover have "rev_loop 16 0x0000FFFF0000FFFF v =
      rev_loop 8 0x00FF00FF00FF00FF (swap_step 8 0x00FF00FF00FF00FF v)" for v
    by (subst rev_loop_step[where m' = "0x00FF00FF00FF00FF"]) (simp_all add: mask_eq_exp_minus_1)
  moreover have "rev_loop 8 0x00FF00FF00FF00FF v =
      rev_loop 4 0x0F0F0F0F0F0F0F0F (swap_step 4 0x0F0F0F0F0F0F0F0F v)" for v
    by (subst rev_loop_step[where m' = "0x0F0F0F0F0F0F0F0F"]) (simp_all add: mask_eq_exp_minus_1)
  moreover have "rev_loop 4 0x0F0F0F0F0F0F0F0F v =
      rev_loop 2 0x3333333333333333 (swap_step 2 0x3333333333333333 v)" for v
    by (subst rev_loop_step[where m' = "0x3333333333333333"]) (simp_all add: mask_eq_exp_minus_1)
  moreover have "rev_loop 2 0x3333333333333333 v =
      rev_loop 1 0x5555555555555555 (swap_step 1 0x5555555555555555 v)" for v
    by (subst rev_loop_step[where m' = "0x5555555555555555"]) (simp_all add: mask_eq_exp_minus_1)
  ultimately show ?thesis by (simp only: rev_loop_1)
qed

definition flip_at :: "nat \<Rightarrow> nat \<Rightarrow> nat" where
  "flip_at s i = (if even (i div s) then i + s else i - s)"

lemmas flip_nums = flip_at_def[of "numeral s" "numeral i" for s i] flip_at_def[of "numeral s" 0 for s]
  flip_at_def[of "numeral s" "Suc n" for s n] flip_at_def[of "Suc 0" "numeral i" for i]
  flip_at_def[of "Suc 0" 0] flip_at_def[of "Suc 0" "Suc 0"]

lemma swap_masks:
  "\<forall>i<64. bit (0x5555555555555555 :: u64) i = even (i div 1)"
  "\<forall>i<64. bit (0x3333333333333333 :: u64) i = even (i div 2)"
  "\<forall>i<64. bit (0x0F0F0F0F0F0F0F0F :: u64) i = even (i div 4)"
  "\<forall>i<64. bit (0x00FF00FF00FF00FF :: u64) i = even (i div 8)"
  "\<forall>i<64. bit (0x0000FFFF0000FFFF :: u64) i = even (i div 16)"
  "\<forall>i<64. bit (0x00000000FFFFFFFF :: u64) i = even (i div 32)"
  unfolding all64 upt64 by simp_all

lemma flip_bounds:
  "\<forall>i<64. flip_at 1 i < 64" "\<forall>i<64. flip_at 2 i < 64" "\<forall>i<64. flip_at 4 i < 64"
  "\<forall>i<64. flip_at 8 i < 64" "\<forall>i<64. flip_at 16 i < 64" "\<forall>i<64. flip_at 32 i < 64"
  "\<forall>i<64. flip_at 32 (flip_at 16 (flip_at 8 (flip_at 4 (flip_at 2 (flip_at 1 i))))) = 63 - i"
  unfolding all64 upt64 by (simp_all add: flip_nums)

lemma bit_swap_step:
  assumes m: "\<forall>i<64. bit m i = even (i div s)" and i: "i < 64"
  shows "bit (swap_step s m v) i = bit v (flip_at s i)"
proof -
  have "s \<le> i" if "odd (i div s)" using that by (metis div_less even_zero not_le)
  with m i show ?thesis by (auto simp: swap_step_def bit_simps flip_at_def add.commute)
qed

lemma bit_rev64: "i < 64 \<Longrightarrow> bit (rev64 v) i = bit v (63 - i)"
  using flip_bounds
  by (simp only: rev64_steps bit_swap_step[OF swap_masks(1)] bit_swap_step[OF swap_masks(2)]
    bit_swap_step[OF swap_masks(3)] bit_swap_step[OF swap_masks(4)] bit_swap_step[OF swap_masks(5)]
    bit_swap_step[OF swap_masks(6)])

lemma rev64_rev64 [simp]: "rev64 (rev64 v) = v"
  by (rule bit_word_eqI) (simp add: bit_rev64 less_imp_le)

lemma rev64_eq_iff: "rev64 a = rev64 b \<longleftrightarrow> a = b"
  by (metis rev64_rev64)

section \<open>The order in which cursors advance\<close>

text \<open>The reversed cursor or hash, read as a number: the scan visits hashes in this order.\<close>

definition pos :: "u64 \<Rightarrow> nat" where
  "pos v = unat (rev64 v)"

lemma pos_less: "pos v < 2 ^ 64"
  by (simp add: pos_def unat_u64_less[simplified])

lemma pos_inj: "pos a = pos b \<longleftrightarrow> a = b"
  by (simp add: pos_def rev64_eq_iff flip: word_eq_iff_unsigned)

lemma rev64_0: "rev64 0 = 0"
  by (rule bit_word_eqI) (simp add: bit_rev64)

lemma pos_0 [simp]: "pos 0 = 0"
  by (simp add: pos_def rev64_0)

lemma pos_eq_0: "pos v = 0 \<longleftrightarrow> v = 0"
  using pos_inj[of v 0] by simp

lemma unat_push_drop: "unat (push_bit k (drop_bit k (w :: u64))) = unat w div 2 ^ k * 2 ^ k"
proof -
  have "unat w div 2 ^ k * 2 ^ k \<le> unat w" by simp
  also have "\<dots> < 2 ^ 64" by (rule unat_u64_less)
  finally have "unat w div 2 ^ k * 2 ^ k < 2 ^ 64" .
  then show ?thesis using unat_u64_less[of w]
    by (simp add: unsigned_push_bit_eq unsigned_drop_bit_eq)
      (simp add: take_bit_eq_mod push_bit_eq_mult drop_bit_eq_div)
qed

lemma rev64_and_mask:
  "n \<le> 64 \<Longrightarrow> rev64 (v AND mask n) = push_bit (64 - n) (drop_bit (64 - n) (rev64 v))"
  by (rule bit_word_eqI) (auto simp: bit_rev64 bit_simps)

lemma pos_and_mask: "n \<le> 64 \<Longrightarrow> pos (v AND mask n) = pos v div 2 ^ (64 - n) * 2 ^ (64 - n)"
  by (simp add: pos_def rev64_and_mask unat_push_drop)

lemma rev64_or_not_mask:
  assumes "n \<le> 64"
  shows "rev64 (v OR NOT (mask n)) = rev64 (v AND mask n) + mask (64 - n)"
proof -
  have "rev64 (v AND mask n) AND mask (64 - n) = 0"
    using assms by (intro bit_word_eqI) (auto simp: bit_rev64 bit_simps)
  then have "rev64 (v AND mask n) + mask (64 - n) = rev64 (v AND mask n) OR mask (64 - n)"
    by (rule disjunctive_add_eq_or)
  also have "\<dots> = rev64 (v OR NOT (mask n))"
    using assms by (intro bit_word_eqI) (auto simp: bit_rev64 bit_simps)
  finally show ?thesis by simp
qed

lemma pos_incr_cursor:
  assumes "n \<le> 64"
  shows "pos (incr_cursor (mask n) v) = ((pos v div 2 ^ (64 - n) + 1) * 2 ^ (64 - n)) mod 2 ^ 64"
proof -
  have "rev64 (incr_cursor (mask n) v) = rev64 (v AND mask n) + (mask (64 - n) + 1)"
    by (simp add: incr_cursor_def rev64_or_not_mask[OF assms] add.assoc)
  also have "mask (64 - n) + 1 = (2 ^ (64 - n) :: u64)" by (simp add: mask_eq_exp_minus_1)
  also have "\<dots> = word_of_nat (2 ^ (64 - n))" by simp
  finally have "pos (incr_cursor (mask n) v) =
      (pos (v AND mask n) + unat (word_of_nat (2 ^ (64 - n)) :: u64)) mod 2 ^ 64"
    by (simp add: pos_def unat_word_ariths)
  also have "\<dots> = (pos (v AND mask n) + 2 ^ (64 - n)) mod 2 ^ 64"
    by (simp only: unat_u64_of_nat mod_add_right_eq)
  finally show ?thesis by (simp add: pos_and_mask[OF assms] algebra_simps)
qed

lemma same_bucket_iff:
  assumes "n \<le> 64"
  shows "h AND mask n = v AND mask n \<longleftrightarrow> pos h div 2 ^ (64 - n) = pos v div 2 ^ (64 - n)"
  using pos_inj[of "h AND mask n" "v AND mask n"] by (simp add: pos_and_mask[OF assms])

lemma pos_aligned_iff: "n \<le> 64 \<Longrightarrow> pos v mod 2 ^ (64 - n) = 0 \<longleftrightarrow> v AND mask n = v"
  using pos_inj[of "v AND mask n" v] pos_and_mask[of n v]
  by (metis add.right_neutral div_mult_mod_eq mod_mult_self2_is_0)

lemma stop_iff_aligned:
  assumes "n0 \<le> n1" and "n1 \<le> 64" and al: "pos v mod 2 ^ (64 - n1) = 0"
  shows "v AND (mask n0 XOR mask n1) = 0 \<longleftrightarrow> pos v mod 2 ^ (64 - n0) = 0"
proof -
  have v1: "v AND mask n1 = v" using pos_aligned_iff[of n1 v] assms by simp
  have "bit v i \<Longrightarrow> i < n1" for i using arg_cong[OF v1, of "\<lambda>x. bit x i"] by (auto simp: bit_simps)
  then have "v AND (mask n0 XOR mask n1) = 0 \<longleftrightarrow> v AND mask n0 = v"
    using assms(1) by (auto simp: bit_eq_iff bit_simps)
  also have "\<dots> \<longleftrightarrow> pos v mod 2 ^ (64 - n0) = 0" using pos_aligned_iff[of n0 v] assms by simp
  finally show ?thesis .
qed

section \<open>What one call emits\<close>

lemma in_bucket_emitted:
  assumes ok: "ht_ok hash ht" and n: "n < 64" "ht_size ht = 2 ^ n" "ht_sizemask ht = mask n"
    and e: "e \<in> set (concat (ht_table ht))"
    and same: "pos (hash (de_key e)) div 2 ^ (64 - n) = pos v div 2 ^ (64 - n)"
  shows "e \<in> set (ht_table ht ! unat (v AND mask n))"
proof -
  have "hash (de_key e) AND mask n = v AND mask n" using same same_bucket_iff[of n] n by simp
  with entry_in_bucket[OF ok e] n show ?thesis by (simp add: ht_index_def)
qed

lemma bucket_fetch:
  fixes v :: u64
  assumes "ht_ok hash ht" and "n < 64" "ht_size ht = 2 ^ n" "ht_sizemask ht = mask n"
  shows "fetch (ht_table ht) (unat (v AND mask n)) = Some (ht_table ht ! unat (v AND mask n))"
    and "set (ht_table ht ! unat (v AND mask n)) \<subseteq> set (concat (ht_table ht))"
proof -
  have i: "unat (v AND mask n) < length (ht_table ht)"
    using assms ht_index_less[OF assms(1), of v] by (simp add: ht_index_def)
  then show "fetch (ht_table ht) (unat (v AND mask n)) = Some (ht_table ht ! unat (v AND mask n))" by simp
  show "set (ht_table ht ! unat (v AND mask n)) \<subseteq> set (concat (ht_table ht))"
    using i by (auto simp: in_set_concat_nth simp del: set_concat)
qed

text \<open>The end of the block of \<open>2 ^ k\<close> positions that contains \<open>p\<close>.\<close>

definition block_end :: "nat \<Rightarrow> nat \<Rightarrow> nat" where
  "block_end k p = (p div 2 ^ k + 1) * 2 ^ k"

lemma block_end_gt: "p < block_end k p"
  by (simp add: block_end_def dividend_less_div_times add.commute)

lemma block_start_le: "block_end k p \<le> p + 2 ^ k"
  by (simp add: block_end_def)

lemma block_end_le: "k \<le> 64 \<Longrightarrow> p < 2 ^ 64 \<Longrightarrow> block_end k p \<le> 2 ^ 64"
proof -
  assume k: "k \<le> 64" and p: "p < 2 ^ 64"
  have eq: "(2::nat) ^ 64 = 2 ^ (64 - k) * 2 ^ k" using k by (simp flip: power_add)
  then have "p div 2 ^ k < 2 ^ (64 - k)" using p by (metis less_mult_imp_div_less)
  then have "p div 2 ^ k + 1 \<le> 2 ^ (64 - k)" by simp
  then show ?thesis unfolding block_end_def eq by (rule mult_le_mono1)
qed

lemma same_block: "p \<le> q \<Longrightarrow> q < block_end k p \<Longrightarrow> q div 2 ^ k = p div 2 ^ k"
  by (metis block_end_def Suc_eq_plus1 div_le_mono le_antisym less_Suc_eq_le less_mult_imp_div_less)

lemma block_end_mono_dvd: "k1 \<le> k0 \<Longrightarrow> block_end k1 p \<le> block_end k0 p"
proof -
  assume le: "k1 \<le> k0"
  have "p < block_end k0 p" by (rule block_end_gt)
  moreover have "(2::nat) ^ k1 dvd block_end k0 p"
    using le by (simp add: block_end_def le_imp_power_dvd dvd_mult)
  then obtain m where m: "block_end k0 p = m * 2 ^ k1" by (metis dvd_def mult.commute)
  ultimately have "p div 2 ^ k1 < m" by (simp add: less_mult_imp_div_less)
  then have "p div 2 ^ k1 + 1 \<le> m" by simp
  then show ?thesis unfolding block_end_def[of k1] m by (rule mult_le_mono1)
qed

lemma scan_expand_spec:
  assumes ok: "ht_ok hash t1" and n1: "n1 < 64" "ht_size t1 = 2 ^ n1" "ht_sizemask t1 = mask n1"
    and le: "n0 \<le> n1"
  shows "\<exists>v' out'. scan_expand t1 (mask n0) (mask n1) v out = Some (v', out') \<and>
    pos v' = block_end (64 - n0) (pos v) mod 2 ^ 64 \<and> set out \<subseteq> set out' \<and>
    set out' \<subseteq> set out \<union> set (concat (ht_table t1)) \<and>
    (\<forall>e\<in>set (concat (ht_table t1)). pos v \<le> pos (hash (de_key e)) \<and>
       pos (hash (de_key e)) < block_end (64 - n0) (pos v) \<longrightarrow> e \<in> set out')"
proof (induction "block_end (64 - n0) (pos v) - pos v" arbitrary: v out rule: less_induct)
  case less
  define k0 k1 where "k0 = 64 - n0" and "k1 = 64 - n1"
  define b where "b = ht_table t1 ! unat (v AND mask n1)"
  define v1 where "v1 = incr_cursor (mask n1) v"
  have fetch: "fetch (ht_table t1) (unat (v AND mask n1)) = Some b"
    and bs: "set b \<subseteq> set (concat (ht_table t1))"
    using bucket_fetch[OF ok n1, of v] by (simp_all add: b_def)
  have p1: "pos v1 = block_end k1 (pos v) mod 2 ^ 64"
    using pos_incr_cursor[of n1 v] n1 by (simp add: v1_def block_end_def k1_def)
  have k: "k1 \<le> k0" using le by (simp add: k0_def k1_def)
  have e1: "e \<in> set b" if "e \<in> set (concat (ht_table t1))" "pos v \<le> pos (hash (de_key e))"
      "pos (hash (de_key e)) < block_end k1 (pos v)" for e
    unfolding b_def using that
    by (intro in_bucket_emitted[OF ok n1]) (auto simp: k1_def intro: same_block)
  have le01: "block_end k1 (pos v) \<le> block_end k0 (pos v)" by (rule block_end_mono_dvd[OF k])
  have le64: "block_end k0 (pos v) \<le> 2 ^ 64" by (rule block_end_le[OF _ pos_less]) (simp add: k0_def)
  have al1: "pos v1 mod 2 ^ k1 = 0"
  proof -
    have "(2::nat) ^ k1 dvd 2 ^ 64" unfolding k1_def by (rule le_imp_power_dvd) simp
    then show ?thesis unfolding p1 by (simp add: block_end_def mod_mod_cancel)
  qed
  have stop: "v1 AND (mask n0 XOR mask n1) = 0 \<longleftrightarrow> pos v1 mod 2 ^ k0 = 0"
    unfolding k0_def using al1 n1 by (intro stop_iff_aligned[OF le]) (auto simp: k1_def)
  show ?case
  proof (cases "block_end k1 (pos v) = block_end k0 (pos v)")
    case True
    have "(2::nat) ^ k0 dvd 2 ^ 64" unfolding k0_def by (rule le_imp_power_dvd) simp
    then have "pos v1 mod 2 ^ k0 = 0" unfolding p1 True by (simp add: block_end_def mod_mod_cancel)
    then have "scan_expand t1 (mask n0) (mask n1) v out = Some (v1, out @ b)"
      using stop by (subst scan_expand.simps) (simp add: fetch v1_def)
    then show ?thesis using True p1 bs e1 by (auto simp: k0_def)
  next
    case False
    then have lt: "block_end k1 (pos v) < block_end k0 (pos v)" using le01 by simp
    then have p1': "pos v1 = block_end k1 (pos v)" using p1 le64 by simp
    have same: "pos v1 div 2 ^ k0 = pos v div 2 ^ k0"
      using lt block_end_gt[of "pos v" k1] p1' by (intro same_block) auto
    then have be: "block_end k0 (pos v1) = block_end k0 (pos v)" by (simp add: block_end_def)
    have "pos v1 mod 2 ^ k0 \<noteq> 0"
    proof
      assume "pos v1 mod 2 ^ k0 = 0"
      then have "pos v1 = pos v div 2 ^ k0 * 2 ^ k0" using same by (metis add.right_neutral div_mult_mod_eq)
      then have "pos v1 \<le> pos v" by simp
      with p1' block_end_gt[of "pos v" k1] show False by simp
    qed
    then have step: "scan_expand t1 (mask n0) (mask n1) v out = scan_expand t1 (mask n0) (mask n1) v1 (out @ b)"
      using stop by (subst scan_expand.simps) (simp add: fetch v1_def)
    have "block_end (64 - n0) (pos v1) - pos v1 < block_end (64 - n0) (pos v) - pos v"
      using be p1' lt block_end_gt[of "pos v" k1] unfolding k0_def[symmetric] by simp
    from less.hyps[OF this, of "out @ b"] obtain v' out' where ih:
      "scan_expand t1 (mask n0) (mask n1) v1 (out @ b) = Some (v', out')"
      "pos v' = block_end k0 (pos v) mod 2 ^ 64" "set (out @ b) \<subseteq> set out'"
      "set out' \<subseteq> set (out @ b) \<union> set (concat (ht_table t1))"
      "\<forall>e\<in>set (concat (ht_table t1)). pos v1 \<le> pos (hash (de_key e)) \<and>
       pos (hash (de_key e)) < block_end k0 (pos v) \<longrightarrow> e \<in> set out'"
      unfolding k0_def[symmetric] be by blast
    have "e \<in> set out'" if "e \<in> set (concat (ht_table t1))" "pos v \<le> pos (hash (de_key e))"
        "pos (hash (de_key e)) < block_end k0 (pos v)" for e
      using that e1[of e] ih(3,5) p1' by (cases "pos (hash (de_key e)) < block_end k1 (pos v)") auto
    with ih step bs show ?thesis unfolding k0_def[symmetric] by (auto simp del: set_concat)
  qed
qed

lemma ht_ok_pow2:
  assumes "ht_ok hash ht" and "ht_size ht > 0"
  obtains n where "n < 64" "ht_size ht = 2 ^ n" "ht_sizemask ht = mask n"
  using assms by (auto simp: ht_ok_def)

text \<open>One call emits every entry between its cursor and the cursor it returns.\<close>

definition scan_covers :: "('k, 'v) dict \<Rightarrow> u64 \<Rightarrow> u64 \<Rightarrow> ('k, 'v) dictEntry list \<Rightarrow> bool" where
  "scan_covers d v v' out \<longleftrightarrow> (\<forall>e\<in>#dict_mset d. pos v \<le> pos (dictHashKey d (de_key e)) \<and>
     (v' = 0 \<or> pos (dictHashKey d (de_key e)) < pos v') \<longrightarrow> e \<in> set out)"

lemma covered_below:
  assumes v': "pos v' = block_end k p mod 2 ^ 64" and h: "v' = 0 \<or> pos h < pos v'"
    and k: "k \<le> 64" and p: "p < 2 ^ 64"
  shows "pos h < block_end k p"
proof (cases "block_end k p < 2 ^ 64")
  case True
  then have "pos v' = block_end k p" using v' by simp
  with h block_end_gt[of p k] show ?thesis by (auto simp: pos_eq_0)
next
  case False
  with block_end_le[OF k p] have "block_end k p = 2 ^ 64" by simp
  then show ?thesis using pos_less[of h] by simp
qed

lemma dictScan_rehash_spec:
  assumes inv: "dict_inv d"
    and t0: "ht_ok (dictHashKey d) t0" "ht_size t0 > 0" and t1: "ht_ok (dictHashKey d) t1" "ht_size t1 > 0"
    and le: "ht_size t0 \<le> ht_size t1"
    and ms: "dict_mset d = mset (concat (ht_table t0)) + mset (concat (ht_table t1))"
  shows "\<exists>v' out. (do { de \<leftarrow> fetch (ht_table t0) (unat (v AND ht_sizemask t0));
        scan_expand t1 (ht_sizemask t0) (ht_sizemask t1) v de }) = Some (v', out) \<and>
      (pos v < pos v' \<or> v' = 0) \<and> set out \<subseteq> set_mset (dict_mset d) \<and> scan_covers d v v' out"
proof -
  obtain n0 where n0: "n0 < 64" "ht_size t0 = 2 ^ n0" "ht_sizemask t0 = mask n0" by (rule ht_ok_pow2[OF t0])
  obtain n1 where n1: "n1 < 64" "ht_size t1 = 2 ^ n1" "ht_sizemask t1 = mask n1" by (rule ht_ok_pow2[OF t1])
  have "n0 \<le> n1" using le n0 n1 by simp
  define b where "b = ht_table t0 ! unat (v AND mask n0)"
  note f = bucket_fetch[OF t0(1) n0, of v, folded b_def]
  from scan_expand_spec[OF t1(1) n1 \<open>n0 \<le> n1\<close>, of v b] obtain v' out where sc:
    "scan_expand t1 (mask n0) (mask n1) v b = Some (v', out)"
    "pos v' = block_end (64 - n0) (pos v) mod 2 ^ 64" "set b \<subseteq> set out"
    "set out \<subseteq> set b \<union> set (concat (ht_table t1))"
    "\<forall>e\<in>set (concat (ht_table t1)). pos v \<le> pos (dictHashKey d (de_key e)) \<and>
       pos (dictHashKey d (de_key e)) < block_end (64 - n0) (pos v) \<longrightarrow> e \<in> set out" by blast
  have below: "pos h < block_end (64 - n0) (pos v)" if "v' = 0 \<or> pos h < pos v'" for h
    by (rule covered_below[OF sc(2) that _ pos_less]) simp
  have in0: "e \<in> set b" if "e \<in> set (concat (ht_table t0))" "pos v \<le> pos (dictHashKey d (de_key e))"
      "pos (dictHashKey d (de_key e)) < block_end (64 - n0) (pos v)" for e
    unfolding b_def using that by (intro in_bucket_emitted[OF t0(1) n0]) (auto intro: same_block)
  have "e \<in> set out" if e: "e \<in># dict_mset d" "pos v \<le> pos (dictHashKey d (de_key e))"
      "v' = 0 \<or> pos (dictHashKey d (de_key e)) < pos v'" for e
  proof -
    from e(1) consider "e \<in> set (concat (ht_table t0))" | "e \<in> set (concat (ht_table t1))"
      unfolding ms by (auto simp del: set_concat)
    then show ?thesis using in0[of e] sc(3,5) e(2) below[OF e(3)] by cases blast+
  qed
  then have "scan_covers d v v' out" by (simp add: scan_covers_def)
  moreover have "pos v < pos v' \<or> v' = 0"
  proof (cases "block_end (64 - n0) (pos v) < 2 ^ 64")
    case True
    then show ?thesis using sc(2) block_end_gt[of "pos v" "64 - n0"] by simp
  next
    case False
    with block_end_le[OF _ pos_less, of "64 - n0" v] have "block_end (64 - n0) (pos v) = 2 ^ 64" by simp
    then show ?thesis using sc(2) pos_eq_0[of v'] by simp
  qed
  moreover have "set out \<subseteq> set_mset (dict_mset d)" using sc(4) f(2) unfolding ms by auto
  ultimately show ?thesis using f(1) sc(1) n0 n1 by auto
qed

lemma dictScan_spec:
  assumes inv: "dict_inv d"
  shows "\<exists>v' out. dictScan d v = Some (v', out) \<and> (pos v < pos v' \<or> v' = 0) \<and>
    set out \<subseteq> set_mset (dict_mset d) \<and> scan_covers d v v' out"
proof (cases "dictSize d = 0")
  case True
  with inv have "dict_mset d = {#}" by (simp add: dictSize_mset)
  with True show ?thesis by (simp add: dictScan_def scan_covers_def)
next
  case False
  then have "dict_mset d \<noteq> {#}" using dictSize_mset[OF inv] by auto
  then have sz: "ht_size (ht0 d) > 0" by (rule size0_pos[OF inv])
  have ok: "ht_ok (dictHashKey d) (ht0 d)" "ht_ok (dictHashKey d) (ht1 d)" using inv by (auto simp: dict_inv_def)
  show ?thesis
  proof (cases "dictIsRehashing d")
    case re: True
    then have sz1: "ht_size (ht1 d) > 0" using inv by (auto simp: dict_inv_def dictIsRehashing_def)
    show ?thesis
    proof (cases "ht_size (ht0 d) > ht_size (ht1 d)")
      case True
      with dictScan_rehash_spec[OF inv ok(2) sz1 ok(1) sz, of v] False re show ?thesis
        by (simp add: dictScan_def dict_mset_def union_commute Let_def)
    next
      case le: False
      with dictScan_rehash_spec[OF inv ok(1) sz ok(2) sz1, of v] False re show ?thesis
        by (simp add: dictScan_def dict_mset_def Let_def)
    qed
  next
    case nr: False
    obtain n where n: "n < 64" "ht_size (ht0 d) = 2 ^ n" "ht_sizemask (ht0 d) = mask n"
      by (rule ht_ok_pow2[OF ok(1) sz])
    have h1: "ht1 d = dictReset" by (rule dict_inv_not_rehashing[OF inv nr])
    define v' where "v' = incr_cursor (mask n) v"
    define b where "b = ht_table (ht0 d) ! unat (v AND mask n)"
    have p: "pos v' = block_end (64 - n) (pos v) mod 2 ^ 64"
      using pos_incr_cursor[of n v] n by (simp add: v'_def block_end_def)
    have "e \<in> set b" if e: "e \<in># dict_mset d" "pos v \<le> pos (dictHashKey d (de_key e))"
      "v' = 0 \<or> pos (dictHashKey d (de_key e)) < pos v'" for e
    proof -
      have "e \<in> set (concat (ht_table (ht0 d)))" using e(1) h1 by (simp add: dict_mset_def dictReset_def)
      moreover have "pos (dictHashKey d (de_key e)) < block_end (64 - n) (pos v)"
        by (rule covered_below[OF p e(3) _ pos_less]) simp
      ultimately show ?thesis unfolding b_def
        using e(2) by (intro in_bucket_emitted[OF ok(1) n]) (auto intro: same_block)
    qed
    then have "scan_covers d v v' b" by (simp add: scan_covers_def)
    moreover have "pos v < pos v' \<or> v' = 0"
      using p block_end_gt[of "pos v" "64 - n"] block_end_le[OF _ pos_less, of "64 - n" v] pos_eq_0[of v']
      by (cases "block_end (64 - n) (pos v) < 2 ^ 64") auto
    ultimately show ?thesis
      using False nr n bucket_fetch[OF ok(1) n, of v, folded b_def] v'_def[symmetric]
      by (auto simp: dictScan_def dict_mset_def Let_def)
  qed
qed

section \<open>A complete iteration\<close>

text \<open>
  An iteration as a client runs it: each call gets the cursor the previous one returned, until 0
  comes back. The dictionary may change in any way between two calls, so each call has its own
  state.
\<close>

fun scan_run :: "('k, 'v) dict list \<Rightarrow> u64 \<Rightarrow> (u64 \<times> ('k, 'v) dictEntry list) option" where
  "scan_run [] v = Some (v, [])"
| "scan_run (d # ds) v =
     do {
       (v', out) \<leftarrow> dictScan d v;
       if v' = 0 then Some (0, out)
       else do { (v'', out') \<leftarrow> scan_run ds v'; Some (v'', out @ out') }
     }"

lemma scan_run_covers:
  assumes "\<forall>d\<in>set ds. dict_inv d \<and> dictHashKey d = hash \<and> (\<exists>e\<in>#dict_mset d. de_key e = key)"
    and "scan_run ds v = Some (0, out)" and "v = 0 \<longrightarrow> ds \<noteq> []" and "pos v \<le> pos (hash key)"
  shows "\<exists>e\<in>set out. de_key e = key"
  using assms
proof (induction ds arbitrary: v out)
  case (Cons d ds)
  from Cons.prems(1) obtain e where d: "dict_inv d" "dictHashKey d = hash" and e: "e \<in># dict_mset d" "de_key e = key"
    by auto
  from dictScan_spec[OF d(1), of v] obtain v' o1 where sc: "dictScan d v = Some (v', o1)"
    "pos v < pos v' \<or> v' = 0" "scan_covers d v v' o1" by blast
  show ?case
  proof (cases "v' = 0 \<or> pos (hash key) < pos v'")
    case True
    then have "e \<in> set o1" using sc(3) e Cons.prems(4) d(2) by (auto simp: scan_covers_def)
    moreover have "set o1 \<subseteq> set out"
      using Cons.prems(2) sc(1) by (auto simp: bind_eq_Some_conv split: if_splits)
    ultimately show ?thesis using e(2) by blast
  next
    case False
    then obtain o2 where r: "scan_run ds v' = Some (0, o2)" "out = o1 @ o2"
      using Cons.prems(2) sc(1) by (auto simp: bind_eq_Some_conv)
    have "\<exists>e\<in>set o2. de_key e = key"
      using Cons.IH[of v' o2] Cons.prems(1) r False by auto
    then show ?thesis using r by auto
  qed
qed auto

text \<open>
  C13: A complete \<open>dictScan\<close> iteration, from cursor 0 until 0 is returned, emits every key that was
  in the dictionary at each call, although the tables may have been expanded, shrunk or partly
  rehashed between the calls.
\<close>

theorem dictScan_complete:
  assumes "ds \<noteq> []"
    and "\<forall>d\<in>set ds. dict_inv d \<and> dictHashKey d = hash \<and> (\<exists>e\<in>#dict_mset d. de_key e = key)"
    and "scan_run ds 0 = Some (0, out)"
  shows "\<exists>e\<in>set out. de_key e = key"
  by (rule scan_run_covers[OF assms(2,3)]) (use assms(1) in simp_all)

definition one_key :: "(nat, nat) dict" where
  "one_key = (dictCreate demo_type)\<lparr>ht0 := \<lparr>ht_table = [[], [\<lparr>de_key = 1, de_val = 10\<rparr>]],
     ht_size = 2, ht_sizemask = 1, ht_used = 1\<rparr>\<rparr>"

lemma one_key_inv: "dict_inv one_key"
proof -
  have "dtype one_key = dtype (dictCreate demo_type)" by (simp add: one_key_def)
  then have ty: "type_ok one_key" using type_ok_cong demo_inv by (auto simp: dict_inv_def)
  have "ht_ok (dictHashKey one_key) (ht0 one_key)"
    unfolding ht_ok_def
    by (auto simp: one_key_def ht_index_def dictHashKey_def dictCreate_def demo_type_def less_Suc_eq
      numeral_2_eq_2 intro!: exI[of _ 1])
  with ty show ?thesis
    by (simp add: dict_inv_def one_key_def dictCreate_def keys_unique_def dict_mset_def dictReset_def
      ht_ok_def)
qed

theorem dictScan_complete_witness:
  "\<exists>out. scan_run [one_key, one_key] 0 = Some (0, out) \<and> (\<exists>e\<in>set out. de_key e = 1)"
proof -
  have r: "rev64 (- 2) = 0x7FFFFFFFFFFFFFFF" "rev64 0x8000000000000000 = 1"
    by (simp_all add: rev64_steps swap_step_def)
  have r1: "rev64 (- 1) = - 1" by (rule bit_word_eqI) (simp add: bit_rev64)
  have "scan_run [one_key, one_key] 0 = Some (0, [\<lparr>de_key = 1, de_val = 10\<rparr>])"
    by (simp add: dictScan_def one_key_def dictSize_def dictCreate_def dictReset_def dictIsRehashing_def
      incr_cursor_def r r1 rev64_0 Let_def)
  with dictScan_complete[of "[one_key, one_key]" "dictHashKey one_key" 1 "[\<lparr>de_key = 1, de_val = 10\<rparr>]"]
  show ?thesis using one_key_inv by (auto simp: one_key_def dict_mset_def dictCreate_def dictReset_def)
qed

end
