(* ===== verification/Set_Interface.thy ===== *)
theory Set_Interface
  imports Prelude
begin

text \<open>
  The contract of a finite set of elements: membership, insertion and removal, the last two with a
  flag that says whether the set changed. A client that runs a sequence of operations through the
  interface gets the replies of a mathematical set.
\<close>

datatype 'a set_op = Member 'a | Insert 'a | Remove 'a

fun set_op_elem :: "'a set_op \<Rightarrow> 'a" where
  "set_op_elem (Member x) = x"
| "set_op_elem (Insert x) = x"
| "set_op_elem (Remove x) = x"

fun set_spec_step :: "'a set_op \<Rightarrow> 'a set \<Rightarrow> 'a set \<times> bool" where
  "set_spec_step (Member x) S = (S, x \<in> S)"
| "set_spec_step (Insert x) S = (insert x S, x \<notin> S)"
| "set_spec_step (Remove x) S = (S - {x}, x \<in> S)"

fun set_spec_run :: "'a set_op list \<Rightarrow> 'a set \<Rightarrow> 'a set \<times> bool list" where
  "set_spec_run [] S = (S, [])"
| "set_spec_run (a # ops) S =
     (let (S, r) = set_spec_step a S; (S, rs) = set_spec_run ops S in (S, r # rs))"

fun set_step ::
    "('s \<Rightarrow> 'a \<Rightarrow> bool option) \<Rightarrow> ('s \<Rightarrow> 'a \<Rightarrow> ('s \<times> bool) option) \<Rightarrow> ('s \<Rightarrow> 'a \<Rightarrow> ('s \<times> bool) option) \<Rightarrow>
     'a set_op \<Rightarrow> 's \<Rightarrow> ('s \<times> bool) option" where
  "set_step mem ins rem (Member x) s = map_option (Pair s) (mem s x)"
| "set_step mem ins rem (Insert x) s = ins s x"
| "set_step mem ins rem (Remove x) s = rem s x"

fun set_run ::
    "('s \<Rightarrow> 'a \<Rightarrow> bool option) \<Rightarrow> ('s \<Rightarrow> 'a \<Rightarrow> ('s \<times> bool) option) \<Rightarrow> ('s \<Rightarrow> 'a \<Rightarrow> ('s \<times> bool) option) \<Rightarrow>
     'a set_op list \<Rightarrow> 's \<Rightarrow> ('s \<times> bool list) option" where
  "set_run mem ins rem [] s = Some (s, [])"
| "set_run mem ins rem (a # ops) s = do {
     (s, r) \<leftarrow> set_step mem ins rem a s;
     (s, rs) \<leftarrow> set_run mem ins rem ops s;
     Some (s, r # rs)
   }"

text \<open>
  The elements come from a carrier, and a representation holds at most \<open>bound\<close> of them before an
  insertion.
\<close>

locale set_adt =
  fixes rep :: "'s \<Rightarrow> 'a set \<Rightarrow> bool"
    and carrier :: "'a set"
    and bound :: nat
    and mem :: "'s \<Rightarrow> 'a \<Rightarrow> bool option"
    and ins :: "'s \<Rightarrow> 'a \<Rightarrow> ('s \<times> bool) option"
    and rem :: "'s \<Rightarrow> 'a \<Rightarrow> ('s \<times> bool) option"
  assumes finite_law: "rep s S \<Longrightarrow> finite S"
    and mem_law: "rep s S \<Longrightarrow> x \<in> carrier \<Longrightarrow> mem s x = Some (x \<in> S)"
    and ins_law: "rep s S \<Longrightarrow> x \<in> carrier \<Longrightarrow> card S < bound \<Longrightarrow>
      \<exists>s'. ins s x = Some (s', x \<notin> S) \<and> rep s' (insert x S)"
    and rem_law: "rep s S \<Longrightarrow> x \<in> carrier \<Longrightarrow> \<exists>s'. rem s x = Some (s', x \<in> S) \<and> rep s' (S - {x})"
begin

lemma set_step_refines:
  assumes "rep s S" "set_op_elem a \<in> carrier" "card S < bound"
  shows "\<exists>s'. set_step mem ins rem a s = Some (s', snd (set_spec_step a S)) \<and> rep s' (fst (set_spec_step a S))"
  using assms mem_law[of s S] ins_law[of s S] rem_law[of s S] by (cases a) auto

lemma card_step: "finite S \<Longrightarrow> card (fst (set_spec_step a S)) \<le> card S + 1"
  by (cases a) (auto simp: card_insert_if card_Diff1_le le_SucI)

lemma set_run_refines:
  assumes "rep s S" "\<forall>a\<in>set ops. set_op_elem a \<in> carrier" "card S + length ops \<le> bound"
  shows "\<exists>s'. set_run mem ins rem ops s = Some (s', snd (set_spec_run ops S)) \<and> rep s' (fst (set_spec_run ops S))"
  using assms
proof (induction ops arbitrary: s S)
  case (Cons a ops)
  obtain s1 where s1: "set_step mem ins rem a s = Some (s1, snd (set_spec_step a S))"
    "rep s1 (fst (set_spec_step a S))"
    using set_step_refines[of s S a] Cons.prems by auto
  have "card (fst (set_spec_step a S)) + length ops \<le> bound"
    using card_step[OF finite_law[OF Cons.prems(1)], of a] Cons.prems(3) by simp
  with Cons.IH[OF s1(2)] Cons.prems(2) s1(1) show ?case by (auto simp: split_beta Let_def)
qed simp

end

end
