(* ===== verification/Intset.thy ===== *)
theory Intset
  imports Set_Interface
begin

text \<open>
  The sorted integer arrays of \<open>intset.c\<close>, at the byte level: a header with the element size and
  the number of elements, and the elements in little-endian order. A byte is \<^const>\<open>None\<close> after a
  reallocation until it is written. Operations return \<^const>\<open>None\<close> for an access outside the
  array or a read of an uninitialised byte. The machine is little-endian, so the byte order
  conversions of the source (\<open>intrev32ifbe\<close> and its relatives) are the identity.
\<close>

section \<open>Elements as bytes\<close>

text \<open>The \<open>w\<close> low bytes of an integer, the least significant first, and the signed value of bytes.\<close>

definition enc_bytes :: "nat \<Rightarrow> int \<Rightarrow> u8 list" where
  "enc_bytes w v = map (\<lambda>i. word_of_int (v div 256 ^ i)) [0..<w]"

fun unsigned_le :: "u8 list \<Rightarrow> int" where
  "unsigned_le [] = 0"
| "unsigned_le (b # bs) = uint b + 256 * unsigned_le bs"

definition signed_le :: "u8 list \<Rightarrow> int" where
  "signed_le bs =
     (let u = unsigned_le bs; m = 256 ^ length bs in if 2 * u < m then u else u - m)"

definition INTSET_ENC_INT16 :: nat where "INTSET_ENC_INT16 = 2"
definition INTSET_ENC_INT32 :: nat where "INTSET_ENC_INT32 = 4"
definition INTSET_ENC_INT64 :: nat where "INTSET_ENC_INT64 = 8"

lemmas intset_encs = INTSET_ENC_INT16_def INTSET_ENC_INT32_def INTSET_ENC_INT64_def

record intset =
  is_encoding :: nat
  is_length :: nat
  is_contents :: "u8 option list"

definition intsetValueEncoding :: "int \<Rightarrow> nat" where
  "intsetValueEncoding v =
     (if v < - (2 ^ 31) \<or> v > 2 ^ 31 - 1 then INTSET_ENC_INT64
      else if v < - (2 ^ 15) \<or> v > 2 ^ 15 - 1 then INTSET_ENC_INT32
      else INTSET_ENC_INT16)"

section \<open>Reading and writing elements\<close>

text \<open>The size of the array type that an encoding selects.\<close>

definition elem_width :: "nat \<Rightarrow> nat" where
  "elem_width enc = (if enc = INTSET_ENC_INT64 then 8 else if enc = INTSET_ENC_INT32 then 4 else 2)"

definition intsetGetEncoded :: "intset \<Rightarrow> nat \<Rightarrow> nat \<Rightarrow> int option" where
  "intsetGetEncoded is pos enc =
     (let w = elem_width enc in
      do {
        b \<leftarrow> read_at (is_contents is) (pos * w) w;
        if None \<in> set b then None else Some (signed_le (map the b))
      })"

definition intsetGet' :: "intset \<Rightarrow> nat \<Rightarrow> int option" where
  "intsetGet' is pos = intsetGetEncoded is pos (is_encoding is)"

definition intsetSet :: "intset \<Rightarrow> nat \<Rightarrow> int \<Rightarrow> intset option" where
  "intsetSet is pos value =
     (let encoding = is_encoding is;
          w = elem_width encoding
      in do {
        c \<leftarrow> write_at (is_contents is) (pos * w) (map Some (enc_bytes w value));
        Some (is\<lparr>is_contents := c\<rparr>)
      })"

definition intsetNew :: intset where
  "intsetNew = \<lparr>is_encoding = INTSET_ENC_INT16, is_length = 0, is_contents = []\<rparr>"

text \<open>The size is computed on 32 bits; reallocation keeps a prefix and adds uninitialised bytes.\<close>

definition intsetResize :: "intset \<Rightarrow> nat \<Rightarrow> intset" where
  "intsetResize is len =
     (let size = (len * is_encoding is) mod 2 ^ 32; c = is_contents is
      in is\<lparr>is_contents := take size c @ replicate (size - length c) None\<rparr>)"

section \<open>Search\<close>

function search_loop :: "intset \<Rightarrow> int \<Rightarrow> int \<Rightarrow> int \<Rightarrow> int \<Rightarrow> int \<Rightarrow> (int \<times> int \<times> int) option" where
  "search_loop is value mn mx mid cur =
     (if mx \<ge> mn then
        let mid = (mn + mx) div 2 in
        do {
          cur \<leftarrow> intsetGet' is (nat mid);
          if value > cur then search_loop is value (mid + 1) mx mid cur
          else if value < cur then search_loop is value mn (mid - 1) mid cur
          else Some (mn, mid, cur)
        }
      else Some (mn, mid, cur))"
  by pat_completeness auto
termination
  by (relation "measure (\<lambda>(is, value, mn, mx, mid, cur). nat (mx - mn + 1))") auto

declare search_loop.simps [simp del]

text \<open>The returned flag and the position.\<close>

definition intsetSearch :: "intset \<Rightarrow> int \<Rightarrow> (bool \<times> nat) option" where
  "intsetSearch is value =
     (if is_length is = 0 then Some (False, 0)
      else do {
        last \<leftarrow> intsetGet' is (is_length is - 1);
        if value > last then Some (False, is_length is)
        else do {
          first \<leftarrow> intsetGet' is 0;
          if value < first then Some (False, 0)
          else do {
            (mn, mid, cur) \<leftarrow> search_loop is value 0 (int (is_length is) - 1) (-1) (-1);
            Some (if value = cur then (True, nat mid) else (False, nat mn))
          }
        }
      })"

section \<open>Insertion and removal\<close>

text \<open>The \<open>while(length--)\<close> loop of the upgrade, from the last element to the first.\<close>

fun upgrade_loop :: "intset \<Rightarrow> nat \<Rightarrow> nat \<Rightarrow> nat \<Rightarrow> intset option" where
  "upgrade_loop is curenc prepend 0 = Some is"
| "upgrade_loop is curenc prepend (Suc len) = do {
     v \<leftarrow> intsetGetEncoded is len curenc;
     is \<leftarrow> intsetSet is (len + prepend) v;
     upgrade_loop is curenc prepend len
   }"

definition intsetUpgradeAndAdd :: "intset \<Rightarrow> int \<Rightarrow> intset option" where
  "intsetUpgradeAndAdd is value =
     (let curenc = is_encoding is;
          newenc = intsetValueEncoding value;
          length = is_length is;
          prepend = (if value < 0 then 1 else 0);
          is = intsetResize (is\<lparr>is_encoding := newenc\<rparr>) (is_length is + 1)
      in do {
        is \<leftarrow> upgrade_loop is curenc prepend length;
        is \<leftarrow> (if prepend = 1 then intsetSet is 0 value else intsetSet is (is_length is) value);
        Some (is\<lparr>is_length := is_length is + 1\<rparr>)
      })"

definition intsetMoveTail :: "intset \<Rightarrow> nat \<Rightarrow> nat \<Rightarrow> intset option" where
  "intsetMoveTail is src dst =
     (let encoding = is_encoding is;
          w = elem_width encoding;
          bytes = ((is_length is - src) * w) mod 2 ^ 32
      in do {
        b \<leftarrow> read_at (is_contents is) (src * w) bytes;
        c \<leftarrow> write_at (is_contents is) (dst * w) b;
        Some (is\<lparr>is_contents := c\<rparr>)
      })"

text \<open>The new set and the \<open>success\<close> flag.\<close>

definition intsetAdd :: "intset \<Rightarrow> int \<Rightarrow> (intset \<times> bool) option" where
  "intsetAdd is value =
     (let valenc = intsetValueEncoding value in
      if valenc > is_encoding is then do { is \<leftarrow> intsetUpgradeAndAdd is value; Some (is, True) }
      else do {
        (found, pos) \<leftarrow> intsetSearch is value;
        if found then Some (is, False)
        else do {
          let is = intsetResize is (is_length is + 1);
          is \<leftarrow> (if pos < is_length is then intsetMoveTail is pos (pos + 1) else Some is);
          is \<leftarrow> intsetSet is pos value;
          Some (is\<lparr>is_length := is_length is + 1\<rparr>, True)
        }
      })"

definition intsetRemove :: "intset \<Rightarrow> int \<Rightarrow> (intset \<times> bool) option" where
  "intsetRemove is value =
     (let valenc = intsetValueEncoding value in
      if valenc \<le> is_encoding is then do {
        (found, pos) \<leftarrow> intsetSearch is value;
        if found then
          let len = is_length is in
          do {
            is \<leftarrow> (if pos < len - 1 then intsetMoveTail is (pos + 1) pos else Some is);
            Some ((intsetResize is (len - 1))\<lparr>is_length := len - 1\<rparr>, True)
          }
        else Some (is, False)
      } else Some (is, False))"

definition intsetFind :: "intset \<Rightarrow> int \<Rightarrow> bool option" where
  "intsetFind is value =
     (if intsetValueEncoding value \<le> is_encoding is then map_option fst (intsetSearch is value) else Some False)"

definition intsetGet :: "intset \<Rightarrow> nat \<Rightarrow> int option option" where
  "intsetGet is pos = (if pos < is_length is then map_option Some (intsetGet' is pos) else Some None)"

definition intsetRandom :: "intset \<Rightarrow> nat \<Rightarrow> int option" where
  "intsetRandom is rand = intsetGet' is (rand mod is_length is)"

definition intsetLen :: "intset \<Rightarrow> nat" where
  "intsetLen is = is_length is"

definition intsetBlobLen :: "intset \<Rightarrow> nat" where
  "intsetBlobLen is = 8 + (is_length is * is_encoding is) mod 2 ^ 32"

section \<open>Byte codec\<close>

definition fits :: "nat \<Rightarrow> int \<Rightarrow> bool" where
  "fits w v \<longleftrightarrow> - (256 ^ w) \<le> 2 * v \<and> 2 * v < 256 ^ w"

lemma enc_bytes_Suc: "enc_bytes (Suc w) v = word_of_int v # enc_bytes w (v div 256)"
  unfolding enc_bytes_def upt_conv_Cons[OF zero_less_Suc] map_Suc_upt[symmetric]
  by (simp add: comp_def zdiv_zmult2_eq)

lemma length_enc_bytes [simp]: "length (enc_bytes w v) = w"
  by (simp add: enc_bytes_def)

lemma unsigned_le_enc_bytes: "unsigned_le (enc_bytes w v) = v mod 256 ^ w"
proof (induction w arbitrary: v)
  case 0
  then show ?case by (simp add: enc_bytes_def)
next
  case (Suc w)
  have "uint (word_of_int v :: u8) = v mod 256" by (simp add: uint_word_of_int)
  then show ?case
    using Suc by (simp add: enc_bytes_Suc zmod_zmult2_eq)
qed

lemma signed_le_enc_bytes:
  assumes "fits w v"
  shows "signed_le (enc_bytes w v) = v"
proof (cases "0 \<le> v")
  case True
  then have "v mod 256 ^ w = v" using assms by (intro mod_pos_pos_trivial) (auto simp: fits_def)
  then show ?thesis using assms True by (simp add: signed_le_def unsigned_le_enc_bytes fits_def Let_def)
next
  case False
  have "(v + 256 ^ w) mod 256 ^ w = v + 256 ^ w"
    using False assms by (intro mod_pos_pos_trivial) (auto simp: fits_def)
  then have "v mod 256 ^ w = v + 256 ^ w" by simp
  then show ?thesis using assms False by (simp add: signed_le_def unsigned_le_enc_bytes fits_def Let_def)
qed

definition block :: "nat \<Rightarrow> int list \<Rightarrow> u8 option list" where
  "block w vs = concat (map (\<lambda>v. map Some (enc_bytes w v)) vs)"

lemma block_simps [simp]:
  "block w [] = []" "block w (v # vs) = map Some (enc_bytes w v) @ block w vs"
  "block w (vs @ us) = block w vs @ block w us"
  by (simp_all add: block_def)

lemma length_block [simp]: "length (block w vs) = length vs * w"
  by (induction vs) simp_all

lemma block_take_drop:
  "i \<le> length vs \<Longrightarrow> take (i * w) (block w vs) = block w (take i vs)"
  "i \<le> length vs \<Longrightarrow> drop (i * w) (block w vs) = block w (drop i vs)"
proof -
  assume i: "i \<le> length vs"
  have eq: "block w vs = block w (take i vs) @ block w (drop i vs)"
    by (simp only: block_simps(3)[symmetric] append_take_drop_id)
  have len: "length (block w (take i vs)) = i * w" using i by simp
  show "take (i * w) (block w vs) = block w (take i vs)"
    by (subst eq) (simp only: len[symmetric] append_eq_conv_conj[THEN iffD1, OF refl] take_append diff_self_eq_0 take_0 append_Nil2 take_all[OF order_refl])
  show "drop (i * w) (block w vs) = block w (drop i vs)"
    by (subst eq) (simp only: len[symmetric] drop_append diff_self_eq_0 drop_0 drop_all[OF order_refl] append_Nil)
qed

section \<open>Representation invariant\<close>

definition is_enc :: "nat \<Rightarrow> bool" where
  "is_enc w \<longleftrightarrow> w = 2 \<or> w = 4 \<or> w = 8"

definition INTSET_MAX :: nat where
  "INTSET_MAX = 2 ^ 28"

definition is_rep :: "intset \<Rightarrow> int list \<Rightarrow> bool" where
  "is_rep is vs \<longleftrightarrow>
     is_enc (is_encoding is) \<and> is_length is = length vs \<and> is_contents is = block (is_encoding is) vs \<and>
     sorted vs \<and> distinct vs \<and> (\<forall>v\<in>set vs. fits (is_encoding is) v) \<and> length vs \<le> INTSET_MAX"

definition int64 :: "int \<Rightarrow> bool" where
  "int64 v \<longleftrightarrow> - (2 ^ 63) \<le> v \<and> v < 2 ^ 63"

lemma value_encoding_fits:
  assumes "int64 v" "is_enc w"
  shows "intsetValueEncoding v \<le> w \<longleftrightarrow> fits w v" "is_enc (intsetValueEncoding v)" "fits (intsetValueEncoding v) v"
  using assms by (auto simp: intsetValueEncoding_def intset_encs fits_def is_enc_def int64_def)

lemma width: "is_enc w \<Longrightarrow> elem_width w = w"
  by (auto simp: is_enc_def intset_encs elem_width_def)

lemma get_encoded_block:
  assumes "is_enc w" "i < length vs" "fits w (vs ! i)"
    "take (length vs * w) (is_contents is) = block w vs" "length vs * w \<le> length (is_contents is)"
  shows "intsetGetEncoded is i w = Some (vs ! i)"
proof -
  have le: "i * w + w \<le> length vs * w"
    using mult_le_mono1[of "Suc i" "length vs" w] assms(2) by (simp add: add.commute)
  have "take w (drop (i * w) (is_contents is)) = take w (drop (i * w) (block w vs))"
    using le by (simp add: assms(4)[symmetric] drop_take)
  also have "\<dots> = map Some (enc_bytes w (vs ! i))"
    using assms(2) by (simp add: block_take_drop Cons_nth_drop_Suc[symmetric])
  finally have "read_at (is_contents is) (i * w) w = Some (map Some (enc_bytes w (vs ! i)))"
    using le assms(5) by simp
  then show ?thesis
    unfolding intsetGetEncoded_def width[OF assms(1)] Let_def
    by (auto simp: signed_le_enc_bytes[OF assms(3)] comp_def)
qed

lemma is_rep_get:
  assumes "is_rep is vs" "i < length vs"
  shows "intsetGet' is i = Some (vs ! i)"
  using assms unfolding intsetGet'_def by (intro get_encoded_block) (auto simp: is_rep_def)

section \<open>The search finds the position\<close>

lemma sorted_strict:
  assumes "sorted vs" "distinct vs" "i < j" "j < length vs"
  shows "vs ! i < (vs ! j :: int)"
  using assms by (metis nth_eq_iff_index_eq order_less_imp_not_less order_less_trans sorted_nth_mono
      less_imp_le order_le_less)

definition found_at :: "int list \<Rightarrow> int \<Rightarrow> nat \<Rightarrow> bool" where
  "found_at vs v p \<longleftrightarrow> p < length vs \<and> vs ! p = v"

definition insert_at :: "int list \<Rightarrow> int \<Rightarrow> nat \<Rightarrow> bool" where
  "insert_at vs v p \<longleftrightarrow> p \<le> length vs \<and> (\<forall>i<p. vs ! i < v) \<and> (\<forall>i. p \<le> i \<and> i < length vs \<longrightarrow> v < vs ! i)"

definition search_result :: "int list \<Rightarrow> int \<Rightarrow> int \<times> int \<times> int \<Rightarrow> bool" where
  "search_result vs v = (\<lambda>(mn, mid, cur).
     if cur = v then 0 \<le> mid \<and> found_at vs v (nat mid) else 0 \<le> mn \<and> insert_at vs v (nat mn))"

lemma search_loop_spec:
  assumes rep: "is_rep is vs" and "0 \<le> mn" "mn \<le> mx + 1" "mx < int (length vs)"
    "\<forall>i<nat mn. vs ! i < v" "\<forall>i. mx < int i \<and> i < length vs \<longrightarrow> v < vs ! i" "mn \<le> mx \<or> cur \<noteq> v"
  shows "\<exists>r. search_loop is v mn mx mid cur = Some r \<and> search_result vs v r"
  using assms(2-)
proof (induction "nat (mx - mn + 1)" arbitrary: mn mx mid cur rule: less_induct)
  case less
  have sd: "sorted vs" "distinct vs" using rep by (simp_all add: is_rep_def)
  show ?case
  proof (cases "mn \<le> mx")
    case False
    with less.prems have "insert_at vs v (nat mn)" "cur \<noteq> v" by (auto simp: insert_at_def)
    with False less.prems(1) show ?thesis by (subst search_loop.simps) (auto simp: search_result_def)
  next
    case True
    define m where "m = (mn + mx) div 2"
    have m: "mn \<le> m" "m \<le> mx" "nat m < length vs" "int (nat m) = m"
      using True less.prems(1,3) by (auto simp: m_def)
    have step: "search_loop is v mn mx mid cur =
        (if v > vs ! nat m then search_loop is v (m + 1) mx m (vs ! nat m)
         else if v < vs ! nat m then search_loop is v mn (m - 1) m (vs ! nat m)
         else Some (mn, m, vs ! nat m))"
      using True is_rep_get[OF rep m(3)] by (subst search_loop.simps) (simp add: m_def Let_def)
    have lo: "vs ! i < vs ! nat m" if "i < nat m" for i using sorted_strict[OF sd that m(3)] .
    have hi: "vs ! nat m < vs ! i" if "m < int i" "i < length vs" for i
      using sorted_strict[OF sd, of "nat m" i] that m by simp
    consider (gt) "vs ! nat m < v" | (lt) "v < vs ! nat m" | (eq) "v = vs ! nat m" by linarith
    then show ?thesis
    proof cases
      case gt
      have "\<forall>i<nat (m + 1). vs ! i < v" using gt lo m less.prems(1) by (auto simp: less_Suc_eq nat_add_distrib dest: order_less_trans)
      then have "\<exists>r. search_loop is v (m + 1) mx m (vs ! nat m) = Some r \<and> search_result vs v r"
        using m less.prems less_imp_neq[OF gt] by (intro less.hyps) auto
      with gt show ?thesis unfolding step by simp
    next
      case lt
      have "\<forall>i. m - 1 < int i \<and> i < length vs \<longrightarrow> v < vs ! i"
      proof (intro allI impI)
        fix i assume "m - 1 < int i \<and> i < length vs"
        then show "v < vs ! i" using lt hi[of i] by (cases "int i = m") auto
      qed
      then have "\<exists>r. search_loop is v mn (m - 1) m (vs ! nat m) = Some r \<and> search_result vs v r"
        using m less.prems less_imp_neq[OF lt] by (intro less.hyps) auto
      moreover have "\<not> vs ! nat m < v" using lt by simp
      ultimately show ?thesis unfolding step using lt by simp
    next
      case eq
      then show ?thesis unfolding step using m less.prems(1) by (auto simp: found_at_def search_result_def)
    qed
  qed
qed

lemma intsetSearch_spec:
  assumes rep: "is_rep is vs"
  shows "\<exists>p. intsetSearch is v = Some (v \<in> set vs, p) \<and> (if v \<in> set vs then found_at vs v p else insert_at vs v p)"
proof -
  have sd: "sorted vs" "distinct vs" and len: "is_length is = length vs" using rep by (simp_all add: is_rep_def)
  have mem: "v \<notin> set vs" if "insert_at vs v p" for p
    using that unfolding insert_at_def in_set_conv_nth by (metis less_irrefl not_le)
  show ?thesis
  proof (cases "vs = []")
    case True
    then show ?thesis using len by (simp add: intsetSearch_def insert_at_def)
  next
    case False
    note g = is_rep_get[OF rep, of "length vs - 1"] is_rep_get[OF rep, of 0]
    consider (above) "v > vs ! (length vs - 1)" | (below) "v \<le> vs ! (length vs - 1)" "v < vs ! 0"
      | (inside) "v \<le> vs ! (length vs - 1)" "vs ! 0 \<le> v" by linarith
    then show ?thesis
    proof cases
      case above
      have "vs ! i < v" if "i < length vs" for i
        using sorted_nth_mono[OF sd(1), of i "length vs - 1"] that above by (cases "length vs") auto
      then have "insert_at vs v (length vs)" by (simp add: insert_at_def)
      then show ?thesis using mem above g False len by (auto simp: intsetSearch_def)
    next
      case below
      have "v < vs ! i" if "i < length vs" for i
        using sorted_nth_mono[OF sd(1), of 0 i] that below by simp
      then have "insert_at vs v 0" by (simp add: insert_at_def)
      then show ?thesis using mem below g False len by (auto simp: intsetSearch_def)
    next
      case inside
      obtain mn mid cur where r: "search_loop is v 0 (int (length vs) - 1) (-1) (-1) = Some (mn, mid, cur)"
        "if cur = v then 0 \<le> mid \<and> found_at vs v (nat mid) else 0 \<le> mn \<and> insert_at vs v (nat mn)"
        using search_loop_spec[OF rep, of 0 "int (length vs) - 1" v "-1" "-1"] False
        by (auto simp: search_result_def)
      then show ?thesis
        using inside g False len mem
        by (cases "cur = v") (auto simp: intsetSearch_def found_at_def in_set_conv_nth)
    qed
  qed
qed

section \<open>Insertion and removal\<close>

lemma insert_at_sorted:
  assumes "insert_at vs v p" "sorted vs" "distinct vs"
  shows "sorted (take p vs @ v # drop p vs)" "distinct (take p vs @ v # drop p vs)"
    "set (take p vs @ v # drop p vs) = insert v (set vs)"
proof -
  have lo: "\<forall>x\<in>set (take p vs). x < v" and hi: "\<forall>x\<in>set (drop p vs). v < x"
    using assms(1) by (auto simp: insert_at_def in_set_conv_nth)
  have sp: "sorted (take p vs @ drop p vs)" "distinct (take p vs @ drop p vs)" using assms by simp_all
  show "sorted (take p vs @ v # drop p vs)"
    using sp(1) lo hi unfolding sorted_append by fastforce
  show "distinct (take p vs @ v # drop p vs)"
    using sp(2) lo hi by (fastforce simp: distinct_append)
  show "set (take p vs @ v # drop p vs) = insert v (set vs)"
    using set_append[of "take p vs" "drop p vs"] by auto
qed

lemma small_size: "is_enc w \<Longrightarrow> n \<le> INTSET_MAX + 1 \<Longrightarrow> n * w < 2 ^ 32"
  by (auto simp: is_enc_def INTSET_MAX_def)

lemma set_gap:
  assumes "is_enc (is_encoding is)" "length X = is_encoding is"
    "is_contents is = block (is_encoding is) as @ X @ block (is_encoding is) bs"
  shows "intsetSet is (length as) v = Some (is\<lparr>is_contents := block (is_encoding is) (as @ v # bs)\<rparr>)"
  using assms by (simp add: intsetSet_def width Let_def)

text \<open>The gap that is opened for a new element, by moving the tail if there is one.\<close>

lemma open_gap:
  assumes rep: "is_rep is vs" and p: "p \<le> length vs"
  shows "\<exists>X. (if p < length vs then intsetMoveTail (intsetResize is (length vs + 1)) p (p + 1)
      else Some (intsetResize is (length vs + 1))) =
    Some (is\<lparr>is_contents := block (is_encoding is) (take p vs) @ X @ block (is_encoding is) (drop p vs)\<rparr>) \<and>
    length X = is_encoding is"
proof -
  let ?w = "is_encoding is"
  have enc: "is_enc ?w" and len: "is_length is = length vs" and con: "is_contents is = block ?w vs"
    and max: "length vs \<le> INTSET_MAX" using rep by (simp_all add: is_rep_def)
  have sz: "(length vs + 1) * ?w < 2 ^ 32" "(length vs - p) * ?w < 2 ^ 32"
    using small_size[OF enc, of "length vs + 1"] small_size[OF enc, of "length vs - p"] max by simp_all
  have res: "intsetResize is (length vs + 1) = is\<lparr>is_contents := block ?w vs @ replicate ?w None\<rparr>"
    using sz(1) by (simp add: intsetResize_def Let_def con)
  show ?thesis
  proof (cases "p < length vs")
    case False
    with p show ?thesis unfolding res by auto
  next
    case True
    let ?c = "block ?w vs @ replicate ?w None"
    have le: "p * ?w + (length vs - p) * ?w = length vs * ?w"
      using p by (simp add: add_mult_distrib[symmetric])
    have rd: "read_at ?c (p * ?w) ((length vs - p) * ?w) = Some (block ?w (drop p vs))"
      using le p by (simp add: block_take_drop)
    have "take ((p + 1) * ?w) ?c = block ?w (take p vs) @ take ?w (block ?w (drop p vs))"
    proof -
      have "take ((p + 1) * ?w) ?c = take (p * ?w + ?w) (block ?w vs)"
        using True mult_le_mono1[of "p + 1" "length vs" ?w] by (simp add: add.commute)
      also have "\<dots> = take (p * ?w) (block ?w vs) @ take ?w (drop (p * ?w) (block ?w vs))" by (rule take_add)
      finally show ?thesis using p by (simp add: block_take_drop)
    qed
    moreover have "length (take ?w (block ?w (drop p vs))) = ?w"
      using True by (cases "length vs - p") auto
    moreover have "(p + 1) * ?w + (length vs - p) * ?w = length ?c" using le by simp
    ultimately have wr: "write_at ?c ((p + 1) * ?w) (block ?w (drop p vs)) =
        Some (block ?w (take p vs) @ take ?w (block ?w (drop p vs)) @ block ?w (drop p vs))"
      by (simp add: write_at_def)
    have "intsetMoveTail (intsetResize is (length vs + 1)) p (p + 1) =
        Some (is\<lparr>is_contents := block ?w (take p vs) @ take ?w (block ?w (drop p vs)) @ block ?w (drop p vs)\<rparr>)"
      using sz(2) rd wr unfolding res intsetMoveTail_def Let_def by (simp add: width[OF enc] len)
    then show ?thesis using True \<open>length (take ?w (block ?w (drop p vs))) = ?w\<close> by auto
  qed
qed

lemma insert_spec:
  assumes rep: "is_rep is vs" and ins: "insert_at vs v p" and fv: "fits (is_encoding is) v"
    and room: "length vs < INTSET_MAX"
  shows "\<exists>is'. do {
      is1 \<leftarrow> (if p < length vs then intsetMoveTail (intsetResize is (length vs + 1)) p (p + 1)
             else Some (intsetResize is (length vs + 1)));
      is2 \<leftarrow> intsetSet is1 p v;
      Some (is2\<lparr>is_length := is_length is2 + 1\<rparr>) } = Some is' \<and> is_rep is' (take p vs @ v # drop p vs)"
proof -
  let ?w = "is_encoding is"
  have p: "p \<le> length vs" using ins by (simp add: insert_at_def)
  have enc: "is_enc ?w" and len: "is_length is = length vs" using rep by (simp_all add: is_rep_def)
  obtain X where X: "(if p < length vs then intsetMoveTail (intsetResize is (length vs + 1)) p (p + 1)
      else Some (intsetResize is (length vs + 1))) =
    Some (is\<lparr>is_contents := block ?w (take p vs) @ X @ block ?w (drop p vs)\<rparr>)" "length X = ?w"
    using open_gap[OF rep p] by auto
  have set: "intsetSet (is\<lparr>is_contents := block ?w (take p vs) @ X @ block ?w (drop p vs)\<rparr>) p v =
      Some (is\<lparr>is_contents := block ?w (take p vs @ v # drop p vs)\<rparr>)"
    using set_gap[of "is\<lparr>is_contents := block ?w (take p vs) @ X @ block ?w (drop p vs)\<rparr>" X "take p vs" "drop p vs" v]
      enc X(2) p by simp
  have "is_rep (is\<lparr>is_contents := block ?w (take p vs @ v # drop p vs), is_length := length vs + 1\<rparr>) (take p vs @ v # drop p vs)"
    using insert_at_sorted[OF ins] rep fv room p
    by (auto simp: is_rep_def dest: in_set_takeD in_set_dropD)
  then show ?thesis using X(1) set len by simp
qed

lemma remove_spec:
  assumes rep: "is_rep is vs" and at: "found_at vs v p"
  shows "\<exists>is'. do {
      is1 \<leftarrow> (if p < length vs - 1 then intsetMoveTail is (p + 1) p else Some is);
      Some ((intsetResize is1 (length vs - 1))\<lparr>is_length := length vs - 1\<rparr>) } = Some is' \<and>
    is_rep is' (take p vs @ drop (Suc p) vs)"
proof -
  let ?w = "is_encoding is"
  have enc: "is_enc ?w" and len: "is_length is = length vs" and con: "is_contents is = block ?w vs"
    and max: "length vs \<le> INTSET_MAX" using rep by (simp_all add: is_rep_def)
  have p: "p < length vs" using at by (simp add: found_at_def)
  have sz: "(length vs - 1) * ?w < 2 ^ 32" "(length vs - (p + 1)) * ?w < 2 ^ 32"
    using small_size[OF enc, of "length vs - 1"] small_size[OF enc, of "length vs - (p + 1)"] max by simp_all
  have le: "(p + 1) * ?w + (length vs - (p + 1)) * ?w = length vs * ?w" "p * ?w \<le> length vs * ?w"
    using p by (simp_all only: add_mult_distrib[symmetric] le_add_diff_inverse Suc_leI Suc_eq_plus1[symmetric])
      (simp_all add: mult_le_mono1)
  obtain Y where Y: "(if p < length vs - 1 then intsetMoveTail is (p + 1) p else Some is) =
      Some (is\<lparr>is_contents := block ?w (take p vs @ drop (p + 1) vs) @ Y\<rparr>)" "length Y = ?w"
  proof (cases "p < length vs - 1")
    case False
    then have "p + 1 = length vs" using p by simp
    then have "block ?w vs = block ?w (take p vs) @ map Some (enc_bytes ?w (vs ! p))"
      using p by (metis append_take_drop_id block_simps(1,2,3) Cons_nth_drop_Suc Suc_eq_plus1 drop_all order_refl append_Nil2)
    with False \<open>p + 1 = length vs\<close> show ?thesis
      by (intro that[of "map Some (enc_bytes ?w (vs ! p))"]) (simp_all add: con[symmetric])
  next
    case True
    have rd: "read_at (block ?w vs) ((p + 1) * ?w) ((length vs - (p + 1)) * ?w) = Some (block ?w (drop (p + 1) vs))"
      using le(1) p block_take_drop(2)[of "p + 1" vs ?w] by (simp add: read_at_def)
    have "write_at (block ?w vs) (p * ?w) (block ?w (drop (p + 1) vs)) =
        Some (block ?w (take p vs) @ block ?w (drop (p + 1) vs) @ drop (p * ?w + (length vs - (p + 1)) * ?w) (block ?w vs))"
      using le p by (simp add: write_at_def block_take_drop(1))
    with True rd sz(2) show ?thesis
      using le(1) p
      by (intro that[of "drop (p * ?w + (length vs - (p + 1)) * ?w) (block ?w vs)"])
        (simp_all add: intsetMoveTail_def Let_def width[OF enc] len con)
  qed
  have l2: "length (take p vs @ drop (p + 1) vs) = length vs - 1" using p by simp
  have res: "intsetResize (is\<lparr>is_contents := block ?w (take p vs @ drop (p + 1) vs) @ Y\<rparr>) (length vs - 1) =
      is\<lparr>is_contents := block ?w (take p vs @ drop (p + 1) vs)\<rparr>"
    using sz(1) l2 unfolding intsetResize_def Let_def by (simp del: block_simps add: Y(2))
  have sp: "sorted (take p vs @ vs ! p # drop (Suc p) vs)" "distinct (take p vs @ vs ! p # drop (Suc p) vs)"
    using rep id_take_nth_drop[OF p] by (simp_all add: is_rep_def)
  have "sorted (take p vs @ drop (p + 1) vs)" "distinct (take p vs @ drop (p + 1) vs)"
    using sp by (auto simp: sorted_wrt_append)
  then have "is_rep (is\<lparr>is_contents := block ?w (take p vs @ drop (p + 1) vs), is_length := length vs - 1\<rparr>)
      (take p vs @ drop (p + 1) vs)"
    using rep l2 unfolding is_rep_def
    by (simp del: block_simps length_append) (auto dest: in_set_takeD in_set_dropD)
  then show ?thesis using Y(1) res by simp
qed

text \<open>
  Upgrading: while the first \<open>k\<close> elements still have the old width, the others have been rewritten
  behind them with the new one.
\<close>

lemma upgrade_loop_spec:
  assumes "is_enc w" "is_enc (is_encoding is)" "w \<le> is_encoding is" "k \<le> length vs" "pre \<le> 1"
    "\<forall>v\<in>set vs. fits w v"
    "length (is_contents is) = (length vs + 1) * is_encoding is"
    "take (k * w) (is_contents is) = block w (take k vs)"
    "take ((length vs - k) * is_encoding is) (drop ((k + pre) * is_encoding is) (is_contents is)) =
       block (is_encoding is) (drop k vs)"
  shows "\<exists>c. upgrade_loop is w pre k = Some (is\<lparr>is_contents := c\<rparr>) \<and>
    length c = (length vs + 1) * is_encoding is \<and>
    take (length vs * is_encoding is) (drop (pre * is_encoding is) c) = block (is_encoding is) vs"
  using assms(2-)
proof (induction k arbitrary: "is")
  case 0
  then show ?case by (intro exI[of _ "is_contents is"]) simp
next
  case (Suc k)
  let ?W = "is_encoding is" and ?c = "is_contents is"
  have k: "k < length vs" using Suc.prems(3) by simp
  have kw: "Suc k * w \<le> length ?c"
    using mult_le_mono[of "Suc k" "length vs + 1" w ?W] Suc.prems(2,3,6) by simp
  have get: "intsetGetEncoded is k w = Some (vs ! k)"
    using get_encoded_block[OF assms(1), of k "take (Suc k) vs" "is"] k kw Suc.prems(5,7) by simp
  let ?b = "map Some (enc_bytes ?W (vs ! k))" and ?o = "(k + pre) * ?W"
  have room: "?o + ?W \<le> length ?c"
    using mult_le_mono1[of "k + pre + 1" "length vs + 1" ?W] k Suc.prems(4,6) by (simp add: add.commute add.left_commute)
  define c where "c = take ?o ?c @ ?b @ drop (?o + ?W) ?c"
  have set: "intsetSet is (k + pre) (vs ! k) = Some (is\<lparr>is_contents := c\<rparr>)"
    using room by (simp add: intsetSet_def Let_def width[OF Suc.prems(1)] c_def)
  have old: "take (k * w) c = block w (take k vs)"
  proof -
    have "k * w \<le> ?o" using mult_le_mono[of k "k + pre" w ?W] Suc.prems(2) by simp
    then have "take (k * w) c = take (k * w) (take (Suc k * w) ?c)"
      using room by (simp add: c_def min_def)
    also have "\<dots> = take (k * w) (block w (take (Suc k) vs))" by (simp only: Suc.prems(7))
    finally show ?thesis using k block_take_drop(1)[of k "take (Suc k) vs" w] by simp
  qed
  have new: "take ((length vs - k) * ?W) (drop ?o c) = block ?W (drop k vs)"
  proof -
    have "drop ?o c = ?b @ drop ((Suc k + pre) * ?W) ?c"
      using room by (simp add: c_def add.commute)
    then have "take ((length vs - k) * ?W) (drop ?o c) =
        ?b @ take ((length vs - Suc k) * ?W) (drop ((Suc k + pre) * ?W) ?c)"
      using k by (simp add: Suc_diff_Suc[symmetric] take_add)
    also have "\<dots> = ?b @ block ?W (drop (Suc k) vs)" by (simp only: Suc.prems(8))
    finally show ?thesis using k by (simp add: Cons_nth_drop_Suc[symmetric])
  qed
  have "length c = length ?c" using room by (simp add: c_def)
  then show ?case
    using Suc.IH[of "is\<lparr>is_contents := c\<rparr>"] Suc.prems k old new get set by simp
qed

lemma fits_mono:
  assumes "fits w v" "w \<le> W"
  shows "fits W v"
proof -
  have "(256 :: int) ^ w \<le> 256 ^ W" using assms(2) by (intro power_increasing) simp_all
  then show ?thesis using assms(1) unfolding fits_def by linarith
qed

lemma outside_range:
  assumes "\<not> fits w v" "fits w x"
  shows "v < 0 \<Longrightarrow> v < x" "0 \<le> v \<Longrightarrow> x < v"
  using assms by (auto simp: fits_def)

lemma intsetUpgradeAndAdd_spec:
  assumes rep: "is_rep is vs" and v: "int64 v" "\<not> fits (is_encoding is) v" and room: "length vs < INTSET_MAX"
  shows "\<exists>is'. intsetUpgradeAndAdd is v = Some is' \<and> is_rep is' (if v < 0 then v # vs else vs @ [v])"
proof -
  let ?w = "is_encoding is"
  define W pre where "W = intsetValueEncoding v" and "pre = (if v < 0 then 1 else 0 :: nat)"
  have enc: "is_enc ?w" and len: "is_length is = length vs" and con: "is_contents is = block ?w vs"
    and fv: "\<forall>x\<in>set vs. fits ?w x" and sd: "sorted vs" "distinct vs"
    using rep by (simp_all add: is_rep_def)
  have pre: "pre \<le> 1" by (simp add: pre_def)
  have W: "is_enc W" "fits W v" "?w \<le> W"
    using value_encoding_fits[OF v(1) enc] v(2) by (auto simp: W_def)
  have "(length vs + 1) * W < 2 ^ 32" using small_size[OF W(1), of "length vs + 1"] room by simp
  moreover have "length vs * ?w \<le> (length vs + 1) * W" using W(3) by (intro mult_le_mono) simp_all
  ultimately have res: "intsetResize (is\<lparr>is_encoding := W\<rparr>) (length vs + 1) =
      is\<lparr>is_encoding := W, is_contents := block ?w vs @ replicate ((length vs + 1) * W - length vs * ?w) None\<rparr>"
    by (simp add: intsetResize_def Let_def con)
  let ?is = "is\<lparr>is_encoding := W, is_contents := block ?w vs @ replicate ((length vs + 1) * W - length vs * ?w) None\<rparr>"
  have lc: "length (is_contents ?is) = (length vs + 1) * W"
    using \<open>length vs * ?w \<le> _\<close> by simp
  obtain c where c: "upgrade_loop ?is ?w pre (length vs) = Some (?is\<lparr>is_contents := c\<rparr>)"
    "length c = (length vs + 1) * W" "take (length vs * W) (drop (pre * W) c) = block W vs"
    using upgrade_loop_spec[OF enc, of ?is "length vs" vs pre] W fv lc pre by auto
  define us where "us = (if v < 0 then v # vs else vs @ [v])"
  have "\<exists>X. c = (if v < 0 then X @ block W vs else block W vs @ X) \<and> length X = W"
  proof (cases "v < 0")
    case True
    then have "c = take W c @ block W vs"
      using c(2,3) append_take_drop_id[of W c] by (simp add: pre_def)
    then show ?thesis using True c(2) by (intro exI[of _ "take W c"]) simp
  next
    case False
    then have "c = block W vs @ drop (length vs * W) c"
      using c(3) append_take_drop_id[of "length vs * W" c] by (simp add: pre_def)
    then show ?thesis using False c(2) by (intro exI[of _ "drop (length vs * W) c"]) simp
  qed
  then obtain X where X: "c = (if v < 0 then X @ block W vs else block W vs @ X)" "length X = W" by auto
  have set: "(if pre = 1 then intsetSet (?is\<lparr>is_contents := c\<rparr>) 0 v
      else intsetSet (?is\<lparr>is_contents := c\<rparr>) (length vs) v) = Some (?is\<lparr>is_contents := block W us\<rparr>)"
    using set_gap[of "?is\<lparr>is_contents := c\<rparr>" X "[]" vs v] set_gap[of "?is\<lparr>is_contents := c\<rparr>" X vs "[]" v] W(1) X
    by (auto simp: pre_def us_def)
  have "intsetUpgradeAndAdd is v = Some (?is\<lparr>is_contents := block W us, is_length := length vs + 1\<rparr>)"
    using c(1) set unfolding intsetUpgradeAndAdd_def Let_def W_def[symmetric] pre_def[symmetric] len res
    by (cases "pre = 1") (simp_all add: len)
  moreover have "is_rep (?is\<lparr>is_contents := block W us, is_length := length vs + 1\<rparr>) us"
  proof -
    have "sorted us" "distinct us"
      using sd fv outside_range[OF v(2)] by (force simp: us_def sorted_append)+
    moreover have "\<forall>x\<in>set us. fits W x" using fv W fits_mono by (auto simp: us_def)
    ultimately show ?thesis using W(1) room by (simp add: is_rep_def us_def)
  qed
  ultimately show ?thesis by (auto simp: us_def)
qed

section \<open>The set contract\<close>

definition is_set_rep :: "intset \<Rightarrow> int set \<Rightarrow> bool" where
  "is_set_rep is S \<longleftrightarrow> (\<exists>vs. is_rep is vs \<and> set vs = S)"

lemma intsetAdd_spec:
  assumes rep: "is_rep is vs" and v: "int64 v" and room: "length vs < INTSET_MAX"
  shows "\<exists>is' us. intsetAdd is v = Some (is', v \<notin> set vs) \<and> is_rep is' us \<and> set us = insert v (set vs)"
proof (cases "fits (is_encoding is) v")
  case False
  have enc: "is_enc (is_encoding is)" "\<forall>x\<in>set vs. fits (is_encoding is) x" using rep by (simp_all add: is_rep_def)
  have "v \<notin> set vs" using False enc(2) by auto
  moreover have "intsetValueEncoding v > is_encoding is"
    using value_encoding_fits(1)[OF v enc(1)] False by simp
  moreover obtain is' where "intsetUpgradeAndAdd is v = Some is'" "is_rep is' (if v < 0 then v # vs else vs @ [v])"
    using intsetUpgradeAndAdd_spec[OF rep v False room] by auto
  ultimately show ?thesis
    by (intro exI[of _ is'] exI[of _ "if v < 0 then v # vs else vs @ [v]"]) (simp add: intsetAdd_def)
next
  case True
  have enc: "is_enc (is_encoding is)" and len: "is_length is = length vs" using rep by (simp_all add: is_rep_def)
  have ve: "\<not> intsetValueEncoding v > is_encoding is" using value_encoding_fits(1)[OF v enc] True by simp
  obtain p where p: "intsetSearch is v = Some (v \<in> set vs, p)"
    "if v \<in> set vs then found_at vs v p else insert_at vs v p" using intsetSearch_spec[OF rep] by blast
  show ?thesis
  proof (cases "v \<in> set vs")
    case mem: True
    then show ?thesis using ve p rep by (intro exI[of _ "is"] exI[of _ vs]) (auto simp: intsetAdd_def)
  next
    case False
    then have ins: "insert_at vs v p" using p(2) by simp
    have flds: "is_length (intsetResize is n) = length vs" for n by (simp add: intsetResize_def Let_def len)
    obtain is' where is': "do {
      is1 \<leftarrow> (if p < length vs then intsetMoveTail (intsetResize is (length vs + 1)) p (p + 1)
             else Some (intsetResize is (length vs + 1)));
      is2 \<leftarrow> intsetSet is1 p v;
      Some (is2\<lparr>is_length := is_length is2 + 1\<rparr>) } = Some is'" "is_rep is' (take p vs @ v # drop p vs)"
      using insert_spec[OF rep ins True room] by blast
    have "intsetAdd is v = Some (is', True)"
      using False ve p(1) is'(1) unfolding intsetAdd_def Let_def len
      by (cases "p < length vs") (auto simp: bind_eq_Some_conv flds)
    moreover have "set (take p vs @ v # drop p vs) = insert v (set vs)"
      using insert_at_sorted(3)[OF ins] rep by (simp add: is_rep_def)
    ultimately show ?thesis using False is'(2) by auto
  qed
qed

lemma intsetRemove_spec:
  assumes rep: "is_rep is vs" and v: "int64 v"
  shows "\<exists>is' us. intsetRemove is v = Some (is', v \<in> set vs) \<and> is_rep is' us \<and> set us = set vs - {v}"
proof -
  have enc: "is_enc (is_encoding is)" and fv: "\<forall>x\<in>set vs. fits (is_encoding is) x" and len: "is_length is = length vs"
    and d: "distinct vs" using rep by (simp_all add: is_rep_def)
  obtain p where p: "intsetSearch is v = Some (v \<in> set vs, p)"
    "if v \<in> set vs then found_at vs v p else insert_at vs v p" using intsetSearch_spec[OF rep] by blast
  show ?thesis
  proof (cases "v \<in> set vs")
    case False
    then show ?thesis using p rep by (intro exI[of _ "is"] exI[of _ vs]) (auto simp: intsetRemove_def Let_def)
  next
    case True
    then have at: "found_at vs v p" and ve: "intsetValueEncoding v \<le> is_encoding is"
      using p(2) fv value_encoding_fits(1)[OF v enc] by auto
    obtain is' where is': "do {
      is1 \<leftarrow> (if p < length vs - 1 then intsetMoveTail is (p + 1) p else Some is);
      Some ((intsetResize is1 (length vs - 1))\<lparr>is_length := length vs - 1\<rparr>) } = Some is'"
      "is_rep is' (take p vs @ drop (Suc p) vs)" using remove_spec[OF rep at] by blast
    have "vs = take p vs @ v # drop (Suc p) vs"
      using at id_take_nth_drop[of p vs] by (auto simp: found_at_def)
    then have "set (take p vs @ drop (Suc p) vs) = set vs - {v}"
      using d by (metis Diff_insert_absorb distinct_append distinct.simps(2) list.set(2) Un_iff set_append
          Un_insert_right disjoint_insert(1))
    moreover have "intsetRemove is v = Some (is', True)"
      using True ve p(1) is'(1) unfolding intsetRemove_def Let_def len
      by (cases "p < length vs - 1") (auto simp: bind_eq_Some_conv)
    ultimately show ?thesis using True is'(2) by auto
  qed
qed

lemma intsetFind_spec:
  assumes rep: "is_rep is vs" and v: "int64 v"
  shows "intsetFind is v = Some (v \<in> set vs)"
proof -
  have enc: "is_enc (is_encoding is)" "\<forall>x\<in>set vs. fits (is_encoding is) x" using rep by (simp_all add: is_rep_def)
  then show ?thesis
    using intsetSearch_spec[OF rep, of v] value_encoding_fits(1)[OF v enc(1)] by (auto simp: intsetFind_def)
qed

interpretation iset: set_adt is_set_rep "{v. int64 v}" INTSET_MAX intsetFind intsetAdd intsetRemove
proof
  fix s S assume "is_set_rep s S"
  then obtain vs where vs: "is_rep s vs" "set vs = S" by (auto simp: is_set_rep_def)
  show "finite S" using vs(2) by auto
  fix x :: int assume x: "x \<in> {v. int64 v}"
  show "intsetFind s x = Some (x \<in> S)" using intsetFind_spec[OF vs(1)] x vs(2) by simp
  show "\<exists>s'. intsetRemove s x = Some (s', x \<in> S) \<and> is_set_rep s' (S - {x})"
    using intsetRemove_spec[OF vs(1), of x] x vs(2) by (auto simp: is_set_rep_def)
  assume "card S < INTSET_MAX"
  then have "length vs < INTSET_MAX" using vs distinct_card[of vs] by (auto simp: is_rep_def)
  then show "\<exists>s'. intsetAdd s x = Some (s', x \<notin> S) \<and> is_set_rep s' (insert x S)"
    using intsetAdd_spec[OF vs(1), of x] x vs(2) by (auto simp: is_set_rep_def)
qed

text \<open>
  C14: any sequence of at most \<open>2 ^ 28\<close> membership tests, insertions and removals of 64-bit integers
  on a new set gives the replies of a mathematical set, across all encoding upgrades, and never
  accesses a byte outside the array or an uninitialised one.
\<close>

theorem intset_run_refines_set:
  assumes "\<forall>a\<in>set ops. int64 (set_op_elem a)" "length ops \<le> INTSET_MAX"
  shows "\<exists>is'. set_run intsetFind intsetAdd intsetRemove ops intsetNew = Some (is', snd (set_spec_run ops {})) \<and>
    is_set_rep is' (fst (set_spec_run ops {}))"
proof -
  have "is_rep intsetNew []" by (simp add: is_rep_def intsetNew_def is_enc_def intset_encs)
  then have "is_set_rep intsetNew {}" by (auto simp: is_set_rep_def)
  then show ?thesis using iset.set_run_refines[of intsetNew "{}" ops] assms by simp
qed

theorem intset_run_refines_set_witness:
  "\<exists>is'. set_run intsetFind intsetAdd intsetRemove [Insert 5, Insert (- 70000), Insert 5, Remove 5, Member 5] intsetNew =
    Some (is', [True, True, False, True, False])"
proof -
  let ?ops = "[Insert 5, Insert (- 70000), Insert 5, Remove 5, Member (5 :: int)]"
  have "snd (set_spec_run ?ops {}) = [True, True, False, True, False]" by simp
  moreover have "\<forall>a\<in>set ?ops. int64 (set_op_elem a)" "length ?ops \<le> INTSET_MAX"
    by (simp_all add: int64_def INTSET_MAX_def)
  ultimately show ?thesis using intset_run_refines_set[of ?ops] by metis
qed



end
