(* ===== verification/Crc.thy ===== *)
theory Crc
  imports Prelude
begin

text \<open>
  The checksums of \<open>crc16.c\<close>, \<open>crc64.c\<close> and \<open>crcspeed.c\<close>, and the hash slot of a key in \<open>cluster.c\<close>.
  The optimised routines (a table lookup per byte, and eight bytes per round) are shown equal to the
  bit-by-bit division they implement. The machine is little-endian.
\<close>

section \<open>CRC16\<close>

definition crc16tab :: "u16 list" where
  "crc16tab =
    [0x0000, 0x1021, 0x2042, 0x3063, 0x4084, 0x50a5, 0x60c6, 0x70e7,
     0x8108, 0x9129, 0xa14a, 0xb16b, 0xc18c, 0xd1ad, 0xe1ce, 0xf1ef,
     0x1231, 0x0210, 0x3273, 0x2252, 0x52b5, 0x4294, 0x72f7, 0x62d6,
     0x9339, 0x8318, 0xb37b, 0xa35a, 0xd3bd, 0xc39c, 0xf3ff, 0xe3de,
     0x2462, 0x3443, 0x0420, 0x1401, 0x64e6, 0x74c7, 0x44a4, 0x5485,
     0xa56a, 0xb54b, 0x8528, 0x9509, 0xe5ee, 0xf5cf, 0xc5ac, 0xd58d,
     0x3653, 0x2672, 0x1611, 0x0630, 0x76d7, 0x66f6, 0x5695, 0x46b4,
     0xb75b, 0xa77a, 0x9719, 0x8738, 0xf7df, 0xe7fe, 0xd79d, 0xc7bc,
     0x48c4, 0x58e5, 0x6886, 0x78a7, 0x0840, 0x1861, 0x2802, 0x3823,
     0xc9cc, 0xd9ed, 0xe98e, 0xf9af, 0x8948, 0x9969, 0xa90a, 0xb92b,
     0x5af5, 0x4ad4, 0x7ab7, 0x6a96, 0x1a71, 0x0a50, 0x3a33, 0x2a12,
     0xdbfd, 0xcbdc, 0xfbbf, 0xeb9e, 0x9b79, 0x8b58, 0xbb3b, 0xab1a,
     0x6ca6, 0x7c87, 0x4ce4, 0x5cc5, 0x2c22, 0x3c03, 0x0c60, 0x1c41,
     0xedae, 0xfd8f, 0xcdec, 0xddcd, 0xad2a, 0xbd0b, 0x8d68, 0x9d49,
     0x7e97, 0x6eb6, 0x5ed5, 0x4ef4, 0x3e13, 0x2e32, 0x1e51, 0x0e70,
     0xff9f, 0xefbe, 0xdfdd, 0xcffc, 0xbf1b, 0xaf3a, 0x9f59, 0x8f78,
     0x9188, 0x81a9, 0xb1ca, 0xa1eb, 0xd10c, 0xc12d, 0xf14e, 0xe16f,
     0x1080, 0x00a1, 0x30c2, 0x20e3, 0x5004, 0x4025, 0x7046, 0x6067,
     0x83b9, 0x9398, 0xa3fb, 0xb3da, 0xc33d, 0xd31c, 0xe37f, 0xf35e,
     0x02b1, 0x1290, 0x22f3, 0x32d2, 0x4235, 0x5214, 0x6277, 0x7256,
     0xb5ea, 0xa5cb, 0x95a8, 0x8589, 0xf56e, 0xe54f, 0xd52c, 0xc50d,
     0x34e2, 0x24c3, 0x14a0, 0x0481, 0x7466, 0x6447, 0x5424, 0x4405,
     0xa7db, 0xb7fa, 0x8799, 0x97b8, 0xe75f, 0xf77e, 0xc71d, 0xd73c,
     0x26d3, 0x36f2, 0x0691, 0x16b0, 0x6657, 0x7676, 0x4615, 0x5634,
     0xd94c, 0xc96d, 0xf90e, 0xe92f, 0x99c8, 0x89e9, 0xb98a, 0xa9ab,
     0x5844, 0x4865, 0x7806, 0x6827, 0x18c0, 0x08e1, 0x3882, 0x28a3,
     0xcb7d, 0xdb5c, 0xeb3f, 0xfb1e, 0x8bf9, 0x9bd8, 0xabbb, 0xbb9a,
     0x4a75, 0x5a54, 0x6a37, 0x7a16, 0x0af1, 0x1ad0, 0x2ab3, 0x3a92,
     0xfd2e, 0xed0f, 0xdd6c, 0xcd4d, 0xbdaa, 0xad8b, 0x9de8, 0x8dc9,
     0x7c26, 0x6c07, 0x5c64, 0x4c45, 0x3ca2, 0x2c83, 0x1ce0, 0x0cc1,
     0xef1f, 0xff3e, 0xcf5d, 0xdf7c, 0xaf9b, 0xbfba, 0x8fd9, 0x9ff8,
     0x6e17, 0x7e36, 0x4e55, 0x5e74, 0x2e93, 0x3eb2, 0x0ed1, 0x1ef0]"

text \<open>The lookup index is masked to eight bits, so it is always inside the table.\<close>

definition crc16_byte :: "u16 \<Rightarrow> u8 \<Rightarrow> u16" where
  "crc16_byte crc b = push_bit 8 crc XOR crc16tab ! unat ((drop_bit 8 crc XOR ucast b) AND 0xFF)"

definition crc16 :: "u8 list \<Rightarrow> u16" where
  "crc16 buf = fold (\<lambda>b crc. crc16_byte crc b) buf 0"

definition keyHashSlot :: "u8 list \<Rightarrow> u16" where
  "keyHashSlot key =
     (let s = length (takeWhile (\<lambda>c. c \<noteq> 123) key) in
      if s = length key then crc16 key AND 0x3FFF
      else
        let e = s + 1 + length (takeWhile (\<lambda>c. c \<noteq> 125) (drop (s + 1) key)) in
        if e = length key \<or> e = s + 1 then crc16 key AND 0x3FFF
        else crc16 (take (e - s - 1) (drop (s + 1) key)) AND 0x3FFF)"

section \<open>CRC64, bit by bit\<close>

definition POLY :: u64 where
  "POLY = 0xad93d23594c935a9"

fun reflect_loop :: "nat \<Rightarrow> u64 \<Rightarrow> u64 \<Rightarrow> u64" where
  "reflect_loop 0 data ret = ret"
| "reflect_loop (Suc n) data ret =
     (let data = drop_bit 1 data in reflect_loop n data (push_bit 1 ret OR (data AND 1)))"

definition crc_reflect :: "u64 \<Rightarrow> nat \<Rightarrow> u64" where
  "crc_reflect data data_len = reflect_loop (data_len - 1) data (data AND 1)"

text \<open>One round of the inner loop, for the bit \<open>i\<close> of the byte.\<close>

definition crc64_bit :: "u8 \<Rightarrow> nat \<Rightarrow> u64 \<Rightarrow> u64" where
  "crc64_bit c i crc =
     (let b = (crc AND 0x8000000000000000 \<noteq> 0); b = (if c AND push_bit i 1 \<noteq> 0 then \<not> b else b);
          crc = push_bit 1 crc
      in if b then crc XOR POLY else crc)"

definition crc64_byte :: "u64 \<Rightarrow> u8 \<Rightarrow> u64" where
  "crc64_byte crc c = fold (crc64_bit c) [0..<8] crc"

definition crc64_bitwise :: "u64 \<Rightarrow> u8 list \<Rightarrow> u64" where
  "crc64_bitwise crc data = crc_reflect (fold (\<lambda>c crc. crc64_byte crc c) data crc) 64 XOR 0"

section \<open>CRC64, eight bytes at a time\<close>

text \<open>The table is a function of the slice and the byte.\<close>

definition crc_next :: "(nat \<Rightarrow> u64) \<Rightarrow> u64 \<Rightarrow> u64" where
  "crc_next t0 crc = t0 (unat (crc AND 0xff)) XOR drop_bit 8 crc"

definition crcspeed64little_init :: "(u64 \<Rightarrow> u8 list \<Rightarrow> u64) \<Rightarrow> nat \<Rightarrow> nat \<Rightarrow> u64" where
  "crcspeed64little_init crcfn k n =
     (let t0 = (\<lambda>n. crcfn 0 [word_of_nat n]) in (crc_next t0 ^^ k) (t0 n))"

definition speed_byte :: "(nat \<Rightarrow> nat \<Rightarrow> u64) \<Rightarrow> u64 \<Rightarrow> u8 \<Rightarrow> u64" where
  "speed_byte little_table crc b = little_table 0 (unat ((crc XOR ucast b) AND 0xff)) XOR drop_bit 8 crc"

text \<open>The 64-bit word at the start of a buffer on a little-endian machine.\<close>

definition load64 :: "u8 list \<Rightarrow> u64" where
  "load64 p = fold (\<lambda>i w. w OR push_bit (8 * i) (ucast (p ! i))) [0..<8] 0"

definition speed_word :: "(nat \<Rightarrow> nat \<Rightarrow> u64) \<Rightarrow> u64 \<Rightarrow> u64 \<Rightarrow> u64" where
  "speed_word little_table crc w =
     (let crc = crc XOR w in
      little_table 7 (unat (crc AND 0xff)) XOR
      little_table 6 (unat (drop_bit 8 crc AND 0xff)) XOR
      little_table 5 (unat (drop_bit 16 crc AND 0xff)) XOR
      little_table 4 (unat (drop_bit 24 crc AND 0xff)) XOR
      little_table 3 (unat (drop_bit 32 crc AND 0xff)) XOR
      little_table 2 (unat (drop_bit 40 crc AND 0xff)) XOR
      little_table 1 (unat (drop_bit 48 crc AND 0xff)) XOR
      little_table 0 (unat (drop_bit 56 crc)))"

fun speed_words :: "(nat \<Rightarrow> nat \<Rightarrow> u64) \<Rightarrow> u64 \<Rightarrow> u8 list \<Rightarrow> u64 \<times> u8 list" where
  "speed_words t crc buf =
     (if length buf \<ge> 8 then speed_words t (speed_word t crc (load64 buf)) (drop 8 buf) else (crc, buf))"

declare speed_words.simps [simp del]

text \<open>\<open>addr\<close> is the address of the buffer: bytes are processed singly up to an aligned one.\<close>

definition crcspeed64little :: "(nat \<Rightarrow> nat \<Rightarrow> u64) \<Rightarrow> u64 \<Rightarrow> nat \<Rightarrow> u8 list \<Rightarrow> u64" where
  "crcspeed64little little_table crc addr buf =
     (let n = (8 - addr mod 8) mod 8;
          crc = fold (\<lambda>b crc. speed_byte little_table crc b) (take n buf) crc;
          (crc, rest) = speed_words little_table crc (drop n buf)
      in fold (\<lambda>b crc. speed_byte little_table crc b) rest crc)"

definition crc64_table :: "nat \<Rightarrow> nat \<Rightarrow> u64" where
  "crc64_table = crcspeed64little_init crc64_bitwise"

definition crc64 :: "u64 \<Rightarrow> nat \<Rightarrow> u8 list \<Rightarrow> u64" where
  "crc64 crc addr s = crcspeed64little crc64_table crc addr s"

section \<open>CRC16 equals the bitwise division\<close>

definition crc16_step :: "u16 \<Rightarrow> u16" where
  "crc16_step x = push_bit 1 x XOR (if bit x 15 then 0x1021 else 0)"

definition crc16_ref :: "u8 list \<Rightarrow> u16" where
  "crc16_ref buf = fold (\<lambda>b crc. (crc16_step ^^ 8) (crc XOR push_bit 8 (ucast b))) buf 0"

lemma crc16_step_linear: "crc16_step (a XOR b) = crc16_step a XOR crc16_step b"
  by (simp add: crc16_step_def bit_xor_iff push_bit_xor) (simp add: xor.assoc xor.left_commute xor.commute)

lemma crc16_steps_linear: "(crc16_step ^^ n) (a XOR b) = (crc16_step ^^ n) a XOR (crc16_step ^^ n) b"
  by (induction n) (simp_all add: crc16_step_linear)

lemma crc16_steps_shift:
  "(\<forall>i. 16 - n \<le> i \<longrightarrow> \<not> bit x i) \<Longrightarrow> n \<le> 16 \<Longrightarrow> (crc16_step ^^ n) x = push_bit n x"
proof (induction n)
  case (Suc n)
  then have "(crc16_step ^^ n) x = push_bit n x" by auto
  moreover have "\<not> bit (push_bit n x) 15"
    using Suc.prems by (auto simp: bit_push_bit_iff)
  ultimately show ?case by (simp add: crc16_step_def[of "push_bit n x"] push_bit_push_bit)
qed simp

lemma crc16tab_doubles:
  "crc16tab = concat (map (\<lambda>t. [crc16_step t, crc16_step t XOR 0x1021]) (take 128 crc16tab))"
  by (simp add: crc16tab_def crc16_step_def)

lemma nth_concat_pairs:
  "k < length xs \<Longrightarrow> concat (map (\<lambda>t. [f t, g t]) xs) ! (2 * k) = f (xs ! k)"
  "k < length xs \<Longrightarrow> concat (map (\<lambda>t. [f t, g t]) xs) ! (2 * k + 1) = g (xs ! k)"
proof (induction xs arbitrary: k)
  case (Cons x xs)
  { case 1 with Cons show ?case by (cases k) auto }
  { case 2 with Cons show ?case by (cases k) auto }
qed simp_all

lemma length_crc16tab: "length crc16tab = 256"
  by (simp add: crc16tab_def)

lemma crc16tab_double:
  assumes "m < 128"
  shows "crc16tab ! (2 * m) = crc16_step (crc16tab ! m)"
    "crc16tab ! (2 * m + 1) = crc16_step (crc16tab ! m) XOR 0x1021"
  using assms nth_concat_pairs[of m "take 128 crc16tab" crc16_step "\<lambda>t. crc16_step t XOR 0x1021"]
  unfolding crc16tab_doubles[symmetric] by (simp_all add: length_crc16tab)

lemma funpow_8: "(f ^^ 8) x = f (f (f (f (f (f (f (f x)))))))"
  by (simp add: numeral_eq_Suc)

lemma crc16_one: "(crc16_step ^^ 8) (push_bit 8 1) = 0x1021"
  unfolding funpow_8 by (simp add: crc16_step_def)

lemma crc16tab_ref: "n < 256 \<Longrightarrow> crc16tab ! n = (crc16_step ^^ 8) (push_bit 8 (word_of_nat n))"
proof (induction n rule: less_induct)
  case (less n)
  show ?case
  proof (cases "n = 0")
    case True
    have "(crc16_step ^^ k) 0 = 0" for k by (induction k) (simp_all add: crc16_step_def)
    with True show ?thesis by (simp add: crc16tab_def)
  next
    case False
    define m where "m = n div 2"
    have m: "m < 128" "m < n" using less.prems False by (auto simp: m_def)
    have "\<not> bit (push_bit 8 (word_of_nat m) :: u16) 15"
      using m(1) by (simp add: bit_push_bit_iff bit_of_nat_iff bit_iff_odd[of m])
    then have st: "crc16_step (push_bit 8 (word_of_nat m)) = push_bit 8 (word_of_nat (2 * m))"
      by (simp add: crc16_step_def push_bit_eq_mult)
    have even: "(crc16_step ^^ 8) (push_bit 8 (word_of_nat (2 * m))) = crc16tab ! (2 * m)"
      unfolding st[symmetric] funpow_swap1[symmetric]
      using less.IH[OF m(2)] m crc16tab_double(1)[OF m(1)] by simp
    show ?thesis
    proof (cases "even n")
      case True
      then have "n = 2 * m" by (simp add: m_def)
      with even show ?thesis by simp
    next
      case False
      then have n: "n = 2 * m + 1" by (simp add: m_def)
      have "(word_of_nat n :: u16) = word_of_nat (2 * m) XOR 1"
        by (simp add: n xor_one_eq)
      then show ?thesis
        using even crc16tab_double[OF m(1)] crc16_one by (simp add: push_bit_xor crc16_steps_linear n)
    qed
  qed
qed

lemma and_ff16: "(x :: u16) AND 0xFF = take_bit 8 x"
  by (simp add: take_bit_eq_mask mask_eq_exp_minus_1)

lemma crc16_split: "(x :: u16) = push_bit 8 (drop_bit 8 x) XOR take_bit 8 x"
  by (rule bit_eqI) (auto simp: bit_simps)

lemma crc16_byte_ref: "crc16_byte crc b = (crc16_step ^^ 8) (crc XOR push_bit 8 (ucast b))"
proof -
  define x :: u16 where "x = crc XOR push_bit 8 (ucast b)"
  define hi :: u16 where "hi = drop_bit 8 crc XOR ucast b"
  have lo: "take_bit 8 x = take_bit 8 crc" by (rule bit_eqI) (auto simp: bit_simps x_def)
  have hi: "drop_bit 8 x = hi" by (rule bit_eqI) (auto simp: bit_simps x_def hi_def dest: bit_imp_le_length)
  have small: "take_bit 8 hi = hi"
    by (rule bit_eqI) (auto simp: bit_simps hi_def dest: bit_imp_le_length)
  have lt: "unat hi < 256"
    using unsigned_take_bit_eq[of 8 hi, where ?'a = nat] take_bit_nat_less_exp[of 8 "unat hi"] by (simp add: small)
  have "(crc16_step ^^ 8) x = (crc16_step ^^ 8) (push_bit 8 hi) XOR (crc16_step ^^ 8) (take_bit 8 crc)"
    by (subst crc16_split) (simp only: crc16_steps_linear lo hi)
  also have "(crc16_step ^^ 8) (push_bit 8 hi) = crc16tab ! unat hi"
    using crc16tab_ref[OF lt] by simp
  also have "(crc16_step ^^ 8) (take_bit 8 crc) = push_bit 8 (take_bit 8 crc)"
    by (rule crc16_steps_shift) (auto simp: bit_simps)
  also have "push_bit 8 (take_bit 8 crc) = push_bit 8 crc"
    by (rule bit_eqI) (auto simp: bit_simps)
  finally show ?thesis
    unfolding crc16_byte_def hi_def[symmetric] x_def[symmetric] and_ff16 small by (simp add: xor.commute)
qed

text \<open>
  C31: the table-driven checksum of any byte string is the remainder computed bit by bit with the
  polynomial \<open>x^16 + x^12 + x^5 + 1\<close>.
\<close>

theorem crc16_equals_bitwise: "crc16 buf = crc16_ref buf"
  by (simp add: crc16_def crc16_ref_def crc16_byte_ref)

section \<open>Hash slots\<close>

text \<open>
  C32: every key has a slot below 16384, and two keys with the same non-empty hash tag (the bytes
  between the first opening brace and the next closing one) have the same slot.
\<close>

theorem keyHashSlot_tags:
  assumes "123 \<notin> set a" "125 \<notin> set tag" "tag \<noteq> []"
  shows "keyHashSlot (a @ 123 # tag @ 125 # b) = crc16_ref tag AND 0x3FFF \<and> unat (keyHashSlot k) < 16384"
proof
  have a: "takeWhile (\<lambda>c. c \<noteq> 123) (a @ 123 # tag @ 125 # b) = a"
    using assms(1) by (induction a) auto
  have t: "takeWhile (\<lambda>c. c \<noteq> 125) (tag @ 125 # b) = tag"
    using assms(2) by (induction tag) auto
  show "keyHashSlot (a @ 123 # tag @ 125 # b) = crc16_ref tag AND 0x3FFF"
    using assms(3) by (simp add: keyHashSlot_def a t Let_def crc16_def crc16_ref_def crc16_byte_ref)
  have "unat (x AND 0x3FFF) < 16384" for x :: u16
    using unat_and_mask[of x 14] by (simp add: mask_eq_exp_minus_1)
  then show "unat (keyHashSlot k) < 16384" by (simp add: keyHashSlot_def Let_def)
qed

theorem keyHashSlot_tags_witness:
  "keyHashSlot [1, 123, 7, 125, 9] = crc16_ref [7] AND 0x3FFF"
  using keyHashSlot_tags[of "[1]" "[7]" "[9]"] by simp

section \<open>CRC64: the reflected register\<close>

lemma bit_reflect_loop:
  "i < 64 \<Longrightarrow> bit (reflect_loop n data ret) i = (if i < n then bit data (n - i) else bit ret (i - n))"
proof (induction n arbitrary: data ret)
  case (Suc n)
  have "bit (push_bit 1 ret OR (drop_bit 1 data AND 1)) (i - n) =
      (if i = n then bit data 1 else bit ret (i - Suc n))" if "n \<le> i"
    using that Suc.prems by (auto simp: bit_simps simp del: push_bit_Suc drop_bit_Suc)
  then show ?case using Suc by (auto simp: Let_def bit_simps Suc_diff_le simp del: push_bit_Suc drop_bit_Suc)
qed simp

lemma bit_crc_reflect: "bit (crc_reflect d 64) n \<longleftrightarrow> n < 64 \<and> bit d (63 - n)"
proof (cases "n < 64")
  case True
  then have "n < 63 \<or> n = 63" by linarith
  with True show ?thesis by (auto simp: crc_reflect_def bit_reflect_loop bit_simps)
next
  case False
  then show ?thesis using bit_imp_le_length[of "crc_reflect d 64" n] by auto
qed

definition RPOLY :: u64 where
  "RPOLY = crc_reflect POLY 64"

definition rstep :: "u64 \<Rightarrow> u64" where
  "rstep x = drop_bit 1 x XOR (if bit x 0 then RPOLY else 0)"

lemma rstep_linear: "rstep (a XOR b) = rstep a XOR rstep b"
  by (simp add: rstep_def bit_xor_iff drop_bit_xor) (simp add: xor.assoc xor.left_commute xor.commute)

lemma rsteps_linear: "(rstep ^^ n) (a XOR b) = (rstep ^^ n) a XOR (rstep ^^ n) b"
  by (induction n) (simp_all add: rstep_linear)

lemma rsteps_shift: "(\<forall>i\<ge>64 - k. \<not> bit y i) \<Longrightarrow> k \<le> 64 \<Longrightarrow> (rstep ^^ k) (push_bit k y) = y"
proof (induction k)
  case (Suc k)
  have "drop_bit 1 (push_bit (Suc k) y) = push_bit k y"
  proof (rule bit_eqI)
    fix n
    have "\<not> bit y (63 - k)" using Suc.prems by simp
    then show "bit (drop_bit 1 (push_bit (Suc k) y)) n = bit (push_bit k y) n" if "possible_bit TYPE(u64) n"
      using that by (cases "n = 63") (auto simp: bit_simps simp del: push_bit_Suc drop_bit_Suc)
  qed
  moreover have "\<not> bit (push_bit (Suc k) y) 0" by (simp add: bit_push_bit_iff del: push_bit_Suc)
  ultimately have "rstep (push_bit (Suc k) y) = push_bit k y"
    by (simp add: rstep_def del: push_bit_Suc drop_bit_Suc)
  then show ?case using Suc by (simp add: funpow_Suc_right del: funpow.simps push_bit_Suc)
qed simp

lemma reflect_bit_step:
  "crc_reflect (crc64_bit c i crc) 64 = rstep (crc_reflect crc 64 XOR of_bool (bit c i))"
proof -
  have msb: "crc AND 0x8000000000000000 \<noteq> 0 \<longleftrightarrow> bit crc 63"
    by (simp add: bit_iff_and_push_bit_not_eq_0)
  have cbit: "c AND push_bit i 1 \<noteq> 0 \<longleftrightarrow> bit c i"
    by (simp add: bit_iff_and_push_bit_not_eq_0)
  have sh: "crc_reflect (push_bit (Suc 0) crc) 64 = drop_bit (Suc 0) (crc_reflect crc 64)"
    by (rule bit_eqI) (auto simp: bit_simps bit_crc_reflect simp del: push_bit_Suc drop_bit_Suc)
  have xr: "crc_reflect (a XOR b) 64 = crc_reflect a 64 XOR crc_reflect b 64" for a b
    by (rule bit_eqI) (auto simp: bit_simps bit_crc_reflect)
  have b0: "bit (crc_reflect crc 64 XOR of_bool b) 0 \<longleftrightarrow> bit crc 63 \<noteq> b" for b
    by (auto simp: bit_simps bit_crc_reflect)
  show ?thesis
    unfolding crc64_bit_def Let_def msb cbit rstep_def b0
    by (cases "bit c i"; cases "bit crc 63") (simp_all add: xr sh RPOLY_def del: push_bit_Suc drop_bit_Suc)
qed

lemma reflect_byte: "crc_reflect (crc64_byte crc c) 64 = (rstep ^^ 8) (crc_reflect crc 64 XOR ucast c)"
proof -
  have "crc_reflect (fold (crc64_bit c) [0..<k] crc) 64 = (rstep ^^ k) (crc_reflect crc 64 XOR take_bit k (ucast c))"
    if "k \<le> 8" for k
    using that
  proof (induction k)
    case (Suc k)
    let ?x = "crc_reflect crc 64" and ?b = "of_bool (bit c k) :: u64"
    have sh: "(rstep ^^ k) (push_bit k ?b) = ?b"
      using Suc.prems by (intro rsteps_shift) (auto simp: bit_simps)
    have split: "take_bit (Suc k) (ucast c) = take_bit k (ucast c) XOR push_bit k ?b"
      using Suc.prems by (intro bit_eqI) (auto simp: bit_simps less_Suc_eq)
    have "crc_reflect (fold (crc64_bit c) [0..<Suc k] crc) 64 =
        rstep ((rstep ^^ k) (?x XOR take_bit k (ucast c)) XOR (rstep ^^ k) (push_bit k ?b))"
      using Suc by (simp add: reflect_bit_step sh del: funpow.simps)
    also have "\<dots> = (rstep ^^ Suc k) (?x XOR take_bit (Suc k) (ucast c))"
      by (simp add: rsteps_linear[symmetric] split xor.assoc)
    finally show ?case .
  qed simp
  from this[of 8] have "crc_reflect (crc64_byte crc c) 64 = (rstep ^^ 8) (crc_reflect crc 64 XOR take_bit 8 (ucast c))"
    by (simp add: crc64_byte_def)
  moreover have "take_bit 8 (ucast c) = (ucast c :: u64)"
    by (rule bit_eqI) (auto simp: bit_simps dest: bit_imp_le_length)
  ultimately show ?thesis by simp
qed

definition ref64 :: "u64 \<Rightarrow> u8 list \<Rightarrow> u64" where
  "ref64 x data = fold (\<lambda>c x. (rstep ^^ 8) (x XOR ucast c)) data x"

lemma crc64_bitwise_ref: "crc64_bitwise crc data = ref64 (crc_reflect crc 64) data"
  unfolding crc64_bitwise_def ref64_def
  by (induction data arbitrary: crc) (simp_all add: reflect_byte)

lemma reflect_0: "crc_reflect 0 64 = 0"
  by (rule bit_eqI) (simp add: bit_crc_reflect)

lemma and_ff64: "(x :: u64) AND 0xff = take_bit 8 x"
  by (simp add: take_bit_eq_mask mask_eq_exp_minus_1)

lemma unat_take_bit_8: "unat (take_bit 8 (x :: u64)) < 256"
  using unsigned_take_bit_eq[of 8 x, where ?'a = nat] take_bit_nat_less_exp[of 8 "unat x"] by simp

lemma ucast_byte: "ucast (ucast (take_bit 8 (x :: u64)) :: u8) = take_bit 8 x"
  by (rule bit_eqI) (auto simp: bit_simps dest: bit_imp_le_length)

lemma rsteps_8: "(rstep ^^ 8) x = (rstep ^^ 8) (take_bit 8 x) XOR drop_bit 8 x"
proof -
  have "x = take_bit 8 x XOR push_bit 8 (drop_bit 8 x)"
    by (rule bit_eqI) (auto simp: bit_simps)
  moreover have "(rstep ^^ 8) (push_bit 8 (drop_bit 8 x)) = drop_bit 8 x"
    by (rule rsteps_shift) (auto simp: bit_simps dest: bit_imp_le_length)
  ultimately show ?thesis using rsteps_linear[of 8 "take_bit 8 x" "push_bit 8 (drop_bit 8 x)"] by simp
qed

lemma table_0: "crc64_bitwise 0 [word_of_nat (unat (take_bit 8 x))] = (rstep ^^ 8) (take_bit 8 x)"
  by (simp add: crc64_bitwise_ref reflect_0 ref64_def ucast_byte)

lemma crc_next_steps: "crc_next (\<lambda>n. crc64_bitwise 0 [word_of_nat n]) x = (rstep ^^ 8) x"
  by (subst rsteps_8) (simp only: crc_next_def and_ff64 table_0)

lemma crc64_table_steps: "crc64_table k (unat (take_bit 8 x)) = (rstep ^^ (8 * (k + 1))) (take_bit 8 x)"
proof -
  have "(crc_next (\<lambda>n. crc64_bitwise 0 [word_of_nat n]) ^^ k) y = (rstep ^^ (8 * k)) y" for y
    by (induction k) (simp_all add: crc_next_steps funpow_add funpow_mult)
  then have "crc64_table k (unat (take_bit 8 x)) =
      (rstep ^^ (8 * k)) (crc64_bitwise 0 [word_of_nat (unat (take_bit 8 x))])"
    by (simp add: crc64_table_def crcspeed64little_init_def Let_def)
  then show ?thesis by (simp only: table_0 funpow_add comp_def distrib_left mult_1_right)
qed

lemma speed_byte_ref: "speed_byte crc64_table crc b = (rstep ^^ 8) (crc XOR ucast b)"
proof -
  have "drop_bit 8 (crc XOR ucast b) = drop_bit 8 crc"
    by (rule bit_eqI) (auto simp: bit_simps dest: bit_imp_le_length)
  then show ?thesis
    using crc64_table_steps[of 0 "crc XOR ucast b"]
    by (subst rsteps_8) (simp only: speed_byte_def and_ff64 mult_1_right add_0)
qed

fun le_word :: "u8 list \<Rightarrow> u64" where
  "le_word [] = 0"
| "le_word (b # bs) = ucast b XOR push_bit 8 (le_word bs)"

lemma bit_le_word: "bit (le_word bs) i \<Longrightarrow> i < 8 * length bs"
  by (induction bs arbitrary: i) (force simp: bit_simps dest: bit_imp_le_length)+

lemma ref64_le_word:
  "length bs \<le> 8 \<Longrightarrow> ref64 x bs = (rstep ^^ (8 * length bs)) (x XOR le_word bs)"
proof (induction bs arbitrary: x)
  case (Cons b bs)
  have sh: "(rstep ^^ 8) (push_bit 8 (le_word bs)) = le_word bs"
    using Cons.prems bit_le_word[of bs] by (intro rsteps_shift) (force simp: bit_simps)+
  have "ref64 x (b # bs) = (rstep ^^ (8 * length bs)) ((rstep ^^ 8) (x XOR ucast b) XOR le_word bs)"
    using Cons by (simp add: ref64_def)
  also have "\<dots> = (rstep ^^ (8 * length bs + 8)) (x XOR ucast b XOR push_bit 8 (le_word bs))"
    by (simp only: funpow_add comp_def rsteps_linear sh xor.assoc)
  finally show ?case by (simp add: xor.assoc add.commute)
qed (simp add: ref64_def)

lemma le_word_bytes:
  "bit (le_word bs) i \<longleftrightarrow> i < 64 \<and> i < 8 * length bs \<and> bit (bs ! (i div 8)) (i mod 8)"
proof (induction bs arbitrary: i)
  case (Cons b bs)
  show ?case
  proof (cases "i < 8")
    case True then show ?thesis by (simp add: bit_simps)
  next
    case False
    then have "i div 8 = Suc ((i - 8) div 8)" "i mod 8 = (i - 8) mod 8"
      by (simp_all add: le_div_geq le_mod_geq)
    moreover have "\<not> bit b i" using False bit_imp_le_length[of b i] by auto
    ultimately show ?thesis using False Cons[of "i - 8"] by (auto simp: bit_simps)
  qed
qed simp

lemma bit_load64: "i < 64 \<Longrightarrow> bit (load64 p) i \<longleftrightarrow> bit (p ! (i div 8)) (i mod 8)"
proof -
  assume i: "i < 64"
  have "bit (fold (\<lambda>i w. w OR push_bit (8 * i) (ucast (p ! i))) [0..<k] (0 :: u64)) i \<longleftrightarrow>
      i div 8 < k \<and> bit (p ! (i div 8)) (i mod 8)" if "k \<le> 8" for k
    using that
  proof (induction k)
    case (Suc k)
    have "bit (push_bit (8 * k) (ucast (p ! k)) :: u64) i \<longleftrightarrow> i div 8 = k \<and> bit (p ! k) (i mod 8)"
    proof (cases "i div 8 = k")
      case True
      then have "i = 8 * k + i mod 8" by presburger
      then have "8 * k \<le> i" "i - 8 * k = i mod 8" "i mod 8 < 64" by presburger+
      then show ?thesis using i True by (simp add: bit_simps)
    next
      case False
      then have "\<not> (8 * k \<le> i \<and> i - 8 * k < 8)" by presburger
      then show ?thesis using False bit_imp_le_length[of "p ! k" "i - 8 * k"] by (auto simp: bit_simps)
    qed
    with Suc show ?case by (auto simp: bit_or_iff less_Suc_eq)
  qed simp
  from this[of 8] i show ?thesis by (simp add: load64_def less_mult_imp_div_less)
qed

lemma load64_le_word: "8 \<le> length p \<Longrightarrow> load64 p = le_word (take 8 p)"
  by (rule bit_eqI) (simp add: bit_load64 le_word_bytes less_mult_imp_div_less)

lemma rsteps_split: "(rstep ^^ (n + 8)) x = (rstep ^^ (n + 8)) (take_bit 8 x) XOR (rstep ^^ n) (drop_bit 8 x)"
  unfolding funpow_add comp_def by (subst rsteps_8) (simp only: rsteps_linear)

lemma speed_word_steps: "speed_word crc64_table crc w = (rstep ^^ 64) (crc XOR w)"
proof -
  let ?y = "crc XOR w"
  have t: "crc64_table k (unat (drop_bit j ?y AND 0xff)) = (rstep ^^ (8 * k + 8)) (take_bit 8 (drop_bit j ?y))" for k j
    using crc64_table_steps[of k "drop_bit j ?y"] by (simp only: and_ff64 distrib_left mult_1_right)
  have "take_bit 8 (drop_bit 56 ?y) = drop_bit 56 ?y"
    by (rule bit_eqI) (auto simp: bit_simps dest: bit_imp_le_length)
  then have t0: "crc64_table 0 (unat (drop_bit 56 ?y)) = (rstep ^^ 8) (drop_bit 56 ?y)"
    using crc64_table_steps[of 0 "drop_bit 56 ?y"] by (simp only: mult_1_right add_0)
  have s: "(rstep ^^ (8 * k + 8)) (take_bit 8 (drop_bit j ?y)) XOR (rstep ^^ (8 * k)) (drop_bit (8 + j) ?y)
      = (rstep ^^ (8 * k + 8)) (drop_bit j ?y)" for k j
    by (subst (2) rsteps_split) (simp add: drop_bit_drop_bit)
  show ?thesis
    unfolding speed_word_def Let_def t0
    using t[of 7 0] t[of 6 8] t[of 5 16] t[of 4 24] t[of 3 32] t[of 2 40] t[of 1 48]
      s[of 7 0] s[of 6 8] s[of 5 16] s[of 4 24] s[of 3 32] s[of 2 40] s[of 1 48]
    by (simp add: xor.assoc)
qed

lemma speed_word_ref:
  assumes "8 \<le> length p" shows "speed_word crc64_table crc (load64 p) = ref64 crc (take 8 p)"
  using assms by (simp add: speed_word_steps load64_le_word ref64_le_word)

lemma ref64_append: "ref64 x (a @ b) = ref64 (ref64 x a) b"
  by (simp add: ref64_def)

lemma speed_bytes_ref: "fold (\<lambda>b crc. speed_byte crc64_table crc b) bs crc = ref64 crc bs"
  by (simp add: ref64_def speed_byte_ref)

lemma speed_words_ref:
  "case speed_words crc64_table crc buf of (crc', rest) \<Rightarrow> ref64 crc' rest = ref64 crc buf"
proof (induction buf arbitrary: crc rule: length_induct)
  case (1 buf)
  show ?case
  proof (cases "8 \<le> length buf")
    case True
    have "ref64 crc buf = ref64 (speed_word crc64_table crc (load64 buf)) (drop 8 buf)"
      using ref64_append[of crc "take 8 buf" "drop 8 buf"] True by (simp add: speed_word_ref)
    with 1 True show ?thesis by (subst speed_words.simps) simp
  qed (simp add: speed_words.simps)
qed

lemma crc64_ref: "crc64 crc addr s = ref64 crc s"
proof -
  let ?n = "(8 - addr mod 8) mod 8"
  show ?thesis
    using speed_words_ref[of "ref64 crc (take ?n s)" "drop ?n s"] ref64_append[of crc "take ?n s" "drop ?n s"]
    by (simp add: crc64_def crcspeed64little_def Let_def speed_bytes_ref split: prod.splits)
qed

text \<open>C18: the checksum that the sliced table computes, eight bytes per step behind an unaligned
prefix of single bytes, is the bit-by-bit polynomial division, whatever the address of the buffer,
and checksums can be continued: the checksum of a concatenation is the checksum of the second part
started from that of the first.\<close>

theorem crc64_equals_bitwise:
  "crc64 0 addr s = crc64_bitwise 0 s \<and> crc64 (crc64 crc addr s) addr' t = crc64 crc addr'' (s @ t)"
  by (simp add: crc64_ref crc64_bitwise_ref reflect_0 ref64_append)

end
