(* ===== verification/Siphash.thy ===== *)
theory Siphash
  imports Crc
begin

text \<open>
  The keyed hash function of the dictionaries, SipHash with one compression and two finalisation
  rounds (\<open>siphash.c\<close>, as built for little-endian machines with unaligned loads), and its
  case-insensitive variant.
\<close>

section \<open>Code\<close>

definition siptlw :: "u8 \<Rightarrow> u8" where
  "siptlw c = (if c \<ge> 65 \<and> c \<le> 90 then c + (97 - 65) else c)"

definition ROTL :: "u64 \<Rightarrow> nat \<Rightarrow> u64" where
  "ROTL x b = push_bit b x OR drop_bit (64 - b) x"

definition U8TO64_LE :: "u8 list \<Rightarrow> nat \<Rightarrow> u64 option" where
  "U8TO64_LE p off = map_option load64 (read_at p off 8)"

definition U8TO64_LE_NOCASE :: "u8 list \<Rightarrow> nat \<Rightarrow> u64 option" where
  "U8TO64_LE_NOCASE p off = do {
     p0 \<leftarrow> fetch p off; p1 \<leftarrow> fetch p (off + 1); p2 \<leftarrow> fetch p (off + 2); p3 \<leftarrow> fetch p (off + 3);
     p4 \<leftarrow> fetch p (off + 4); p5 \<leftarrow> fetch p (off + 5); p6 \<leftarrow> fetch p (off + 6); p7 \<leftarrow> fetch p (off + 7);
     Some (ucast (siptlw p0) OR push_bit 8 (ucast (siptlw p1)) OR
       push_bit 16 (ucast (siptlw p2)) OR push_bit 24 (ucast (siptlw p3)) OR
       push_bit 32 (ucast (siptlw p4)) OR push_bit 40 (ucast (siptlw p5)) OR
       push_bit 48 (ucast (siptlw p6)) OR push_bit 56 (ucast (siptlw p7)))
   }"

type_synonym sipstate = "u64 \<times> u64 \<times> u64 \<times> u64"

fun SIPROUND :: "sipstate \<Rightarrow> sipstate" where
  "SIPROUND (v0, v1, v2, v3) =
     (let v0 = v0 + v1; v1 = ROTL v1 13; v1 = v1 XOR v0; v0 = ROTL v0 32;
          v2 = v2 + v3; v3 = ROTL v3 16; v3 = v3 XOR v2;
          v0 = v0 + v3; v3 = ROTL v3 21; v3 = v3 XOR v0;
          v2 = v2 + v1; v1 = ROTL v1 17; v1 = v1 XOR v2; v2 = ROTL v2 32
      in (v0, v1, v2, v3))"

text \<open>The message word goes into \<open>v3\<close> before the round and into \<open>v0\<close> after it.\<close>

fun sip_absorb :: "u64 \<Rightarrow> sipstate \<Rightarrow> sipstate" where
  "sip_absorb m (v0, v1, v2, v3) =
     (case SIPROUND (v0, v1, v2, v3 XOR m) of (v0, v1, v2, v3) \<Rightarrow> (v0 XOR m, v1, v2, v3))"

text \<open>The loop over whole words, from offset \<open>pos\<close> up to \<open>stop\<close>; \<open>load\<close> is the macro it reads with.\<close>

function sip_words :: "(u8 list \<Rightarrow> nat \<Rightarrow> u64 option) \<Rightarrow> u8 list \<Rightarrow> nat \<Rightarrow> nat \<Rightarrow> sipstate \<Rightarrow> sipstate option" where
  "sip_words load inp pos stop v =
     (if pos = stop then Some v
      else if length inp < pos + 8 then None
      else case load inp pos of None \<Rightarrow> None | Some m \<Rightarrow> sip_words load inp (pos + 8) stop (sip_absorb m v))"
  by pat_completeness auto
termination by (relation "measure (\<lambda>(load, inp, pos, stop, v). length inp - pos)") auto

declare sip_words.simps [simp del]

text \<open>The \<open>switch\<close> with its fall-through cases: the last \<open>left\<close> bytes, the highest one first.\<close>

primrec sip_tail :: "(u8 \<Rightarrow> u8) \<Rightarrow> u8 list \<Rightarrow> nat \<Rightarrow> nat \<Rightarrow> u64 \<Rightarrow> u64 option" where
  "sip_tail f inp pos 0 b = Some b"
| "sip_tail f inp pos (Suc i) b = do {
     c \<leftarrow> fetch inp (pos + i);
     sip_tail f inp pos i (b OR push_bit (8 * i) (ucast (f c)))
   }"

definition sip_init :: "u8 list \<Rightarrow> sipstate option" where
  "sip_init k = do {
     k0 \<leftarrow> U8TO64_LE k 0;
     k1 \<leftarrow> U8TO64_LE k 8;
     Some (0x736f6d6570736575 XOR k0, 0x646f72616e646f6d XOR k1,
           0x6c7967656e657261 XOR k0, 0x7465646279746573 XOR k1)
   }"

definition sip_final :: "u64 \<Rightarrow> sipstate \<Rightarrow> u64" where
  "sip_final b v =
     (let (v0, v1, v2, v3) = sip_absorb b v;
          (v0, v1, v2, v3) = SIPROUND (SIPROUND (v0, v1, v2 XOR 0xff, v3))
      in v0 XOR v1 XOR v2 XOR v3)"

definition siphash :: "u8 list \<Rightarrow> nat \<Rightarrow> u8 list \<Rightarrow> u64 option" where
  "siphash inp inlen k = do {
     v \<leftarrow> sip_init k;
     let stop = inlen - inlen mod 8;
     v \<leftarrow> sip_words U8TO64_LE inp 0 stop v;
     b \<leftarrow> sip_tail (\<lambda>c. c) inp stop (inlen mod 8) (push_bit 56 (word_of_nat inlen));
     Some (sip_final b v)
   }"

definition siphash_nocase :: "u8 list \<Rightarrow> nat \<Rightarrow> u8 list \<Rightarrow> u64 option" where
  "siphash_nocase inp inlen k = do {
     v \<leftarrow> sip_init k;
     let stop = inlen - inlen mod 8;
     v \<leftarrow> sip_words U8TO64_LE_NOCASE inp 0 stop v;
     b \<leftarrow> sip_tail siptlw inp stop (inlen mod 8) (push_bit 56 (word_of_nat inlen));
     Some (sip_final b v)
   }"

section \<open>The case-insensitive hash\<close>

lemma upt8: "[0..<8] = [0, 1, 2, 3, 4, 5, 6, 7]"
  by (simp add: upt_rec)

lemma load_nocase:
  assumes "pos + 8 \<le> length inp"
  shows "U8TO64_LE_NOCASE inp pos = U8TO64_LE (map siptlw inp) pos"
  using assms by (simp add: U8TO64_LE_NOCASE_def U8TO64_LE_def load64_def upt8 or.assoc)

lemma sip_words_nocase:
  "sip_words U8TO64_LE_NOCASE inp pos stop v = sip_words U8TO64_LE (map siptlw inp) pos stop v"
proof (induction "length inp - pos" arbitrary: pos v rule: less_induct)
  case less
  show ?case
  proof (cases "pos = stop \<or> length inp < pos + 8")
    case True then show ?thesis by (auto simp: sip_words.simps)
  next
    case False
    then have "length inp - (pos + 8) < length inp - pos" by linarith
    from less[OF this] False show ?thesis
      by (subst (1 2) sip_words.simps) (simp add: load_nocase split: option.splits)
  qed
qed

lemma sip_tail_nocase:
  "pos + n \<le> length inp \<Longrightarrow> sip_tail siptlw inp pos n b = sip_tail (\<lambda>c. c) (map siptlw inp) pos n b"
  by (induction n arbitrary: b) auto

lemma U8TO64_LE_in: "off + 8 \<le> length p \<Longrightarrow> U8TO64_LE p off = Some (load64 (take 8 (drop off p)))"
  by (simp add: U8TO64_LE_def)

lemma sip_words_total:
  "pos + 8 * n \<le> length inp \<Longrightarrow> sip_words U8TO64_LE inp pos (pos + 8 * n) v \<noteq> None"
proof (induction n arbitrary: pos v)
  case (Suc n)
  then show ?case
    using Suc.IH[of "pos + 8"] by (subst sip_words.simps) (simp add: U8TO64_LE_in add.assoc del: not_None_eq)
qed (simp add: sip_words.simps)

lemma sip_tail_total: "pos + n \<le> length inp \<Longrightarrow> \<exists>b'. sip_tail f inp pos n b = Some b'"
  by (induction n arbitrary: b) auto

lemma siphash_defined:
  assumes "inlen \<le> length inp" "16 \<le> length k"
  shows "\<exists>h. siphash inp inlen k = Some h"
proof -
  obtain v where v: "sip_init k = Some v" using assms(2) by (simp add: sip_init_def U8TO64_LE_def)
  have e: "inlen - inlen mod 8 = 8 * (inlen div 8)" by (simp add: minus_mod_eq_mult_div)
  have "0 + 8 * (inlen div 8) \<le> length inp" using assms(1) by presburger
  from sip_words_total[OF this, of v]
  obtain v' where v': "sip_words U8TO64_LE inp 0 (8 * (inlen div 8)) v = Some v'" unfolding add_0 by blast
  obtain b where "sip_tail (\<lambda>c. c) inp (8 * (inlen div 8)) (inlen mod 8) (push_bit 56 (word_of_nat inlen)) = Some b"
    using sip_tail_total[of "8 * (inlen div 8)" "inlen mod 8" inp] assms(1) by (metis mult_div_mod_eq)
  then show ?thesis using v v' by (simp add: siphash_def e Let_def)
qed

lemma siphash_nocase_lower:
  assumes "inlen \<le> length inp"
  shows "siphash_nocase inp inlen k = siphash (map siptlw inp) inlen k"
proof -
  have "sip_tail siptlw inp (inlen - inlen mod 8) (inlen mod 8) b =
      sip_tail (\<lambda>c. c) (map siptlw inp) (inlen - inlen mod 8) (inlen mod 8) b" for b
    using assms by (intro sip_tail_nocase) simp
  then show ?thesis by (simp add: siphash_nocase_def siphash_def sip_words_nocase Let_def)
qed

text \<open>C33: with a 16-byte key both hash functions return a hash without reading beyond the \<open>inlen\<close>
bytes they are given, and the case-insensitive one returns what the plain one returns on the input
in lower case.\<close>

theorem siphash_nocase_correct:
  assumes "inlen \<le> length inp" "16 \<le> length k"
  shows "\<exists>h h'. siphash inp inlen k = Some h \<and> siphash_nocase inp inlen k = Some h' \<and>
    siphash (map siptlw inp) inlen k = Some h'"
  using siphash_defined[OF assms] siphash_defined[of inlen "map siptlw inp" k] assms
  by (simp add: siphash_nocase_lower)

theorem siphash_nocase_correct_witness:
  "\<exists>h h'. siphash [72, 101, 76, 108, 79, 33, 65, 98, 99, 90] 10 (replicate 16 7) = Some h \<and>
    siphash_nocase [72, 101, 76, 108, 79, 33, 65, 98, 99, 90] 10 (replicate 16 7) = Some h' \<and>
    siphash [104, 101, 108, 108, 111, 33, 97, 98, 99, 122] 10 (replicate 16 7) = Some h'"
  using siphash_nocase_correct[of 10 "[72, 101, 76, 108, 79, 33, 65, 98, 99, 90]" "replicate 16 7"]
  by (simp add: siptlw_def)

end
