(* ===== verification/Util.thy ===== *)
theory Util
  imports Prelude
begin

text \<open>
  String helpers of \<open>util.c\<close>: glob-style matching and the integer limits. A C string is its list of bytes; the terminating NUL is implicit, so reading one byte
  past the end yields NUL.
\<close>

section \<open>Integer limits\<close>

definition LLONG_MIN :: int where
  "LLONG_MIN = - (2 ^ 63)"

definition LLONG_MAX :: int where
  "LLONG_MAX = 2 ^ 63 - 1"

definition ULLONG_MAX :: nat where
  "ULLONG_MAX = 2 ^ 64 - 1"

section \<open>Glob-style matching\<close>

text \<open>A \<open>char\<close> promoted to \<open>int\<close> (the type is signed), and \<open>tolower\<close> of the C locale.\<close>

definition char_int :: "char \<Rightarrow> int" where
  "char_int c = (if of_char c < (128 :: int) then of_char c else of_char c - 256)"

definition tolower_int :: "int \<Rightarrow> int" where
  "tolower_int x = (if 65 \<le> x \<and> x \<le> 90 then x + 32 else x)"

definition NUL :: char where
  "NUL = CHR 0x00"

text \<open>\<open>pattern[0]\<close>, with the terminator behind the last byte.\<close>

fun peek :: "char list \<Rightarrow> char" where
  "peek [] = NUL"
| "peek (c # _) = c"

definition char_eq :: "bool \<Rightarrow> char \<Rightarrow> char \<Rightarrow> bool" where
  "char_eq nocase a b =
     (if \<not> nocase then a = b else tolower_int (char_int a) = tolower_int (char_int b))"

definition in_range :: "bool \<Rightarrow> char \<Rightarrow> char \<Rightarrow> char \<Rightarrow> bool" where
  "in_range nocase lo hi c =
     (let start = char_int lo; end' = char_int hi; x = char_int c;
          (start, end') = (if start > end' then (end', start) else (start, end'));
          (start, end', x) = (if nocase then (tolower_int start, tolower_int end', tolower_int x)
                              else (start, end', x))
      in x \<ge> start \<and> x \<le> end')"

text \<open>
  The \<open>while(1)\<close> loop over a bracket expression, on the byte \<open>c\<close> of the string: the value of
  \<open>match\<close> and the pattern behind the expression. When the pattern ends without \<open>]\<close> the source
  steps back by one byte, and forward again after the switch: the rest is empty.
\<close>

fun class_loop :: "bool \<Rightarrow> char \<Rightarrow> char list \<Rightarrow> bool \<Rightarrow> bool \<times> char list" where
  "class_loop nocase c p match =
     (if peek p = CHR 0x5C \<and> length p \<ge> 2
      then class_loop nocase c (drop 2 p) (match \<or> p ! 1 = c)
      else if peek p = CHR '']'' then (match, tl p)
      else if p = [] then (match, [])
      else if length p \<ge> 3 \<and> p ! 1 = CHR ''-''
      then class_loop nocase c (drop 3 p) (match \<or> in_range nocase (p ! 0) (p ! 2) c)
      else class_loop nocase c (tl p) (match \<or> char_eq nocase (p ! 0) c))"

declare class_loop.simps [simp del]

lemma class_loop_shorter: "length (snd (class_loop nocase c p match)) \<le> length p - 1"
proof (induction nocase c p match rule: class_loop.induct)
  case (1 nocase c p match)
  show ?case
    by (subst class_loop.simps) (use 1 in \<open>auto simp: Let_def split: if_splits\<close>)
qed

fun skip_stars :: "char list \<Rightarrow> char list" where
  "skip_stars [] = []"
| "skip_stars (c # p) = (if c = CHR ''*'' then skip_stars p else c # p)"

lemma skip_stars_shorter: "length (skip_stars p) \<le> length p"
  by (induction p) auto

text \<open>
  One round of the main loop removes an element of the pattern and a byte of the string;
  \<open>after_byte\<close> is the code behind the switch. For a star, \<open>glob_suffixes\<close> is the loop over the
  suffixes of the string.
\<close>

function (sequential) stringmatchlen :: "char list \<Rightarrow> char list \<Rightarrow> bool \<Rightarrow> bool"
  and after_byte :: "char list \<Rightarrow> char list \<Rightarrow> bool \<Rightarrow> bool"
  and glob_suffixes :: "char list \<Rightarrow> char list \<Rightarrow> bool \<Rightarrow> bool" where
  "stringmatchlen [] s nocase = (s = [])"
| "stringmatchlen (c # p) [] nocase = False"
| "stringmatchlen (c # p) (x # s) nocase =
     (if c = CHR ''*'' then
        let p = skip_stars p in
        if p = [] then True else glob_suffixes p (x # s) nocase
      else if c = CHR ''?'' then after_byte p s nocase
      else if c = CHR ''['' then
        let neg = (peek p = CHR ''^'');
            (match, p) = class_loop nocase x (if neg then tl p else p) False
        in if (if neg then \<not> match else match) then after_byte p s nocase else False
      else if c = CHR 0x5C \<and> p \<noteq> [] then
        (if char_eq nocase (hd p) x then after_byte (tl p) s nocase else False)
      else (if char_eq nocase c x then after_byte p s nocase else False))"
| "after_byte p s nocase = (if s = [] then skip_stars p = [] else stringmatchlen p s nocase)"
| "glob_suffixes p [] nocase = False"
| "glob_suffixes p (x # s) nocase = (stringmatchlen p (x # s) nocase \<or> glob_suffixes p s nocase)"
  by pat_completeness auto
termination
proof (relation "measures
    [\<lambda>x. case x of Inl (p, s, n) \<Rightarrow> length p | Inr (Inl (p, s, n)) \<Rightarrow> length p | Inr (Inr (p, s, n)) \<Rightarrow> length p,
     \<lambda>x. case x of Inl _ \<Rightarrow> 0 | Inr _ \<Rightarrow> 1,
     \<lambda>x. case x of Inl (p, s, n) \<Rightarrow> 0 | Inr (Inl (p, s, n)) \<Rightarrow> 0 | Inr (Inr (p, s, n)) \<Rightarrow> length s]",
   goal_cases)
  case (4 c p x s nocase neg y match q)
  have "length q \<le> length (if neg then tl p else p) - 1"
    using class_loop_shorter[of nocase x "if neg then tl p else p" False] 4 by (metis snd_conv)
  also have "\<dots> \<le> length p" by auto
  finally show ?case by simp
qed (auto simp: le_imp_less_Suc skip_stars_shorter)

definition stringmatch :: "char list \<Rightarrow> char list \<Rightarrow> bool \<Rightarrow> bool" where
  "stringmatch pattern string nocase = stringmatchlen pattern string nocase"

section \<open>Glob matching equals its declarative meaning\<close>

datatype class_item = Exact char | Folded char | Range char char

fun item_matches :: "bool \<Rightarrow> char \<Rightarrow> class_item \<Rightarrow> bool" where
  "item_matches nocase x (Exact c) = (c = x)"
| "item_matches nocase x (Folded c) = char_eq nocase c x"
| "item_matches nocase x (Range a b) = in_range nocase a b x"

fun parse_class :: "char list \<Rightarrow> class_item list \<times> char list" where
  "parse_class p =
     (if p = [] then ([], [])
      else if p ! 0 = CHR 0x5C \<and> length p \<ge> 2
      then apfst (Cons (Exact (p ! 1))) (parse_class (drop 2 p))
      else if p ! 0 = CHR '']'' then ([], tl p)
      else if length p \<ge> 3 \<and> p ! 1 = CHR ''-''
      then apfst (Cons (Range (p ! 0) (p ! 2))) (parse_class (drop 3 p))
      else apfst (Cons (Folded (p ! 0))) (parse_class (tl p)))"

declare parse_class.simps [simp del]

lemma class_loop_parse:
  "class_loop nocase x p m =
     (m \<or> (\<exists>it\<in>set (fst (parse_class p)). item_matches nocase x it), snd (parse_class p))"
proof (induction nocase x p m rule: class_loop.induct)
  case (1 nocase x p m)
  show ?case
  proof (cases p)
    case Nil
    then show ?thesis by (simp add: class_loop.simps parse_class.simps NUL_def)
  next
    case (Cons c q)
    with 1 show ?thesis
      by (subst class_loop.simps, subst (1 2) parse_class.simps) (auto simp: NUL_def)
  qed
qed

datatype token = Star | One "char \<Rightarrow> bool"

definition parse_bracket :: "bool \<Rightarrow> char list \<Rightarrow> (char \<Rightarrow> bool) \<times> char list" where
  "parse_bracket nocase p =
     (let neg = (peek p = CHR ''^''); (items, rest) = parse_class (if neg then tl p else p)
      in (\<lambda>x. neg \<noteq> (\<exists>it\<in>set items. item_matches nocase x it), rest))"

lemma parse_bracket_shorter: "length (snd (parse_bracket nocase p)) \<le> length p"
proof -
  let ?q = "if peek p = CHR ''^'' then tl p else p"
  have "length (snd (parse_class ?q)) \<le> length ?q - 1"
    using class_loop_shorter[of nocase NUL ?q False] by (simp add: class_loop_parse)
  also have "\<dots> \<le> length p" by auto
  finally show ?thesis by (simp add: parse_bracket_def split_beta Let_def)
qed

text \<open>A pattern as a list of elements, each a star or a test of one byte.\<close>

function (sequential) glob_tokens :: "bool \<Rightarrow> char list \<Rightarrow> token list" where
  "glob_tokens nocase [] = []"
| "glob_tokens nocase (c # p) =
     (if c = CHR ''*'' then Star # glob_tokens nocase p
      else if c = CHR ''?'' then One (\<lambda>_. True) # glob_tokens nocase p
      else if c = CHR ''['' then
        One (fst (parse_bracket nocase p)) # glob_tokens nocase (snd (parse_bracket nocase p))
      else if c = CHR 0x5C \<and> p \<noteq> [] then One (char_eq nocase (hd p)) # glob_tokens nocase (tl p)
      else One (char_eq nocase c) # glob_tokens nocase p)"
  by pat_completeness auto
termination
  by (relation "measure (\<lambda>(n, p). length p)") (auto simp: le_imp_less_Suc parse_bracket_shorter)

fun glob :: "token list \<Rightarrow> char list \<Rightarrow> bool" where
  "glob [] s = (s = [])"
| "glob (Star # ts) s = (\<exists>k\<le>length s. glob ts (drop k s))"
| "glob (One f # ts) s = (case s of [] \<Rightarrow> False | x # s' \<Rightarrow> f x \<and> glob ts s')"

lemma glob_skip_stars:
  "glob (Star # glob_tokens nocase (skip_stars p)) s = glob (Star # glob_tokens nocase p) s"
proof (induction p)
  case (Cons c p)
  have "glob (Star # Star # ts) s = glob (Star # ts) s" for ts
  proof
    assume "glob (Star # Star # ts) s"
    then obtain k j where "k \<le> length s" "j \<le> length (drop k s)" "glob ts (drop j (drop k s))"
      by auto
    then show "glob (Star # ts) s" by (auto intro!: exI[of _ "j + k"])
  next
    assume "glob (Star # ts) s"
    then obtain j where "j \<le> length s" "glob ts (drop j s)" by auto
    then have "glob (Star # ts) (drop 0 s)" by auto
    then show "glob (Star # Star # ts) s" by (subst glob.simps) blast
  qed
  with Cons show ?case by simp
qed simp

lemma glob_star_all: "glob [Star] s"
  by (auto intro: exI[of _ "length s"])

lemma glob_empty_string: "glob (glob_tokens nocase p) [] \<longleftrightarrow> skip_stars p = []"
  by (induction p) auto

lemma skip_stars_idem [simp]: "skip_stars (skip_stars p) = skip_stars p"
  by (induction p) auto

lemma glob_star_suffixes:
  assumes "skip_stars p \<noteq> []"
  shows "glob (Star # glob_tokens nocase p) s \<longleftrightarrow>
    (\<exists>k<length s. glob (glob_tokens nocase (skip_stars p)) (drop k s))"
proof -
  have "\<not> glob (glob_tokens nocase (skip_stars p)) []"
    using assms by (simp add: glob_empty_string)
  then have "k \<noteq> length s" if "glob (glob_tokens nocase (skip_stars p)) (drop k s)" for k
    using that by auto
  then show ?thesis
    by (subst glob_skip_stars[symmetric]) (auto simp: le_less)
qed

lemma parse_bracket_class_loop:
  assumes "neg = (peek p = CHR ''^'')" "class_loop nocase x (if neg then tl p else p) False = (m, q)"
  shows "q = snd (parse_bracket nocase p)" "fst (parse_bracket nocase p) x = (if neg then \<not> m else m)"
  using assms by (auto simp: parse_bracket_def class_loop_parse split_beta Let_def)

lemma stringmatchlen_glob_aux:
  "stringmatchlen p s nocase = (if s = [] then p = [] else glob (glob_tokens nocase p) s)"
  "after_byte p s nocase = glob (glob_tokens nocase p) s"
  "glob_suffixes p s nocase = (\<exists>k<length s. glob (glob_tokens nocase p) (drop k s))"
proof (induction p s nocase and p s nocase and p s nocase
    rule: stringmatchlen_after_byte_glob_suffixes.induct)
  case (3 c p x s nocase)
  consider (star) "c = CHR ''*''" | (one) "c = CHR ''?''" | (cls) "c = CHR ''[''"
    | (other) "c \<noteq> CHR ''*''" "c \<noteq> CHR ''?''" "c \<noteq> CHR ''[''" by blast
  then show ?case
  proof cases
    case star
    have "glob (Star # glob_tokens nocase p) (x # s)" if "skip_stars p = []"
      using glob_skip_stars[of nocase p "x # s"] glob_star_all[of "x # s"] that
      by (simp del: glob.simps(2))
    with star 3(1) show ?thesis
      using glob_star_suffixes[of p nocase "x # s"] by (simp add: Let_def del: glob.simps(2))
  next
    case cls
    obtain m q where mq: "class_loop nocase x (if peek p = CHR ''^'' then tl p else p) False = (m, q)"
      by fastforce
    note pb = parse_bracket_class_loop[OF refl mq]
    show ?thesis
      using 3(3)[OF _ _ cls refl mq[symmetric] refl] cls mq pb by (auto simp: Let_def)
  qed (use 3 in auto)
next
  case (6 p s nocase)
  then show ?case by (auto simp: All_less_Suc2 Ex_less_Suc2)
qed (auto simp: glob_empty_string)

text \<open>
  C19: on a non-empty string, the matcher agrees with the declarative meaning of the pattern as a
  sequence of stars and single-byte tests; the empty string is matched by the empty pattern alone
  (so not by \<open>*\<close>).
\<close>

theorem stringmatchlen_glob:
  "stringmatchlen p s nocase = (if s = [] then p = [] else glob (glob_tokens nocase p) s)"
  by (rule stringmatchlen_glob_aux(1))

end
