(* ===== verification/Decimal.thy ===== *)
theory Decimal
  imports Util
begin

text \<open>
  Decimal printing (\<open>digits10\<close>, \<open>ll2string\<close>) and strict decimal parsing (\<open>string2ll\<close>, \<open>string2l\<close>)
  of \<open>util.c\<close>, and the proof that they are inverse to each other through the canonical decimal
  representation of an integer.
\<close>

section \<open>Decimal printing\<close>

fun digits10 :: "nat \<Rightarrow> nat" where
  "digits10 v =
     (if v < 10 then 1
      else if v < 100 then 2
      else if v < 1000 then 3
      else if v < 1000000000000 then
        (if v < 100000000 then
           (if v < 1000000 then
              (if v < 10000 then 4 else 5 + (if v \<ge> 100000 then 1 else 0))
            else 7 + (if v \<ge> 10000000 then 1 else 0))
         else if v < 10000000000 then 9 + (if v \<ge> 1000000000 then 1 else 0)
         else 11 + (if v \<ge> 100000000000 then 1 else 0))
      else 12 + digits10 (v div 1000000000000))"

declare digits10.simps [simp del]

definition sdigits10 :: "int \<Rightarrow> nat" where
  "sdigits10 v =
     (if v < 0 then
        let uv = (if v \<noteq> LLONG_MIN then nat (- v) else nat LLONG_MAX + 1) in digits10 uv + 1
      else digits10 (nat v))"

definition digits_table :: string where
  "digits_table =
     ''0001020304050607080910111213141516171819'' @
     ''2021222324252627282930313233343536373839'' @
     ''4041424344454647484950515253545556575859'' @
     ''6061626364656667686970717273747576777879'' @
     ''8081828384858687888990919293949596979899''"

text \<open>A write \<open>dst[i] = c\<close> through an index that may have gone below zero.\<close>

definition storei :: "'a list \<Rightarrow> int \<Rightarrow> 'a \<Rightarrow> 'a list option" where
  "storei xs i v = (if 0 \<le> i then store xs (nat i) v else None)"

text \<open>The loop that writes two digits at a time; it returns the rest of the value.\<close>

function two_digits_loop :: "char list \<Rightarrow> int \<Rightarrow> nat \<Rightarrow> (char list \<times> int \<times> nat) option" where
  "two_digits_loop dst next value =
     (if value \<ge> 100 then
        do {
          hi \<leftarrow> fetch digits_table ((value mod 100) * 2 + 1);
          lo \<leftarrow> fetch digits_table ((value mod 100) * 2);
          dst \<leftarrow> storei dst next hi;
          dst \<leftarrow> storei dst (next - 1) lo;
          two_digits_loop dst (next - 2) (value div 100)
        }
      else Some (dst, next, value))"
  by pat_completeness auto
termination
  by (relation "measure (\<lambda>(d, n, v). v)") auto

declare two_digits_loop.simps [simp del]

definition digit_char :: "nat \<Rightarrow> char" where
  "digit_char d = char_of (48 + d)"

text \<open>The last one or two digits.\<close>

definition last_digits :: "char list \<Rightarrow> int \<Rightarrow> nat \<Rightarrow> char list option" where
  "last_digits dst next value =
     (if value < 10 then storei dst next (digit_char value)
      else do {
        hi \<leftarrow> fetch digits_table (value * 2 + 1);
        lo \<leftarrow> fetch digits_table (value * 2);
        dst \<leftarrow> storei dst next hi;
        storei dst (next - 1) lo
      })"

text \<open>The buffer and the returned length; a return of 0 leaves the buffer alone.\<close>

definition ll2string :: "char list \<Rightarrow> nat \<Rightarrow> int \<Rightarrow> (char list \<times> nat) option" where
  "ll2string dst dstlen svalue =
     (let value = (if svalue < 0
                   then (if svalue \<noteq> LLONG_MIN then nat (- svalue) else nat LLONG_MAX + 1)
                   else nat svalue);
          negative = (svalue < 0);
          len = digits10 value + (if negative then 1 else 0)
      in if len \<ge> dstlen then Some (dst, 0)
      else do {
        dst \<leftarrow> storei dst (int len) NUL;
        (dst, next, value) \<leftarrow> two_digits_loop dst (int len - 1) value;
        dst \<leftarrow> last_digits dst next value;
        dst \<leftarrow> (if negative then storei dst 0 (CHR ''-'') else Some dst);
        Some (dst, len)
      })"

section \<open>Strict decimal parsing\<close>

definition is_digit :: "char \<Rightarrow> bool" where
  "is_digit c \<longleftrightarrow> of_char c \<ge> (48 :: nat) \<and> of_char c \<le> (57 :: nat)"

definition digit_val :: "char \<Rightarrow> nat" where
  "digit_val c = of_char c - 48"

text \<open>
  The digit loop on a 64-bit \<open>unsigned long long\<close>: the overflow checks are those of the source and
  the arithmetic wraps. \<^const>\<open>None\<close> is \<open>return 0\<close>.
\<close>

fun string2ll_loop :: "char list \<Rightarrow> u64 \<Rightarrow> u64 option" where
  "string2ll_loop [] v = Some v"
| "string2ll_loop (c # p) v =
     (if is_digit c then
        if v > word_of_nat (ULLONG_MAX div 10) then None
        else let v = v * 10 in
          if v > word_of_nat (ULLONG_MAX - digit_val c) then None
          else string2ll_loop p (v + word_of_nat (digit_val c))
      else None)"

text \<open>The final conversion to \<open>long long\<close>, with its overflow checks.\<close>

definition signed_part :: "bool \<Rightarrow> u64 \<Rightarrow> int option" where
  "signed_part negative v =
     (if negative then
        (if v > word_of_int (- (LLONG_MIN + 1)) + 1 then None else Some (sint (- v)))
      else (if v > word_of_int LLONG_MAX then None else Some (sint v)))"

definition string2ll :: "char list \<Rightarrow> int option" where
  "string2ll s =
     (if s = [] then None
      else if s = ''0'' then Some 0
      else let negative = (hd s = CHR ''-''); p = (if negative then tl s else s) in
        if p = [] then None
        else if of_char (hd p) \<ge> (49 :: nat) \<and> of_char (hd p) \<le> (57 :: nat) then
          (case string2ll_loop (tl p) (word_of_nat (digit_val (hd p))) of
             None \<Rightarrow> None
           | Some v \<Rightarrow> signed_part negative v)
        else None)"

definition string2l :: "char list \<Rightarrow> int option" where
  "string2l s = (case string2ll s of None \<Rightarrow> None
     | Some llval \<Rightarrow> if llval < LLONG_MIN \<or> llval > LLONG_MAX then None else Some llval)"

section \<open>Decimal representation\<close>

fun show_nat :: "nat \<Rightarrow> string" where
  "show_nat n = (if n < 10 then [digit_char n] else show_nat (n div 10) @ [digit_char (n mod 10)])"

declare show_nat.simps [simp del]

definition show_int :: "int \<Rightarrow> string" where
  "show_int v = (if v < 0 then CHR ''-'' # show_nat (nat (- v)) else show_nat (nat v))"

lemma show_nat_small: "n < 10 \<Longrightarrow> show_nat n = [digit_char n]"
  by (simp add: show_nat.simps)

lemma show_nat_big: "10 \<le> n \<Longrightarrow> show_nat n = show_nat (n div 10) @ [digit_char (n mod 10)]"
  by (subst show_nat.simps) simp

lemma show_nat_hundred:
  assumes "100 \<le> n"
  shows "show_nat n = show_nat (n div 100) @ [digit_char (n mod 100 div 10), digit_char (n mod 10)]"
proof -
  have d: "n div 10 mod 10 = n mod 100 div 10" "n div 10 div 10 = n div 100"
    using mod_mult2_eq[of n 10 10] div_mult2_eq[of n 10 10] by simp_all
  have "show_nat (n div 10) = show_nat (n div 100) @ [digit_char (n mod 100 div 10)]"
    using show_nat_big[of "n div 10"] assms by (simp add: d)
  then show ?thesis using show_nat_big[of n] assms by simp
qed

lemma ten_le_power: "10 ^ Suc k \<le> n \<Longrightarrow> 10 \<le> (n :: nat)"
  by (rule order_trans[of _ "10 ^ Suc k"]) simp_all

lemma length_show_nat_range:
  "10 ^ k \<le> n \<Longrightarrow> n < 10 ^ Suc k \<Longrightarrow> length (show_nat n) = Suc k"
proof (induction k arbitrary: n)
  case 0
  then show ?case by (simp add: show_nat_small)
next
  case (Suc k)
  have ge: "10 \<le> n"
    using Suc.prems(1) by (rule ten_le_power)
  have lo: "10 ^ k \<le> n div 10" and hi: "n div 10 < 10 ^ Suc k"
    using Suc.prems by (auto simp: div_less_iff_less_mult less_eq_div_iff_mult_less_eq mult.commute)
  show ?case
    using Suc.IH[OF lo hi] ge by (subst show_nat_big) simp_all
qed

lemma length_show_nat_split:
  "10 ^ k \<le> n \<Longrightarrow> length (show_nat n) = k + length (show_nat (n div 10 ^ k))"
proof (induction k arbitrary: n)
  case (Suc k)
  have ge: "10 \<le> n"
    using Suc.prems(1) by (rule ten_le_power)
  have lo: "10 ^ k \<le> n div 10"
    using Suc.prems by (auto simp: less_eq_div_iff_mult_less_eq mult.commute)
  show ?case
    using Suc.IH[OF lo] ge by (subst show_nat_big) (simp_all add: div_mult2_eq)
qed simp

lemma power_interval:
  assumes "v > (0 :: nat)"
  obtains k where "10 ^ k \<le> v" "v < 10 ^ Suc k"
proof -
  have "v < 10 ^ v" using less_exp[of v] power_mono[of 2 "10 :: nat" v] by linarith
  then have ex: "\<exists>k. v < 10 ^ Suc k" by (intro exI[of _ v]) simp
  define k where "k = (LEAST k. v < 10 ^ Suc k)"
  have "v < 10 ^ Suc k" unfolding k_def using ex by (rule LeastI_ex)
  moreover have "10 ^ k \<le> v"
  proof (cases k)
    case (Suc j)
    have "\<not> v < 10 ^ Suc j" by (rule not_less_Least) (simp only: k_def[symmetric] Suc lessI)
    then show ?thesis by (simp add: Suc not_less)
  qed (use assms in simp)
  ultimately show ?thesis by (rule that[rotated])
qed

lemma digits10_length: "digits10 v = length (show_nat v)"
proof (induction v rule: digits10.induct)
  case (1 v)
  note r = length_show_nat_range[of _ v]
  show ?case
  proof (cases "v < 1000000000000")
    case True
    show ?thesis
    proof (cases "v < 10")
      case False
      obtain k where k: "10 ^ k \<le> v" "v < 10 ^ Suc k"
        using power_interval[of v] False by auto
      have "k < 12"
      proof (rule ccontr)
        assume "\<not> k < 12"
        then have "(10 :: nat) ^ 12 \<le> 10 ^ k" by (intro power_increasing) simp_all
        with k(1) True show False by simp
      qed
      then have "k = 0 \<or> k = 1 \<or> k = 2 \<or> k = 3 \<or> k = 4 \<or> k = 5 \<or> k = 6 \<or> k = 7 \<or>
          k = 8 \<or> k = 9 \<or> k = 10 \<or> k = 11"
        by (auto simp: less_Suc_eq numeral_eq_Suc)
      then show ?thesis
        using k length_show_nat_range[OF k] by (elim disjE) (simp_all add: digits10.simps)
    qed (simp add: digits10.simps show_nat_small)
  next
    case False
    then show ?thesis
      using 1 length_show_nat_split[of 12 v] by (subst digits10.simps) simp
  qed
qed

lemma show_nat_nonempty: "show_nat n \<noteq> []"
  by (subst show_nat.simps) simp

lemma digits_table_length: "length digits_table = 200"
  by (simp add: digits_table_def)

lemma digit_chars:
  "digit_char 0 = CHR ''0''" "digit_char (Suc 0) = CHR ''1''" "digit_char 1 = CHR ''1''" "digit_char 2 = CHR ''2''"
  "digit_char 3 = CHR ''3''" "digit_char 4 = CHR ''4''" "digit_char 5 = CHR ''5''" "digit_char 6 = CHR ''6''"
  "digit_char 7 = CHR ''7''" "digit_char 8 = CHR ''8''" "digit_char 9 = CHR ''9''"
  by (simp_all add: digit_char_def char_of_def bit_0)

lemma digits_table_pairs:
  "digits_table = concat (map (\<lambda>k. [digit_char (k div 10), digit_char (k mod 10)]) [0..<100])"
  by (subst upt_conv_Cons, simp, subst upt_conv_Cons, simp) (simp add: digits_table_def digit_chars flip: numeral_2_eq_2)

lemma nth_pairs:
  "k < n \<Longrightarrow> concat (map (\<lambda>k. [f k, g k]) [0..<n]) ! (k * 2) = f k"
  "k < n \<Longrightarrow> concat (map (\<lambda>k. [f k, g k]) [0..<n]) ! (k * 2 + 1) = g k"
proof (induction n)
  case (Suc n)
  have len: "length (concat (map (\<lambda>k. [f k, g k]) [0..<n])) = n * 2"
    by (induction n) auto
  { case 1 with Suc len show ?case by (cases "k = n") (auto simp: nth_append) }
  { case 2 with Suc len show ?case by (cases "k = n") (auto simp: nth_append) }
qed auto

lemma digits_table_fetch:
  assumes "k < 100"
  shows "fetch digits_table (k * 2) = Some (digit_char (k div 10))"
    "fetch digits_table (k * 2 + 1) = Some (digit_char (k mod 10))"
proof -
  have "k * 2 + 1 < length digits_table" using assms by (simp add: digits_table_length)
  then show "fetch digits_table (k * 2) = Some (digit_char (k div 10))"
    "fetch digits_table (k * 2 + 1) = Some (digit_char (k mod 10))"
    using nth_pairs[OF assms, of "\<lambda>k. digit_char (k div 10)" "\<lambda>k. digit_char (k mod 10)"]
    by (simp_all only: fetch_def digits_table_pairs[symmetric]) simp_all
qed

lemma storei_append:
  assumes "i = int (length xs)"
  shows "storei (xs @ a # ys) i v = Some (xs @ v # ys)"
  using assms by (simp add: storei_def store_def)

lemma write_digits:
  assumes "length p1 = length (show_nat v)" "i = int (length p0 + length p1) - 1"
  shows "do { (dst, next, value) \<leftarrow> two_digits_loop (p0 @ p1 @ suf) i v; last_digits dst next value } =
    Some (p0 @ show_nat v @ suf)"
  using assms
proof (induction v arbitrary: p1 suf i rule: less_induct)
  case (less v)
  show ?case
  proof (cases "100 \<le> v")
    case True
    then have sh: "show_nat v = show_nat (v div 100) @ [digit_char (v mod 100 div 10), digit_char (v mod 10)]"
      by (rule show_nat_hundred)
    obtain q a b where p1: "p1 = q @ [a, b]" and lq: "length q = length (show_nat (v div 100))"
    proof (cases p1 rule: rev_cases)
      case (snoc r b)
      with less.prems(1) sh that show ?thesis by (cases r rule: rev_cases) auto
    qed (use less.prems(1) sh in simp)
    have hi: "storei (p0 @ q @ a # b # suf) i h = Some (p0 @ q @ a # h # suf)" for h
      using storei_append[of i "p0 @ q @ [a]" b suf h] less.prems(2) p1 by simp
    have lo: "storei (p0 @ q @ a # h # suf) (i - 1) l = Some (p0 @ q @ l # h # suf)" for h l
      using storei_append[of "i - 1" "p0 @ q" a "h # suf" l] less.prems(2) p1 by simp
    have mm: "v mod 100 mod 10 = v mod 10" by (rule mod_mod_cancel) simp
    let ?suf = "digit_char (v mod 100 div 10) # digit_char (v mod 10) # suf"
    have "two_digits_loop (p0 @ p1 @ suf) i v = two_digits_loop (p0 @ q @ ?suf) (i - 2) (v div 100)"
      using True digits_table_fetch[of "v mod 100", unfolded mm]
      by (subst two_digits_loop.simps) (simp add: p1 hi lo)
    moreover have "i - 2 = int (length p0 + length q) - 1"
      using less.prems(2) p1 by simp
    ultimately show ?thesis
      using True less.IH[of "v div 100" q "i - 2" ?suf] lq sh by simp
  next
    case False
    show ?thesis
    proof (cases "v < 10")
      case True
      then obtain a where "p1 = [a]"
        using less.prems(1) by (auto simp: show_nat_small length_Suc_conv)
      with True less.prems(2) storei_append[of i p0 a suf] show ?thesis
        by (subst two_digits_loop.simps) (simp add: last_digits_def show_nat_small)
    next
      case ge: False
      then have sh: "show_nat v = [digit_char (v div 10), digit_char (v mod 10)]"
        using False by (subst show_nat_big) (simp_all add: show_nat_small)
      with less.prems(1) obtain a b where p1: "p1 = [a, b]"
        by (auto simp: length_Suc_conv)
      have hi: "storei (p0 @ a # b # suf) i h = Some (p0 @ a # h # suf)" for h
        using storei_append[of i "p0 @ [a]" b suf h] less.prems(2) p1 by simp
      have lo: "storei (p0 @ a # h # suf) (i - 1) l = Some (p0 @ l # h # suf)" for h l
        using storei_append[of "i - 1" p0 a "h # suf" l] less.prems(2) p1 by simp
      show ?thesis
        using False ge digits_table_fetch[of v]
        by (subst two_digits_loop.simps) (simp add: last_digits_def p1 sh hi lo)
    qed
  qed
qed

lemma abs_value:
  assumes "LLONG_MIN \<le> v"
  shows "(if v < 0 then (if v \<noteq> LLONG_MIN then nat (- v) else nat LLONG_MAX + 1) else nat v) = nat \<bar>v\<bar>"
  by (simp add: LLONG_MAX_def LLONG_MIN_def)

lemma length_show_int: "length (show_int v) = digits10 (nat \<bar>v\<bar>) + (if v < 0 then 1 else 0)"
  by (simp add: show_int_def digits10_length)

lemma ll2string_spec:
  assumes "LLONG_MIN \<le> v" "dstlen \<le> length dst"
  shows "ll2string dst dstlen v =
    (if length (show_int v) < dstlen
     then Some (show_int v @ NUL # drop (Suc (length (show_int v))) dst, length (show_int v))
     else Some (dst, 0))"
proof (cases "length (show_int v) < dstlen")
  case True
  let ?n = "length (show_int v)"
  let ?d = "nat \<bar>v\<bar>" and ?suf = "NUL # drop (Suc ?n) dst"
  have len: "?n = digits10 ?d + (if v < 0 then 1 else 0)" by (rule length_show_int)
  define p0 where "p0 = (if v < 0 then [dst ! 0] else [])"
  define p1 where "p1 = drop (length p0) (take ?n dst)"
  have tk: "length (take ?n dst) = ?n" "take ?n dst = p0 @ p1"
    using True assms(2) by (cases dst; auto simp: p0_def p1_def len)+
  have "length p1 = length (show_nat ?d)"
    using tk by (auto simp: p1_def p0_def len digits10_length)
  moreover have "int ?n - 1 = int (length p0 + length p1) - 1"
    using tk by (metis length_append)
  ultimately have w: "do { (dst, next, value) \<leftarrow> two_digits_loop (p0 @ p1 @ ?suf) (int ?n - 1) ?d;
      last_digits dst next value } = Some (p0 @ show_nat ?d @ ?suf)"
    by (rule write_digits)
  have nul: "storei dst (int ?n) NUL = Some (p0 @ p1 @ ?suf)"
    using storei_append[of "int ?n" "take ?n dst" "dst ! ?n" "drop (Suc ?n) dst" NUL]
      id_take_nth_drop[of ?n dst] tk True assms(2) by (simp flip: of_nat_add)
  have sign: "(if v < 0 then storei (p0 @ show_nat ?d @ ?suf) 0 (CHR ''-'') else Some (p0 @ show_nat ?d @ ?suf)) =
      Some (show_int v @ ?suf)"
    by (simp add: p0_def show_int_def storei_def)
  show ?thesis
    using True w nul sign unfolding ll2string_def abs_value[OF assms(1)] Let_def len[symmetric]
    by (cases "v < 0") (auto simp: bind_eq_Some_conv)
next
  case False
  then show ?thesis
    using assms by (simp add: ll2string_def Let_def abs_value length_show_int)
qed

text \<open>
  C23: \<open>ll2string\<close> never writes outside a buffer of \<open>dstlen\<close> bytes; it writes exactly the decimal
  representation with its terminator and returns its length when that fits, and returns 0 with the
  buffer untouched otherwise.
\<close>

theorem ll2string_correct:
  assumes "LLONG_MIN \<le> v" "dstlen \<le> length dst"
  shows "ll2string dst dstlen v =
    (if length (show_int v) < dstlen
     then Some (show_int v @ NUL # drop (Suc (length (show_int v))) dst, length (show_int v))
     else Some (dst, 0))"
  using assms by (rule ll2string_spec)

theorem ll2string_correct_witness:
  "ll2string ''xxxxxxxx'' 8 (- 12345) = Some (''-12345'' @ [NUL, CHR ''x''], 6)"
  using ll2string_correct[of "- 12345" 8 "''xxxxxxxx''"]
  by (simp add: LLONG_MIN_def show_int_def show_nat.simps digit_char_def char_of_def bit_0)

section \<open>Parsing\<close>

fun dec_val :: "nat \<Rightarrow> char list \<Rightarrow> nat" where
  "dec_val acc [] = acc"
| "dec_val acc (c # p) = dec_val (acc * 10 + digit_val c) p"

lemma dec_val_append: "dec_val acc (p @ q) = dec_val (dec_val acc p) q"
  by (induction p arbitrary: acc) auto

lemma dec_val_ge: "acc \<le> dec_val acc p"
proof (induction p arbitrary: acc)
  case (Cons c p)
  have "acc \<le> acc * 10 + digit_val c" by simp
  also have "\<dots> \<le> dec_val (acc * 10 + digit_val c) p" by (rule Cons)
  finally show ?case by simp
qed simp

lemma digit_char_props:
  assumes "d < 10"
  shows "is_digit (digit_char d)" "digit_val (digit_char d) = d"
  using assms by (simp_all add: is_digit_def digit_val_def digit_char_def)

lemma digit_val_lt: "is_digit c \<Longrightarrow> digit_val c < 10"
  by (auto simp: is_digit_def digit_val_def)

lemma digit_char_val: "is_digit c \<Longrightarrow> digit_char (digit_val c) = c"
  by (simp add: is_digit_def digit_val_def digit_char_def)

lemma string2ll_loop_spec:
  "string2ll_loop p v =
     (if list_all is_digit p \<and> dec_val (unat v) p \<le> ULLONG_MAX
      then Some (word_of_nat (dec_val (unat v) p)) else None)"
proof (induction p arbitrary: v)
  case Nil
  have "unat v \<le> ULLONG_MAX" using unat_u64_less[of v] by (simp add: ULLONG_MAX_def)
  then show ?case by simp
next
  case (Cons c p)
  show ?case
  proof (cases "is_digit c")
    case True
    note d = digit_val_lt[OF True]
    let ?w = "unat v * 10 + digit_val c"
    have bound: "dec_val ?w p \<le> ULLONG_MAX \<Longrightarrow> ?w \<le> ULLONG_MAX"
      using dec_val_ge[of ?w p] by simp
    have c1: "v > word_of_nat (ULLONG_MAX div 10) \<longleftrightarrow> unat v > ULLONG_MAX div 10"
      by (simp add: word_less_nat_alt unat_u64_of_nat ULLONG_MAX_def)
    show ?thesis
    proof (cases "unat v > ULLONG_MAX div 10")
      case True
      then have "?w > ULLONG_MAX" by (simp add: ULLONG_MAX_def)
      then show ?thesis using True c1 bound by (auto simp: not_less)
    next
      case False
      then have m: "unat (v * 10) = unat v * 10"
        by (simp add: unat_word_ariths ULLONG_MAX_def)
      have "unat (word_of_nat (ULLONG_MAX - digit_val c) :: u64) = ULLONG_MAX - digit_val c"
        unfolding unat_u64_of_nat by (rule mod_less) (simp add: ULLONG_MAX_def)
      then have c2: "v * 10 > word_of_nat (ULLONG_MAX - digit_val c) \<longleftrightarrow> ?w > ULLONG_MAX"
        using d unfolding word_less_nat_alt m by (auto simp: ULLONG_MAX_def)
      have a: "unat (v * 10 + word_of_nat (digit_val c)) = ?w" if "\<not> ?w > ULLONG_MAX"
        using that d m by (simp add: unat_word_ariths(1) unat_u64_of_nat ULLONG_MAX_def)
      show ?thesis
        using True False c1 c2 a bound Cons.IH[of "v * 10 + word_of_nat (digit_val c)"]
        by (auto simp: Let_def)
    qed
  qed simp
qed

lemma show_nat_digits: "list_all is_digit (show_nat n)"
  by (induction n rule: show_nat.induct) (subst show_nat.simps, simp add: digit_char_props)

lemma dec_val_show_nat: "dec_val 0 (show_nat n) = n"
proof (induction n rule: show_nat.induct)
  case (1 n)
  then show ?case by (subst show_nat.simps) (simp add: digit_char_props dec_val_append)
qed

text \<open>A digit string without a leading zero is the representation of its value.\<close>

lemma show_nat_dec_val:
  "list_all is_digit p \<Longrightarrow> p \<noteq> [] \<Longrightarrow> digit_val (hd p) \<noteq> 0 \<Longrightarrow> dec_val 0 p > 0 \<and> show_nat (dec_val 0 p) = p"
proof (induction p rule: rev_induct)
  case (snoc c p)
  have c: "digit_val c < 10" "digit_char (digit_val c) = c"
    using snoc.prems(1) by (simp_all add: digit_val_lt digit_char_val)
  show ?case
  proof (cases "p = []")
    case True
    with snoc.prems c show ?thesis by (simp add: show_nat_small)
  next
    case False
    with snoc have "dec_val 0 p > 0" "show_nat (dec_val 0 p) = p" by auto
    with c show ?thesis by (simp add: dec_val_append show_nat_big)
  qed
qed simp

lemma show_nat_hd: "n \<noteq> 0 \<Longrightarrow> digit_val (hd (show_nat n)) \<noteq> 0"
proof (induction n rule: show_nat.induct)
  case (1 n)
  then show ?case
    by (subst show_nat.simps) (auto simp: digit_char_props show_nat_nonempty)
qed

lemma show_int_zero: "show_int 0 = ''0''"
  by (simp add: show_int_def show_nat_small digit_char_def char_of_def bit_0)

lemma first_digit: "of_char c \<ge> (49 :: nat) \<and> of_char c \<le> (57 :: nat) \<longleftrightarrow> is_digit c \<and> digit_val c \<noteq> 0"
  by (auto simp: is_digit_def digit_val_def)

text \<open>The unsigned part: a first digit between 1 and 9, then the loop.\<close>

lemma unsigned_part:
  assumes "p \<noteq> []"
  shows "(of_char (hd p) \<ge> (49 :: nat) \<and> of_char (hd p) \<le> (57 :: nat) \<and>
      string2ll_loop (tl p) (word_of_nat (digit_val (hd p))) = Some w) \<longleftrightarrow>
    unat w \<noteq> 0 \<and> p = show_nat (unat w)" (is "?L \<longleftrightarrow> ?R")
proof -
  obtain c q where p: "p = c # q" using assms by (cases p) auto
  have u: "unat (word_of_nat (digit_val c) :: u64) = digit_val c" if "is_digit c"
    using digit_val_lt[OF that] by (simp add: unat_u64_of_nat)
  show ?thesis
  proof
    assume L: ?L
    then have d: "is_digit c" "digit_val c \<noteq> 0" using p first_digit by auto
    with L u p have q: "list_all is_digit p" "dec_val 0 p \<le> ULLONG_MAX" "w = word_of_nat (dec_val 0 p)"
      by (auto simp: string2ll_loop_spec split: if_splits)
    then have "unat w = dec_val 0 p"
      by (simp add: unat_u64_of_nat ULLONG_MAX_def)
    with show_nat_dec_val[OF q(1)] d p show ?R by simp
  next
    assume R: ?R
    then have "list_all is_digit p" "digit_val (hd p) \<noteq> 0" "dec_val 0 p = unat w"
      using show_nat_digits show_nat_hd dec_val_show_nat by metis+
    with u p unat_u64_less[of w] show ?L
      unfolding string2ll_loop_spec by (auto simp: ULLONG_MAX_def first_digit[simplified])
  qed
qed

lemma sint_neg_word:
  fixes w :: u64
  assumes "uint w \<le> 2 ^ 63"
  shows "sint (- w) = - uint w"
proof -
  have "sint (word_of_int (- uint w) :: u64) = - uint w"
    using assms uint_nonnegative[of w] zero_less_power[of "2 :: int" 63]
    by (intro sint_of_int64) linarith+
  then show ?thesis by simp
qed

lemma sint_pos_word:
  fixes w :: u64
  assumes "uint w < 2 ^ 63"
  shows "sint w = uint w"
proof -
  have "sint (word_of_int (uint w) :: u64) = uint w"
    using assms uint_nonnegative[of w] zero_less_power[of "2 :: int" 63]
    by (intro sint_of_int64) linarith+
  then show ?thesis by simp
qed

lemma signed_part_spec:
  "signed_part negative w = Some v \<longleftrightarrow>
     LLONG_MIN \<le> v \<and> v \<le> LLONG_MAX \<and> v = (if negative then - uint w else uint w)"
proof -
  have n: "w > word_of_int (- (LLONG_MIN + 1)) + 1 \<longleftrightarrow> \<not> uint w \<le> 2 ^ 63"
    by (simp add: word_less_def LLONG_MIN_def not_le)
  have p: "w > word_of_int LLONG_MAX \<longleftrightarrow> \<not> uint w < 2 ^ 63"
    by (auto simp add: word_less_def LLONG_MAX_def not_less)
  obtain x where x: "uint w = x" "0 \<le> x" by simp
  show ?thesis
    unfolding signed_part_def n p
    using sint_neg_word[of w] sint_pos_word[of w] x(2) unfolding x(1) LLONG_MIN_def LLONG_MAX_def
    by (cases negative; cases "x < 2 ^ 63"; cases "x \<le> 2 ^ 63") auto
qed

lemma string2ll_cases:
  assumes "s \<noteq> []" "s \<noteq> ''0''" "p = (if hd s = CHR ''-'' then tl s else s)" "p \<noteq> []"
  shows "string2ll s = Some v \<longleftrightarrow>
    (\<exists>w. unat w \<noteq> 0 \<and> p = show_nat (unat w) \<and> signed_part (hd s = CHR ''-'') w = Some v)"
proof -
  have "string2ll s = Some v \<longleftrightarrow>
      (\<exists>w. (of_char (hd p) \<ge> (49 :: nat) \<and> of_char (hd p) \<le> (57 :: nat) \<and>
        string2ll_loop (tl p) (word_of_nat (digit_val (hd p))) = Some w) \<and>
        signed_part (hd s = CHR ''-'') w = Some v)"
    using assms(1,2,4) unfolding string2ll_def Let_def assms(3)[symmetric]
    by (auto split: option.splits)
  then show ?thesis unfolding unsigned_part[OF assms(4)] by simp
qed

lemma show_nat_hd_not_minus: "hd (show_nat n) \<noteq> CHR ''-''"
  using show_nat_digits[of n] show_nat_nonempty[of n]
  by (cases "show_nat n") (auto simp: is_digit_def)

lemma show_int_shape: "show_int v \<noteq> []" "show_int v \<noteq> ''-''" "show_int v = ''0'' \<longleftrightarrow> v = 0"
proof -
  show "show_int v \<noteq> []" by (simp add: show_int_def show_nat_nonempty)
  show "show_int v \<noteq> ''-''"
    using show_nat_hd_not_minus[of "nat v"] by (auto simp: show_int_def show_nat_nonempty)
  show "show_int v = ''0'' \<longleftrightarrow> v = 0"
    using dec_val_show_nat[of "nat v"] show_int_zero by (auto simp: show_int_def digit_val_def)
qed

lemma string2ll_spec:
  "string2ll s = Some v \<longleftrightarrow> s = show_int v \<and> LLONG_MIN \<le> v \<and> v \<le> LLONG_MAX"
proof (cases "s = [] \<or> s = ''0'' \<or> s = ''-''")
  case True
  have *: "string2ll [] = None" "string2ll ''-'' = None" "string2ll ''0'' = Some 0"
    by (simp_all add: string2ll_def)
  have r: "LLONG_MIN \<le> 0" "0 \<le> LLONG_MAX" by (simp_all add: LLONG_MIN_def LLONG_MAX_def)
  from True consider "s = []" | "s = ''0''" | "s = ''-''" by blast
  then show ?thesis
    using * r show_int_shape[of v] by cases (metis option.distinct(1) option.inject)+
next
  case False
  define p where "p = (if hd s = CHR ''-'' then tl s else s)"
  have ne: "p \<noteq> []" using False by (cases s) (auto simp: p_def)
  have eq: "string2ll s = Some v \<longleftrightarrow>
      (\<exists>w :: u64. unat w \<noteq> 0 \<and> p = show_nat (unat w) \<and> signed_part (hd s = CHR ''-'') w = Some v)"
    using False by (intro string2ll_cases[OF _ _ p_def ne]) auto
  show ?thesis
  proof
    assume "string2ll s = Some v"
    then obtain w :: u64 where "unat w \<noteq> 0" "p = show_nat (unat w)"
      and v: "LLONG_MIN \<le> v" "v \<le> LLONG_MAX" "v = (if hd s = CHR ''-'' then - uint w else uint w)"
      unfolding eq signed_part_spec by blast
    moreover obtain n where "uint w = int n" "unat w = n" using uint_nat by blast
    moreover from this calculation have "unat w = nat \<bar>v\<bar>" "hd s = CHR ''-'' \<longleftrightarrow> v < 0" by auto
    ultimately show "s = show_int v \<and> LLONG_MIN \<le> v \<and> v \<le> LLONG_MAX"
      using False by (cases s) (auto simp: show_int_def p_def split: if_splits)
  next
    assume a: "s = show_int v \<and> LLONG_MIN \<le> v \<and> v \<le> LLONG_MAX"
    define w :: u64 where "w = word_of_int \<bar>v\<bar>"
    have w: "uint w = \<bar>v\<bar>"
      using a by (auto simp: w_def LLONG_MIN_def LLONG_MAX_def uint_word_of_int)
    then have u: "unat w = nat \<bar>v\<bar>" by (simp flip: nat_uint_eq)
    have nz: "v \<noteq> 0" using False a show_int_zero by auto
    have "hd s = CHR ''-'' \<longleftrightarrow> v < 0"
      using a show_nat_hd_not_minus[of "nat v"] by (simp add: show_int_def)
    with a w nz show "string2ll s = Some v"
      unfolding eq signed_part_spec
      by (intro exI[of _ w]) (auto simp: p_def show_int_def u)
  qed
qed

text \<open>
  C24: a byte string is accepted as a \<open>long long\<close> exactly when it is the canonical decimal
  representation of an integer in range, and the value is that integer; so no overflow check is
  missing and a parsed number prints back to the same string.
\<close>

theorem string2ll_iff:
  "string2ll s = Some v \<longleftrightarrow> s = show_int v \<and> LLONG_MIN \<le> v \<and> v \<le> LLONG_MAX"
  by (rule string2ll_spec)

end
