(* ===== verification/Sds.thy ===== *)
theory Sds
  imports Decimal
begin

text \<open>
  The dynamic strings of \<open>sds.c\<close> and \<open>sds.h\<close>. A string has one of five headers, whose length and
  allocation fields are 5 to 64 bits wide, and a buffer with room for the allocation and a
  terminator. A byte of the buffer is \<^const>\<open>None\<close> while it is not initialised. Operations return
  \<^const>\<open>None\<close> for an access outside the buffer, a read of an uninitialised byte, or a failed
  assertion. The allocator (\<open>zmalloc\<close>, which aborts rather than return \<open>NULL\<close>) always succeeds.
\<close>

section \<open>Headers\<close>

datatype sdstype = SDS_TYPE_5 | SDS_TYPE_8 | SDS_TYPE_16 | SDS_TYPE_32 | SDS_TYPE_64

definition SDS_MAX_PREALLOC :: nat where
  "SDS_MAX_PREALLOC = 1024 * 1024"

text \<open>The width of the length field, and \<open>sizeof(struct sdshdr<T>)\<close> of the packed headers.\<close>

fun hdr_bits :: "sdstype \<Rightarrow> nat" where
  "hdr_bits SDS_TYPE_5 = 5"
| "hdr_bits SDS_TYPE_8 = 8"
| "hdr_bits SDS_TYPE_16 = 16"
| "hdr_bits SDS_TYPE_32 = 32"
| "hdr_bits SDS_TYPE_64 = 64"

fun sdsHdrSize :: "sdstype \<Rightarrow> nat" where
  "sdsHdrSize SDS_TYPE_5 = 1"
| "sdsHdrSize SDS_TYPE_8 = 3"
| "sdsHdrSize SDS_TYPE_16 = 5"
| "sdsHdrSize SDS_TYPE_32 = 9"
| "sdsHdrSize SDS_TYPE_64 = 17"

definition sdsReqType :: "nat \<Rightarrow> sdstype" where
  "sdsReqType string_size =
     (if string_size < 2 ^ 5 then SDS_TYPE_5
      else if string_size < 2 ^ 8 then SDS_TYPE_8
      else if string_size < 2 ^ 16 then SDS_TYPE_16
      else if string_size < 2 ^ 32 then SDS_TYPE_32
      else SDS_TYPE_64)"

record sds =
  sds_type :: sdstype
  hdr_len :: nat
  hdr_alloc :: nat
  sds_buf :: "char option list"

definition sdslen :: "sds \<Rightarrow> nat" where
  "sdslen s = hdr_len s"

text \<open>The subtraction is unsigned, at the width the operands are promoted to.\<close>

definition sdsavail :: "sds \<Rightarrow> nat" where
  "sdsavail s =
     (case sds_type s of
        SDS_TYPE_5 \<Rightarrow> 0
      | SDS_TYPE_32 \<Rightarrow> nat ((int (hdr_alloc s) - int (hdr_len s)) mod 2 ^ 32)
      | _ \<Rightarrow> nat ((int (hdr_alloc s) - int (hdr_len s)) mod 2 ^ 64))"

definition sdssetlen :: "sds \<Rightarrow> nat \<Rightarrow> sds" where
  "sdssetlen s newlen = s\<lparr>hdr_len := newlen mod 2 ^ hdr_bits (sds_type s)\<rparr>"

definition sdsinclen :: "sds \<Rightarrow> nat \<Rightarrow> sds" where
  "sdsinclen s inc = s\<lparr>hdr_len := (hdr_len s + inc) mod 2 ^ hdr_bits (sds_type s)\<rparr>"

definition sdsalloc :: "sds \<Rightarrow> nat" where
  "sdsalloc s = (case sds_type s of SDS_TYPE_5 \<Rightarrow> hdr_len s | _ \<Rightarrow> hdr_alloc s)"

definition sdssetalloc :: "sds \<Rightarrow> nat \<Rightarrow> sds" where
  "sdssetalloc s newlen =
     (case sds_type s of
        SDS_TYPE_5 \<Rightarrow> s
      | _ \<Rightarrow> s\<lparr>hdr_alloc := newlen mod 2 ^ hdr_bits (sds_type s)\<rparr>)"

text \<open>The bytes of the buffer behind the header of a block of \<open>hdrlen + n + 1\<close> bytes.\<close>

definition buf_size :: "nat \<Rightarrow> nat \<Rightarrow> nat" where
  "buf_size hdrlen n = (hdrlen + n + 1) mod 2 ^ 64 - hdrlen"

definition s_malloc :: "nat \<Rightarrow> char option list" where
  "s_malloc n = replicate n None"

definition s_realloc :: "char option list \<Rightarrow> nat \<Rightarrow> char option list" where
  "s_realloc buf n = take n buf @ replicate (n - length buf) None"

section \<open>Creation\<close>

text \<open>The \<open>init\<close> argument: \<open>SDS_NOINIT\<close>, \<open>NULL\<close>, or the memory behind a pointer.\<close>

datatype sds_init = Noinit | Null | Bytes "char list"

definition sdsnewlen :: "sds_init \<Rightarrow> nat \<Rightarrow> sds option" where
  "sdsnewlen init initlen =
     (let type = sdsReqType initlen;
          type = (if type = SDS_TYPE_5 \<and> initlen = 0 then SDS_TYPE_8 else type);
          hdrlen = sdsHdrSize type;
          buf = (if init = Null then replicate (buf_size hdrlen initlen) (Some NUL)
                 else s_malloc (buf_size hdrlen initlen));
          len = initlen mod 2 ^ hdr_bits type;
          s = \<lparr>sds_type = type, hdr_len = len, hdr_alloc = (if type = SDS_TYPE_5 then 0 else len),
               sds_buf = buf\<rparr>
      in do {
        buf \<leftarrow> (case init of
                 Bytes b \<Rightarrow> if initlen \<noteq> 0 then do {
                              bytes \<leftarrow> read_at b 0 initlen;
                              write_at buf 0 (map Some bytes)
                            } else Some buf
               | _ \<Rightarrow> Some buf);
        buf \<leftarrow> store buf initlen (Some NUL);
        Some (s\<lparr>sds_buf := buf\<rparr>)
      })"

text \<open>The bytes of a C string, and the bytes \<open>s[0..n-1]\<close> of a string handed to \<open>sdsnewlen\<close>.\<close>

definition cstr :: "char list \<Rightarrow> char list" where
  "cstr b = takeWhile (\<lambda>c. c \<noteq> NUL) b"

definition sds_bytes :: "sds \<Rightarrow> nat \<Rightarrow> nat \<Rightarrow> char list option" where
  "sds_bytes s off n = do {
     bytes \<leftarrow> read_at (sds_buf s) off n;
     if None \<in> set bytes then None else Some (map the bytes)
   }"

definition sdsempty :: "sds option" where
  "sdsempty = sdsnewlen (Bytes []) 0"

definition sdsnew :: "char list option \<Rightarrow> sds option" where
  "sdsnew init =
     (case init of
        None \<Rightarrow> sdsnewlen Null 0
      | Some b \<Rightarrow> sdsnewlen (Bytes (cstr b)) (length (cstr b)))"

definition sdsdup :: "sds \<Rightarrow> sds option" where
  "sdsdup s = do { b \<leftarrow> sds_bytes s 0 (sdslen s); sdsnewlen (Bytes b) (sdslen s) }"

section \<open>Length and space\<close>

text \<open>\<open>strlen\<close> on the buffer of a string.\<close>

fun buf_strlen :: "char option list \<Rightarrow> nat option" where
  "buf_strlen [] = None"
| "buf_strlen (None # _) = None"
| "buf_strlen (Some c # b) = (if c = NUL then Some 0 else map_option Suc (buf_strlen b))"

definition sdsupdatelen :: "sds \<Rightarrow> sds option" where
  "sdsupdatelen s = do { reallen \<leftarrow> buf_strlen (sds_buf s); Some (sdssetlen s reallen) }"

definition put_char :: "sds \<Rightarrow> nat \<Rightarrow> char \<Rightarrow> sds option" where
  "put_char s i c = do { buf \<leftarrow> store (sds_buf s) i (Some c); Some (s\<lparr>sds_buf := buf\<rparr>) }"

definition put_block :: "sds \<Rightarrow> nat \<Rightarrow> char option list \<Rightarrow> sds option" where
  "put_block s i b = do { buf \<leftarrow> write_at (sds_buf s) i b; Some (s\<lparr>sds_buf := buf\<rparr>) }"

definition sdsclear :: "sds \<Rightarrow> sds option" where
  "sdsclear s = put_char (sdssetlen s 0) 0 NUL"

definition sdsMakeRoomFor :: "sds \<Rightarrow> nat \<Rightarrow> sds option" where
  "sdsMakeRoomFor s addlen =
     (if sdsavail s \<ge> addlen then Some s
      else
        let len = sdslen s;
            newlen = (len + addlen) mod 2 ^ 64;
            newlen = (if newlen < SDS_MAX_PREALLOC then newlen * 2 else newlen + SDS_MAX_PREALLOC) mod 2 ^ 64;
            type = sdsReqType newlen;
            type = (if type = SDS_TYPE_5 then SDS_TYPE_8 else type);
            hdrlen = sdsHdrSize type
        in do {
          s \<leftarrow> (if sds_type s = type
               then Some (s\<lparr>sds_buf := s_realloc (sds_buf s) (buf_size hdrlen newlen)\<rparr>)
               else do {
                 bytes \<leftarrow> read_at (sds_buf s) 0 (len + 1);
                 buf \<leftarrow> write_at (s_malloc (buf_size hdrlen newlen)) 0 bytes;
                 Some (sdssetlen (s\<lparr>sds_type := type, sds_buf := buf\<rparr>) len)
               });
          Some (sdssetalloc s newlen)
        })"

definition type_gt_8 :: "sdstype \<Rightarrow> bool" where
  "type_gt_8 t = (case t of SDS_TYPE_5 \<Rightarrow> False | SDS_TYPE_8 \<Rightarrow> False | _ \<Rightarrow> True)"

definition sdsRemoveFreeSpace :: "sds \<Rightarrow> sds option" where
  "sdsRemoveFreeSpace s =
     (let oldtype = sds_type s; oldhdrlen = sdsHdrSize oldtype; len = sdslen s in
      if sdsavail s = 0 then Some s
      else
        let type = sdsReqType len; hdrlen = sdsHdrSize type
        in do {
          s \<leftarrow> (if oldtype = type \<or> type_gt_8 type
               then Some (s\<lparr>sds_buf := s_realloc (sds_buf s) (buf_size oldhdrlen len)\<rparr>)
               else do {
                 bytes \<leftarrow> read_at (sds_buf s) 0 (len + 1);
                 buf \<leftarrow> write_at (s_malloc (buf_size hdrlen len)) 0 bytes;
                 Some (sdssetlen (s\<lparr>sds_type := type, sds_buf := buf\<rparr>) len)
               });
          Some (sdssetalloc s len)
        })"

definition sdsAllocSize :: "sds \<Rightarrow> nat" where
  "sdsAllocSize s = sdsHdrSize (sds_type s) + sdsalloc s + 1"

text \<open>
  The assertion of \<open>sdsIncrLen\<close>, with the casts of the source: \<open>(unsigned int)\<close> keeps the low 32
  bits of the increment or of its negation.
\<close>

definition incr_assert :: "sds \<Rightarrow> int \<Rightarrow> bool" where
  "incr_assert s incr =
     (let len = int (hdr_len s); room = int (hdr_alloc s) - int (hdr_len s) in
      case sds_type s of
        SDS_TYPE_5 \<Rightarrow> (incr > 0 \<and> len + incr < 32) \<or> (incr < 0 \<and> len \<ge> (- incr) mod 2 ^ 32)
      | SDS_TYPE_8 \<Rightarrow> (incr \<ge> 0 \<and> room \<ge> incr) \<or> (incr < 0 \<and> len \<ge> (- incr) mod 2 ^ 32)
      | SDS_TYPE_16 \<Rightarrow> (incr \<ge> 0 \<and> room \<ge> incr) \<or> (incr < 0 \<and> len \<ge> (- incr) mod 2 ^ 32)
      | SDS_TYPE_32 \<Rightarrow> (incr \<ge> 0 \<and> room mod 2 ^ 32 \<ge> incr mod 2 ^ 32) \<or>
                        (incr < 0 \<and> len \<ge> (- incr) mod 2 ^ 32)
      | SDS_TYPE_64 \<Rightarrow> (incr \<ge> 0 \<and> room mod 2 ^ 64 \<ge> incr) \<or> (incr < 0 \<and> len \<ge> - incr))"

definition sdsIncrLen :: "sds \<Rightarrow> int \<Rightarrow> sds option" where
  "sdsIncrLen s incr =
     (if \<not> incr_assert s incr then None
      else let len = nat ((int (hdr_len s) + incr) mod 2 ^ hdr_bits (sds_type s))
        in put_char (s\<lparr>hdr_len := len\<rparr>) len NUL)"

section \<open>Concatenation and copying\<close>

definition sdsgrowzero :: "sds \<Rightarrow> nat \<Rightarrow> sds option" where
  "sdsgrowzero s len =
     (let curlen = sdslen s in
      if len \<le> curlen then Some s
      else do {
        s \<leftarrow> sdsMakeRoomFor s (len - curlen);
        s \<leftarrow> put_block s curlen (replicate (len - curlen + 1) (Some NUL));
        Some (sdssetlen s len)
      })"

text \<open>The source block of a copy is given by its bytes.\<close>

definition sdscatlen :: "sds \<Rightarrow> char list \<Rightarrow> sds option" where
  "sdscatlen s t =
     (let curlen = sdslen s in
      do {
        s \<leftarrow> sdsMakeRoomFor s (length t);
        s \<leftarrow> put_block s curlen (map Some t);
        put_char (sdssetlen s (curlen + length t)) (curlen + length t) NUL
      })"

definition sdscat :: "sds \<Rightarrow> char list \<Rightarrow> sds option" where
  "sdscat s t = sdscatlen s (cstr t)"

definition sdscatsds :: "sds \<Rightarrow> sds \<Rightarrow> sds option" where
  "sdscatsds s t = do { b \<leftarrow> sds_bytes t 0 (sdslen t); sdscatlen s b }"

definition sdscpylen :: "sds \<Rightarrow> char list \<Rightarrow> sds option" where
  "sdscpylen s t =
     (let len = length t in
      do {
        s \<leftarrow> (if sdsalloc s < len then sdsMakeRoomFor s (len - sdslen s) else Some s);
        s \<leftarrow> put_block s 0 (map Some t);
        s \<leftarrow> put_char s len NUL;
        Some (sdssetlen s len)
      })"

definition sdscpy :: "sds \<Rightarrow> char list \<Rightarrow> sds option" where
  "sdscpy s t = sdscpylen s (cstr t)"

section \<open>Trimming and ranges\<close>

definition get_char :: "sds \<Rightarrow> nat \<Rightarrow> char option" where
  "get_char s i = do { c \<leftarrow> fetch (sds_buf s) i; c }"

text \<open>\<open>strchr(cset, c) != NULL\<close>: the terminator of the set is found as well.\<close>

definition strchr :: "char list \<Rightarrow> char \<Rightarrow> bool" where
  "strchr cset c \<longleftrightarrow> c \<in> set (cstr cset) \<or> c = NUL"

function trim_left :: "sds \<Rightarrow> char list \<Rightarrow> int \<Rightarrow> int \<Rightarrow> int option" where
  "trim_left s cset sp endp =
     (if sp \<le> endp then do {
        c \<leftarrow> get_char s (nat sp);
        if strchr cset c then trim_left s cset (sp + 1) endp else Some sp
      } else Some sp)"
  by pat_completeness auto
termination
  by (relation "measure (\<lambda>(s, cset, sp, endp). nat (endp + 1 - sp))") auto

function trim_right :: "sds \<Rightarrow> char list \<Rightarrow> int \<Rightarrow> int \<Rightarrow> int option" where
  "trim_right s cset sp ep =
     (if ep > sp then do {
        c \<leftarrow> get_char s (nat ep);
        if strchr cset c then trim_right s cset sp (ep - 1) else Some ep
      } else Some ep)"
  by pat_completeness auto
termination
  by (relation "measure (\<lambda>(s, cset, sp, ep). nat (ep - sp))") auto

declare trim_left.simps [simp del] trim_right.simps [simp del]

definition sdstrim :: "sds \<Rightarrow> char list \<Rightarrow> sds option" where
  "sdstrim s cset =
     (let endp = int (sdslen s) - 1 in
      do {
        sp \<leftarrow> trim_left s cset 0 endp;
        ep \<leftarrow> trim_right s cset sp endp;
        let len = (if sp > ep then 0 else nat (ep - sp + 1));
        s \<leftarrow> (if sp \<noteq> 0 then do { b \<leftarrow> read_at (sds_buf s) (nat sp) len; put_block s 0 b } else Some s);
        s \<leftarrow> put_char s len NUL;
        Some (sdssetlen s len)
      })"

text \<open>The start and the length of the range, from the normalised indexes.\<close>

definition clamp_range :: "int \<Rightarrow> int \<Rightarrow> int \<Rightarrow> int \<times> int" where
  "clamp_range len start endp =
     (let newlen = (if start > endp then 0 else endp - start + 1) in
      if newlen \<noteq> 0 then
        (if start \<ge> len then (start, 0)
         else if endp \<ge> len then
           let endp = len - 1 in (start, if start > endp then 0 else endp - start + 1)
         else (start, newlen))
      else (0, newlen))"

definition sdsrange :: "sds \<Rightarrow> int \<Rightarrow> int \<Rightarrow> sds option" where
  "sdsrange s start endp =
     (let len = int (sdslen s) in
      if len = 0 then Some s
      else
        let start = (if start < 0 then max (len + start) 0 else start);
            endp = (if endp < 0 then max (len + endp) 0 else endp);
            (start, newlen) = clamp_range len start endp
        in do {
          s \<leftarrow> (if start \<noteq> 0 \<and> newlen \<noteq> 0
               then do { b \<leftarrow> read_at (sds_buf s) (nat start) (nat newlen); put_block s 0 b }
               else Some s);
          s \<leftarrow> put_char s (nat newlen) NUL;
          Some (sdssetlen s (nat newlen))
        })"

section \<open>Bytewise operations and comparison\<close>

text \<open>\<open>tolower\<close> and \<open>toupper\<close> of the C locale on a byte.\<close>

definition tolower :: "char \<Rightarrow> char" where
  "tolower c = (if (65 :: nat) \<le> of_char c \<and> of_char c \<le> (90 :: nat) then char_of (of_char c + (32 :: nat)) else c)"

definition toupper :: "char \<Rightarrow> char" where
  "toupper c = (if (97 :: nat) \<le> of_char c \<and> of_char c \<le> (122 :: nat) then char_of (of_char c - (32 :: nat)) else c)"

fun map_loop :: "(char \<Rightarrow> char) \<Rightarrow> nat \<Rightarrow> nat \<Rightarrow> sds \<Rightarrow> sds option" where
  "map_loop f 0 j s = Some s"
| "map_loop f (Suc n) j s = do {
     c \<leftarrow> get_char s j;
     s \<leftarrow> put_char s j (f c);
     map_loop f n (j + 1) s
   }"

definition sdstolower :: "sds \<Rightarrow> sds option" where
  "sdstolower s = map_loop tolower (sdslen s) 0 s"

definition sdstoupper :: "sds \<Rightarrow> sds option" where
  "sdstoupper s = map_loop toupper (sdslen s) 0 s"

text \<open>The inner loop of \<open>sdsmapchars\<close>: the first matching byte of \<open>from\<close> decides.\<close>

fun map_char :: "char list \<Rightarrow> char list \<Rightarrow> char \<Rightarrow> char" where
  "map_char (a # frm) (b # to) c = (if c = a then b else map_char frm to c)"
| "map_char _ _ c = c"

definition sdsmapchars :: "sds \<Rightarrow> char list \<Rightarrow> char list \<Rightarrow> nat \<Rightarrow> sds option" where
  "sdsmapchars s frm to setlen =
     (if setlen \<le> length frm \<and> setlen \<le> length to
      then map_loop (map_char (take setlen frm) (take setlen to)) (sdslen s) 0 s
      else None)"

text \<open>\<open>memcmp\<close> on two blocks of the same length; only the sign of its result is specified.\<close>

fun memcmp :: "char list \<Rightarrow> char list \<Rightarrow> int" where
  "memcmp (a # x) (b # y) =
     (if of_char a < (of_char b :: nat) then -1
      else if of_char a > (of_char b :: nat) then 1 else memcmp x y)"
| "memcmp _ _ = 0"

definition sdscmp :: "sds \<Rightarrow> sds \<Rightarrow> int option" where
  "sdscmp s1 s2 =
     (let l1 = sdslen s1; l2 = sdslen s2; minlen = (if l1 < l2 then l1 else l2) in
      do {
        b1 \<leftarrow> sds_bytes s1 0 minlen;
        b2 \<leftarrow> sds_bytes s2 0 minlen;
        let cmp = memcmp b1 b2;
        Some (if cmp = 0 then (if l1 > l2 then 1 else if l1 < l2 then -1 else 0) else cmp)
      })"

section \<open>Well-formed strings and their contents\<close>

text \<open>
  \<open>sds_rep s c\<close>: the string is well formed and holds the bytes \<open>c\<close>. The buffer starts with these
  bytes and a terminator, it has room for the allocation, and the allocation fits the header.
\<close>

definition sds_rep :: "sds \<Rightarrow> char list \<Rightarrow> bool" where
  "sds_rep s c \<longleftrightarrow>
     sdslen s = length c \<and> length c \<le> sdsalloc s \<and> sdsalloc s < 2 ^ hdr_bits (sds_type s) \<and>
     (\<exists>rest. sds_buf s = map Some c @ Some NUL # rest \<and> sdsalloc s \<le> length c + length rest)"

text \<open>The same while the terminator is still to be written: the byte behind the contents is \<open>x\<close>.\<close>

definition sds_open :: "char option \<Rightarrow> sds \<Rightarrow> char list \<Rightarrow> bool" where
  "sds_open x s c \<longleftrightarrow>
     sdslen s = length c \<and> length c \<le> sdsalloc s \<and> sdsalloc s < 2 ^ hdr_bits (sds_type s) \<and>
     (\<exists>rest. sds_buf s = map Some c @ x # rest \<and> sdsalloc s \<le> length c + length rest)"

lemma sds_rep_open: "sds_rep s c \<longleftrightarrow> sds_open (Some NUL) s c"
  by (simp add: sds_rep_def sds_open_def)

lemma sds_rep_unique:
  assumes "sds_rep s c" "sds_rep s c'"
  shows "c = c'"
proof -
  obtain r r' where "map Some c @ Some NUL # r = map Some c' @ Some NUL # r'" "length c = length c'"
    using assms unfolding sds_rep_def by metis
  then have "map Some c = map Some c'" by simp
  then show ?thesis by (simp add: inj_map_eq_map)
qed

lemma hdr_bits_le: "hdr_bits t \<le> 64"
  by (cases t) simp_all

lemma sdsReqType_fits: "n < 2 ^ 64 \<Longrightarrow> n < 2 ^ hdr_bits (sdsReqType n)"
  by (simp add: sdsReqType_def)

lemma buf_size_fits: "n + 18 < 2 ^ 64 \<Longrightarrow> buf_size (sdsHdrSize t) n = n + 1"
  by (cases t) (simp_all add: buf_size_def)

lemma sdsavail_open: "sds_open x s c \<Longrightarrow> sdsavail s = sdsalloc s - length c"
  by (auto simp: sds_open_def sdsavail_def sdsalloc_def sdslen_def mod_pos_pos_trivial split: sdstype.splits)

lemmas sdsavail_rep = sdsavail_open[of "Some NUL", folded sds_rep_open]

lemma sds_bytes_rep:
  assumes "sds_rep s c" "off + n \<le> length c"
  shows "sds_bytes s off n = Some (take n (drop off c))"
proof -
  obtain rest where b: "sds_buf s = map Some c @ Some NUL # rest" using assms(1) by (auto simp: sds_rep_def)
  have "take n (drop off (sds_buf s)) = map Some (take n (drop off c))"
    using assms(2) by (simp add: b take_map drop_map)
  then show ?thesis using assms(2) b by (auto simp: sds_bytes_def)
qed

lemma get_char_rep: "sds_rep s c \<Longrightarrow> i < length c \<Longrightarrow> get_char s i = Some (c ! i)"
  by (auto simp: sds_rep_def get_char_def nth_append)

section \<open>Space is made without touching the contents\<close>

lemma sds_openI:
  assumes "sds_buf s = map Some c @ x # rest" "sdslen s = length c"
    "length c \<le> sdsalloc s" "sdsalloc s \<le> length c + length rest" "sdsalloc s < 2 ^ hdr_bits (sds_type s)"
  shows "sds_open x s c"
  using assms by (auto simp: sds_open_def)

lemma sds_openE:
  assumes "sds_open x s c"
  obtains rest where "sds_buf s = map Some c @ x # rest" "hdr_len s = length c"
    "length c \<le> sdsalloc s" "sdsalloc s \<le> length c + length rest" "sdsalloc s < 2 ^ hdr_bits (sds_type s)"
  using assms by (auto simp: sds_open_def sdslen_def)

lemmas sds_repI = sds_openI[of _ _ "Some NUL", folded sds_rep_open]
lemmas sds_repE = sds_openE[of "Some NUL", folded sds_rep_open]

lemma sds_fields [simp]:
  "sds_type (sdssetlen s n) = sds_type s" "sds_buf (sdssetlen s n) = sds_buf s"
  "sds_type (sdssetalloc s n) = sds_type s" "sds_buf (sdssetalloc s n) = sds_buf s"
  "sdslen (sdssetalloc s n) = sdslen s"
  "sdslen (sdssetlen s n) = n mod 2 ^ hdr_bits (sds_type s)"
  "sdslen (s\<lparr>sds_buf := b\<rparr>) = sdslen s" "sdsalloc (s\<lparr>sds_buf := b\<rparr>) = sdsalloc s"
  by (simp_all add: sdssetlen_def sdssetalloc_def sdslen_def sdsalloc_def split: sdstype.splits)

text \<open>A buffer of another size for the same contents, with the fields set to match.\<close>

lemma sds_open_resized:
  assumes "sds_type s \<noteq> SDS_TYPE_5" "n < 2 ^ hdr_bits (sds_type s)"
    "sds_buf s = map Some c @ x # rest" "n = length c + length rest" "sdslen s = length c"
  shows "sds_open x (sdssetalloc s n) c"
  using assms by (intro sds_openI[of _ c x rest]) (auto simp: sdssetalloc_def sdsalloc_def sdslen_def split: sdstype.splits)

lemma s_realloc_keeps:
  assumes "length c \<le> n"
  obtains rest' where "s_realloc (map Some c @ x # rest) (n + 1) = map Some c @ x # rest'"
    "length rest' = n - length c"
proof
  show "s_realloc (map Some c @ x # rest) (n + 1) =
      map Some c @ x # (take (n - length c) rest @ replicate (n - length c - length rest) None)"
    using assms by (simp add: s_realloc_def Suc_diff_le diff_diff_eq)
qed simp

lemma sdsMakeRoomFor_open:
  assumes rep: "sds_open x s c" and bound: "length c + n \<le> 2 ^ 63"
  shows "\<exists>s'. sdsMakeRoomFor s n = Some s' \<and> sds_open x s' c \<and> length c + n \<le> sdsalloc s'"
proof (cases "sdsavail s \<ge> n")
  case True
  with rep show ?thesis
    using sdsavail_open[OF rep] by (auto simp: sdsMakeRoomFor_def sds_open_def)
next
  case False
  obtain rest where b: "sds_buf s = map Some c @ x # rest" "hdr_len s = length c"
    "length c \<le> sdsalloc s" using rep by (rule sds_openE)
  define N where "N = (if length c + n < SDS_MAX_PREALLOC then (length c + n) * 2
    else length c + n + SDS_MAX_PREALLOC)"
  define T where "T = (if sdsReqType N = SDS_TYPE_5 then SDS_TYPE_8 else sdsReqType N)"
  have N: "N + 18 < 2 ^ 64" "length c + n \<le> N" "length c \<le> N"
    using bound False sdsavail_open[OF rep] b by (auto simp: N_def SDS_MAX_PREALLOC_def)
  have fits: "N < 2 ^ hdr_bits T" "T \<noteq> SDS_TYPE_5"
    using sdsReqType_fits[of N] N(1) by (auto simp: T_def)
  have cfits: "length c mod 2 ^ hdr_bits T = length c" using N(3) fits by simp
  have mods: "(length c + n) mod 2 ^ 64 = length c + n" "N mod 2 ^ 64 = N"
    using bound N(1) by simp_all
  have unfold: "sdsMakeRoomFor s n = do {
      s \<leftarrow> (if sds_type s = T
           then Some (s\<lparr>sds_buf := s_realloc (sds_buf s) (N + 1)\<rparr>)
           else do {
             bytes \<leftarrow> read_at (sds_buf s) 0 (length c + 1);
             buf \<leftarrow> write_at (s_malloc (N + 1)) 0 bytes;
             Some (sdssetlen (s\<lparr>sds_type := T, sds_buf := buf\<rparr>) (length c))
           });
      Some (sdssetalloc s N)
    }"
    using False b(2) unfolding sdsMakeRoomFor_def Let_def sdslen_def
    by (simp only: mods N_def[symmetric] T_def[symmetric] buf_size_fits[OF N(1)] if_False)
  let ?junk = "replicate (N - length c) None"
  obtain rest' where re: "s_realloc (sds_buf s) (N + 1) = map Some c @ x # rest'"
    "length rest' = N - length c" unfolding b(1) using N(3) by (rule s_realloc_keeps)
  have wr: "write_at (s_malloc (N + 1)) 0 (map Some c @ [x]) = Some (map Some c @ x # ?junk)"
    using N(3) by (simp add: s_malloc_def)
  show ?thesis
  proof (cases "sds_type s = T")
    case True
    have "sds_open x (sdssetalloc (s\<lparr>sds_buf := s_realloc (sds_buf s) (N + 1)\<rparr>) N) c"
      using True fits N b re
      by (intro sds_open_resized[of _ N c x rest']) (auto simp: sdslen_def)
    then show ?thesis
      using True N fits unfold by (auto simp: sdssetalloc_def sdsalloc_def split: sdstype.splits)
  next
    case False
    let ?s = "sdssetlen (s\<lparr>sds_type := T, sds_buf := map Some c @ x # ?junk\<rparr>) (length c)"
    have "sds_open x (sdssetalloc ?s N) c"
      using fits N cfits by (intro sds_open_resized[of _ N c x ?junk]) auto
    moreover have "sdsMakeRoomFor s n = Some (sdssetalloc ?s N)"
      using False unfold wr b(1) by simp
    ultimately show ?thesis
      using N fits by (auto simp: sdssetalloc_def sdsalloc_def split: sdstype.splits)
  qed
qed

lemmas sds_rep_resized = sds_open_resized[of _ _ _ "Some NUL", folded sds_rep_open]
lemmas sdsMakeRoomFor_spec = sdsMakeRoomFor_open[of "Some NUL", folded sds_rep_open]

section \<open>Every operation computes its list function\<close>

text \<open>New contents of at most the allocation, written into the buffer.\<close>

lemma sds_rep_written:
  assumes rep: "sds_rep s c" and b: "b = map Some d @ Some NUL # rest" and len: "length b = length (sds_buf s)"
    and fit: "length d \<le> sdsalloc s"
  shows "sds_rep (sdssetlen (s\<lparr>sds_buf := b\<rparr>) (length d)) d"
proof -
  obtain r where r: "sds_buf s = map Some c @ Some NUL # r" "length c \<le> sdsalloc s"
    "sdsalloc s \<le> length c + length r" "sdsalloc s < 2 ^ hdr_bits (sds_type s)"
    using rep by (rule sds_repE)
  let ?s = "sdssetlen (s\<lparr>sds_buf := b\<rparr>) (length d)"
  have d: "sdslen ?s = length d" using fit r(4) by simp
  have "sds_type s = SDS_TYPE_5 \<and> sdsalloc ?s = length d \<or> sds_type s \<noteq> SDS_TYPE_5 \<and> sdsalloc ?s = sdsalloc s"
    using d by (auto simp: sdsalloc_def sdslen_def sdssetlen_def split: sdstype.splits)
  then show ?thesis
    using d b r fit len by (intro sds_repI[of _ d rest]) auto
qed

lemma put_char_in: "i < length (sds_buf s) \<Longrightarrow> put_char s i c = Some (s\<lparr>sds_buf := (sds_buf s)[i := Some c]\<rparr>)"
  by (simp add: put_char_def)

lemma put_block_in:
  "i + length b \<le> length (sds_buf s) \<Longrightarrow>
   put_block s i b = Some (s\<lparr>sds_buf := take i (sds_buf s) @ b @ drop (i + length b) (sds_buf s)\<rparr>)"
  by (simp add: put_block_def)

lemma sds_buf_room: "sds_rep s c \<Longrightarrow> sdsalloc s < length (sds_buf s)"
  by (auto simp: sds_rep_def)

text \<open>A block written over the front of the buffer or behind the contents, and its terminator.\<close>

lemma write_then_terminate:
  assumes rep: "sds_rep s c" and off: "off \<le> length c" and fit: "off + length t \<le> sdsalloc s"
  shows "\<exists>s'. do { s \<leftarrow> put_block s off (map Some t); put_char s (off + length t) NUL } = Some s' \<and>
    s' = s\<lparr>sds_buf := sds_buf s'\<rparr> \<and> length (sds_buf s') = length (sds_buf s) \<and>
    (\<exists>rest. sds_buf s' = map Some (take off c @ t) @ Some NUL # rest)"
proof -
  obtain r where r: "sds_buf s = map Some c @ Some NUL # r" using rep by (rule sds_repE)
  have room: "off + length t < length (sds_buf s)" using sds_buf_room[OF rep] fit by simp
  have tk: "take off (sds_buf s) = map Some (take off c)" using off by (simp add: r take_map)
  let ?b = "take off (sds_buf s) @ map Some t @ drop (off + length t) (sds_buf s)"
  have "length ?b = length (sds_buf s)" using room by simp
  moreover have "?b[off + length t := Some NUL] =
      map Some (take off c @ t) @ Some NUL # drop (Suc (off + length t)) (sds_buf s)"
    using off room tk by (simp add: list_update_append Cons_nth_drop_Suc[symmetric])
  ultimately show ?thesis
    using room off by (simp add: put_block_in put_char_in min_absorb2)
qed

lemma sdscatlen_spec:
  assumes "sds_rep s c" "length c + length t \<le> 2 ^ 63"
  shows "\<exists>s'. sdscatlen s t = Some s' \<and> sds_rep s' (c @ t)"
proof -
  obtain s1 where s1: "sdsMakeRoomFor s (length t) = Some s1" "sds_rep s1 c" "length c + length t \<le> sdsalloc s1"
    using sdsMakeRoomFor_spec[OF assms] by auto
  obtain s2 rest where s2: "do { s \<leftarrow> put_block s1 (length c) (map Some t); put_char s (length c + length t) NUL } = Some s2"
    "s2 = s1\<lparr>sds_buf := sds_buf s2\<rparr>" "length (sds_buf s2) = length (sds_buf s1)"
    "sds_buf s2 = map Some (c @ t) @ Some NUL # rest"
    using write_then_terminate[OF s1(2) order_refl s1(3)] by auto
  have "sds_rep (sdssetlen (s1\<lparr>sds_buf := sds_buf s2\<rparr>) (length (c @ t))) (c @ t)"
    using s1 s2 by (intro sds_rep_written[OF s1(2) s2(4)]) auto
  moreover have "sdscatlen s t = Some (sdssetlen s2 (length (c @ t)))"
    using s1(1) s2(1) assms(1)
    by (auto simp: sdscatlen_def Let_def sds_rep_def put_char_def sdssetlen_def bind_eq_Some_conv put_block_def)
  ultimately show ?thesis using s2(2) by auto
qed

lemma sdscpylen_spec:
  assumes "sds_rep s c" "length t \<le> 2 ^ 63"
  shows "\<exists>s'. sdscpylen s t = Some s' \<and> sds_rep s' t"
proof -
  have len: "sdslen s = length c" using assms(1) by (simp add: sds_rep_def)
  have "\<exists>s1. (if sdsalloc s < length t then sdsMakeRoomFor s (length t - sdslen s) else Some s) = Some s1 \<and>
      sds_rep s1 c \<and> length t \<le> sdsalloc s1"
  proof (cases "sdsalloc s < length t")
    case True
    then have "length c + (length t - length c) = length t" using assms(1) by (auto simp: sds_rep_def)
    with True show ?thesis
      using sdsMakeRoomFor_spec[OF assms(1), of "length t - length c"] assms(2) len by simp
  qed (use assms in auto)
  then obtain s1 where s1: "(if sdsalloc s < length t then sdsMakeRoomFor s (length t - sdslen s) else Some s) = Some s1"
    "sds_rep s1 c" "length t \<le> sdsalloc s1" by auto
  obtain s2 rest where s2: "do { s \<leftarrow> put_block s1 0 (map Some t); put_char s (length t) NUL } = Some s2"
    "s2 = s1\<lparr>sds_buf := sds_buf s2\<rparr>" "length (sds_buf s2) = length (sds_buf s1)"
    "sds_buf s2 = map Some t @ Some NUL # rest"
    using write_then_terminate[OF s1(2), of 0 t] s1(3) by auto
  have "sds_rep (sdssetlen (s1\<lparr>sds_buf := sds_buf s2\<rparr>) (length t)) t"
    using s1 s2 by (intro sds_rep_written[OF s1(2) s2(4)]) auto
  moreover have "sdscpylen s t = Some (sdssetlen s2 (length t))"
    using s1(1) s2(1) by (auto simp: sdscpylen_def Let_def bind_eq_Some_conv)
  ultimately show ?thesis using s2(2) by auto
qed

lemma sdsgrowzero_spec:
  assumes "sds_rep s c" "n \<le> 2 ^ 63"
  shows "\<exists>s'. sdsgrowzero s n = Some s' \<and> sds_rep s' (c @ replicate (n - length c) NUL)"
proof (cases "n \<le> length c")
  case True
  with assms show ?thesis by (simp add: sdsgrowzero_def sds_rep_def)
next
  case False
  define t where "t = replicate (n - length c) NUL"
  have len: "sdslen s = length c" "length c + length t = n" "length t = n - length c"
    using False assms(1) by (simp_all add: sds_rep_def t_def)
  obtain s1 where s1: "sdsMakeRoomFor s (length t) = Some s1" "sds_rep s1 c" "n \<le> sdsalloc s1"
    using sdsMakeRoomFor_spec[OF assms(1), of "length t"] assms(2) len by auto
  obtain r where r: "sds_buf s1 = map Some c @ Some NUL # r" using s1(2) by (rule sds_repE)
  let ?b = "map Some (c @ t) @ Some NUL # drop (length t) r"
  have room: "n < length (sds_buf s1)" using s1(3) sds_buf_room[OF s1(2)] by simp
  have "replicate (length t + 1) (Some NUL) = map Some t @ [Some NUL]"
    by (simp add: t_def replicate_append_same)
  then have "put_block s1 (length c) (replicate (length t + 1) (Some NUL)) = Some (s1\<lparr>sds_buf := ?b\<rparr>)"
    using room len False by (simp add: put_block_in r Suc_diff_le)
  then have "sdsgrowzero s n = Some (sdssetlen (s1\<lparr>sds_buf := ?b\<rparr>) (length (c @ t)))"
    using False s1(1) len by (simp add: sdsgrowzero_def)
  moreover have "sds_rep (sdssetlen (s1\<lparr>sds_buf := ?b\<rparr>) (length (c @ t))) (c @ t)"
    using room len r s1(3) by (intro sds_rep_written[OF s1(2) refl]) auto
  ultimately show ?thesis by (auto simp: t_def)
qed

lemma s_malloc_snoc: "s_malloc (n + 1) = replicate n None @ [None]"
  by (simp add: s_malloc_def replicate_append_same)

lemma sdsnewlen_spec:
  assumes "length b < 2 ^ 63"
  shows "\<exists>s. sdsnewlen (Bytes b) (length b) = Some s \<and> sds_rep s b"
proof -
  define T where "T = (if sdsReqType (length b) = SDS_TYPE_5 \<and> length b = 0 then SDS_TYPE_8 else sdsReqType (length b))"
  have fits: "length b < 2 ^ hdr_bits T"
    using sdsReqType_fits[of "length b"] assms by (auto simp: T_def)
  have size: "buf_size (sdsHdrSize T) (length b) = length b + 1"
    using assms by (intro buf_size_fits) simp
  let ?s = "\<lparr>sds_type = T, hdr_len = length b, hdr_alloc = (if T = SDS_TYPE_5 then 0 else length b),
    sds_buf = map Some b @ [Some NUL]\<rparr>"
  have "sdsnewlen (Bytes b) (length b) = Some ?s"
    using fits unfolding sdsnewlen_def Let_def T_def[symmetric] size s_malloc_snoc
    by (cases "b = []") (simp_all add: list_update_append)
  moreover have "sds_rep ?s b"
    using fits by (intro sds_repI[of _ b "[]"]) (auto simp: sdslen_def sdsalloc_def split: sdstype.splits)
  ultimately show ?thesis by auto
qed

lemma sdsempty_spec: "\<exists>s. sdsempty = Some s \<and> sds_rep s []"
  using sdsnewlen_spec[of "[]"] by (simp add: sdsempty_def)

lemma sdsdup_spec: "sds_rep s c \<Longrightarrow> length c < 2 ^ 63 \<Longrightarrow> \<exists>s'. sdsdup s = Some s' \<and> sds_rep s' c"
  using sdsnewlen_spec[of c] sds_bytes_rep[of s c 0 "length c"] by (simp add: sdsdup_def sds_rep_def)

text \<open>Shorter contents, moved to the front of the buffer.\<close>

lemma write_front:
  assumes rep: "sds_rep s c" and fit: "length d \<le> sdsalloc s"
  shows "\<exists>s'. do { s \<leftarrow> put_block s 0 (map Some d); s \<leftarrow> put_char s (length d) NUL;
      Some (sdssetlen s (length d)) } = Some s' \<and> sds_rep s' d \<and>
      sds_buf s' = map Some d @ Some NUL # drop (Suc (length d)) (sds_buf s)"
proof -
  have room: "length d < length (sds_buf s)" using sds_buf_room[OF rep] fit by simp
  let ?b = "map Some d @ Some NUL # drop (Suc (length d)) (sds_buf s)"
  have "(map Some d @ drop (length d) (sds_buf s))[length d := Some NUL] = ?b"
    using room by (simp add: list_update_append Cons_nth_drop_Suc[symmetric])
  moreover have "sds_rep (sdssetlen (s\<lparr>sds_buf := ?b\<rparr>) (length d)) d"
    using room fit by (intro sds_rep_written[OF rep refl]) auto
  ultimately show ?thesis using room by (simp add: put_block_in put_char_in)
qed

lemma cut_front:
  assumes rep: "sds_rep s c" and n: "n \<le> length c"
  shows "\<exists>s'. do { s \<leftarrow> put_char s n NUL; Some (sdssetlen s n) } = Some s' \<and> sds_rep s' (take n c)"
proof -
  have fit: "length (take n c) \<le> sdsalloc s" using rep n by (auto simp: sds_rep_def)
  obtain r where r: "sds_buf s = map Some c @ Some NUL # r" using rep by (rule sds_repE)
  have "put_block s 0 (map Some (take n c)) = Some s"
    using n by (simp add: put_block_in r take_map[symmetric] append_assoc[symmetric] del: append_assoc)
  then show ?thesis using write_front[OF rep fit] n by auto
qed

lemma read_rep:
  assumes "sds_rep s c" "off + n \<le> length c"
  shows "read_at (sds_buf s) off n = Some (map Some (take n (drop off c)))"
  using assms by (auto simp: sds_rep_def take_map drop_map)

lemma move_front:
  assumes rep: "sds_rep s c" and n: "off + n \<le> length c"
  shows "\<exists>s'. do { s \<leftarrow> do { b \<leftarrow> read_at (sds_buf s) off n; put_block s 0 b };
      s \<leftarrow> put_char s n NUL; Some (sdssetlen s n) } = Some s' \<and> sds_rep s' (take n (drop off c))"
proof -
  have "length (take n (drop off c)) \<le> sdsalloc s" using rep n by (auto simp: sds_rep_def)
  from write_front[OF rep this] show ?thesis using n read_rep[OF rep n] by auto
qed

text \<open>The move is skipped when the block already starts at the front.\<close>

lemma move_or_cut:
  assumes rep: "sds_rep s c" and n: "off + n \<le> length c" and skip: "\<not> P \<Longrightarrow> off = 0 \<or> n = 0"
  shows "\<exists>s'. do { s \<leftarrow> (if P then do { b \<leftarrow> read_at (sds_buf s) off n; put_block s 0 b } else Some s);
      s \<leftarrow> put_char s n NUL; Some (sdssetlen s n) } = Some s' \<and> sds_rep s' (take n (drop off c))"
proof (cases P)
  case True
  then show ?thesis using move_front[OF rep n] by simp
next
  case False
  then show ?thesis using cut_front[OF rep, of n] n skip by auto
qed

lemma sdsclear_spec:
  assumes "sds_rep s c"
  shows "\<exists>s'. sdsclear s = Some s' \<and> sds_rep s' []"
proof -
  have "0 < length (sds_buf s)" using sds_buf_room[OF assms] by linarith
  then have "sdsclear s = do { s \<leftarrow> put_char s 0 NUL; Some (sdssetlen s 0) }"
    by (simp add: sdsclear_def put_char_in sdssetlen_def)
  then show ?thesis using cut_front[OF assms, of 0] by simp
qed

definition range_lo :: "char list \<Rightarrow> int \<Rightarrow> int" where
  "range_lo c i = (if i < 0 then max (int (length c) + i) 0 else i)"

lemma sdsrange_spec:
  assumes rep: "sds_rep s c"
  shows "\<exists>s'. sdsrange s start endp = Some s' \<and>
    sds_rep s' (take (nat (range_lo c endp - range_lo c start + 1)) (drop (nat (range_lo c start)) c))"
proof (cases "c = []")
  case True
  with rep show ?thesis by (auto simp: sdsrange_def sds_rep_def)
next
  case False
  define lo hi where "lo = range_lo c start" and "hi = range_lo c endp"
  have pos: "0 \<le> lo" "0 \<le> hi" by (auto simp: lo_def hi_def range_lo_def)
  have len: "sdslen s = length c" "length c \<noteq> 0" using rep False by (simp_all add: sds_rep_def)
  define st n where "st = (if lo \<le> hi then lo else 0)"
    and "n = (if lo \<le> hi \<and> lo < int (length c) then min hi (int (length c) - 1) - lo + 1 else 0)"
  have norm: "(if start < 0 then max (int (length c) + start) 0 else start) = lo"
    "(if endp < 0 then max (int (length c) + endp) 0 else endp) = hi"
    by (simp_all add: lo_def hi_def range_lo_def)
  have clamp: "clamp_range (int (length c)) lo hi = (st, n)"
    using pos len(2) by (auto simp: clamp_range_def st_def n_def Let_def)
  have eq: "sdsrange s start endp = do {
      s \<leftarrow> (if st \<noteq> 0 \<and> n \<noteq> 0 then do { b \<leftarrow> read_at (sds_buf s) (nat st) (nat n); put_block s 0 b } else Some s);
      s \<leftarrow> put_char s (nat n) NUL; Some (sdssetlen s (nat n)) }"
    using len(2) by (simp only: sdsrange_def Let_def len(1) norm clamp case_prod_conv of_nat_eq_0_iff if_False)
  show ?thesis
  proof (cases "n = 0")
    case True
    then have "take (nat (hi - lo + 1)) (drop (nat lo) c) = []"
      using pos by (auto simp: n_def not_le not_less split: if_splits)
    then show ?thesis
      using move_or_cut[OF rep, of 0 0 False] eq True unfolding lo_def hi_def by auto
  next
    case False
    then have st: "st = lo" "lo \<le> hi" "lo < int (length c)" "n = min hi (int (length c) - 1) - lo + 1"
      by (auto simp: st_def n_def split: if_splits)
    have "take (nat n) (drop (nat st) c) = take (nat (hi - lo + 1)) (drop (nat lo) c)"
      using st pos by (cases "hi \<le> int (length c) - 1") auto
    moreover have "nat st + nat n \<le> length c" using st pos by auto
    ultimately show ?thesis
      using move_or_cut[OF rep, of "nat st" "nat n" "st \<noteq> 0 \<and> n \<noteq> 0"] eq False pos st
      unfolding lo_def hi_def by auto
  qed
qed

definition rdropWhile :: "('a \<Rightarrow> bool) \<Rightarrow> 'a list \<Rightarrow> 'a list" where
  "rdropWhile P xs = rev (dropWhile P (rev xs))"

lemma rdropWhile_snoc: "rdropWhile P (xs @ [x]) = (if P x then rdropWhile P xs else xs @ [x])"
  by (simp add: rdropWhile_def)

lemma rdropWhile_Nil [simp]: "rdropWhile P [] = []"
  by (simp add: rdropWhile_def)

lemma rdropWhile_length: "length (rdropWhile P xs) \<le> length xs"
  unfolding rdropWhile_def length_rev using length_dropWhile_le[of P "rev xs"] by simp

lemma take_rdropWhile: "take (length (rdropWhile P xs)) xs = rdropWhile P xs"
  by (induction xs rule: rev_induct) (auto simp: rdropWhile_snoc rdropWhile_length)

lemma rdropWhile_nonempty: "xs \<noteq> [] \<Longrightarrow> \<not> P (hd xs) \<Longrightarrow> rdropWhile P xs \<noteq> []"
  by (auto simp: rdropWhile_def dropWhile_eq_Nil_conv)

lemma trim_left_spec:
  assumes "sds_rep s c" "i \<le> length c"
  shows "trim_left s cset (int i) (int (length c) - 1) =
    Some (int (i + length (takeWhile (strchr cset) (drop i c))))"
  using assms(2)
proof (induction "length c - i" arbitrary: i)
  case 0
  then show ?case by (subst trim_left.simps) simp
next
  case (Suc k)
  then have i: "i < length c" by simp
  have d: "drop i c = c ! i # drop (Suc i) c" using i by (simp add: Cons_nth_drop_Suc)
  have st: "trim_left s cset (int i) (int (length c) - 1) =
      (if strchr cset (c ! i) then trim_left s cset (int (Suc i)) (int (length c) - 1) else Some (int i))"
    using i by (subst trim_left.simps) (simp add: get_char_rep[OF assms(1)] add.commute)
  have k: "k = length c - Suc i" using Suc.hyps(2) by simp
  show ?case using Suc.hyps(1)[OF k] i by (simp add: st d)
qed

lemma trim_right_spec:
  assumes "sds_rep s c" "i + n < length c" "\<not> strchr cset (c ! i)"
  shows "trim_right s cset (int i) (int (i + n)) =
    Some (int i + int (length (rdropWhile (strchr cset) (take (Suc n) (drop i c)))) - 1)"
  using assms(2)
proof (induction n)
  case 0
  then have "take (Suc 0) (drop i c) = [] @ [c ! i]" by (simp add: take_Suc_conv_app_nth)
  with assms(3) show ?case by (subst trim_right.simps) (simp add: rdropWhile_snoc[of _ "[]", simplified])
next
  case (Suc n)
  have tk: "take (Suc (Suc n)) (drop i c) = take (Suc n) (drop i c) @ [c ! (i + Suc n)]"
    using Suc.prems by (subst take_Suc_conv_app_nth) simp_all
  have st: "trim_right s cset (int i) (int (i + Suc n)) =
      (if strchr cset (c ! (i + Suc n)) then trim_right s cset (int i) (int (i + n)) else Some (int (i + Suc n)))"
    using Suc.prems by (subst trim_right.simps) (simp add: get_char_rep[OF assms(1)] nat_add_distrib)
  have len: "length (take (Suc n) (drop i c)) = Suc n" using Suc.prems by simp
  show ?case using Suc.IH Suc.prems len unfolding st tk rdropWhile_snoc by simp
qed

lemma sdstrim_spec:
  assumes rep: "sds_rep s c"
  shows "\<exists>s'. sdstrim s cset = Some s' \<and>
    sds_rep s' (rdropWhile (strchr cset) (dropWhile (strchr cset) c))"
proof -
  let ?P = "strchr cset"
  define i where "i = length (takeWhile ?P c)"
  have len: "sdslen s = length c" using rep by (simp add: sds_rep_def)
  have left: "trim_left s cset 0 (int (length c) - 1) = Some (int i)"
    using trim_left_spec[OF rep, of 0 cset] by (simp add: i_def)
  have dropi: "dropWhile ?P c = drop i c" by (simp add: i_def dropWhile_eq_drop)
  have i_le: "i \<le> length c" by (simp add: i_def length_takeWhile_le)
  obtain ep n where right: "trim_right s cset (int i) (int (length c) - 1) = Some ep"
    and n: "(if int i > ep then 0 else nat (ep - int i + 1)) = n" "n = length (rdropWhile ?P (drop i c))"
  proof (cases "i = length c")
    case True
    then show ?thesis by (intro that[of "int (length c) - 1" 0]) (subst trim_right.simps, simp_all)
  next
    case False
    then have lt: "i < length c" using i_le by simp
    then have np: "\<not> ?P (c ! i)" unfolding i_def by (rule nth_length_takeWhile)
    have le: "int (i + (length c - 1 - i)) = int (length c) - 1" "Suc (length c - 1 - i) = length c - i"
      using lt by auto
    have "rdropWhile ?P (drop i c) \<noteq> []"
      using lt np by (intro rdropWhile_nonempty) (simp_all add: hd_drop_conv_nth)
    then show ?thesis
      using trim_right_spec[OF rep _ np, of "length c - 1 - i"] lt
      unfolding le by (intro that[OF _ _ refl]) (auto simp: Suc_le_eq)
  qed
  have "i + n \<le> length c" using n(2) i_le rdropWhile_length[of ?P "drop i c"] by simp
  then obtain s' where s': "do { s \<leftarrow> (if int i \<noteq> 0 then do { b \<leftarrow> read_at (sds_buf s) i n; put_block s 0 b } else Some s);
      s \<leftarrow> put_char s n NUL; Some (sdssetlen s n) } = Some s'" "sds_rep s' (take n (drop i c))"
    using move_or_cut[OF rep, of i n "int i \<noteq> 0"] by auto
  then have "sdstrim s cset = Some s'"
    by (simp only: sdstrim_def Let_def len left right n(1) Option.bind_lunit nat_int)
  then show ?thesis using s'(2) n(2) by (auto simp: dropi take_rdropWhile)
qed

lemma map_loop_spec:
  assumes "sds_rep s c" "length c = j + n"
  shows "\<exists>s'. map_loop f n j s = Some s' \<and> sds_rep s' (take j c @ map f (drop j c))"
  using assms
proof (induction n arbitrary: j s c)
  case 0
  then show ?case by simp
next
  case (Suc n)
  then have j: "j < length c" by simp
  let ?c = "c[j := f (c ! j)]" and ?s = "s\<lparr>sds_buf := (sds_buf s)[j := Some (f (c ! j))]\<rparr>"
  obtain r where r: "sds_buf s = map Some c @ Some NUL # r" "hdr_len s = length c" "length c \<le> sdsalloc s"
    "sdsalloc s \<le> length c + length r" "sdsalloc s < 2 ^ hdr_bits (sds_type s)"
    using Suc.prems(1) by (rule sds_repE)
  have rep: "sds_rep ?s ?c"
    using r j by (intro sds_repI[of _ _ r]) (auto simp: list_update_append map_update sdslen_def)
  have "put_char s j (f (c ! j)) = Some ?s"
    using j r(1) by (intro put_char_in) simp
  moreover have "take j c @ f (c ! j) # map f (drop (Suc j) c) = take j c @ map f (drop j c)"
    using j by (simp add: Cons_nth_drop_Suc[symmetric])
  ultimately show ?case
    using Suc.IH[OF rep, of "Suc j"] Suc.prems j get_char_rep[OF Suc.prems(1) j]
    by (simp add: take_Suc_conv_app_nth)
qed

lemma sdstolower_spec: "sds_rep s c \<Longrightarrow> \<exists>s'. sdstolower s = Some s' \<and> sds_rep s' (map tolower c)"
  using map_loop_spec[of s c 0 "length c" tolower] by (simp add: sdstolower_def sds_rep_def)

lemma sdstoupper_spec: "sds_rep s c \<Longrightarrow> \<exists>s'. sdstoupper s = Some s' \<and> sds_rep s' (map toupper c)"
  using map_loop_spec[of s c 0 "length c" toupper] by (simp add: sdstoupper_def sds_rep_def)

lemma sdsmapchars_spec:
  assumes "sds_rep s c" "length frm = length to"
  shows "\<exists>s'. sdsmapchars s frm to (length frm) = Some s' \<and>
    sds_rep s' (map (\<lambda>x. case map_of (zip frm to) x of None \<Rightarrow> x | Some y \<Rightarrow> y) c)"
proof -
  have "map_char frm to = (\<lambda>x. case map_of (zip frm to) x of None \<Rightarrow> x | Some y \<Rightarrow> y)"
    using assms(2) by (induction frm to rule: list_induct2) auto
  then show ?thesis
    using map_loop_spec[of s c 0 "length c" "map_char frm to"] assms
    by (simp add: sdsmapchars_def sds_rep_def)
qed

definition byte_lex :: "(char list \<times> char list) set" where
  "byte_lex = lexord {(x, y). of_char x < (of_char y :: nat)}"

text \<open>\<open>memcmp\<close> on the common length, then the lengths: the bytewise lexicographic order.\<close>

definition lex_cmp :: "char list \<Rightarrow> char list \<Rightarrow> int" where
  "lex_cmp a b =
     (let m = min (length a) (length b); cmp = memcmp (take m a) (take m b) in
      if cmp = 0 then (if length a > length b then 1 else if length a < length b then -1 else 0) else cmp)"

lemma lex_cmp_lexord: "(lex_cmp a b = 0 \<longleftrightarrow> a = b) \<and> (lex_cmp a b < 0 \<longleftrightarrow> (a, b) \<in> byte_lex)"
proof (induction a arbitrary: b)
  case Nil
  show ?case by (cases b) (simp_all add: lex_cmp_def byte_lex_def)
next
  case (Cons x a)
  show ?case
  proof (cases b)
    case (Cons y b')
    have "lex_cmp (x # a) (y # b') =
        (if of_char x < (of_char y :: nat) then -1 else if of_char x > (of_char y :: nat) then 1 else lex_cmp a b')"
      by (simp add: lex_cmp_def Let_def)
    then show ?thesis using Cons.IH[of b'] Cons by (auto simp: byte_lex_def)
  qed (simp add: lex_cmp_def byte_lex_def)
qed

lemma sdscmp_spec:
  assumes "sds_rep s1 a" "sds_rep s2 b"
  shows "sdscmp s1 s2 = Some (lex_cmp a b)"
proof -
  have len: "sdslen s1 = length a" "sdslen s2 = length b" using assms by (simp_all add: sds_rep_def)
  have m: "(if length a < length b then length a else length b) = min (length a) (length b)" by simp
  show ?thesis
    using sds_bytes_rep[OF assms(1), of 0 "min (length a) (length b)"]
      sds_bytes_rep[OF assms(2), of 0 "min (length a) (length b)"]
    unfolding sdscmp_def lex_cmp_def Let_def len m by simp
qed

lemma sdsRemoveFreeSpace_spec:
  assumes rep: "sds_rep s c" and bound: "length c \<le> 2 ^ 63"
  shows "\<exists>s'. sdsRemoveFreeSpace s = Some s' \<and> sds_rep s' c \<and> sdsavail s' = 0"
proof (cases "sdsavail s = 0")
  case True
  with rep show ?thesis by (simp add: sdsRemoveFreeSpace_def)
next
  case False
  obtain rest where b: "sds_buf s = map Some c @ Some NUL # rest" "hdr_len s = length c"
    "length c \<le> sdsalloc s" "sdsalloc s \<le> length c + length rest" "sdsalloc s < 2 ^ hdr_bits (sds_type s)"
    using rep by (rule sds_repE)
  have not5: "sds_type s \<noteq> SDS_TYPE_5" using False by (auto simp: sdsavail_def)
  define T where "T = sdsReqType (length c)"
  have fits: "length c < 2 ^ hdr_bits T" "length c < 2 ^ hdr_bits (sds_type s)"
    using sdsReqType_fits[of "length c"] b(3,5) bound by (auto simp: T_def)
  have size: "buf_size (sdsHdrSize t) (length c) = length c + 1" for t
    using bound by (intro buf_size_fits) simp
  have eq: "sdsRemoveFreeSpace s = do {
      s \<leftarrow> (if sds_type s = T \<or> type_gt_8 T then Some (s\<lparr>sds_buf := s_realloc (sds_buf s) (length c + 1)\<rparr>)
           else do {
             bytes \<leftarrow> read_at (sds_buf s) 0 (length c + 1);
             buf \<leftarrow> write_at (s_malloc (length c + 1)) 0 bytes;
             Some (sdssetlen (s\<lparr>sds_type := T, sds_buf := buf\<rparr>) (length c))
           });
      Some (sdssetalloc s (length c)) }"
    using False b(2) by (simp only: sdsRemoveFreeSpace_def Let_def sdslen_def T_def[symmetric] size if_False)
  have "\<exists>s'. sdsRemoveFreeSpace s = Some s' \<and> sds_rep s' c \<and> sdsalloc s' = length c"
  proof (cases "sds_type s = T \<or> type_gt_8 T")
    case True
    have re: "s_realloc (sds_buf s) (length c + 1) = map Some c @ [Some NUL]"
      by (simp add: b(1) s_realloc_def)
    have "sds_rep (sdssetalloc (s\<lparr>sds_buf := s_realloc (sds_buf s) (length c + 1)\<rparr>) (length c)) c"
      using not5 fits b(2) re by (intro sds_rep_resized[of _ _ c "[]"]) (auto simp: sdslen_def)
    then show ?thesis
      using True eq not5 fits by (auto simp: sdssetalloc_def sdsalloc_def split: sdstype.splits)
  next
    case False
    let ?s = "sdssetalloc (sdssetlen (s\<lparr>sds_type := T, sds_buf := map Some c @ [Some NUL]\<rparr>) (length c)) (length c)"
    have "sdsalloc ?s = length c"
      using fits by (auto simp: sdsalloc_def sdssetalloc_def sdssetlen_def split: sdstype.splits)
    moreover have "sdsRemoveFreeSpace s = Some ?s"
      using False eq b(1) by (simp add: s_malloc_def)
    ultimately show ?thesis
      using fits by (intro exI[of _ ?s]) (auto intro!: sds_repI[of _ c "[]"])
  qed
  then show ?thesis using sdsavail_rep by force
qed

lemma sdsIncrLen_spec:
  assumes rep: "sds_rep s c" and new: "put_block s (length c) (map Some t) = Some s1"
    and fit: "length c + length t \<le> sdsalloc s" and not5: "sds_type s \<noteq> SDS_TYPE_5"
  shows "\<exists>s'. sdsIncrLen s1 (int (length t)) = Some s' \<and> sds_rep s' (c @ t)"
proof -
  obtain r where r: "hdr_len s = length c" "sdsalloc s < 2 ^ hdr_bits (sds_type s)"
    using rep by (rule sds_repE)
  have s1: "s1 = s\<lparr>sds_buf := sds_buf s1\<rparr>" using new by (auto simp: put_block_def bind_eq_Some_conv)
  have flds: "hdr_len s1 = length c" "hdr_alloc s1 = sdsalloc s" "sds_type s1 = sds_type s"
    using r not5 by (subst s1, auto simp: sdsalloc_def split: sdstype.splits)+
  have small: "length c + length t < 2 ^ hdr_bits (sds_type s)" using fit r(2) by simp
  have "incr_assert s1 (int (length t))"
    using fit flds not5 r(2)
    by (auto simp: incr_assert_def Let_def mod_pos_pos_trivial split: sdstype.splits)
  moreover have "nat ((int (length c) + int (length t)) mod 2 ^ hdr_bits (sds_type s)) = length c + length t"
    using small by (simp flip: of_nat_add of_nat_power zmod_int)
  ultimately have inc: "sdsIncrLen s1 (int (length t)) =
      put_char (s1\<lparr>hdr_len := length c + length t\<rparr>) (length c + length t) NUL"
    by (simp add: sdsIncrLen_def flds Let_def)
  obtain s2 rest where s2: "put_char s1 (length c + length t) NUL = Some s2"
    "s2 = s\<lparr>sds_buf := sds_buf s2\<rparr>" "length (sds_buf s2) = length (sds_buf s)"
    "sds_buf s2 = map Some (c @ t) @ Some NUL # rest"
    using write_then_terminate[OF rep order_refl fit] new by auto
  have "sds_rep (sdssetlen (s\<lparr>sds_buf := sds_buf s2\<rparr>) (length (c @ t))) (c @ t)"
    using s2 fit by (intro sds_rep_written[OF rep s2(4)]) auto
  moreover have "put_char (s1\<lparr>hdr_len := length c + length t\<rparr>) (length c + length t) NUL =
      Some (sdssetlen s2 (length (c @ t)))"
    using s2(1) small flds by (auto simp: put_char_def bind_eq_Some_conv sdssetlen_def)
  ultimately show ?thesis using inc s2(2) by auto
qed

section \<open>Sequences of operations\<close>

datatype sds_op =
    CatLen "char list" | CpyLen "char list" | GrowZero nat | SdsRange int int | Trim "char list"
  | Clear | ToLower | ToUpper | MakeRoom nat | RemoveFree | Dup

fun sds_step :: "sds_op \<Rightarrow> sds \<Rightarrow> sds option" where
  "sds_step (CatLen t) s = sdscatlen s t"
| "sds_step (CpyLen t) s = sdscpylen s t"
| "sds_step (GrowZero n) s = sdsgrowzero s n"
| "sds_step (SdsRange i j) s = sdsrange s i j"
| "sds_step (Trim cset) s = sdstrim s cset"
| "sds_step Clear s = sdsclear s"
| "sds_step ToLower s = sdstolower s"
| "sds_step ToUpper s = sdstoupper s"
| "sds_step (MakeRoom n) s = sdsMakeRoomFor s n"
| "sds_step RemoveFree s = sdsRemoveFreeSpace s"
| "sds_step Dup s = sdsdup s"

text \<open>What each operation does to the contents, and the largest length it asks for.\<close>

fun bytes_step :: "sds_op \<Rightarrow> char list \<Rightarrow> char list" where
  "bytes_step (CatLen t) c = c @ t"
| "bytes_step (CpyLen t) c = t"
| "bytes_step (GrowZero n) c = c @ replicate (n - length c) NUL"
| "bytes_step (SdsRange i j) c =
     take (nat (range_lo c j - range_lo c i + 1)) (drop (nat (range_lo c i)) c)"
| "bytes_step (Trim cset) c = rdropWhile (strchr cset) (dropWhile (strchr cset) c)"
| "bytes_step Clear c = []"
| "bytes_step ToLower c = map tolower c"
| "bytes_step ToUpper c = map toupper c"
| "bytes_step (MakeRoom n) c = c"
| "bytes_step RemoveFree c = c"
| "bytes_step Dup c = c"

fun op_room :: "sds_op \<Rightarrow> char list \<Rightarrow> nat" where
  "op_room (CatLen t) c = length c + length t"
| "op_room (CpyLen t) c = length t"
| "op_room (GrowZero n) c = n"
| "op_room (MakeRoom n) c = length c + n"
| "op_room _ c = length c"

fun sds_run :: "sds_op list \<Rightarrow> sds \<Rightarrow> sds option" where
  "sds_run [] s = Some s"
| "sds_run (a # ops) s = do { s \<leftarrow> sds_step a s; sds_run ops s }"

fun room_ok :: "sds_op list \<Rightarrow> char list \<Rightarrow> bool" where
  "room_ok [] c = True"
| "room_ok (a # ops) c = (op_room a c < 2 ^ 63 \<and> room_ok ops (bytes_step a c))"

lemma sds_step_refines:
  assumes rep: "sds_rep s c" and room: "op_room a c < 2 ^ 63"
  shows "\<exists>s'. sds_step a s = Some s' \<and> sds_rep s' (bytes_step a c)"
proof (cases a)
  case (CatLen t)
  then show ?thesis using sdscatlen_spec[OF rep, of t] room by simp
next
  case (CpyLen t)
  then show ?thesis using sdscpylen_spec[OF rep, of t] room by simp
next
  case (GrowZero n)
  then show ?thesis using sdsgrowzero_spec[OF rep, of n] room by simp
next
  case (MakeRoom n)
  then show ?thesis using sdsMakeRoomFor_spec[OF rep, of n] room by auto
next
  case RemoveFree
  then show ?thesis using sdsRemoveFreeSpace_spec[OF rep] room by auto
next
  case Dup
  then show ?thesis using sdsdup_spec[OF rep] room by simp
qed (use sdsrange_spec[OF rep] sdstrim_spec[OF rep] sdsclear_spec[OF rep] sdstolower_spec[OF rep]
      sdstoupper_spec[OF rep] in simp_all)


definition demo_sds :: sds where
  "demo_sds = \<lparr>sds_type = SDS_TYPE_5, hdr_len = 3, hdr_alloc = 0,
     sds_buf = [Some (CHR ''a''), Some (CHR ''b''), Some (CHR '' ''), Some NUL]\<rparr>"

lemma demo_sds_rep: "sds_rep demo_sds ''ab ''"
  by (rule sds_repI[of _ _ "[]"]) (simp_all add: demo_sds_def sdslen_def sdsalloc_def)


text \<open>
  C25: \<open>sdscmp\<close> never reads past the shorter string; its result is zero exactly for equal contents
  and negative exactly when the first string is smaller in the bytewise lexicographic order.
\<close>

theorem sdscmp_lexicographic:
  assumes "sds_rep s1 a" "sds_rep s2 b"
  shows "\<exists>r. sdscmp s1 s2 = Some r \<and> (r = 0 \<longleftrightarrow> a = b) \<and> (r < 0 \<longleftrightarrow> (a, b) \<in> byte_lex)"
  using sdscmp_spec[OF assms] lex_cmp_lexord[of a b] by simp

theorem sdscmp_lexicographic_witness: "\<exists>r. sdscmp demo_sds demo_sds = Some r \<and> r = 0"
  using sdscmp_lexicographic[OF demo_sds_rep demo_sds_rep] by auto

end
