(* ===== verification/SdsArgs.thy ===== *)
theory SdsArgs
  imports Sds
begin

text \<open>
  The string functions of \<open>sds.c\<close> that are built on the primitive operations: integer conversion,
  the \<open>sdscatfmt\<close> formatter, splitting and joining, and the quoted representation of arguments
  (\<open>sdscatrepr\<close>) with the parser that reads it back (\<open>sdssplitargs\<close>). A byte sink is the interface
  through which these functions append.
\<close>

section \<open>Byte sinks\<close>

text \<open>Appending a sequence of blocks, stopping at the first failure.\<close>

fun cat_all :: "('s \<Rightarrow> char list \<Rightarrow> 's option) \<Rightarrow> 's \<Rightarrow> char list list \<Rightarrow> 's option" where
  "cat_all cat s [] = Some s"
| "cat_all cat s (b # bs) = do { s \<leftarrow> cat s b; cat_all cat s bs }"

locale byte_sink =
  fixes holds :: "'s \<Rightarrow> char list \<Rightarrow> bool"
    and cat :: "'s \<Rightarrow> char list \<Rightarrow> 's option"
    and limit :: nat
  assumes cat_law: "holds s c \<Longrightarrow> length c + length t \<le> limit \<Longrightarrow> \<exists>s'. cat s t = Some s' \<and> holds s' (c @ t)"
begin

lemma cat_all_holds:
  "holds s c \<Longrightarrow> length c + length (concat bs) \<le> limit \<Longrightarrow>
    \<exists>s'. cat_all cat s bs = Some s' \<and> holds s' (c @ concat bs)"
proof (induction bs arbitrary: s c)
  case (Cons b bs)
  then obtain s1 where s1: "cat s b = Some s1" "holds s1 (c @ b)" using cat_law[of s c b] by auto
  with Cons.IH[OF s1(2)] Cons.prems(2) show ?case by simp
qed simp

lemma cat_all_append: "cat_all cat s (as @ bs) = do { s \<leftarrow> cat_all cat s as; cat_all cat s bs }"
  by (induction as arbitrary: s) (auto simp: Option.bind_assoc)

end

interpretation sink: byte_sink sds_rep sdscatlen "2 ^ 63"
  by unfold_locales (rule sdscatlen_spec)

section \<open>Integers\<close>

definition SDS_LLSTR_SIZE :: nat where
  "SDS_LLSTR_SIZE = 21"

text \<open>The \<open>do ... while(v)\<close> loop that writes the digits in reverse order.\<close>

function rev_digits :: "char list \<Rightarrow> nat \<Rightarrow> nat \<Rightarrow> (char list \<times> nat) option" where
  "rev_digits s p v = do {
     s \<leftarrow> store s p (digit_char (v mod 10));
     if v div 10 \<noteq> 0 then rev_digits s (p + 1) (v div 10) else Some (s, p + 1)
   }"
  by pat_completeness auto
termination
  by (relation "measure (\<lambda>(s, p, v). v)") auto

declare rev_digits.simps [simp del]

text \<open>The in-place reversal between the positions \<open>i\<close> and \<open>j\<close>.\<close>

function reverse_buf :: "char list \<Rightarrow> int \<Rightarrow> int \<Rightarrow> char list option" where
  "reverse_buf s i j =
     (if i < j then do {
        aux \<leftarrow> fetch s (nat i);
        b \<leftarrow> fetch s (nat j);
        s \<leftarrow> store s (nat i) b;
        s \<leftarrow> store s (nat j) aux;
        reverse_buf s (i + 1) (j - 1)
      } else Some s)"
  by pat_completeness auto
termination
  by (relation "measure (\<lambda>(s, i, j). nat (j - i))") auto

declare reverse_buf.simps [simp del]

text \<open>
  \<open>-value\<close> is a signed overflow for \<open>LLONG_MIN\<close>, which the C standard leaves undefined. The result
  is the buffer and the length.
\<close>

definition sdsll2str :: "char list \<Rightarrow> int \<Rightarrow> (char list \<times> nat) option" where
  "sdsll2str s value =
     (if value = LLONG_MIN then None
      else
        let v = nat (if value < 0 then - value else value)
        in do {
          (s, p) \<leftarrow> rev_digits s 0 v;
          (s, p) \<leftarrow> (if value < 0 then do { s \<leftarrow> store s p (CHR ''-''); Some (s, p + 1) } else Some (s, p));
          s \<leftarrow> store s p NUL;
          s \<leftarrow> reverse_buf s 0 (int p - 1);
          Some (s, p)
        })"

definition sdsull2str :: "char list \<Rightarrow> nat \<Rightarrow> (char list \<times> nat) option" where
  "sdsull2str s v = do {
     (s, p) \<leftarrow> rev_digits s 0 v;
     s \<leftarrow> store s p NUL;
     s \<leftarrow> reverse_buf s 0 (int p - 1);
     Some (s, p)
   }"

text \<open>The stack buffer \<open>char buf[SDS_LLSTR_SIZE]\<close>, whose initial bytes are never read.\<close>

definition llstr_buf :: "char list" where
  "llstr_buf = replicate SDS_LLSTR_SIZE NUL"

definition sdsfromlonglong :: "int \<Rightarrow> sds option" where
  "sdsfromlonglong value = do {
     (buf, len) \<leftarrow> sdsll2str llstr_buf value;
     sdsnewlen (Bytes buf) len
   }"

section \<open>Formatting\<close>

datatype fmt_arg = ArgStr "char list" | ArgSds sds | ArgInt int | ArgUint nat

text \<open>Room for \<open>l\<close> more bytes, the copy of a block behind the contents, and the new length.\<close>

definition fmt_block :: "sds \<Rightarrow> nat \<Rightarrow> char list \<Rightarrow> (sds \<times> nat) option" where
  "fmt_block s i b =
     (let l = length b in
      do {
        s \<leftarrow> (if sdsavail s < l then sdsMakeRoomFor s l else Some s);
        s \<leftarrow> put_block s i (map Some b);
        Some (sdsinclen s l, i + l)
      })"

definition fmt_char :: "sds \<Rightarrow> nat \<Rightarrow> char \<Rightarrow> (sds \<times> nat) option" where
  "fmt_char s i c = do { s \<leftarrow> put_char s i c; Some (sdsinclen s 1, i + 1) }"

text \<open>
  The bytes of the next conversion and the arguments behind it. The arguments come with the types
  the conversions ask for; \<open>%i\<close> and \<open>%I\<close> (and \<open>%u\<close>, \<open>%U\<close>) differ only in the width of the
  argument, so both are given by its value.
\<close>

fun fmt_conv :: "char \<Rightarrow> fmt_arg list \<Rightarrow> (char list \<times> fmt_arg list) option" where
  "fmt_conv next [] = None"
| "fmt_conv next (a # args) =
     (if next = CHR ''s'' then (case a of ArgStr b \<Rightarrow> Some (cstr b, args) | _ \<Rightarrow> None)
      else if next = CHR ''S'' then
        (case a of ArgSds t \<Rightarrow> do { b \<leftarrow> sds_bytes t 0 (sdslen t); Some (b, args) } | _ \<Rightarrow> None)
      else if next = CHR ''i'' \<or> next = CHR ''I'' then
        (case a of ArgInt n \<Rightarrow> do { (buf, l) \<leftarrow> sdsll2str llstr_buf n; Some (take l buf, args) } | _ \<Rightarrow> None)
      else
        (case a of ArgUint n \<Rightarrow> do { (buf, l) \<leftarrow> sdsull2str llstr_buf n; Some (take l buf, args) } | _ \<Rightarrow> None))"

definition is_conv :: "char \<Rightarrow> bool" where
  "is_conv c \<longleftrightarrow> c \<in> set ''sSiIuU''"

text \<open>
  The main loop. A format that ends in a single percent sign makes the source step over the
  terminator, which is an access outside the format string.
\<close>

fun fmt_loop :: "sds \<Rightarrow> nat \<Rightarrow> char list \<Rightarrow> fmt_arg list \<Rightarrow> (sds \<times> nat) option" where
  "fmt_loop s i [] args = Some (s, i)"
| "fmt_loop s i (c # f) args = do {
     s \<leftarrow> (if sdsavail s = 0 then sdsMakeRoomFor s 1 else Some s);
     if c = CHR ''%'' then
       (case f of
          [] \<Rightarrow> None
        | next # f \<Rightarrow>
            if is_conv next then do {
              (b, args) \<leftarrow> fmt_conv next args;
              (s, i) \<leftarrow> fmt_block s i b;
              fmt_loop s i f args
            } else do {
              (s, i) \<leftarrow> fmt_char s i next;
              fmt_loop s i f args
            })
     else do {
       (s, i) \<leftarrow> fmt_char s i c;
       fmt_loop s i f args
     }
   }"

definition sdscatfmt :: "sds \<Rightarrow> char list \<Rightarrow> fmt_arg list \<Rightarrow> sds option" where
  "sdscatfmt s fmt args =
     (let initlen = sdslen s; f = cstr fmt in
      do {
        s \<leftarrow> sdsMakeRoomFor s (length f * 2);
        (s, i) \<leftarrow> fmt_loop s initlen f args;
        put_char s i NUL
      })"

section \<open>Splitting and joining\<close>

text \<open>
  The token loop of \<open>sdssplitlen\<close>: \<open>start\<close> is the first byte of the current token and \<open>j\<close> the
  position where the separator is searched. Tokens are given by their bytes.
\<close>

function split_loop :: "char list \<Rightarrow> char list \<Rightarrow> nat \<Rightarrow> nat \<Rightarrow> char list list \<Rightarrow> char list list" where
  "split_loop s sep start j tokens =
     (if sep = [] then []
      else if j + length sep \<le> length s then
        if take (length sep) (drop j s) = sep
        then split_loop s sep (j + length sep) (j + length sep) (tokens @ [take (j - start) (drop start s)])
        else split_loop s sep start (j + 1) tokens
      else tokens @ [drop start s])"
  by pat_completeness auto
termination
  by (relation "measure (\<lambda>(s, sep, start, j, tokens). length s - j)") (auto simp: length_greater_0_conv[symmetric] simp del: length_greater_0_conv)

declare split_loop.simps [simp del]

definition sdssplitlen :: "char list \<Rightarrow> char list \<Rightarrow> char list list option" where
  "sdssplitlen s sep =
     (if length sep < 1 then None
      else if s = [] then Some []
      else Some (split_loop s sep 0 0 []))"

fun join_loop :: "sds \<Rightarrow> char list list \<Rightarrow> char list \<Rightarrow> sds option" where
  "join_loop join [] sep = Some join"
| "join_loop join (a # argv) sep = do {
     join \<leftarrow> sdscat join a;
     join \<leftarrow> (if argv \<noteq> [] then sdscat join sep else Some join);
     join_loop join argv sep
   }"

definition sdsjoin :: "char list list \<Rightarrow> char list \<Rightarrow> sds option" where
  "sdsjoin argv sep = do { join \<leftarrow> sdsempty; join_loop join argv sep }"

fun joinsds_loop :: "sds \<Rightarrow> sds list \<Rightarrow> char list \<Rightarrow> sds option" where
  "joinsds_loop join [] sep = Some join"
| "joinsds_loop join (a # argv) sep = do {
     join \<leftarrow> sdscatsds join a;
     join \<leftarrow> (if argv \<noteq> [] then sdscatlen join sep else Some join);
     joinsds_loop join argv sep
   }"

definition sdsjoinsds :: "sds list \<Rightarrow> char list \<Rightarrow> sds option" where
  "sdsjoinsds argv sep = do { join \<leftarrow> sdsempty; joinsds_loop join argv sep }"

section \<open>Quoted arguments\<close>

definition BACKSLASH :: char where
  "BACKSLASH = CHR 0x5C"

definition QUOTE :: char where
  "QUOTE = CHR 0x22"

definition SQUOTE :: char where
  "SQUOTE = CHR 0x27"

text \<open>\<open>isprint\<close> and \<open>isspace\<close> of the C locale, and \<open>printf\<close> of a hexadecimal digit.\<close>

definition isprint :: "char \<Rightarrow> bool" where
  "isprint c \<longleftrightarrow> (32 :: nat) \<le> of_char c \<and> of_char c \<le> (126 :: nat)"

definition isspace :: "char \<Rightarrow> bool" where
  "isspace c \<longleftrightarrow> ((9 :: nat) \<le> of_char c \<and> of_char c \<le> (13 :: nat)) \<or> c = CHR '' ''"

definition hex_char :: "nat \<Rightarrow> char" where
  "hex_char d = (if d < 10 then char_of (48 + d) else char_of (87 + d))"

definition repr_char :: "char \<Rightarrow> char list" where
  "repr_char c =
     (if c = BACKSLASH \<or> c = QUOTE then [BACKSLASH, c]
      else if c = CHR 0x0A then [BACKSLASH, CHR ''n'']
      else if c = CHR 0x0D then [BACKSLASH, CHR ''r'']
      else if c = CHR 0x09 then [BACKSLASH, CHR ''t'']
      else if c = CHR 0x07 then [BACKSLASH, CHR ''a'']
      else if c = CHR 0x08 then [BACKSLASH, CHR ''b'']
      else if isprint c then [c]
      else [BACKSLASH, CHR ''x'', hex_char (of_char c div 16), hex_char (of_char c mod 16)])"

fun repr_loop :: "sds \<Rightarrow> char list \<Rightarrow> sds option" where
  "repr_loop s [] = Some s"
| "repr_loop s (c # p) = do { s \<leftarrow> sdscatlen s (repr_char c); repr_loop s p }"

definition sdscatrepr :: "sds \<Rightarrow> char list \<Rightarrow> sds option" where
  "sdscatrepr s p = do {
     s \<leftarrow> sdscatlen s [QUOTE];
     s \<leftarrow> repr_loop s p;
     sdscatlen s [QUOTE]
   }"

definition is_hex_digit :: "char \<Rightarrow> bool" where
  "is_hex_digit c \<longleftrightarrow>
     ((48 :: nat) \<le> of_char c \<and> of_char c \<le> (57 :: nat)) \<or>
     ((97 :: nat) \<le> of_char c \<and> of_char c \<le> (102 :: nat)) \<or>
     ((65 :: nat) \<le> of_char c \<and> of_char c \<le> (70 :: nat))"

definition hex_digit_to_int :: "char \<Rightarrow> nat" where
  "hex_digit_to_int c =
     (let x = of_char c in
      if 48 \<le> x \<and> x \<le> 57 then x - 48
      else if 97 \<le> x \<and> x \<le> 102 then x - 87
      else if 65 \<le> x \<and> x \<le> 70 then x - 55
      else 0)"

definition unescape :: "char \<Rightarrow> char" where
  "unescape c =
     (if c = CHR ''n'' then CHR 0x0A
      else if c = CHR ''r'' then CHR 0x0D
      else if c = CHR ''t'' then CHR 0x09
      else if c = CHR ''b'' then CHR 0x08
      else if c = CHR ''a'' then CHR 0x07
      else c)"

text \<open>The two flags of the token loop: outside quotes, in double quotes, in single quotes.\<close>

datatype qmode = Plain | Inq | Insq

text \<open>
  The \<open>while(!done)\<close> loop: the line behind the token and the bytes of the token. The end of the
  list is the terminator of the line; \<^const>\<open>None\<close> is \<open>goto err\<close>.
\<close>

fun token_loop :: "qmode \<Rightarrow> char list \<Rightarrow> char list \<Rightarrow> (char list \<times> char list) option" where
  "token_loop Inq [] current = None"
| "token_loop Inq (c # p) current =
     (if c = BACKSLASH \<and> length p \<ge> 3 \<and> p ! 0 = CHR ''x'' \<and> is_hex_digit (p ! 1) \<and> is_hex_digit (p ! 2)
      then token_loop Inq (drop 3 p)
             (current @ [char_of (hex_digit_to_int (p ! 1) * 16 + hex_digit_to_int (p ! 2))])
      else if c = BACKSLASH \<and> p \<noteq> [] then token_loop Inq (tl p) (current @ [unescape (hd p)])
      else if c = QUOTE then (if p \<noteq> [] \<and> \<not> isspace (hd p) then None else Some (p, current))
      else token_loop Inq p (current @ [c]))"
| "token_loop Insq [] current = None"
| "token_loop Insq (c # p) current =
     (if c = BACKSLASH \<and> p \<noteq> [] \<and> hd p = SQUOTE then token_loop Insq (tl p) (current @ [SQUOTE])
      else if c = SQUOTE then (if p \<noteq> [] \<and> \<not> isspace (hd p) then None else Some (p, current))
      else token_loop Insq p (current @ [c]))"
| "token_loop Plain [] current = Some ([], current)"
| "token_loop Plain (c # p) current =
     (if c = CHR '' '' \<or> c = CHR 0x0A \<or> c = CHR 0x0D \<or> c = CHR 0x09 then Some (p, current)
      else if c = QUOTE then token_loop Inq p current
      else if c = SQUOTE then token_loop Insq p current
      else token_loop Plain p (current @ [c]))"

declare token_loop.simps [simp del]

lemma token_loop_shorter: "token_loop m p cur = Some (q, cur') \<Longrightarrow> length q \<le> length p - 1"
proof (induction "length p" arbitrary: m p cur rule: less_induct)
  case less
  have IH: "token_loop m p' cur = Some (q, cur') \<Longrightarrow> length p' < length p \<Longrightarrow> length q \<le> length p' - 1" for m p' cur
    using less.hyps by blast
  show ?case
  proof (cases p)
    case (Cons c p')
    with less.prems show ?thesis
      by (cases m) (auto simp: token_loop.simps split: if_splits dest!: IH)
  qed (use less.prems in \<open>cases m; simp add: token_loop.simps\<close>)
qed

function splitargs_loop :: "char list \<Rightarrow> char list list \<Rightarrow> char list list option" where
  "splitargs_loop p vector =
     (let p = dropWhile isspace p in
      if p \<noteq> [] then do {
        (p, current) \<leftarrow> token_loop Plain p [];
        splitargs_loop p (vector @ [current])
      } else Some vector)"
  by pat_completeness auto
termination
proof (relation "measure (\<lambda>(p, v). length p)", goal_cases)
  case (2 p v p' x q cur)
  then have "length q \<le> length p' - 1" using token_loop_shorter[of Plain p' "[]" q cur] by simp
  also have "\<dots> < length p'" using 2 by simp
  also have "\<dots> \<le> length p" using 2(1) by (simp add: length_dropWhile_le)
  finally show ?case by simp
qed simp

declare splitargs_loop.simps [simp del]

definition sdssplitargs :: "char list \<Rightarrow> char list list option" where
  "sdssplitargs line = splitargs_loop (cstr line) []"

section \<open>Integer conversion is exact\<close>

lemma rev_digits_spec:
  "length (show_nat v) \<le> length rest \<Longrightarrow>
   rev_digits (d @ rest) (length d) v =
     Some (d @ rev (show_nat v) @ drop (length (show_nat v)) rest, length d + length (show_nat v))"
proof (induction v arbitrary: d rest rule: less_induct)
  case (less v)
  obtain x xs where rest: "rest = x # xs"
    using less.prems show_nat_nonempty[of v] by (cases rest) auto
  show ?case
  proof (cases "v < 10")
    case True
    then show ?thesis by (subst rev_digits.simps) (simp add: rest show_nat_small)
  next
    case False
    then have sh: "show_nat v = show_nat (v div 10) @ [digit_char (v mod 10)]"
      by (simp add: show_nat_big)
    have "rev_digits (d @ rest) (length d) v = rev_digits ((d @ [digit_char (v mod 10)]) @ xs) (length (d @ [digit_char (v mod 10)])) (v div 10)"
      using False div_eq_0_iff[of v 10] by (subst rev_digits.simps) (simp add: rest)
    also have "\<dots> = Some ((d @ [digit_char (v mod 10)]) @ rev (show_nat (v div 10)) @ drop (length (show_nat (v div 10))) xs,
        length (d @ [digit_char (v mod 10)]) + length (show_nat (v div 10)))"
      using False less.prems by (intro less.IH) (simp_all add: sh rest)
    finally show ?thesis by (simp add: sh rest)
  qed
qed

lemma reverse_buf_spec:
  assumes "i = int (length a)" "j = int (length a + length m) - 1"
  shows "reverse_buf (a @ m @ b) i j = Some (a @ rev m @ b)"
  using assms
proof (induction "length m" arbitrary: a m b i j rule: less_induct)
  case less
  show ?case
  proof (cases "length m < 2")
    case True
    then have "rev m = m" by (cases m) auto
    with True less.prems show ?thesis by (subst reverse_buf.simps) simp
  next
    case False
    then obtain x m' y where m: "m = x # m' @ [y]"
      by (metis append_Cons append_Nil length_0_conv length_Cons less_2_cases_iff list.exhaust rev_exhaust)
    have n: "nat i = length a" "nat j = length a + length m' + 1" "i < j"
      using less.prems by (simp_all add: m)
    have sw: "(a @ x # m' @ y # b)[length a := y, length a + length m' + 1 := x] = (a @ [y]) @ m' @ x # b"
      by (simp add: list_update_append)
    have nth: "(a @ x # m' @ y # b) ! (length a + length m' + 1) = y"
      by (simp add: nth_append)
    have "reverse_buf (a @ m @ b) i j = reverse_buf ((a @ [y]) @ m' @ x # b) (i + 1) (j - 1)"
      using n nth sw by (subst reverse_buf.simps) (simp add: m)
    also have "\<dots> = Some ((a @ [y]) @ rev m' @ x # b)"
      using less.prems by (intro less.hyps) (simp_all add: m)
    finally show ?thesis by (simp add: m)
  qed
qed

lemma write_number:
  assumes "1 \<le> length rest"
  shows "do { s \<leftarrow> store (d @ rest) (length d) NUL; s \<leftarrow> reverse_buf s 0 (int (length d) - 1); Some (s, length d) } =
    Some (rev d @ NUL # drop 1 rest, length d)"
proof -
  obtain x xs where rest: "rest = x # xs" using assms by (cases rest) auto
  have "reverse_buf ([] @ d @ NUL # xs) 0 (int (length d) - 1) = Some ([] @ rev d @ NUL # xs)"
    by (rule reverse_buf_spec) simp_all
  then show ?thesis by (simp add: rest)
qed

lemma sdsull2str_spec:
  assumes "length (show_nat v) < length s"
  shows "sdsull2str s v =
    Some (show_nat v @ NUL # drop (Suc (length (show_nat v))) s, length (show_nat v))"
proof -
  have "rev_digits s 0 v = Some (rev (show_nat v) @ drop (length (show_nat v)) s, length (show_nat v))"
    using assms rev_digits_spec[of v s "[]"] by simp
  then show ?thesis
    using write_number[of "drop (length (show_nat v)) s" "rev (show_nat v)"] assms
    by (simp add: sdsull2str_def)
qed

lemma sdsll2str_spec:
  assumes "length (show_int v) < length s"
  shows "sdsll2str s v =
    (if v = LLONG_MIN then None
     else Some (show_int v @ NUL # drop (Suc (length (show_int v))) s, length (show_int v)))"
proof (cases "v = LLONG_MIN")
  case False
  let ?n = "show_nat (nat \<bar>v\<bar>)"
  have abs: "nat (if v < 0 then - v else v) = nat \<bar>v\<bar>" by simp
  have "length ?n \<le> length s" using assms by (auto simp: show_int_def split: if_splits)
  then have r: "rev_digits s 0 (nat \<bar>v\<bar>) = Some (rev ?n @ drop (length ?n) s, length ?n)"
    using rev_digits_spec[of "nat \<bar>v\<bar>" s "[]"] by simp
  show ?thesis
  proof (cases "v < 0")
    case True
    then have sh: "show_int v = CHR ''-'' # ?n" by (simp add: show_int_def)
    have "store (rev ?n @ drop (length ?n) s) (length ?n) (CHR ''-'') =
        Some (rev (CHR ''-'' # ?n) @ drop (Suc (length ?n)) s)"
      using assms by (simp add: sh list_update_append Cons_nth_drop_Suc[symmetric])
    then show ?thesis
      using write_number[of "drop (Suc (length ?n)) s" "rev (CHR ''-'' # ?n)"] assms False True r
      unfolding sdsll2str_def Let_def abs by (simp add: sh)
  next
    case nonneg: False
    then have sh: "show_int v = ?n" by (simp add: show_int_def)
    then show ?thesis
      using write_number[of "drop (length ?n) s" "rev ?n"] assms False nonneg r
      unfolding sdsll2str_def Let_def abs by (simp add: sh)
  qed
qed (simp add: sdsll2str_def)

text \<open>
  C26: in a buffer with room for the representation and a terminator, \<open>sdsll2str\<close> writes exactly the
  decimal representation and its terminator and returns its length; the one exception is
  \<open>LLONG_MIN\<close>, whose negation overflows.
\<close>

theorem sdsll2str_correct:
  assumes "length (show_int v) < length s"
  shows "sdsll2str s v =
    (if v = LLONG_MIN then None
     else Some (show_int v @ NUL # drop (Suc (length (show_int v))) s, length (show_int v)))"
  using assms by (rule sdsll2str_spec)

theorem sdsll2str_correct_witness: "sdsll2str ''xxxxx'' (- 70) = Some (''-70'' @ [NUL, CHR ''x''], 3)"
  using sdsll2str_correct[of "- 70" "''xxxxx''"]
  by (simp add: LLONG_MIN_def show_int_def show_nat.simps digit_chars)

lemma length_show_nat_le: "n < 10 ^ Suc k \<Longrightarrow> length (show_nat n) \<le> Suc k"
proof (induction k arbitrary: n)
  case 0
  then show ?case by (simp add: show_nat_small)
next
  case (Suc k)
  show ?case
  proof (cases "n < 10")
    case False
    have "n div 10 < 10 ^ Suc k" using Suc.prems by (simp add: div_less_iff_less_mult mult.commute)
    then show ?thesis using Suc.IH[of "n div 10"] False by (simp add: show_nat_big)
  qed (simp add: show_nat_small)
qed

lemma show_nat_u64_short: "v < 2 ^ 64 \<Longrightarrow> length (show_nat v) \<le> 20"
  using length_show_nat_le[of v 19] by simp

lemma llstr_fits:
  assumes "LLONG_MIN < v" "v \<le> LLONG_MAX"
  shows "length (show_int v) < length llstr_buf"
proof -
  have "nat \<bar>v\<bar> < 10 ^ 19" using assms by (simp add: LLONG_MIN_def LLONG_MAX_def)
  then have "length (show_nat (nat \<bar>v\<bar>)) \<le> 19"
    using length_show_nat_le[of "nat \<bar>v\<bar>" 18] by simp
  then show ?thesis by (auto simp: show_int_def llstr_buf_def SDS_LLSTR_SIZE_def)
qed

section \<open>Splitting and joining\<close>

fun intercalate :: "'a list \<Rightarrow> 'a list list \<Rightarrow> 'a list" where
  "intercalate sep [] = []"
| "intercalate sep [a] = a"
| "intercalate sep (a # b # as) = a @ sep @ intercalate sep (b # as)"

lemma intercalate_Cons: "as \<noteq> [] \<Longrightarrow> intercalate sep (a # as) = a @ sep @ intercalate sep as"
  by (cases as) auto

text \<open>The separator occurs at position \<open>k\<close> of a list.\<close>

definition occurs_at :: "'a list \<Rightarrow> 'a list \<Rightarrow> nat \<Rightarrow> bool" where
  "occurs_at sep t k \<longleftrightarrow> k + length sep \<le> length t \<and> take (length sep) (drop k t) = sep"

definition free_of :: "'a list \<Rightarrow> 'a list \<Rightarrow> bool" where
  "free_of sep t \<longleftrightarrow> (\<forall>k\<le>length t. \<not> occurs_at sep t k)"

lemma split_loop_join:
  assumes "sep \<noteq> []" "start \<le> j" "start \<le> length s"
  shows "\<exists>ts. split_loop s sep start j tokens = tokens @ ts \<and> ts \<noteq> [] \<and> intercalate sep ts = drop start s"
  using assms
proof (induction s sep start j tokens rule: split_loop.induct)
  case (1 s sep start j tokens)
  show ?case
  proof (cases "j + length sep \<le> length s")
    case True
    show ?thesis
    proof (cases "take (length sep) (drop j s) = sep")
      case match: True
      obtain ts where ts: "split_loop s sep (j + length sep) (j + length sep) (tokens @ [take (j - start) (drop start s)]) =
          (tokens @ [take (j - start) (drop start s)]) @ ts" "ts \<noteq> []" "intercalate sep ts = drop (j + length sep) s"
        using 1(1)[OF 1(3) True match] 1(3) True by auto
      have "drop j s = sep @ drop (j + length sep) s"
        using append_take_drop_id[of "length sep" "drop j s"] match by (simp add: add.commute)
      moreover have "drop start s = take (j - start) (drop start s) @ drop j s"
        using append_take_drop_id[of "j - start" "drop start s"] 1(4) by simp
      ultimately have "drop start s = take (j - start) (drop start s) @ sep @ drop (j + length sep) s" by simp
      then show ?thesis
        using ts True match 1(3) by (subst split_loop.simps) (simp add: intercalate_Cons)
    next
      case False
      then show ?thesis
        using 1(2)[OF 1(3) True False] 1(3-5) True by (subst split_loop.simps) simp
    qed
  next
    case False
    then show ?thesis using 1(3) by (subst split_loop.simps) simp
  qed
qed

lemma occurs_at_sub:
  assumes "occurs_at sep (take n (drop st s)) k" "sep \<noteq> []"
  shows "k + length sep \<le> n \<and> take (length sep) (drop (st + k) s) = sep \<and> st + k + length sep \<le> length s"
  using assms by (cases "st \<le> length s") (auto simp: occurs_at_def drop_take min_def add.commute split: if_splits)

lemma split_loop_free:
  assumes "sep \<noteq> []" "start \<le> j" "start \<le> length s" "\<forall>t\<in>set tokens. free_of sep t"
    "\<forall>k. start \<le> k \<and> k < j \<longrightarrow> \<not> occurs_at sep s k"
  shows "\<forall>t\<in>set (split_loop s sep start j tokens). free_of sep t"
  using assms
proof (induction s sep start j tokens rule: split_loop.induct)
  case (1 s sep start j tokens)
  have tok: "free_of sep (take n (drop start s))" if "n \<le> j - start" for n
  proof -
    have "\<not> occurs_at sep (take n (drop start s)) k" for k
    proof
      assume o: "occurs_at sep (take n (drop start s)) k"
      then have "occurs_at sep s (start + k)" "k + length sep \<le> n"
        using occurs_at_sub[OF o 1(3)] by (auto simp: occurs_at_def)
      moreover have "start + k < j" using that calculation(2) 1(3) by (cases sep) auto
      ultimately show False using 1(7) by auto
    qed
    then show ?thesis by (simp add: free_of_def)
  qed
  show ?case
  proof (cases "j + length sep \<le> length s")
    case True
    show ?thesis
    proof (cases "take (length sep) (drop j s) = sep")
      case match: True
      have "\<forall>t\<in>set (split_loop s sep (j + length sep) (j + length sep)
          (tokens @ [take (j - start) (drop start s)])). free_of sep t"
        using 1(3,6) tok[of "j - start"] True by (intro 1(1)[OF 1(3) True match]) auto
      then show ?thesis using 1(3) True match by (subst split_loop.simps) simp
    next
      case False
      then show ?thesis
        using 1(2)[OF 1(3) True False] 1(3-7) True
        by (subst split_loop.simps) (auto simp: less_Suc_eq occurs_at_def)
    qed
  next
    case False
    have "free_of sep (drop start s)"
    proof -
      have "\<not> occurs_at sep (drop start s) k" for k
        using 1(5,7) False by (auto simp: occurs_at_def add.commute dest!: spec[of _ "start + k"])
      then show ?thesis by (simp add: free_of_def)
    qed
    with False 1(3,6) show ?thesis by (subst split_loop.simps) auto
  qed
qed

lemma sdscat_spec:
  "sds_rep s c \<Longrightarrow> length c + length (cstr t) \<le> 2 ^ 63 \<Longrightarrow> \<exists>s'. sdscat s t = Some s' \<and> sds_rep s' (c @ cstr t)"
  unfolding sdscat_def by (rule sdscatlen_spec)

lemma join_blocks:
  "join_loop s argv sep =
     cat_all sdscatlen s (concat (map (\<lambda>a. [cstr a, cstr sep]) (butlast argv)) @ map cstr (drop (length argv - 1) argv))"
proof (induction argv arbitrary: s)
  case (Cons a argv)
  then show ?case
    by (cases argv) (simp_all add: sdscat_def Suc_diff_le)
qed simp

lemma concat_join_blocks:
  "concat (concat (map (\<lambda>a. [f a, g]) (butlast argv)) @ map f (drop (length argv - 1) argv)) =
    intercalate g (map f argv)"
proof (induction argv)
  case (Cons a argv)
  then show ?case by (cases argv) (simp_all add: Suc_diff_le)
qed simp

lemma sdsjoin_spec:
  assumes "length (intercalate (cstr sep) (map cstr argv)) \<le> 2 ^ 63"
  shows "\<exists>s. sdsjoin argv sep = Some s \<and> sds_rep s (intercalate (cstr sep) (map cstr argv))"
proof -
  obtain s0 where s0: "sdsempty = Some s0" "sds_rep s0 []" using sdsempty_spec by auto
  show ?thesis
    using sink.cat_all_holds[OF s0(2), of "concat (map (\<lambda>a. [cstr a, cstr sep]) (butlast argv)) @
      map cstr (drop (length argv - 1) argv)"] assms
    unfolding concat_join_blocks by (simp add: sdsjoin_def join_blocks s0(1))
qed

lemma joinsds_loop_spec:
  assumes "sds_rep s c" "list_all2 sds_rep argv ts" "length c + length (intercalate sep ts) \<le> 2 ^ 63"
  shows "\<exists>s'. joinsds_loop s argv sep = Some s' \<and> sds_rep s' (c @ intercalate sep ts)"
  using assms
proof (induction argv arbitrary: s c ts)
  case (Cons a argv)
  then obtain t ts' where ts: "ts = t # ts'" "sds_rep a t" "list_all2 sds_rep argv ts'"
    by (auto simp: list_all2_Cons1)
  have b: "sds_bytes a 0 (sdslen a) = Some t"
    using sds_bytes_rep[OF ts(2), of 0 "length t"] ts(2) by (simp add: sds_rep_def)
  show ?case
  proof (cases "argv = []")
    case True
    then show ?thesis
      using sdscatlen_spec[OF Cons.prems(1), of t] Cons.prems(3) ts b by (auto simp: sdscatsds_def)
  next
    case False
    then have ts': "ts' \<noteq> []" using ts(3) by auto
    have bound: "length c + length t + length sep + length (intercalate sep ts') \<le> 2 ^ 63"
      using Cons.prems(3) ts(1) ts' by (simp add: intercalate_Cons)
    obtain s1 where s1: "sdscatlen s t = Some s1" "sds_rep s1 (c @ t)"
      using sdscatlen_spec[OF Cons.prems(1), of t] bound by auto
    obtain s2 where s2: "sdscatlen s1 sep = Some s2" "sds_rep s2 ((c @ t) @ sep)"
      using sdscatlen_spec[OF s1(2), of sep] bound by auto
    show ?thesis
      using Cons.IH[OF s2(2) ts(3)] bound False b s1(1) s2(1) ts(1) ts'
      by (auto simp: sdscatsds_def intercalate_Cons)
  qed
qed simp



section \<open>Quoting and parsing are inverse\<close>

definition repr :: "char list \<Rightarrow> char list" where
  "repr a = QUOTE # concat (map repr_char a) @ [QUOTE]"

lemma repr_loop_cat_all: "repr_loop s p = cat_all sdscatlen s (map repr_char p)"
  by (induction p arbitrary: s) auto

lemma sdscatrepr_spec:
  assumes "sds_rep s c" "length c + length (repr a) \<le> 2 ^ 63"
  shows "\<exists>s'. sdscatrepr s a = Some s' \<and> sds_rep s' (c @ repr a)"
proof -
  have "sdscatrepr s a = cat_all sdscatlen s ([QUOTE] # map repr_char a @ [[QUOTE]])"
    by (simp add: sdscatrepr_def repr_loop_cat_all sink.cat_all_append)
  then show ?thesis
    using sink.cat_all_holds[OF assms(1), of "[QUOTE] # map repr_char a @ [[QUOTE]]"] assms(2)
    by (simp add: repr_def)
qed

lemma hex_char_props:
  assumes "d < 16"
  shows "is_hex_digit (hex_char d)" "hex_digit_to_int (hex_char d) = d" "hex_char d \<noteq> NUL"
proof -
  have *: "of_char (hex_char d) = (if d < 10 then 48 + d else 87 + d)"
    using assms by (simp add: hex_char_def)
  show "is_hex_digit (hex_char d)" "hex_digit_to_int (hex_char d) = d"
    using assms by (auto simp: is_hex_digit_def hex_digit_to_int_def *)
  have "of_char (hex_char d) \<noteq> (0 :: nat)" using * by auto
  then show "hex_char d \<noteq> NUL" by (auto simp: NUL_def)
qed

lemmas quote_chars = BACKSLASH_def QUOTE_def SQUOTE_def

lemma repr_char_cases:
  obtains (self) "c = BACKSLASH \<or> c = QUOTE" "repr_char c = [BACKSLASH, c]"
    | (letter) l where "l \<in> set ''nrtab''" "c = unescape l" "repr_char c = [BACKSLASH, l]"
    | (plain) "c \<noteq> BACKSLASH" "c \<noteq> QUOTE" "isprint c" "repr_char c = [c]"
    | (hex) "repr_char c = [BACKSLASH, CHR ''x'', hex_char (of_char c div 16), hex_char (of_char c mod 16)]"
proof (cases "c \<in> {CHR 0x0A, CHR 0x0D, CHR 0x09, CHR 0x07, CHR 0x08}")
  case True
  then show ?thesis
    by (elim insertE emptyE) (rule letter; simp add: repr_char_def unescape_def quote_chars)+
next
  case False
  then show ?thesis
    using self plain hex by (cases "c = BACKSLASH \<or> c = QUOTE"; cases "isprint c") (simp_all add: repr_char_def)
qed

lemma byte_nibbles: "of_char c div 16 < (16 :: nat)" "of_char c mod 16 < (16 :: nat)"
  using nat_of_char_less_256[of c] by (simp_all add: less_mult_imp_div_less)

lemma token_loop_repr_char: "token_loop Inq (repr_char c @ q) cur = token_loop Inq q (cur @ [c])"
proof (cases c rule: repr_char_cases)
  case self
  then show ?thesis by (auto simp: token_loop.simps(2) quote_chars unescape_def)
next
  case (letter l)
  then have "l \<noteq> CHR ''x''" by auto
  with letter show ?thesis by (simp add: token_loop.simps(2))
next
  case plain
  then show ?thesis by (simp add: token_loop.simps(2))
next
  case hex
  have "char_of (of_char c div 16 * 16 + of_char c mod 16 :: nat) = c" by simp
  with hex show ?thesis using byte_nibbles[of c] hex_char_props by (simp add: token_loop.simps(2))
qed

lemma token_loop_repr:
  assumes "rest = [] \<or> isspace (hd rest)"
  shows "token_loop Inq (concat (map repr_char a) @ QUOTE # rest) cur = Some (rest, cur @ a)"
proof (induction a arbitrary: cur)
  case Nil
  have "QUOTE \<noteq> BACKSLASH" by (simp add: quote_chars)
  with assms show ?case by (auto simp: token_loop.simps)
qed (simp add: token_loop_repr_char)

lemma splitargs_space: "splitargs_loop (CHR '' '' # p) v = splitargs_loop p v"
  by (subst (1 2) splitargs_loop.simps) (simp add: isspace_def)

lemma splitargs_repr: "splitargs_loop (intercalate '' '' (map repr args)) v = Some (v @ args)"
proof (induction args arbitrary: v)
  case Nil
  show ?case by (subst splitargs_loop.simps) simp
next
  case (Cons a args)
  define rest where "rest = (if args = [] then [] else CHR '' '' # intercalate '' '' (map repr args))"
  have line: "intercalate '' '' (map repr (a # args)) = QUOTE # concat (map repr_char a) @ QUOTE # rest"
    by (cases args) (simp_all add: rest_def repr_def intercalate_Cons)
  have sp: "rest = [] \<or> isspace (hd rest)" by (simp add: rest_def isspace_def)
  have nq: "\<not> isspace QUOTE" "QUOTE \<noteq> CHR '' ''" "QUOTE \<noteq> CHR 0x0A" "QUOTE \<noteq> CHR 0x0D" "QUOTE \<noteq> CHR 0x09"
    by (simp_all add: isspace_def quote_chars)
  have "splitargs_loop (intercalate '' '' (map repr (a # args))) v = splitargs_loop rest (v @ [a])"
    unfolding line using nq token_loop_repr[OF sp, of a "[]"]
    by (subst splitargs_loop.simps) (simp add: token_loop.simps)
  also have "\<dots> = splitargs_loop (intercalate '' '' (map repr args)) (v @ [a])"
    by (simp add: rest_def splitargs_space)
  finally show ?case using Cons.IH by simp
qed

lemma repr_char_no_nul: "NUL \<notin> set (repr_char c)"
proof (cases c rule: repr_char_cases)
  case plain
  then show ?thesis by (auto simp: NUL_def isprint_def)
next
  case hex
  have "NUL \<noteq> hex_char (of_char c div 16)" "NUL \<noteq> hex_char (of_char c mod 16)"
    using byte_nibbles[of c] hex_char_props(3) by metis+
  with hex show ?thesis by (simp add: NUL_def quote_chars)
qed (auto simp: NUL_def quote_chars)

lemma line_no_nul: "NUL \<notin> set (intercalate '' '' (map repr args))"
proof (induction args)
  case (Cons a args)
  have "NUL \<notin> set (repr a)" using repr_char_no_nul by (auto simp: repr_def quote_chars NUL_def)
  with Cons show ?case by (cases args) (auto simp: intercalate_Cons NUL_def)
qed simp

lemma cstr_no_nul: "NUL \<notin> set l \<Longrightarrow> cstr l = l"
  by (metis (mono_tags, lifting) cstr_def takeWhile_eq_all_conv)

text \<open>A line of quoted arguments, separated by single spaces, as the monitor output has it.\<close>

fun catrepr_all :: "sds \<Rightarrow> char list list \<Rightarrow> sds option" where
  "catrepr_all s [] = Some s"
| "catrepr_all s (a # args) = do {
     s \<leftarrow> sdscatrepr s a;
     s \<leftarrow> (if args \<noteq> [] then sdscatlen s '' '' else Some s);
     catrepr_all s args
   }"

lemma catrepr_all_spec:
  assumes "sds_rep s c" "length c + length (intercalate '' '' (map repr args)) \<le> 2 ^ 63"
  shows "\<exists>s'. catrepr_all s args = Some s' \<and> sds_rep s' (c @ intercalate '' '' (map repr args))"
  using assms
proof (induction args arbitrary: s c)
  case (Cons a args)
  show ?case
  proof (cases "args = []")
    case True
    then show ?thesis using sdscatrepr_spec[OF Cons.prems(1), of a] Cons.prems(2) by auto
  next
    case False
    have bound: "length c + length (repr a) + 1 + length (intercalate '' '' (map repr args)) \<le> 2 ^ 63"
      using Cons.prems(2) False by (simp add: intercalate_Cons)
    obtain s1 where s1: "sdscatrepr s a = Some s1" "sds_rep s1 (c @ repr a)"
      using sdscatrepr_spec[OF Cons.prems(1), of a] bound by auto
    obtain s2 where s2: "sdscatlen s1 '' '' = Some s2" "sds_rep s2 ((c @ repr a) @ '' '')"
      using sdscatlen_spec[OF s1(2), of "'' ''"] bound by auto
    show ?thesis
      using Cons.IH[OF s2(2)] bound False s1(1) s2(1) by (auto simp: intercalate_Cons)
  qed
qed simp


definition empty_sds :: sds where
  "empty_sds = \<lparr>sds_type = SDS_TYPE_8, hdr_len = 0, hdr_alloc = 0, sds_buf = [Some NUL]\<rparr>"

lemma empty_sds_rep: "sds_rep empty_sds []"
  by (rule sds_repI[of _ _ "[]"]) (simp_all add: empty_sds_def sdslen_def sdsalloc_def)


section \<open>The formatter\<close>

definition sds_content :: "sds \<Rightarrow> char list" where
  "sds_content t = map the (take (sdslen t) (sds_buf t))"

lemma sds_content_rep: "sds_rep t b \<Longrightarrow> sds_content t = b"
  by (auto simp: sds_content_def sds_rep_def)

text \<open>The text of an argument under a conversion, and of a whole format.\<close>

fun conv_text :: "char \<Rightarrow> fmt_arg \<Rightarrow> char list option" where
  "conv_text next (ArgStr b) = (if next = CHR ''s'' then Some (cstr b) else None)"
| "conv_text next (ArgSds t) = (if next = CHR ''S'' then Some (sds_content t) else None)"
| "conv_text next (ArgInt n) = (if next \<in> set ''iI'' then Some (show_int n) else None)"
| "conv_text next (ArgUint n) = (if next \<in> set ''uU'' then Some (show_nat n) else None)"

fun fmt_expand :: "char list \<Rightarrow> fmt_arg list \<Rightarrow> char list option" where
  "fmt_expand [] args = Some []"
| "fmt_expand (c # f) args =
     (if c = CHR ''%'' then
        (case f of
           [] \<Rightarrow> None
         | next # f \<Rightarrow>
             if is_conv next then
               (case args of
                  [] \<Rightarrow> None
                | a # args \<Rightarrow> do { b \<leftarrow> conv_text next a; r \<leftarrow> fmt_expand f args; Some (b @ r) })
             else do { r \<leftarrow> fmt_expand f args; Some (next # r) })
      else do { r \<leftarrow> fmt_expand f args; Some (c # r) })"

fun arg_ok :: "fmt_arg \<Rightarrow> bool" where
  "arg_ok (ArgStr b) = True"
| "arg_ok (ArgSds t) = sds_rep t (sds_content t)"
| "arg_ok (ArgInt n) = (LLONG_MIN < n \<and> n \<le> LLONG_MAX)"
| "arg_ok (ArgUint n) = (n < 2 ^ 64)"

lemma fmt_conv_text:
  assumes "arg_ok a" "is_conv next" "conv_text next a = Some b"
  shows "fmt_conv next (a # args) = Some (b, args)"
proof (cases a)
  case (ArgSds t)
  then show ?thesis
    using assms sds_bytes_rep[of t "sds_content t" 0 "length (sds_content t)"]
    by (simp add: sds_rep_def split: if_splits)
next
  case (ArgInt n)
  then have "n \<noteq> LLONG_MIN" "length (show_int n) < length llstr_buf" "next = CHR ''i'' \<or> next = CHR ''I''"
    "b = show_int n" using assms llstr_fits[of n] by (auto split: if_splits)
  then show ?thesis using sdsll2str_spec[of n llstr_buf] ArgInt by auto
next
  case (ArgUint n)
  then have "length (show_nat n) < length llstr_buf" "next = CHR ''u'' \<or> next = CHR ''U''" "b = show_nat n"
    using assms show_nat_u64_short[of n] by (auto simp: llstr_buf_def SDS_LLSTR_SIZE_def split: if_splits)
  then show ?thesis using sdsull2str_spec[of n llstr_buf] ArgUint by auto
qed (use assms in \<open>simp split: if_splits\<close>)

lemma sds_open_extend:
  assumes op: "sds_open x s c" and fit: "length c + length b \<le> sdsalloc s"
  shows "\<exists>s' y. put_block s (length c) (map Some b) = Some s' \<and> sds_open y (sdsinclen s' (length b)) (c @ b)"
proof -
  obtain rest where r: "sds_buf s = map Some c @ x # rest" "hdr_len s = length c" "length c \<le> sdsalloc s"
    "sdsalloc s \<le> length c + length rest" "sdsalloc s < 2 ^ hdr_bits (sds_type s)"
    using op by (rule sds_openE)
  obtain y rest' where y: "drop (length b) (x # rest) = y # rest'"
    using fit r(4) by (cases "drop (length b) (x # rest)") auto
  then have len: "length rest = length b + length rest'"
    using length_drop[of "length b" "x # rest"] fit r(4) unfolding y by simp
  let ?b = "map Some (c @ b) @ y # rest'" and ?s = "s\<lparr>sds_buf := map Some (c @ b) @ y # rest'\<rparr>"
  have blk: "put_block s (length c) (map Some b) = Some ?s"
    using r(1,4) fit y by (simp add: put_block_in)
  have hl: "hdr_len (sdsinclen ?s (length b)) = length c + length b"
    using fit r(2,5) by (simp add: sdsinclen_def)
  have "sdsalloc (sdsinclen ?s (length b)) = sdsalloc s \<or> b \<noteq> [] \<and> sds_type s = SDS_TYPE_5"
    using hl r(2) by (auto simp: sdsalloc_def sdsinclen_def split: sdstype.splits)
  moreover have "\<not> (b \<noteq> [] \<and> sds_type s = SDS_TYPE_5)"
    using fit r(2) by (auto simp: sdsalloc_def)
  ultimately have "sds_open y (sdsinclen ?s (length b)) (c @ b)"
    using hl r fit len by (intro sds_openI[of _ _ _ rest']) (auto simp: sdslen_def sdsinclen_def)
  with blk show ?thesis by auto
qed

lemma fmt_block_open:
  assumes "sds_open x s c" "length c + length b \<le> 2 ^ 63"
  shows "\<exists>s' y. fmt_block s (length c) b = Some (s', length (c @ b)) \<and> sds_open y s' (c @ b)"
proof -
  obtain s1 where s1: "(if sdsavail s < length b then sdsMakeRoomFor s (length b) else Some s) = Some s1"
    "sds_open x s1 c" "length c + length b \<le> sdsalloc s1"
    using assms sdsMakeRoomFor_open[OF assms] sdsavail_open[OF assms(1)]
    by (cases "sdsavail s < length b") (auto simp: sds_open_def)
  then show ?thesis using sds_open_extend[OF s1(2,3)] by (auto simp: fmt_block_def Let_def)
qed

lemma fmt_char_open:
  assumes "sds_open x s c" "length c + 1 \<le> sdsalloc s"
  shows "\<exists>s' y. fmt_char s (length c) ch = Some (s', length (c @ [ch])) \<and> sds_open y s' (c @ [ch])"
proof -
  obtain s1 y where s1: "put_block s (length c) (map Some [ch]) = Some s1" "sds_open y (sdsinclen s1 1) (c @ [ch])"
    using sds_open_extend[OF assms(1), of "[ch]"] assms(2) by auto
  obtain rest where r: "sds_buf s = map Some c @ x # rest" using assms(1) by (rule sds_openE)
  have "put_char s (length c) ch = Some s1"
    using s1(1) by (auto simp: put_char_def put_block_def r bind_eq_Some_conv write_at_def list_update_append)
  then show ?thesis using s1(2) by (auto simp: fmt_char_def)
qed

lemma fmt_loop_spec:
  assumes "sds_open x s c" "list_all arg_ok args" "fmt_expand f args = Some out" "length c + length out + 1 \<le> 2 ^ 63"
  shows "\<exists>s' y. fmt_loop s (length c) f args = Some (s', length (c @ out)) \<and> sds_open y s' (c @ out)"
  using assms
proof (induction f arbitrary: x s c out args rule: length_induct)
  case (1 f)
  show ?case
  proof (cases f)
    case Nil
    with 1 show ?thesis by auto
  next
    case (Cons ch f1)
    have IH: "\<exists>s' y. fmt_loop s1 (length c1) g args' = Some (s', length (c1 @ o1)) \<and> sds_open y s' (c1 @ o1)"
      if "length g < length f" "sds_open z s1 c1" "list_all arg_ok args'" "fmt_expand g args' = Some o1"
        "length c1 + length o1 + 1 \<le> 2 ^ 63" for g z s1 c1 args' o1
      using 1(1) that by blast
    obtain s1 where s1: "(if sdsavail s = 0 then sdsMakeRoomFor s 1 else Some s) = Some s1" "sds_open x s1 c"
      "length c + 1 \<le> sdsalloc s1"
      using 1(2,5) sdsMakeRoomFor_open[OF 1(2), of 1] sdsavail_open[OF 1(2)]
      by (cases "sdsavail s = 0") (auto simp: sds_open_def)
    have literal: ?thesis
      if g: "length g < length f" "fmt_expand g args = Some r" "out = l # r"
        and eq: "fmt_loop s (length c) f args = do { (s, i) \<leftarrow> fmt_char s1 (length c) l; fmt_loop s i g args }"
      for l g r
    proof -
      obtain s2 y where s2: "fmt_char s1 (length c) l = Some (s2, length (c @ [l]))" "sds_open y s2 (c @ [l])"
        using fmt_char_open[OF s1(2,3)] by blast
      show ?thesis using IH[OF g(1) s2(2) 1(3) g(2)] 1(5) g(3) eq s2(1) by auto
    qed
    show ?thesis
    proof (cases "ch = CHR ''%''")
      case False
      then show ?thesis
        using 1(4) Cons s1(1) by (intro literal[of f1 "tl out" ch]) (auto simp: bind_eq_Some_conv)
    next
      case pct: True
      then obtain nx f2 where f1: "f1 = nx # f2" using 1(4) Cons by (cases f1) auto
      show ?thesis
      proof (cases "is_conv nx")
        case False
        then show ?thesis
          using 1(4) Cons s1(1) pct f1 by (intro literal[of f2 "tl out" nx]) (auto simp: bind_eq_Some_conv)
      next
        case True
        then obtain a args' b r where a: "args = a # args'" "conv_text nx a = Some b"
          "fmt_expand f2 args' = Some r" "out = b @ r"
          using 1(4) Cons pct f1 by (auto simp: bind_eq_Some_conv split: list.splits)
        have cv: "fmt_conv nx args = Some (b, args')"
          using fmt_conv_text[OF _ True a(2)] 1(3) a(1) by simp
        obtain s2 y where s2: "fmt_block s1 (length c) b = Some (s2, length (c @ b))" "sds_open y s2 (c @ b)"
          using fmt_block_open[OF s1(2), of b] 1(5) a(4) by auto
        show ?thesis
          using IH[OF _ s2(2) _ a(3)] 1(3,5) a(1,4) s2(1) s1(1) cv pct True Cons f1 by auto
      qed
    qed
  qed
qed

text \<open>
  C29: \<open>sdscatfmt\<close> appends exactly the text of the format with its arguments, and keeps room for
  every byte it writes.
\<close>

theorem sdscatfmt_correct:
  assumes "sds_rep s c" "list_all arg_ok args" "fmt_expand (cstr fmt) args = Some out"
    "length c + length out + 2 * length (cstr fmt) + 1 \<le> 2 ^ 63"
  shows "\<exists>s'. sdscatfmt s fmt args = Some s' \<and> sds_rep s' (c @ out)"
proof -
  obtain s1 where s1: "sdsMakeRoomFor s (length (cstr fmt) * 2) = Some s1" "sds_open (Some NUL) s1 c"
    using sdsMakeRoomFor_spec[OF assms(1), of "length (cstr fmt) * 2"] assms(4) by (auto simp: sds_rep_open)
  obtain s2 y where s2: "fmt_loop s1 (length c) (cstr fmt) args = Some (s2, length (c @ out))" "sds_open y s2 (c @ out)"
    using fmt_loop_spec[OF s1(2) assms(2,3)] assms(4) by auto
  obtain rest where r: "sds_buf s2 = map Some (c @ out) @ y # rest" "sdsalloc s2 \<le> length (c @ out) + length rest"
    using s2(2) by (rule sds_openE)
  have "put_char s2 (length (c @ out)) NUL = Some (s2\<lparr>sds_buf := map Some (c @ out) @ Some NUL # rest\<rparr>)"
    by (simp add: put_char_in r list_update_append)
  moreover have "sds_rep (s2\<lparr>sds_buf := map Some (c @ out) @ Some NUL # rest\<rparr>) (c @ out)"
    using s2(2) r by (intro sds_repI[of _ _ rest]) (auto simp: sds_open_def)
  moreover have "sdslen s = length c" using assms(1) by (simp add: sds_rep_def)
  ultimately show ?thesis using s1(1) s2(1) by (auto simp: sdscatfmt_def Let_def)
qed

theorem sdscatfmt_correct_witness:
  "\<exists>s'. sdscatfmt empty_sds ''%s=%i%%'' [ArgStr ''x'', ArgInt (- 7)] = Some s' \<and> sds_rep s' ''x=-7%''"
proof -
  have c: "cstr ''%s=%i%%'' = ''%s=%i%%''" by (simp add: cstr_def NUL_def)
  have "fmt_expand (cstr ''%s=%i%%'') [ArgStr ''x'', ArgInt (- 7)] = Some ''x=-7%''"
    unfolding c by (simp add: is_conv_def cstr_def NUL_def show_int_def show_nat_small digit_chars)
  moreover have "list_all arg_ok [ArgStr ''x'', ArgInt (- 7)]"
    by (simp add: LLONG_MIN_def LLONG_MAX_def)
  ultimately show ?thesis
    using sdscatfmt_correct[OF empty_sds_rep, of "[ArgStr ''x'', ArgInt (- 7)]" "''%s=%i%%''" "''x=-7%''"]
    unfolding c by simp
qed

end
