(* ===== verification/Object.thy ===== *)
theory Object
  imports SdsArgs "HOL-Library.Multiset"
begin

text \<open>
  Redis objects (\<open>object.c\<close>): reference counted heap objects that hold a string as an integer, as an
  embedded or as a raw sds string, or an opaque value of another type. The objects live in an explicit
  heap, so that sharing is visible: a command that writes through a pointer changes every key that
  refers to the same object. The access time field of the objects is not modelled.
\<close>

section \<open>Objects and the heap\<close>

datatype obj_type = OBJ_STRING | OBJ_LIST | OBJ_SET | OBJ_ZSET | OBJ_HASH | OBJ_MODULE | OBJ_STREAM

datatype obj_encoding =
    OBJ_ENCODING_RAW | OBJ_ENCODING_INT | OBJ_ENCODING_HT | OBJ_ENCODING_ZIPMAP
  | OBJ_ENCODING_LINKEDLIST | OBJ_ENCODING_ZIPLIST | OBJ_ENCODING_INTSET | OBJ_ENCODING_SKIPLIST
  | OBJ_ENCODING_EMBSTR | OBJ_ENCODING_QUICKLIST | OBJ_ENCODING_STREAM

text \<open>What \<open>ptr\<close> holds: a string, a \<open>long\<close> cast to a pointer, or the value of another type.\<close>

datatype obj_ptr = PSds sds | PInt int | POther nat

record robj =
  o_type :: obj_type
  o_encoding :: obj_encoding
  o_refcount :: int
  o_ptr :: obj_ptr

text \<open>
  A reference is one of the preallocated shared integers or the address of an allocated object; a
  freed object is \<^const>\<open>None\<close>, so a use after free is a failure of the model.
\<close>

datatype oref = Integer nat | Obj nat

type_synonym heap = "robj option list"

definition INT_MAX :: int where
  "INT_MAX = 2 ^ 31 - 1"

definition OBJ_SHARED_REFCOUNT :: int where
  "OBJ_SHARED_REFCOUNT = INT_MAX"

definition OBJ_STATIC_REFCOUNT :: int where
  "OBJ_STATIC_REFCOUNT = INT_MAX - 1"

definition OBJ_FIRST_SPECIAL_REFCOUNT :: int where
  "OBJ_FIRST_SPECIAL_REFCOUNT = OBJ_STATIC_REFCOUNT"

definition OBJ_SHARED_INTEGERS :: nat where
  "OBJ_SHARED_INTEGERS = 10000"

definition shared_integer :: "nat \<Rightarrow> robj" where
  "shared_integer n =
     \<lparr>o_type = OBJ_STRING, o_encoding = OBJ_ENCODING_INT, o_refcount = OBJ_SHARED_REFCOUNT,
      o_ptr = PInt (int n)\<rparr>"

fun deref :: "heap \<Rightarrow> oref \<Rightarrow> robj option" where
  "deref h (Integer n) = (if n < OBJ_SHARED_INTEGERS then Some (shared_integer n) else None)"
| "deref h (Obj a) = Option.bind (fetch h a) id"

fun set_obj :: "heap \<Rightarrow> oref \<Rightarrow> robj \<Rightarrow> heap option" where
  "set_obj h (Integer n) ob = None"
| "set_obj h (Obj a) ob = (if deref h (Obj a) = None then None else store h a (Some ob))"

fun zfree :: "heap \<Rightarrow> oref \<Rightarrow> heap option" where
  "zfree h (Integer n) = None"
| "zfree h (Obj a) = (if deref h (Obj a) = None then None else store h a None)"

section \<open>Creation\<close>

definition createObject :: "heap \<Rightarrow> obj_type \<Rightarrow> obj_ptr \<Rightarrow> heap \<times> oref" where
  "createObject h type ptr =
     (h @ [Some \<lparr>o_type = type, o_encoding = OBJ_ENCODING_RAW, o_refcount = 1, o_ptr = ptr\<rparr>], Obj (length h))"

definition createRawStringObject :: "heap \<Rightarrow> sds_init \<Rightarrow> nat \<Rightarrow> (heap \<times> oref) option" where
  "createRawStringObject h ptr len = do {
     s \<leftarrow> sdsnewlen ptr len;
     Some (createObject h OBJ_STRING (PSds s))
   }"

definition createEmbeddedStringObject :: "heap \<Rightarrow> sds_init \<Rightarrow> nat \<Rightarrow> (heap \<times> oref) option" where
  "createEmbeddedStringObject h ptr len =
     (let sh = \<lparr>sds_type = SDS_TYPE_8, hdr_len = len mod 2 ^ 8, hdr_alloc = len mod 2 ^ 8,
                sds_buf = s_malloc (len + 1)\<rparr>
      in do {
        sh \<leftarrow> (case ptr of
                Noinit \<Rightarrow> put_char sh len NUL
              | Bytes b \<Rightarrow> do {
                  bytes \<leftarrow> read_at b 0 len;
                  sh \<leftarrow> put_block sh 0 (map Some bytes);
                  put_char sh len NUL
                }
              | Null \<Rightarrow> put_block sh 0 (replicate (len + 1) (Some NUL)));
        Some (h @ [Some \<lparr>o_type = OBJ_STRING, o_encoding = OBJ_ENCODING_EMBSTR, o_refcount = 1,
                        o_ptr = PSds sh\<rparr>], Obj (length h))
      })"

definition OBJ_ENCODING_EMBSTR_SIZE_LIMIT :: nat where
  "OBJ_ENCODING_EMBSTR_SIZE_LIMIT = 44"

definition createStringObject :: "heap \<Rightarrow> sds_init \<Rightarrow> nat \<Rightarrow> (heap \<times> oref) option" where
  "createStringObject h ptr len =
     (if len \<le> OBJ_ENCODING_EMBSTR_SIZE_LIMIT then createEmbeddedStringObject h ptr len
      else createRawStringObject h ptr len)"

section \<open>Reference counting\<close>

definition incrRefCount :: "heap \<Rightarrow> oref \<Rightarrow> heap option" where
  "incrRefCount h r = do {
     ob \<leftarrow> deref h r;
     if o_refcount ob < OBJ_FIRST_SPECIAL_REFCOUNT then set_obj h r (ob\<lparr>o_refcount := o_refcount ob + 1\<rparr>)
     else if o_refcount ob = OBJ_SHARED_REFCOUNT then Some h
     else if o_refcount ob = OBJ_STATIC_REFCOUNT then None
     else Some h
   }"

definition decrRefCount :: "heap \<Rightarrow> oref \<Rightarrow> heap option" where
  "decrRefCount h r = do {
     ob \<leftarrow> deref h r;
     if o_refcount ob = 1 then zfree h r
     else if o_refcount ob \<le> 0 then None
     else if o_refcount ob \<noteq> OBJ_SHARED_REFCOUNT then set_obj h r (ob\<lparr>o_refcount := o_refcount ob - 1\<rparr>)
     else Some h
   }"

section \<open>Integers and encodings\<close>

text \<open>\<open>no_shared\<close>: \<open>maxmemory\<close> is set with a policy that forbids shared integers.\<close>

definition createStringObjectFromLongLongWithOptions :: "bool \<Rightarrow> heap \<Rightarrow> int \<Rightarrow> bool \<Rightarrow> (heap \<times> oref) option" where
  "createStringObjectFromLongLongWithOptions no_shared h value valueobj =
     (let valueobj = (if \<not> no_shared then False else valueobj) in
      if value \<ge> 0 \<and> value < int OBJ_SHARED_INTEGERS \<and> \<not> valueobj then do {
        h \<leftarrow> incrRefCount h (Integer (nat value));
        Some (h, Integer (nat value))
      }
      else if value \<ge> LLONG_MIN \<and> value \<le> LLONG_MAX then
        Some (h @ [Some \<lparr>o_type = OBJ_STRING, o_encoding = OBJ_ENCODING_INT, o_refcount = 1,
                        o_ptr = PInt value\<rparr>], Obj (length h))
      else do {
        s \<leftarrow> sdsfromlonglong value;
        Some (createObject h OBJ_STRING (PSds s))
      })"

definition createStringObjectFromLongLong :: "bool \<Rightarrow> heap \<Rightarrow> int \<Rightarrow> (heap \<times> oref) option" where
  "createStringObjectFromLongLong no_shared h value =
     createStringObjectFromLongLongWithOptions no_shared h value False"

definition createStringObjectFromLongLongForValue :: "bool \<Rightarrow> heap \<Rightarrow> int \<Rightarrow> (heap \<times> oref) option" where
  "createStringObjectFromLongLongForValue no_shared h value =
     createStringObjectFromLongLongWithOptions no_shared h value True"

definition sdsEncodedObject :: "robj \<Rightarrow> bool" where
  "sdsEncodedObject ob \<longleftrightarrow> o_encoding ob = OBJ_ENCODING_RAW \<or> o_encoding ob = OBJ_ENCODING_EMBSTR"

fun obj_sds :: "robj \<Rightarrow> sds option" where
  "obj_sds ob = (case o_ptr ob of PSds s \<Rightarrow> Some s | _ \<Rightarrow> None)"

fun obj_long :: "robj \<Rightarrow> int option" where
  "obj_long ob = (case o_ptr ob of PInt v \<Rightarrow> Some v | _ \<Rightarrow> None)"

text \<open>The bytes that a function which takes \<open>ptr\<close> and \<open>sdslen(ptr)\<close> reads.\<close>

definition sds_contents :: "sds \<Rightarrow> char list option" where
  "sds_contents s = sds_bytes s 0 (sdslen s)"

definition dupStringObject :: "heap \<Rightarrow> oref \<Rightarrow> (heap \<times> oref) option" where
  "dupStringObject h r = do {
     ob \<leftarrow> deref h r;
     if o_type ob \<noteq> OBJ_STRING then None
     else case o_encoding ob of
       OBJ_ENCODING_RAW \<Rightarrow> do {
         s \<leftarrow> obj_sds ob; b \<leftarrow> sds_contents s; createRawStringObject h (Bytes b) (sdslen s) }
     | OBJ_ENCODING_EMBSTR \<Rightarrow> do {
         s \<leftarrow> obj_sds ob; b \<leftarrow> sds_contents s; createEmbeddedStringObject h (Bytes b) (sdslen s) }
     | OBJ_ENCODING_INT \<Rightarrow> do {
         v \<leftarrow> obj_long ob;
         Some (h @ [Some \<lparr>o_type = OBJ_STRING, o_encoding = OBJ_ENCODING_INT, o_refcount = 1,
                         o_ptr = PInt v\<rparr>], Obj (length h)) }
     | _ \<Rightarrow> None
   }"

definition isSdsRepresentableAsLongLong :: "sds \<Rightarrow> int option option" where
  "isSdsRepresentableAsLongLong s = map_option string2ll (sds_contents s)"

definition isObjectRepresentableAsLongLong :: "heap \<Rightarrow> oref \<Rightarrow> int option option" where
  "isObjectRepresentableAsLongLong h r = do {
     ob \<leftarrow> deref h r;
     if o_type ob \<noteq> OBJ_STRING then None
     else if o_encoding ob = OBJ_ENCODING_INT then map_option Some (obj_long ob)
     else Option.bind (obj_sds ob) isSdsRepresentableAsLongLong
   }"

definition trimStringObjectIfNeeded :: "heap \<Rightarrow> oref \<Rightarrow> heap option" where
  "trimStringObjectIfNeeded h r = do {
     ob \<leftarrow> deref h r;
     if o_encoding ob = OBJ_ENCODING_RAW then do {
       s \<leftarrow> obj_sds ob;
       if sdsavail s > sdslen s div 10 then do {
         s \<leftarrow> sdsRemoveFreeSpace s;
         set_obj h r (ob\<lparr>o_ptr := PSds s\<rparr>)
       } else Some h
     } else Some h
   }"

definition tryObjectEncoding :: "bool \<Rightarrow> heap \<Rightarrow> oref \<Rightarrow> (heap \<times> oref) option" where
  "tryObjectEncoding no_shared h r = do {
     ob \<leftarrow> deref h r;
     if o_type ob \<noteq> OBJ_STRING then None
     else if \<not> sdsEncodedObject ob then Some (h, r)
     else if o_refcount ob > 1 then Some (h, r)
     else do {
       s \<leftarrow> obj_sds ob;
       bytes \<leftarrow> sds_contents s;
       case (if sdslen s \<le> 20 then string2l bytes else None) of
         Some value \<Rightarrow>
           if \<not> no_shared \<and> value \<ge> 0 \<and> value < int OBJ_SHARED_INTEGERS then do {
             h \<leftarrow> decrRefCount h r;
             h \<leftarrow> incrRefCount h (Integer (nat value));
             Some (h, Integer (nat value))
           }
           else if o_encoding ob = OBJ_ENCODING_RAW then do {
             h \<leftarrow> set_obj h r (ob\<lparr>o_encoding := OBJ_ENCODING_INT, o_ptr := PInt value\<rparr>);
             Some (h, r)
           }
           else do {
             h \<leftarrow> decrRefCount h r;
             createStringObjectFromLongLongForValue no_shared h value
           }
       | None \<Rightarrow>
           if sdslen s \<le> OBJ_ENCODING_EMBSTR_SIZE_LIMIT then
             if o_encoding ob = OBJ_ENCODING_EMBSTR then Some (h, r)
             else do {
               (h, emb) \<leftarrow> createEmbeddedStringObject h (Bytes bytes) (sdslen s);
               h \<leftarrow> decrRefCount h r;
               Some (h, emb)
             }
           else do {
             h \<leftarrow> trimStringObjectIfNeeded h r;
             Some (h, r)
           }
     }
   }"

text \<open>A buffer on the stack; its initial bytes do not matter.\<close>

definition stack_buf :: "nat \<Rightarrow> char list" where
  "stack_buf n = replicate n NUL"

definition getDecodedObject :: "heap \<Rightarrow> oref \<Rightarrow> (heap \<times> oref) option" where
  "getDecodedObject h r = do {
     ob \<leftarrow> deref h r;
     if sdsEncodedObject ob then do { h \<leftarrow> incrRefCount h r; Some (h, r) }
     else if o_type ob = OBJ_STRING \<and> o_encoding ob = OBJ_ENCODING_INT then do {
       v \<leftarrow> obj_long ob;
       (buf, n) \<leftarrow> ll2string (stack_buf 32) 32 v;
       createStringObject h (Bytes buf) (length (cstr buf))
     }
     else None
   }"

section \<open>Comparison\<close>

datatype compare_flags = REDIS_COMPARE_BINARY | REDIS_COMPARE_COLL

text \<open>The bytes and the length that a comparison uses for an object.\<close>

definition obj_str :: "robj \<Rightarrow> (char list \<times> nat) option" where
  "obj_str ob =
     (if sdsEncodedObject ob then do { s \<leftarrow> obj_sds ob; b \<leftarrow> sds_contents s; Some (b, sdslen s) }
      else do { v \<leftarrow> obj_long ob; ll2string (stack_buf 128) 128 v })"

text \<open>\<open>strcoll\<close> belongs to the C library and is a parameter; the length difference is cut to an \<open>int\<close>.\<close>

definition compareStringObjectsWithFlags ::
    "(char list \<Rightarrow> char list \<Rightarrow> int) \<Rightarrow> heap \<Rightarrow> oref \<Rightarrow> oref \<Rightarrow> compare_flags \<Rightarrow> int option" where
  "compareStringObjectsWithFlags strcoll h a b flags = do {
     oa \<leftarrow> deref h a;
     ob \<leftarrow> deref h b;
     if o_type oa \<noteq> OBJ_STRING \<or> o_type ob \<noteq> OBJ_STRING then None
     else if a = b then Some 0
     else do {
       (astr, alen) \<leftarrow> obj_str oa;
       (bstr, blen) \<leftarrow> obj_str ob;
       if flags = REDIS_COMPARE_COLL then Some (strcoll (cstr astr) (cstr bstr))
       else do {
         x \<leftarrow> read_at astr 0 (min alen blen);
         y \<leftarrow> read_at bstr 0 (min alen blen);
         let cmp = memcmp x y;
         if cmp = 0 then Some (sint (word_of_int (int alen - int blen) :: u32)) else Some cmp
       }
     }
   }"

definition compareStringObjects :: "(char list \<Rightarrow> char list \<Rightarrow> int) \<Rightarrow> heap \<Rightarrow> oref \<Rightarrow> oref \<Rightarrow> int option" where
  "compareStringObjects strcoll h a b = compareStringObjectsWithFlags strcoll h a b REDIS_COMPARE_BINARY"

definition collateStringObjects :: "(char list \<Rightarrow> char list \<Rightarrow> int) \<Rightarrow> heap \<Rightarrow> oref \<Rightarrow> oref \<Rightarrow> int option" where
  "collateStringObjects strcoll h a b = compareStringObjectsWithFlags strcoll h a b REDIS_COMPARE_COLL"

definition equalStringObjects :: "(char list \<Rightarrow> char list \<Rightarrow> int) \<Rightarrow> heap \<Rightarrow> oref \<Rightarrow> oref \<Rightarrow> bool option" where
  "equalStringObjects strcoll h a b = do {
     oa \<leftarrow> deref h a;
     ob \<leftarrow> deref h b;
     if o_encoding oa = OBJ_ENCODING_INT \<and> o_encoding ob = OBJ_ENCODING_INT then Some (o_ptr oa = o_ptr ob)
     else do { c \<leftarrow> compareStringObjects strcoll h a b; Some (c = 0) }
   }"

definition stringObjectLen :: "heap \<Rightarrow> oref \<Rightarrow> nat option" where
  "stringObjectLen h r = do {
     ob \<leftarrow> deref h r;
     if o_type ob \<noteq> OBJ_STRING then None
     else if sdsEncodedObject ob then map_option sdslen (obj_sds ob)
     else map_option sdigits10 (obj_long ob)
   }"

text \<open>
  \<open>Some (Some v)\<close> is \<open>C_OK\<close> with the target set to \<open>v\<close>, \<open>Some None\<close> is \<open>C_ERR\<close>; a null object
  counts as 0.
\<close>

definition getLongLongFromObject :: "heap \<Rightarrow> oref option \<Rightarrow> int option option" where
  "getLongLongFromObject h r =
     (case r of
        None \<Rightarrow> Some (Some 0)
      | Some r \<Rightarrow> do {
          ob \<leftarrow> deref h r;
          if o_type ob \<noteq> OBJ_STRING then None
          else if sdsEncodedObject ob then do { s \<leftarrow> obj_sds ob; b \<leftarrow> sds_contents s; Some (string2ll b) }
          else if o_encoding ob = OBJ_ENCODING_INT then map_option Some (obj_long ob)
          else None
        })"

section \<open>Values, ownership and the heap invariant\<close>

datatype "value" = VStr "char list" | VObj obj_type nat

definition MAX_STR :: nat where
  "MAX_STR = 2 ^ 61"

fun obj_val :: "robj \<Rightarrow> value" where
  "obj_val ob =
     (case o_ptr ob of
        PInt v \<Rightarrow> VStr (show_int v)
      | PSds s \<Rightarrow> VStr (case sds_contents s of None \<Rightarrow> [] | Some c \<Rightarrow> c)
      | POther p \<Rightarrow> VObj (o_type ob) p)"

definition obj_ok :: "robj \<Rightarrow> bool" where
  "obj_ok ob \<longleftrightarrow>
     (case o_ptr ob of
        PInt v \<Rightarrow> o_type ob = OBJ_STRING \<and> o_encoding ob = OBJ_ENCODING_INT \<and> LLONG_MIN \<le> v \<and> v \<le> LLONG_MAX
      | PSds s \<Rightarrow> o_type ob = OBJ_STRING \<and> sdsEncodedObject ob \<and> (\<exists>c. sds_rep s c \<and> length c \<le> MAX_STR)
      | POther p \<Rightarrow> o_type ob \<noteq> OBJ_STRING)"

text \<open>
  \<open>heap_ok h R\<close>: the multiset \<open>R\<close> lists every reference that anything holds. Each allocated object is
  well formed, is referenced, and its count is the number of references to it; nothing refers to a
  freed object. So there is neither a leak nor a dangling pointer.
\<close>

fun slot_ok :: "robj option \<Rightarrow> nat \<Rightarrow> bool" where
  "slot_ok None n \<longleftrightarrow> n = 0"
| "slot_ok (Some ob) n \<longleftrightarrow> obj_ok ob \<and> 0 < n \<and> o_refcount ob = int n"

definition heap_ok :: "heap \<Rightarrow> oref multiset \<Rightarrow> bool" where
  "heap_ok h R \<longleftrightarrow>
     (\<forall>a. slot_ok (deref h (Obj a)) (count R (Obj a))) \<and> (\<forall>n. Integer n \<in># R \<longrightarrow> n < OBJ_SHARED_INTEGERS)"

definition val_of :: "heap \<Rightarrow> oref \<Rightarrow> value option" where
  "val_of h r = map_option obj_val (deref h r)"

lemma sds_contents_rep [simp]: "sds_rep s c \<Longrightarrow> sds_contents s = Some c"
  using sds_bytes_rep[of s c 0 "length c"] by (auto simp: sds_contents_def sds_rep_def)

lemma sdslen_rep: "sds_rep s c \<Longrightarrow> sdslen s = length c"
  by (simp add: sds_rep_def)

lemma shared_integer_ok: "n < OBJ_SHARED_INTEGERS \<Longrightarrow> obj_ok (shared_integer n)"
  by (simp add: obj_ok_def shared_integer_def OBJ_SHARED_INTEGERS_def LLONG_MIN_def LLONG_MAX_def)

lemma deref_update: "a < length h \<Longrightarrow> deref (h[a := x]) (Obj b) = (if a = b then x else deref h (Obj b))"
  by (cases "b < length h") auto

lemma deref_alloc: "deref (h @ [x]) (Obj b) = (if b = length h then x else deref h (Obj b))"
  by (cases "b < length h") (auto simp: fetch_def nth_append)

lemma deref_len: "deref h (Obj a) = Some ob \<Longrightarrow> a < length h"
  by (auto simp: fetch_def split: if_splits)

declare deref.simps(2) [simp del]

lemma set_obj_live: "deref h (Obj a) = Some ob0 \<Longrightarrow> set_obj h (Obj a) ob = Some (h[a := Some ob])"
  using deref_len[of h a] by simp

lemma zfree_live: "deref h (Obj a) = Some ob0 \<Longrightarrow> zfree h (Obj a) = Some (h[a := None])"
  using deref_len[of h a] by simp

lemma slot_okD: "heap_ok h R \<Longrightarrow> slot_ok (deref h (Obj a)) (count R (Obj a))"
  by (simp add: heap_ok_def)

lemma deref_ok:
  assumes "heap_ok h R" "r \<in># R"
  obtains ob where "deref h r = Some ob" "obj_ok ob" "val_of h r = Some (obj_val ob)"
    "o_refcount ob = (case r of Integer n \<Rightarrow> OBJ_SHARED_REFCOUNT | Obj a \<Rightarrow> int (count R r))"
proof (cases r)
  case (Integer n)
  then have "n < OBJ_SHARED_INTEGERS" using assms by (auto simp: heap_ok_def)
  with Integer that shared_integer_ok[of n] show thesis
    by (auto simp: val_of_def shared_integer_def)
next
  case (Obj a)
  then obtain ob where "deref h r = Some ob" "obj_ok ob" "o_refcount ob = int (count R (Obj a))"
    using slot_okD[OF assms(1), of a] assms(2) by (cases "deref h r") (auto simp: count_eq_zero_iff)
  with Obj that show thesis by (auto simp: val_of_def)
qed

lemma heap_ok_update:
  assumes "heap_ok h R0" "a < length h" "slot_ok x (count R (Obj a))"
    and "\<And>b. b \<noteq> a \<Longrightarrow> count R (Obj b) = count R0 (Obj b)" "\<And>n. Integer n \<in># R \<Longrightarrow> Integer n \<in># R0"
  shows "heap_ok (h[a := x]) R"
  unfolding heap_ok_def using assms slot_okD[OF assms(1)] by (auto simp: deref_update heap_ok_def)

lemma heap_ok_live: "heap_ok h R \<Longrightarrow> deref h (Obj a) = Some ob \<Longrightarrow> Obj a \<in># R"
  using slot_okD[of h R a] by simp

lemma heap_ok_alloc:
  assumes ok: "heap_ok h R" and "obj_ok ob" "o_refcount ob = 1"
  defines "h' \<equiv> h @ [Some ob]" and "r \<equiv> Obj (length h)"
  shows "heap_ok h' (add_mset r R)" "r \<notin># R" "deref h' r = Some ob"
    "\<And>r'. r' \<in># R \<Longrightarrow> deref h' r' = deref h r'"
proof -
  have none: "deref h r = None" using deref_len[of h "length h"] by (cases "deref h r") (auto simp: r_def)
  then have fresh: "count R r = 0" using slot_okD[OF ok, of "length h"] by (simp add: r_def)
  then show "r \<notin># R" by (simp add: not_in_iff)
  show "heap_ok h' (add_mset r R)"
    using assms fresh by (auto simp: heap_ok_def deref_alloc)
  show "deref h' r = Some ob" by (simp add: h'_def r_def deref_alloc)
  show "deref h' r' = deref h r'" if "r' \<in># R" for r'
    using that \<open>r \<notin># R\<close> by (cases r') (auto simp: h'_def r_def deref_alloc)
qed

text \<open>Replacing an object that only one holder refers to.\<close>

lemma heap_ok_set:
  assumes ok: "heap_ok h (add_mset r R)" and d: "deref h r = Some ob0" "o_refcount ob0 = 1"
    and ob: "obj_ok ob" "o_refcount ob = 1"
  shows "\<exists>h'. set_obj h r ob = Some h' \<and> heap_ok h' (add_mset r R) \<and> r \<notin># R \<and> deref h' r = Some ob \<and>
    (\<forall>r'\<in>#R. deref h' r' = deref h r')"
proof (cases r)
  case (Integer n)
  with d show ?thesis by (auto simp: shared_integer_def OBJ_SHARED_REFCOUNT_def INT_MAX_def split: if_splits)
next
  case (Obj a)
  have one: "count (add_mset r R) r = 1" using slot_okD[OF ok, of a] d Obj by simp
  then have nr: "r \<notin># R" by (simp add: not_in_iff)
  have a: "a < length h" using d deref_len Obj by auto
  have "heap_ok (h[a := Some ob]) (add_mset r R)"
    using ob one Obj a by (intro heap_ok_update[OF ok]) auto
  moreover have "deref (h[a := Some ob]) r' = deref h r'" if "r' \<in># R" for r'
    using that nr a Obj by (cases r') (auto simp: deref_update)
  ultimately show ?thesis using Obj a nr d set_obj_live[of h a ob0 ob] by (auto simp: deref_update)
qed

lemma heap_ok_Integer: "heap_ok h R \<Longrightarrow> heap_ok h (add_mset (Integer n) R) \<longleftrightarrow> n < OBJ_SHARED_INTEGERS"
  by (auto simp: heap_ok_def)

text \<open>An object up to its reference count.\<close>

definition core_of :: "heap \<Rightarrow> oref \<Rightarrow> robj option" where
  "core_of h r = map_option (\<lambda>ob. ob\<lparr>o_refcount := 0\<rparr>) (deref h r)"

lemma obj_val_recount: "obj_val (ob\<lparr>o_refcount := n\<rparr>) = obj_val ob"
  by (simp split: obj_ptr.splits)

lemma val_of_core: "val_of h r = map_option obj_val (core_of h r)"
  by (cases "deref h r") (simp_all add: val_of_def core_of_def obj_val_recount del: obj_val.simps)

lemma core_of_recount:
  "deref h (Obj a) = Some ob \<Longrightarrow> core_of (h[a := Some (ob\<lparr>o_refcount := n\<rparr>)]) r = core_of h r"
  using deref_len[of h a ob] by (cases r) (auto simp: core_of_def deref_update)

lemma obj_ok_recount [simp]: "obj_ok (ob\<lparr>o_refcount := n\<rparr>) = obj_ok ob"
  by (simp add: obj_ok_def sdsEncodedObject_def split: obj_ptr.splits)

lemmas refcount_limits = OBJ_FIRST_SPECIAL_REFCOUNT_def OBJ_SHARED_REFCOUNT_def OBJ_STATIC_REFCOUNT_def INT_MAX_def

lemma incrRefCount_spec:
  assumes ok: "heap_ok h R" and r: "r \<in># R"
    and small: "\<And>a. r = Obj a \<Longrightarrow> int (count R r) < OBJ_FIRST_SPECIAL_REFCOUNT"
  shows "\<exists>h'. incrRefCount h r = Some h' \<and> heap_ok h' (add_mset r R) \<and> (\<forall>r'. core_of h' r' = core_of h r')"
proof -
  obtain ob where ob: "deref h r = Some ob" "obj_ok ob"
    "o_refcount ob = (case r of Integer n \<Rightarrow> OBJ_SHARED_REFCOUNT | Obj a \<Rightarrow> int (count R r))"
    using deref_ok[OF ok r] by metis
  show ?thesis
  proof (cases r)
    case (Integer n)
    then have "incrRefCount h r = Some h" using ob by (simp add: incrRefCount_def refcount_limits)
    moreover have "heap_ok h (add_mset r R)" using ok r Integer by (auto simp: heap_ok_def)
    ultimately show ?thesis by auto
  next
    case (Obj a)
    let ?ob = "ob\<lparr>o_refcount := o_refcount ob + 1\<rparr>"
    have a: "a < length h" using ob(1) Obj deref_len by auto
    have "incrRefCount h r = Some (h[a := Some ?ob])"
      using Obj ob small set_obj_live[of h a ob] by (simp add: incrRefCount_def)
    moreover have "heap_ok (h[a := Some ?ob]) (add_mset r R)"
      using ob Obj a by (intro heap_ok_update[OF ok]) auto
    ultimately show ?thesis using core_of_recount ob(1) Obj by auto
  qed
qed

lemma decrRefCount_spec:
  assumes ok: "heap_ok h (add_mset r R)"
    and small: "\<And>a. r = Obj a \<Longrightarrow> int (count R r) + 1 < OBJ_FIRST_SPECIAL_REFCOUNT"
  shows "\<exists>h'. decrRefCount h r = Some h' \<and> heap_ok h' R \<and> (\<forall>r'\<in>#R. core_of h' r' = core_of h r')"
proof -
  have r: "r \<in># add_mset r R" by simp
  obtain ob where ob: "deref h r = Some ob" "obj_ok ob"
    "o_refcount ob = (case r of Integer n \<Rightarrow> OBJ_SHARED_REFCOUNT | Obj a \<Rightarrow> int (count (add_mset r R) r))"
    using deref_ok[OF ok r] by metis
  show ?thesis
  proof (cases r)
    case (Integer n)
    then have "decrRefCount h r = Some h" using ob by (simp add: decrRefCount_def refcount_limits)
    moreover have "heap_ok h R" using ok Integer by (auto simp: heap_ok_def)
    ultimately show ?thesis by auto
  next
    case (Obj a)
    have a: "a < length h" using ob(1) Obj deref_len by auto
    show ?thesis
    proof (cases "count R r")
      case 0
      then have "decrRefCount h r = Some (h[a := None])"
        using Obj ob zfree_live[of h a ob] by (simp add: decrRefCount_def)
      moreover have "heap_ok (h[a := None]) R"
        using 0 Obj a by (intro heap_ok_update[OF ok]) auto
      moreover have "core_of (h[a := None]) r' = core_of h r'" if "r' \<in># R" for r'
        using that 0 Obj a by (cases r') (auto simp: core_of_def deref_update count_eq_zero_iff)
      ultimately show ?thesis by auto
    next
      case (Suc n)
      let ?ob = "ob\<lparr>o_refcount := o_refcount ob - 1\<rparr>"
      have "decrRefCount h r = Some (h[a := Some ?ob])"
        using Obj ob Suc small set_obj_live[of h a ob]
        by (simp add: decrRefCount_def refcount_limits)
      moreover have "heap_ok (h[a := Some ?ob]) R"
        using ob Obj Suc a by (intro heap_ok_update[OF ok]) auto
      ultimately show ?thesis using core_of_recount ob(1) Obj by auto
    qed
  qed
qed

section \<open>New objects\<close>

text \<open>An unshared string object with the given encoding and contents.\<close>

definition str_obj :: "robj \<Rightarrow> char list \<Rightarrow> bool" where
  "str_obj ob c \<longleftrightarrow> obj_ok ob \<and> o_type ob = OBJ_STRING \<and> obj_val ob = VStr c \<and> o_refcount ob = 1"

lemma sds_obj:
  "sds_rep s c \<Longrightarrow> length c \<le> MAX_STR \<Longrightarrow> e = OBJ_ENCODING_RAW \<or> e = OBJ_ENCODING_EMBSTR \<Longrightarrow>
   str_obj \<lparr>o_type = OBJ_STRING, o_encoding = e, o_refcount = 1, o_ptr = PSds s\<rparr> c"
  by (auto simp: str_obj_def obj_ok_def sdsEncodedObject_def)

lemma int_obj:
  "LLONG_MIN \<le> v \<Longrightarrow> v \<le> LLONG_MAX \<Longrightarrow>
   str_obj \<lparr>o_type = OBJ_STRING, o_encoding = OBJ_ENCODING_INT, o_refcount = 1, o_ptr = PInt v\<rparr> (show_int v)"
  by (auto simp: str_obj_def obj_ok_def)

lemma sdsnewlen_prefix: "len \<le> length b \<Longrightarrow> sdsnewlen (Bytes b) len = sdsnewlen (Bytes (take len b)) len"
proof -
  assume "len \<le> length b"
  then have "read_at (take len b) 0 len = read_at b 0 len" by simp
  then show ?thesis by (simp only: sdsnewlen_def sds_init.case sds_init.distinct)
qed

lemma createRawStringObject_spec:
  assumes "len \<le> length b" "len \<le> MAX_STR"
  shows "\<exists>ob. createRawStringObject h (Bytes b) len = Some (h @ [Some ob], Obj (length h)) \<and>
    str_obj ob (take len b) \<and> o_encoding ob = OBJ_ENCODING_RAW"
proof -
  obtain s where "sdsnewlen (Bytes b) len = Some s" "sds_rep s (take len b)"
    using sdsnewlen_spec[of "take len b"] sdsnewlen_prefix[OF assms(1)] assms by (auto simp: MAX_STR_def min_absorb2)
  with assms sds_obj[of s "take len b"] show ?thesis
    by (auto simp: createRawStringObject_def createObject_def)
qed

lemma createEmbeddedStringObject_spec:
  assumes "len \<le> length b" "len \<le> OBJ_ENCODING_EMBSTR_SIZE_LIMIT"
  shows "\<exists>ob. createEmbeddedStringObject h (Bytes b) len = Some (h @ [Some ob], Obj (length h)) \<and>
    str_obj ob (take len b) \<and> o_encoding ob = OBJ_ENCODING_EMBSTR"
proof -
  let ?s = "\<lparr>sds_type = SDS_TYPE_8, hdr_len = len, hdr_alloc = len, sds_buf = map Some (take len b) @ [Some NUL]\<rparr>"
  have m: "len mod 2 ^ 8 = len" using assms(2) by (simp add: OBJ_ENCODING_EMBSTR_SIZE_LIMIT_def)
  have "sds_rep ?s (take len b)"
    using assms m by (intro sds_repI[of _ _ "[]"])
      (auto simp: sdslen_def sdsalloc_def OBJ_ENCODING_EMBSTR_SIZE_LIMIT_def)
  moreover have "do { sh \<leftarrow> put_block \<lparr>sds_type = SDS_TYPE_8, hdr_len = len, hdr_alloc = len, sds_buf = s_malloc (len + 1)\<rparr> 0
        (map Some (take len b)); put_char sh len NUL } = Some ?s"
    using assms(1) unfolding s_malloc_snoc by (simp add: put_block_def put_char_def list_update_append)
  moreover have "length (take len b) \<le> MAX_STR"
    using assms by (simp add: MAX_STR_def OBJ_ENCODING_EMBSTR_SIZE_LIMIT_def)
  ultimately show ?thesis
    using assms(1) sds_obj[of ?s "take len b" OBJ_ENCODING_EMBSTR]
    unfolding createEmbeddedStringObject_def Let_def m by (auto simp: bind_eq_Some_conv)
qed

lemma createStringObject_spec:
  assumes "len \<le> length b" "len \<le> MAX_STR"
  shows "\<exists>ob. createStringObject h (Bytes b) len = Some (h @ [Some ob], Obj (length h)) \<and>
    str_obj ob (take len b) \<and> sdsEncodedObject ob"
  using createRawStringObject_spec[OF assms, of h] createEmbeddedStringObject_spec[OF assms(1), of h]
  by (auto simp: createStringObject_def sdsEncodedObject_def)

definition keeps :: "heap \<Rightarrow> heap \<Rightarrow> oref multiset \<Rightarrow> bool" where
  "keeps h h' R \<longleftrightarrow> (\<forall>x\<in>#R. core_of h' x = core_of h x)"

lemma keeps_val: "keeps h h' R \<Longrightarrow> x \<in># R \<Longrightarrow> val_of h' x = val_of h x"
  by (simp add: keeps_def val_of_core)

lemma keeps_refl [simp]: "keeps h h R"
  by (simp add: keeps_def)

lemma keeps_trans: "keeps h h' R \<Longrightarrow> keeps h' h'' R \<Longrightarrow> keeps h h'' R"
  by (simp add: keeps_def)

lemma keeps_sub: "keeps h h' R' \<Longrightarrow> set_mset R \<subseteq> set_mset R' \<Longrightarrow> keeps h h' R"
  by (auto simp: keeps_def)

text \<open>\<open>gives h R h' r c\<close>: the step from \<open>h\<close> to \<open>h'\<close> hands out one more reference \<open>r\<close>, to the string \<open>c\<close>.\<close>

definition gives :: "heap \<Rightarrow> oref multiset \<Rightarrow> heap \<Rightarrow> oref \<Rightarrow> char list \<Rightarrow> bool" where
  "gives h R h' r c \<longleftrightarrow> heap_ok h' (add_mset r R) \<and> val_of h' r = Some (VStr c) \<and> keeps h h' R"

lemma gives_alloc:
  assumes "heap_ok h R" "str_obj ob c"
  shows "gives h R (h @ [Some ob]) (Obj (length h)) c \<and> Obj (length h) \<notin># R"
  using heap_ok_alloc[OF assms(1), of ob] assms(2)
  by (simp add: gives_def str_obj_def val_of_def core_of_def keeps_def)

lemma incr_Integer: "n < OBJ_SHARED_INTEGERS \<Longrightarrow> incrRefCount h (Integer n) = Some h"
  by (simp add: incrRefCount_def shared_integer_def refcount_limits)

lemma gives_Integer:
  "heap_ok h R \<Longrightarrow> n < OBJ_SHARED_INTEGERS \<Longrightarrow> gives h R h (Integer n) (show_int (int n))"
  by (simp add: gives_def heap_ok_Integer val_of_def shared_integer_def)

lemma gives_trans: "keeps h h1 R \<Longrightarrow> gives h1 R h' r c \<Longrightarrow> gives h R h' r c"
  by (auto simp: gives_def intro: keeps_trans)

definition fresh_for :: "oref \<Rightarrow> oref multiset \<Rightarrow> bool" where
  "fresh_for r R \<longleftrightarrow> r \<notin># R \<or> (\<exists>n. r = Integer n)"

lemma createInt_spec:
  assumes "heap_ok h R" "LLONG_MIN \<le> v" "v \<le> LLONG_MAX"
  shows "\<exists>h' r. createStringObjectFromLongLongWithOptions ns h v b = Some (h', r) \<and>
    gives h R h' r (show_int v) \<and> fresh_for r R"
  using assms gives_alloc[OF assms(1) int_obj[OF assms(2,3)]] gives_Integer[OF assms(1), of "nat v"]
    incr_Integer[of "nat v" h]
  by (auto simp: createStringObjectFromLongLongWithOptions_def Let_def fresh_for_def nat_less_iff)

lemma string2l_spec: "string2l s = Some v \<longleftrightarrow> s = show_int v \<and> LLONG_MIN \<le> v \<and> v \<le> LLONG_MAX"
proof -
  have "string2l s = string2ll s"
  proof (cases "string2ll s")
    case (Some x)
    then have "LLONG_MIN \<le> x" "x \<le> LLONG_MAX" by (simp_all add: string2ll_spec)
    with Some show ?thesis by (simp add: string2l_def)
  qed (simp add: string2l_def)
  then show ?thesis by (simp add: string2ll_spec)
qed

lemma str_valE:
  assumes "obj_ok ob" "obj_val ob = VStr c"
  obtains s where "o_ptr ob = PSds s" "sds_rep s c" "length c \<le> MAX_STR" "sdsEncodedObject ob" "o_type ob = OBJ_STRING"
  | v where "o_ptr ob = PInt v" "c = show_int v" "LLONG_MIN \<le> v" "v \<le> LLONG_MAX"
      "o_encoding ob = OBJ_ENCODING_INT" "o_type ob = OBJ_STRING"
  using assms by (cases "o_ptr ob") (auto simp: obj_ok_def)

lemma heap_strE:
  assumes "heap_ok h R" "r \<in># R" "val_of h r = Some (VStr c)"
  obtains ob where "deref h r = Some ob" "obj_ok ob" "obj_val ob = VStr c" "o_type ob = OBJ_STRING"
    "o_refcount ob = (case r of Integer n \<Rightarrow> OBJ_SHARED_REFCOUNT | Obj a \<Rightarrow> int (count R r))"
  using deref_ok[OF assms(1,2)] assms(3) str_valE by (metis option.inject)

lemma trimStringObjectIfNeeded_spec:
  assumes ok: "heap_ok h (add_mset r R)" and v: "val_of h r = Some (VStr c)" and d: "deref h r = Some ob" "o_refcount ob = 1"
  shows "\<exists>h'. trimStringObjectIfNeeded h r = Some h' \<and> gives h R h' r c"
proof -
  have ob: "obj_ok ob" "obj_val ob = VStr c"
    using deref_ok[OF ok, of r] d v by (auto simp: val_of_def)
  from ob show ?thesis
  proof (cases rule: str_valE)
    case (1 s)
    obtain s' where s': "sdsRemoveFreeSpace s = Some s'" "sds_rep s' c"
      using sdsRemoveFreeSpace_spec[OF 1(2)] 1(3) by (auto simp: MAX_STR_def)
    have "obj_ok (ob\<lparr>o_ptr := PSds s'\<rparr>)" using ob(1) 1 s' by (auto simp: obj_ok_def sdsEncodedObject_def)
    from heap_ok_set[OF ok d this] d s' 1 v ok show ?thesis
      by (auto simp: trimStringObjectIfNeeded_def gives_def keeps_def val_of_def core_of_def)
  next
    case (2 x)
    then show ?thesis using d v ok by (simp add: trimStringObjectIfNeeded_def gives_def)
  qed
qed

lemma tryObjectEncoding_spec:
  assumes ok: "heap_ok h (add_mset r R)" and v: "val_of h r = Some (VStr c)"
    and small: "int (count R r) + 1 < OBJ_FIRST_SPECIAL_REFCOUNT"
  shows "\<exists>h' r'. tryObjectEncoding ns h r = Some (h', r') \<and> gives h R h' r' c \<and> (r' = r \<or> fresh_for r' R)"
proof -
  obtain ob where ob: "deref h r = Some ob" "obj_ok ob" "obj_val ob = VStr c" "o_type ob = OBJ_STRING"
    "o_refcount ob = (case r of Integer n \<Rightarrow> OBJ_SHARED_REFCOUNT | Obj a \<Rightarrow> int (count (add_mset r R) r))"
    using heap_strE[OF ok _ v] by auto
  have same: "gives h R h r c" using ok v by (simp add: gives_def)
  show ?thesis
  proof (cases "sdsEncodedObject ob \<and> o_refcount ob \<le> 1")
    case False
    then show ?thesis using ob same by (auto simp: tryObjectEncoding_def)
  next
    case True
    then have one: "o_refcount ob = 1" using ob(5) by (auto split: oref.splits simp: refcount_limits)
    obtain s where s: "o_ptr ob = PSds s" "sds_rep s c" "length c \<le> MAX_STR"
      using ob(2,3) True by (cases rule: str_valE) (auto simp: sdsEncodedObject_def)
    obtain h1 where h1: "decrRefCount h r = Some h1" "heap_ok h1 R" "keeps h h1 R"
      using decrRefCount_spec[OF ok] small by (auto simp: keeps_def)
    show ?thesis
    proof (cases "if sdslen s \<le> 20 then string2l c else None")
      case None
      show ?thesis
      proof (cases "length c \<le> OBJ_ENCODING_EMBSTR_SIZE_LIMIT \<and> o_encoding ob \<noteq> OBJ_ENCODING_EMBSTR")
        case True
        then obtain e where e: "createEmbeddedStringObject h (Bytes c) (length c) = Some (h @ [Some e], Obj (length h))"
            "str_obj e c"
          using createEmbeddedStringObject_spec[of "length c" c h] by auto
        let ?h = "h @ [Some e]" and ?r = "Obj (length h)"
        have g: "gives h (add_mset r R) ?h ?r c" "?r \<notin># add_mset r R" using gives_alloc[OF ok e(2)] by auto
        then have "heap_ok ?h (add_mset r (add_mset ?r R))" by (simp add: gives_def add_mset_commute)
        moreover have "int (count (add_mset ?r R) r) + 1 < OBJ_FIRST_SPECIAL_REFCOUNT" using small g(2) by auto
        ultimately obtain h2 where
          "decrRefCount ?h r = Some h2" "heap_ok h2 (add_mset ?r R)" "keeps ?h h2 (add_mset ?r R)"
          unfolding keeps_def using decrRefCount_spec by blast
        with g have "gives h R h2 ?r c"
          using keeps_val[of ?h h2 "add_mset ?r R" ?r] by (simp add: gives_def keeps_def)
        with True \<open>decrRefCount ?h r = Some h2\<close> e ob s None g show ?thesis
          using \<open>sdsEncodedObject ob \<and> o_refcount ob \<le> 1\<close>
          by (simp add: tryObjectEncoding_def sdslen_rep fresh_for_def)
      next
        case False
        obtain h2 where "trimStringObjectIfNeeded h r = Some h2" "gives h R h2 r c"
          using trimStringObjectIfNeeded_spec[OF ok v ob(1) one] by auto
        with False ob s None True same show ?thesis
          by (auto simp: tryObjectEncoding_def sdslen_rep)
      qed
    next
      case (Some x)
      then have x: "c = show_int x" "LLONG_MIN \<le> x" "x \<le> LLONG_MAX" "sdslen s \<le> 20"
        by (auto simp: string2l_spec split: if_splits)
      consider (shared) "\<not> ns \<and> x \<ge> 0 \<and> x < int OBJ_SHARED_INTEGERS"
        | (raw) "\<not> (\<not> ns \<and> x \<ge> 0 \<and> x < int OBJ_SHARED_INTEGERS)" "o_encoding ob = OBJ_ENCODING_RAW"
        | (emb) "\<not> (\<not> ns \<and> x \<ge> 0 \<and> x < int OBJ_SHARED_INTEGERS)" "o_encoding ob \<noteq> OBJ_ENCODING_RAW" by blast
      then show ?thesis
      proof cases
        case shared
        then have n: "nat x < OBJ_SHARED_INTEGERS" by (simp add: nat_less_iff)
        from gives_trans[OF h1(3) gives_Integer[OF h1(2) n]] shared Some True ob s h1 n x show ?thesis
          by (simp add: tryObjectEncoding_def incr_Integer fresh_for_def)
      next
        case raw
        let ?ob = "ob\<lparr>o_encoding := OBJ_ENCODING_INT, o_ptr := PInt x\<rparr>"
        have "obj_ok ?ob" "o_refcount ?ob = 1" using ob x one by (auto simp: obj_ok_def)
        from heap_ok_set[OF ok ob(1) one this] raw Some True ob s x show ?thesis
          by (auto simp: tryObjectEncoding_def gives_def keeps_def val_of_def core_of_def)
      next
        case emb
        obtain h2 r2 where "createStringObjectFromLongLongForValue ns h1 x = Some (h2, r2)"
            "gives h1 R h2 r2 c" "fresh_for r2 R"
          using createInt_spec[OF h1(2) x(2,3), of ns True] x(1)
          by (auto simp: createStringObjectFromLongLongForValue_def)
        with emb Some True ob s h1 show ?thesis
          by (auto simp: tryObjectEncoding_def intro: gives_trans)
      qed
    qed
  qed
qed

section \<open>Reading objects\<close>

lemma length_show_int_le: "LLONG_MIN \<le> v \<Longrightarrow> v \<le> LLONG_MAX \<Longrightarrow> length (show_int v) \<le> 20"
proof -
  assume "LLONG_MIN \<le> v" "v \<le> LLONG_MAX"
  then have "nat \<bar>v\<bar> < 10 ^ 19" by (simp add: LLONG_MIN_def LLONG_MAX_def nat_less_iff abs_less_iff)
  then have "length (show_nat (nat \<bar>v\<bar>)) \<le> 19" using length_show_nat_le[of "nat \<bar>v\<bar>" 18] by simp
  moreover have "length (show_int v) \<le> length (show_nat (nat \<bar>v\<bar>)) + 1"
    unfolding length_show_int digits10_length by simp
  ultimately show ?thesis by linarith
qed

lemma show_nat_no_nul: "NUL \<notin> set (show_nat n)"
proof (induction n rule: show_nat.induct)
  case (1 n)
  have "\<not> is_digit NUL" by (simp add: is_digit_def NUL_def)
  then have "NUL \<noteq> digit_char d" if "d < 10" for d using digit_char_props(1)[OF that] by metis
  with 1 show ?case by (subst show_nat.simps) auto
qed

lemma show_int_no_nul: "NUL \<notin> set (show_int v)"
  by (simp add: show_int_def show_nat_no_nul) (simp add: NUL_def)

lemma cstr_stop: "NUL \<notin> set c \<Longrightarrow> cstr (c @ NUL # r) = c"
  unfolding cstr_def by (induction c) auto

lemma show_int_inj:
  "LLONG_MIN \<le> v \<Longrightarrow> v \<le> LLONG_MAX \<Longrightarrow> LLONG_MIN \<le> w \<Longrightarrow> w \<le> LLONG_MAX \<Longrightarrow> show_int v = show_int w \<longleftrightarrow> v = w"
  using string2ll_spec[of "show_int v" v] string2ll_spec[of "show_int v" w] by auto

lemma ll2string_stack:
  assumes "LLONG_MIN \<le> v" "v \<le> LLONG_MAX" "32 \<le> n"
  shows "\<exists>r. ll2string (stack_buf n) n v = Some (show_int v @ NUL # r, length (show_int v))"
  using ll2string_spec[OF assms(1), of n "stack_buf n"] length_show_int_le[OF assms(1,2)] assms(3)
  by (simp add: stack_buf_def)

lemma obj_str_spec:
  assumes "obj_ok ob" "obj_val ob = VStr c"
  shows "\<exists>r. obj_str ob = Some (c @ r, length c)"
  using assms
proof (cases rule: str_valE)
  case (1 s) then show ?thesis by (simp add: obj_str_def sdslen_rep)
next
  case (2 v)
  then show ?thesis
    using ll2string_stack[of v 128] by (auto simp: obj_str_def sdsEncodedObject_def)
qed

lemma getDecodedObject_spec:
  assumes ok: "heap_ok h R" and r: "r \<in># R" and v: "val_of h r = Some (VStr c)"
    and small: "\<And>a. r = Obj a \<Longrightarrow> int (count R r) < OBJ_FIRST_SPECIAL_REFCOUNT"
  shows "\<exists>h' r'. getDecodedObject h r = Some (h', r') \<and> gives h R h' r' c \<and>
    (\<exists>ob s. deref h' r' = Some ob \<and> o_ptr ob = PSds s \<and> sds_rep s c)"
proof -
  obtain ob where ob: "deref h r = Some ob" "obj_ok ob" "obj_val ob = VStr c" "o_type ob = OBJ_STRING"
    using heap_strE[OF ok r v] by auto
  from ob(2,3) show ?thesis
  proof (cases rule: str_valE)
    case (1 s)
    obtain h' where h': "incrRefCount h r = Some h'" "heap_ok h' (add_mset r R)" "\<forall>r'. core_of h' r' = core_of h r'"
      using incrRefCount_spec[OF ok r] small by blast
    obtain a where a: "r = Obj a" using 1 ob by (cases r) (auto simp: shared_integer_def split: if_splits)
    have "deref h' r = Some (ob\<lparr>o_refcount := o_refcount ob + 1\<rparr>) \<or> deref h' r = Some ob"
      using h'(1) ob(1) a deref_len[of h a ob] by (auto simp: incrRefCount_def deref_update split: if_splits)
    then have "\<exists>o' s. deref h' r = Some o' \<and> o_ptr o' = PSds s \<and> sds_rep s c" using 1 by auto
    with h' ob 1 v show ?thesis by (auto simp: getDecodedObject_def gives_def keeps_def val_of_core)
  next
    case (2 x)
    obtain b where b: "ll2string (stack_buf 32) 32 x = Some (c @ NUL # b, length c)"
      using ll2string_stack[OF 2(3,4)] 2(2) by fastforce
    have "length c \<le> MAX_STR" using length_show_int_le[OF 2(3,4)] 2(2) by (simp add: MAX_STR_def)
    then obtain o' where o': "createStringObject h (Bytes (c @ NUL # b)) (length c) = Some (h @ [Some o'], Obj (length h))"
        "str_obj o' c" "sdsEncodedObject o'"
      using createStringObject_spec[of "length c" "c @ NUL # b" h] by auto
    have "cstr (c @ NUL # b) = c" using 2(2) by (simp add: cstr_stop show_int_no_nul)
    moreover have "obj_ok o'" "obj_val o' = VStr c" using o'(2) by (simp_all add: str_obj_def)
    then have "\<exists>s. o_ptr o' = PSds s \<and> sds_rep s c"
      using o'(3) by (cases rule: str_valE) (auto simp: sdsEncodedObject_def)
    ultimately show ?thesis
      using ob 2 b o' gives_alloc[OF ok o'(2)] by (auto simp: getDecodedObject_def sdsEncodedObject_def deref_alloc)
  qed
qed

lemma stringObjectLen_spec:
  assumes "heap_ok h R" "r \<in># R" "val_of h r = Some (VStr c)"
  shows "stringObjectLen h r = Some (length c)"
proof -
  obtain ob where ob: "deref h r = Some ob" "obj_ok ob" "obj_val ob = VStr c" "o_type ob = OBJ_STRING"
    using heap_strE[OF assms] by auto
  from ob(2,3) show ?thesis
  proof (cases rule: str_valE)
    case (2 x)
    have "sdigits10 x = length c"
      using 2(2,3) by (simp add: sdigits10_def length_show_int Let_def LLONG_MIN_def LLONG_MAX_def)
    with 2 ob show ?thesis by (simp add: stringObjectLen_def sdsEncodedObject_def)
  qed (use ob in \<open>simp add: stringObjectLen_def sdslen_rep\<close>)
qed

lemma getLongLongFromObject_spec:
  assumes "heap_ok h R" "r \<in># R" "val_of h r = Some (VStr c)"
  shows "getLongLongFromObject h (Some r) = Some (string2ll c)"
proof -
  obtain ob where ob: "deref h r = Some ob" "obj_ok ob" "obj_val ob = VStr c" "o_type ob = OBJ_STRING"
    using heap_strE[OF assms] by auto
  from ob(2,3) show ?thesis
  proof (cases rule: str_valE)
    case (2 x)
    then have "string2ll c = Some x" by (simp add: string2ll_spec)
    with 2 ob show ?thesis by (simp add: getLongLongFromObject_def sdsEncodedObject_def)
  qed (use ob in \<open>simp add: getLongLongFromObject_def\<close>)
qed

lemma sint_int_difference:
  assumes "m < 2 ^ 31" "n < 2 ^ 31"
  shows "sint (word_of_int (int m - int n) :: u32) = int m - int n"
  using assms by (intro sint_of_int32) auto

lemma compareStringObjects_spec:
  assumes ok: "heap_ok h R" and r: "r1 \<in># R" "r2 \<in># R"
    and v: "val_of h r1 = Some (VStr a)" "val_of h r2 = Some (VStr b)"
    and l: "length a < 2 ^ 31" "length b < 2 ^ 31"
  shows "\<exists>x. compareStringObjects strcoll h r1 r2 = Some x \<and> sgn x = lex_cmp a b"
proof -
  obtain o1 where o1: "deref h r1 = Some o1" "obj_ok o1" "obj_val o1 = VStr a" "o_type o1 = OBJ_STRING"
    using heap_strE[OF ok r(1) v(1)] by auto
  obtain o2 where o2: "deref h r2 = Some o2" "obj_ok o2" "obj_val o2 = VStr b" "o_type o2 = OBJ_STRING"
    using heap_strE[OF ok r(2) v(2)] by auto
  obtain ja jb where s: "obj_str o1 = Some (a @ ja, length a)" "obj_str o2 = Some (b @ jb, length b)"
    using obj_str_spec[OF o1(2,3)] obj_str_spec[OF o2(2,3)] by auto
  show ?thesis
  proof (cases "r1 = r2")
    case True
    then have "a = b" using v by simp
    with True o1 o2 lex_cmp_lexord[of a b] show ?thesis
      by (simp add: compareStringObjects_def compareStringObjectsWithFlags_def)
  next
    case False
    let ?m = "min (length a) (length b)"
    have cmp: "memcmp x y = -1 \<or> memcmp x y = 0 \<or> memcmp x y = 1" for x y
      by (induction x y rule: memcmp.induct) auto
    have "compareStringObjects strcoll h r1 r2 =
        Some (let cmp = memcmp (take ?m a) (take ?m b) in if cmp = 0 then int (length a) - int (length b) else cmp)"
      using False o1 o2 s sint_int_difference[OF l]
      by (simp add: compareStringObjects_def compareStringObjectsWithFlags_def Let_def)
    then show ?thesis using cmp[of "take ?m a" "take ?m b"] by (auto simp: lex_cmp_def Let_def)
  qed
qed

lemma equalStringObjects_spec:
  assumes ok: "heap_ok h R" and r: "r1 \<in># R" "r2 \<in># R"
    and v: "val_of h r1 = Some (VStr a)" "val_of h r2 = Some (VStr b)"
    and l: "length a < 2 ^ 31" "length b < 2 ^ 31"
  shows "equalStringObjects strcoll h r1 r2 = Some (a = b)"
proof -
  obtain o1 where o1: "deref h r1 = Some o1" "obj_ok o1" "obj_val o1 = VStr a"
    using heap_strE[OF ok r(1) v(1)] by auto
  obtain o2 where o2: "deref h r2 = Some o2" "obj_ok o2" "obj_val o2 = VStr b"
    using heap_strE[OF ok r(2) v(2)] by auto
  show ?thesis
  proof (cases "o_encoding o1 = OBJ_ENCODING_INT \<and> o_encoding o2 = OBJ_ENCODING_INT")
    case True
    obtain x where x: "o_ptr o1 = PInt x" "a = show_int x" "LLONG_MIN \<le> x" "x \<le> LLONG_MAX"
      using o1(2,3) True by (cases rule: str_valE) (auto simp: sdsEncodedObject_def)
    obtain y where y: "o_ptr o2 = PInt y" "b = show_int y" "LLONG_MIN \<le> y" "y \<le> LLONG_MAX"
      using o2(2,3) True by (cases rule: str_valE) (auto simp: sdsEncodedObject_def)
    show ?thesis using True o1 o2 x y by (simp add: equalStringObjects_def show_int_inj)
  next
    case False
    obtain x where x: "compareStringObjects strcoll h r1 r2 = Some x" "sgn x = lex_cmp a b"
      using compareStringObjects_spec[OF ok r v l] by auto
    then have "x = 0 \<longleftrightarrow> a = b" using lex_cmp_lexord[of a b] by (metis sgn_0_0)
    with False x o1 o2 show ?thesis by (auto simp: equalStringObjects_def)
  qed
qed

section \<open>Properties\<close>

text \<open>A heap with the same number as a raw string and as an integer.\<close>

definition demo_raw :: robj where
  "demo_raw = \<lparr>o_type = OBJ_STRING, o_encoding = OBJ_ENCODING_RAW, o_refcount = 1, o_ptr = PSds
     \<lparr>sds_type = SDS_TYPE_8, hdr_len = 5, hdr_alloc = 5, sds_buf = map Some ''12345'' @ [Some NUL]\<rparr>\<rparr>"

definition demo_int :: robj where
  "demo_int = \<lparr>o_type = OBJ_STRING, o_encoding = OBJ_ENCODING_INT, o_refcount = 1, o_ptr = PInt 12345\<rparr>"

definition demo_heap :: heap where
  "demo_heap = [Some demo_raw, Some demo_int]"

lemma demo_show: "show_int 12345 = ''12345''"
  by (simp add: show_int_def show_nat.simps digit_char_def char_of_def bit_0)

lemma demo_raw_str: "str_obj demo_raw ''12345''"
  unfolding demo_raw_def
  by (intro sds_obj sds_repI[of _ _ "[]"]) (simp_all add: sdslen_def sdsalloc_def MAX_STR_def)

lemma demo_int_str: "str_obj demo_int ''12345''"
  using int_obj[of 12345] by (simp add: demo_int_def demo_show LLONG_MIN_def LLONG_MAX_def)

lemma demo_deref: "deref demo_heap (Obj 0) = Some demo_raw" "deref demo_heap (Obj 1) = Some demo_int"
  by (simp_all add: demo_heap_def deref.simps)

lemma demo_heap_ok: "heap_ok demo_heap {#Obj 0, Obj 1#}"
proof -
  have e: "heap_ok [] {#}" by (simp add: heap_ok_def deref.simps)
  have 1: "heap_ok [Some demo_raw] {#Obj 0#}"
    using heap_ok_alloc(1)[OF e, of demo_raw] demo_raw_str by (simp add: str_obj_def)
  show ?thesis
    using heap_ok_alloc(1)[OF 1, of demo_int] demo_int_str
    by (simp add: str_obj_def demo_heap_def add_mset_commute)
qed

lemma demo_vals: "val_of demo_heap (Obj 0) = Some (VStr ''12345'')" "val_of demo_heap (Obj 1) = Some (VStr ''12345'')"
  using demo_raw_str demo_int_str demo_deref by (simp_all add: val_of_def str_obj_def)

text \<open>C34: re-encoding a string object never changes the string it stands for: whether it ends up as a
shared integer, an integer, an embedded or a trimmed raw string, the holder of the old reference gets a
reference to the same bytes, every other reference keeps its value, and the reference counts stay
exact, so nothing leaks and nothing is freed while in use.\<close>

theorem tryObjectEncoding_keeps_value:
  assumes "heap_ok h (add_mset r R)" "val_of h r = Some (VStr c)"
    and "int (count R r) + 1 < OBJ_FIRST_SPECIAL_REFCOUNT"
  shows "\<exists>h' r'. tryObjectEncoding no_shared h r = Some (h', r') \<and> heap_ok h' (add_mset r' R) \<and>
    val_of h' r' = Some (VStr c) \<and> (\<forall>x. x \<in># R \<longrightarrow> val_of h' x = val_of h x)"
  using tryObjectEncoding_spec[OF assms, of no_shared] keeps_val unfolding gives_def by blast

theorem tryObjectEncoding_keeps_value_witness:
  "\<exists>h' r'. tryObjectEncoding False demo_heap (Obj 0) = Some (h', r') \<and> heap_ok h' {#r', Obj 1#} \<and>
    val_of h' r' = Some (VStr ''12345'') \<and> (\<forall>x. x \<in># {#Obj 1#} \<longrightarrow> val_of h' x = val_of demo_heap x)"
  using tryObjectEncoding_keeps_value[OF demo_heap_ok demo_vals(1), of False] by (simp add: refcount_limits)

text \<open>C35: string objects behave as their bytes whatever their encodings: equality, the sign of the
binary comparison, the length and the numeric value depend on the bytes alone, so an integer-encoded
object is interchangeable with the string of its digits.\<close>

theorem string_objects_encoding_independent:
  assumes "heap_ok h R" "r1 \<in># R" "r2 \<in># R" "val_of h r1 = Some (VStr a)" "val_of h r2 = Some (VStr b)"
    and "length a < 2 ^ 31" "length b < 2 ^ 31"
  shows "equalStringObjects strcoll h r1 r2 = Some (a = b) \<and>
    (\<exists>x. compareStringObjects strcoll h r1 r2 = Some x \<and> (x < 0 \<longleftrightarrow> (a, b) \<in> byte_lex) \<and> (x = 0 \<longleftrightarrow> a = b)) \<and>
    stringObjectLen h r1 = Some (length a) \<and> getLongLongFromObject h (Some r1) = Some (string2ll a)"
proof -
  obtain x where x: "compareStringObjects strcoll h r1 r2 = Some x" "sgn x = lex_cmp a b"
    using compareStringObjects_spec[OF assms] by auto
  then have "x < 0 \<longleftrightarrow> (a, b) \<in> byte_lex" "x = 0 \<longleftrightarrow> a = b"
    using lex_cmp_lexord[of a b] by (metis sgn_less) (metis lex_cmp_lexord sgn_0_0 x(2))
  with x equalStringObjects_spec[OF assms] stringObjectLen_spec[OF assms(1,2,4)]
    getLongLongFromObject_spec[OF assms(1,2,4)] show ?thesis by auto
qed

theorem string_objects_encoding_independent_witness:
  "equalStringObjects (\<lambda>_ _. 0) demo_heap (Obj 0) (Obj 1) = Some True \<and>
    stringObjectLen demo_heap (Obj 1) = Some 5 \<and>
    getLongLongFromObject demo_heap (Some (Obj 0)) = Some (Some 12345)"
proof -
  have "string2ll ''12345'' = Some 12345"
    by (simp add: string2ll_spec demo_show LLONG_MIN_def LLONG_MAX_def)
  then show ?thesis
    using string_objects_encoding_independent[OF demo_heap_ok _ _ demo_vals, of "\<lambda>_ _. 0"]
      string_objects_encoding_independent[OF demo_heap_ok _ _ demo_vals(2,1), of "\<lambda>_ _. 0"] by simp
qed

end
