(* ===== verification/Db.thy ===== *)
theory Db
  imports Object
begin

text \<open>
  The keyspace of a database (\<open>db.c\<close>): lookups with lazy expiry, insertion, replacement, deletion and
  time to live. The two dictionaries of a database are maps here, as the theory of the hash table
  justifies; the values are references into the heap of objects. Configuration: synchronous freeing
  (\<open>lazyfree\<close> options off), no cluster, no client-side caching.
\<close>

section \<open>State\<close>

type_synonym key = "char list"

text \<open>
  \<open>now\<close> is the time a command sees; \<open>masterhost\<close> says that the server is a replica; \<open>ro_client\<close> that the
  current client is not the master and runs a read-only command; \<open>from_master\<close> that the client is the
  link to the master. Clients are numbered; \<open>watched_keys\<close> lists the clients that watch a key and
  \<open>dirty_cas\<close> is their \<open>CLIENT_DIRTY_CAS\<close> flag.
\<close>

record redis =
  heap :: heap
  db_dict :: "key \<Rightarrow> oref option"
  db_expires :: "key \<Rightarrow> int option"
  watched_keys :: "key \<Rightarrow> nat list"
  dirty_cas :: "nat \<Rightarrow> bool"
  now :: int
  masterhost :: bool
  loading :: bool
  ro_client :: bool
  from_master :: bool
  no_shared :: bool
  proto_max_bulk_len :: int
  dirty :: int
  stat_keyspace_hits :: nat
  stat_keyspace_misses :: nat
  stat_expiredkeys :: nat
  events :: "(string \<times> key) list"
  propagated :: "key list"

section \<open>Code\<close>

definition notifyKeyspaceEvent :: "string \<Rightarrow> key \<Rightarrow> redis \<Rightarrow> redis" where
  "notifyKeyspaceEvent event key st = st\<lparr>events := events st @ [(event, key)]\<rparr>"

definition touchWatchedKey :: "redis \<Rightarrow> key \<Rightarrow> redis" where
  "touchWatchedKey st key =
     st\<lparr>dirty_cas := (\<lambda>c. if c \<in> set (watched_keys st key) then True else dirty_cas st c)\<rparr>"

definition signalModifiedKey :: "redis \<Rightarrow> key \<Rightarrow> redis" where
  "signalModifiedKey st key = touchWatchedKey st key"

definition getExpire :: "redis \<Rightarrow> key \<Rightarrow> int option" where
  "getExpire st key =
     (case db_expires st key of
        None \<Rightarrow> Some (-1)
      | Some when \<Rightarrow> if db_dict st key = None then None else Some when)"

definition keyIsExpired :: "redis \<Rightarrow> key \<Rightarrow> bool option" where
  "keyIsExpired st key = do {
     when \<leftarrow> getExpire st key;
     Some (if when < 0 then False else if loading st then False else now st > when)
   }"

definition dbSyncDelete :: "redis \<Rightarrow> key \<Rightarrow> (redis \<times> bool) option" where
  "dbSyncDelete st key =
     (let st = st\<lparr>db_expires := (db_expires st)(key := None)\<rparr> in
      case db_dict st key of
        None \<Rightarrow> Some (st, False)
      | Some val \<Rightarrow> do {
          h \<leftarrow> decrRefCount (heap st) val;
          Some (st\<lparr>heap := h, db_dict := (db_dict st)(key := None)\<rparr>, True)
        })"

text \<open>The expired key is propagated as a deletion to the replicas and the append-only file.\<close>

definition propagateExpire :: "redis \<Rightarrow> key \<Rightarrow> redis" where
  "propagateExpire st key = st\<lparr>propagated := propagated st @ [key]\<rparr>"

definition expireIfNeeded :: "redis \<Rightarrow> key \<Rightarrow> (redis \<times> bool) option" where
  "expireIfNeeded st key = do {
     expired \<leftarrow> keyIsExpired st key;
     if \<not> expired then Some (st, False)
     else if masterhost st then Some (st, True)
     else do {
       let st = st\<lparr>stat_expiredkeys := stat_expiredkeys st + 1\<rparr>;
       let st = propagateExpire st key;
       let st = notifyKeyspaceEvent ''expired'' key st;
       (st, retval) \<leftarrow> dbSyncDelete st key;
       let st = (if retval then signalModifiedKey st key else st);
       Some (st, retval)
     }
   }"

definition lookupKey :: "redis \<Rightarrow> key \<Rightarrow> oref option" where
  "lookupKey st key = db_dict st key"

definition keymiss :: "redis \<Rightarrow> key \<Rightarrow> redis" where
  "keymiss st key = notifyKeyspaceEvent ''keymiss'' key (st\<lparr>stat_keyspace_misses := stat_keyspace_misses st + 1\<rparr>)"

definition lookupKeyRead :: "redis \<Rightarrow> key \<Rightarrow> (redis \<times> oref option) option" where
  "lookupKeyRead st key = do {
     (st, expired) \<leftarrow> expireIfNeeded st key;
     if expired \<and> (\<not> masterhost st \<or> ro_client st) then Some (keymiss st key, None)
     else case lookupKey st key of
       None \<Rightarrow> Some (keymiss st key, None)
     | Some val \<Rightarrow> Some (st\<lparr>stat_keyspace_hits := stat_keyspace_hits st + 1\<rparr>, Some val)
   }"

definition lookupKeyWrite :: "redis \<Rightarrow> key \<Rightarrow> (redis \<times> oref option) option" where
  "lookupKeyWrite st key = do {
     (st, expired) \<leftarrow> expireIfNeeded st key;
     Some (st, lookupKey st key)
   }"

definition dbAdd :: "redis \<Rightarrow> key \<Rightarrow> oref \<Rightarrow> redis option" where
  "dbAdd st key val =
     (if db_dict st key \<noteq> None then None
      else Some (st\<lparr>db_dict := (db_dict st)(key \<mapsto> val)\<rparr>))"

definition dbOverwrite :: "redis \<Rightarrow> key \<Rightarrow> oref \<Rightarrow> redis option" where
  "dbOverwrite st key val = do {
     old \<leftarrow> db_dict st key;
     let st = st\<lparr>db_dict := (db_dict st)(key \<mapsto> val)\<rparr>;
     h \<leftarrow> decrRefCount (heap st) old;
     Some (st\<lparr>heap := h\<rparr>)
   }"

definition removeExpire :: "redis \<Rightarrow> key \<Rightarrow> (redis \<times> bool) option" where
  "removeExpire st key =
     (if db_dict st key = None then None
      else Some (st\<lparr>db_expires := (db_expires st)(key := None)\<rparr>, db_expires st key \<noteq> None))"

definition setExpire :: "redis \<Rightarrow> key \<Rightarrow> int \<Rightarrow> redis option" where
  "setExpire st key when =
     (if db_dict st key = None then None
      else Some (st\<lparr>db_expires := (db_expires st)(key \<mapsto> when)\<rparr>))"

definition genericSetKey :: "redis \<Rightarrow> key \<Rightarrow> oref \<Rightarrow> bool \<Rightarrow> bool \<Rightarrow> redis option" where
  "genericSetKey st key val keepttl signal = do {
     (st, old) \<leftarrow> lookupKeyWrite st key;
     st \<leftarrow> (if old = None then dbAdd st key val else dbOverwrite st key val);
     h \<leftarrow> incrRefCount (heap st) val;
     let st = st\<lparr>heap := h\<rparr>;
     st \<leftarrow> (if \<not> keepttl then map_option fst (removeExpire st key) else Some st);
     Some (if signal then signalModifiedKey st key else st)
   }"

definition setKey :: "redis \<Rightarrow> key \<Rightarrow> oref \<Rightarrow> redis option" where
  "setKey st key val = genericSetKey st key val False True"

definition dbExists :: "redis \<Rightarrow> key \<Rightarrow> bool" where
  "dbExists st key \<longleftrightarrow> db_dict st key \<noteq> None"

definition dbUnshareStringValue :: "redis \<Rightarrow> key \<Rightarrow> oref \<Rightarrow> (redis \<times> oref) option" where
  "dbUnshareStringValue st key r = do {
     ob \<leftarrow> deref (heap st) r;
     if o_type ob \<noteq> OBJ_STRING then None
     else if o_refcount ob \<noteq> 1 \<or> o_encoding ob \<noteq> OBJ_ENCODING_RAW then do {
       (h, decoded) \<leftarrow> getDecodedObject (heap st) r;
       dob \<leftarrow> deref h decoded;
       s \<leftarrow> obj_sds dob;
       bytes \<leftarrow> sds_contents s;
       (h, new) \<leftarrow> createRawStringObject h (Bytes bytes) (sdslen s);
       h \<leftarrow> decrRefCount h decoded;
       st \<leftarrow> dbOverwrite (st\<lparr>heap := h\<rparr>) key new;
       Some (st, new)
     }
     else Some (st, r)
   }"

section \<open>The keyspace as a map\<close>

type_synonym keymap = "key \<Rightarrow> (value \<times> int option) option"

definition dict_refs :: "(key \<Rightarrow> oref option) \<Rightarrow> oref multiset" where
  "dict_refs d = image_mset (\<lambda>k. the (d k)) (mset_set (dom d))"

text \<open>Counts stay far below the special values of the field.\<close>

definition lim :: "oref multiset \<Rightarrow> bool" where
  "lim R \<longleftrightarrow> (\<forall>a. count R (Obj a) \<le> 2 ^ 30)"

text \<open>
  The invariant of a master: exact reference counts when \<open>X\<close> lists the references held outside of the
  database, and times to live only for existing keys.
\<close>

definition store_ok :: "heap \<Rightarrow> (key \<Rightarrow> oref option) \<Rightarrow> (key \<Rightarrow> int option) \<Rightarrow> oref multiset \<Rightarrow> bool" where
  "store_ok h d e X \<longleftrightarrow>
     finite (dom d) \<and> dom e \<subseteq> dom d \<and> (\<forall>k w. e k = Some w \<longrightarrow> 0 \<le> w) \<and>
     heap_ok h (dict_refs d + X) \<and> lim (dict_refs d + X)"

definition db_inv :: "redis \<Rightarrow> oref multiset \<Rightarrow> bool" where
  "db_inv st X \<longleftrightarrow>
     store_ok (heap st) (db_dict st) (db_expires st) X \<and> \<not> masterhost st \<and> \<not> loading st \<and> 0 \<le> now st"

definition view :: "heap \<Rightarrow> (key \<Rightarrow> oref option) \<Rightarrow> (key \<Rightarrow> int option) \<Rightarrow> keymap" where
  "view h d e k = map_option (\<lambda>r. (the (val_of h r), e k)) (d k)"

fun live :: "int \<Rightarrow> (value \<times> int option) option \<Rightarrow> (value \<times> int option) option" where
  "live t (Some (v, Some w)) = (if w < t then None else Some (v, Some w))"
| "live t e = e"

text \<open>The keys with their values and deadlines, without those that are logically expired.\<close>

definition raw_map :: "redis \<Rightarrow> keymap" where
  "raw_map st = view (heap st) (db_dict st) (db_expires st)"

definition keyspace :: "redis \<Rightarrow> keymap" where
  "keyspace st k = live (now st) (raw_map st k)"

text \<open>
  What every step of a command leaves alone: the environment, the registered watchers, and the values
  that the holders outside of the database refer to. A dirty flag is never cleared.
\<close>

definition frame :: "redis \<Rightarrow> redis \<Rightarrow> oref multiset \<Rightarrow> bool" where
  "frame st st' X \<longleftrightarrow>
     now st' = now st \<and> no_shared st' = no_shared st \<and> from_master st' = from_master st \<and>
     proto_max_bulk_len st' = proto_max_bulk_len st \<and>
     watched_keys st' = watched_keys st \<and> (\<forall>c. dirty_cas st c \<longrightarrow> dirty_cas st' c) \<and>
     keeps (heap st) (heap st') X"

definition marked :: "redis \<Rightarrow> key \<Rightarrow> bool" where
  "marked st k \<longleftrightarrow> (\<forall>c. c \<in> set (watched_keys st k) \<longrightarrow> dirty_cas st c)"

lemma frame_refl [simp]: "frame st st X"
  by (simp add: frame_def)

lemma frame_trans: "frame st st1 X \<Longrightarrow> frame st1 st2 X \<Longrightarrow> frame st st2 X"
  by (auto simp: frame_def keeps_def)

lemma frame_sub: "frame st st' Y \<Longrightarrow> set_mset X \<subseteq> set_mset Y \<Longrightarrow> frame st st' X"
  by (auto simp: frame_def keeps_def)

lemma frame_marked: "frame st st' X \<Longrightarrow> marked st k \<Longrightarrow> marked st' k"
  by (auto simp: frame_def marked_def)

lemma dict_refs_remove:
  assumes "finite (dom d)" "d k = Some r"
  shows "dict_refs d = add_mset r (dict_refs (d(k := None)))"
proof -
  have "dom d = insert k (dom d - {k})" using assms(2) by auto
  then have "mset_set (dom d) = add_mset k (mset_set (dom d - {k}))"
    using assms(1) by (metis Diff_iff finite_Diff mset_set.insert singletonI)
  moreover have "image_mset (\<lambda>x. the (d x)) (mset_set (dom d - {k})) =
      image_mset (\<lambda>x. the ((d(k := None)) x)) (mset_set (dom d - {k}))"
    using assms(1) by (intro image_mset_cong) auto
  ultimately show ?thesis using assms(2) by (simp add: dict_refs_def)
qed

lemma dict_refs_update:
  assumes "finite (dom d)"
  shows "dict_refs (d(k \<mapsto> r)) = add_mset r (dict_refs (d(k := None)))"
  using dict_refs_remove[of "d(k \<mapsto> r)" k r] assms by simp

lemma dict_refs_absent: "d k = None \<Longrightarrow> d(k := None) = d"
  by auto

lemma dict_refs_del: "finite (dom d) \<Longrightarrow> dict_refs (d(k := None)) \<subseteq># dict_refs d"
  using dict_refs_remove[of d k] by (cases "d k") (simp_all add: dict_refs_absent)

lemma dict_refs_in: "finite (dom d) \<Longrightarrow> d k = Some r \<Longrightarrow> r \<in># dict_refs d"
  using dict_refs_remove[of d k r] by simp

lemma view_keeps:
  assumes "finite (dom d)" "keeps h h' (dict_refs d)"
  shows "view h' d e = view h d e"
proof
  fix k
  show "view h' d e k = view h d e k"
    using assms dict_refs_in[of d k] by (cases "d k") (auto simp: view_def keeps_def val_of_core)
qed

lemma lim_sub: "lim (add_mset r R) \<Longrightarrow> lim R"
  unfolding lim_def
proof
  fix a
  assume "\<forall>a. count (add_mset r R) (Obj a) \<le> 2 ^ 30"
  then have "count (add_mset r R) (Obj a) \<le> 2 ^ 30" by blast
  then show "count R (Obj a) \<le> 2 ^ 30" by (cases "r = Obj a") simp_all
qed

lemma lim_small:
  "lim (add_mset r R) \<Longrightarrow> int (count R r) + 1 < OBJ_FIRST_SPECIAL_REFCOUNT \<or> (\<exists>n. r = Integer n)"
proof (cases r)
  case (Obj a)
  assume "lim (add_mset r R)"
  then have "count (add_mset r R) (Obj a) \<le> 2 ^ 30" by (simp only: lim_def)
  then show ?thesis using Obj by (simp add: refcount_limits)
qed simp

lemma lim_mono: "lim R \<Longrightarrow> (\<And>a. count R' (Obj a) \<le> count R (Obj a)) \<Longrightarrow> lim R'"
  unfolding lim_def using order_trans by blast

section \<open>Steps\<close>

lemma store_ok_drop:
  assumes ok: "store_ok h d e X" and r: "d k = Some r"
  shows "\<exists>h'. decrRefCount h r = Some h' \<and> store_ok h' (d(k := None)) (e(k := None)) X \<and> keeps h h' X \<and>
    view h' (d(k := None)) (e(k := None)) = (view h d e)(k := None)"
proof -
  let ?d = "d(k := None)"
  have fin: "finite (dom d)" using ok by (simp add: store_ok_def)
  have refs: "dict_refs d + X = add_mset r (dict_refs ?d + X)" using dict_refs_remove[OF fin r] by simp
  have hl: "heap_ok h (add_mset r (dict_refs ?d + X))" "lim (add_mset r (dict_refs ?d + X))"
    using ok by (simp_all add: store_ok_def flip: refs)
  obtain h' where h': "decrRefCount h r = Some h'" "heap_ok h' (dict_refs ?d + X)" "keeps h h' (dict_refs ?d + X)"
    using decrRefCount_spec[OF hl(1)] lim_small[OF hl(2)] by (auto simp: keeps_def)
  have "store_ok h' ?d (e(k := None)) X"
    using ok h'(2) lim_sub[OF hl(2)] by (auto simp: store_ok_def)
  moreover have "view h' ?d (e(k := None)) = view h ?d (e(k := None))"
    using fin h'(3) by (intro view_keeps) (auto simp: keeps_def)
  moreover have "view h ?d (e(k := None)) = (view h d e)(k := None)"
    by (auto simp: view_def)
  ultimately show ?thesis using h' by (auto simp: keeps_def)
qed

lemma dbSyncDelete_spec:
  assumes "db_inv st X"
  shows "\<exists>st'. dbSyncDelete st key = Some (st', db_dict st key \<noteq> None) \<and> db_inv st' X \<and>
    raw_map st' = (raw_map st)(key := None) \<and> frame st st' X \<and> db_dict st' = (db_dict st)(key := None)"
proof (cases "db_dict st key")
  case None
  then have e: "db_expires st key = None" using assms by (auto simp: db_inv_def store_ok_def dom_def)
  with None have "(db_expires st)(key := None) = db_expires st" "(db_dict st)(key := None) = db_dict st"
    "(raw_map st)(key := None) = raw_map st" by (auto simp: raw_map_def view_def)
  then show ?thesis using None assms by (simp add: dbSyncDelete_def)
next
  case (Some r)
  have "store_ok (heap st) (db_dict st) (db_expires st) X" using assms by (simp add: db_inv_def)
  from store_ok_drop[OF this Some] Some assms show ?thesis
    by (auto simp: dbSyncDelete_def db_inv_def raw_map_def frame_def)
qed

lemma keyIsExpired_spec:
  assumes "db_inv st X"
  shows "keyIsExpired st key = Some (raw_map st key \<noteq> None \<and> live (now st) (raw_map st key) = None)"
proof (cases "db_expires st key")
  case None
  then show ?thesis by (cases "db_dict st key") (simp_all add: keyIsExpired_def getExpire_def raw_map_def view_def)
next
  case (Some w)
  then have "0 \<le> w" "db_dict st key \<noteq> None" using assms by (auto simp: db_inv_def store_ok_def)
  with Some assms show ?thesis
    by (auto simp: keyIsExpired_def getExpire_def raw_map_def view_def db_inv_def split: if_splits)
qed

lemma env_fields [simp]:
  "raw_map (notifyKeyspaceEvent ev k st) = raw_map st" "raw_map (signalModifiedKey st k) = raw_map st"
  "raw_map (propagateExpire st k) = raw_map st" "raw_map (keymiss st k) = raw_map st"
  "raw_map (st\<lparr>stat_expiredkeys := n\<rparr>) = raw_map st" "raw_map (st\<lparr>stat_keyspace_hits := n\<rparr>) = raw_map st"
  "raw_map (st\<lparr>dirty := i\<rparr>) = raw_map st"
  "db_inv (notifyKeyspaceEvent ev k st) = db_inv st" "db_inv (signalModifiedKey st k) = db_inv st"
  "db_inv (propagateExpire st k) = db_inv st" "db_inv (keymiss st k) = db_inv st"
  "db_inv (st\<lparr>stat_expiredkeys := n\<rparr>) = db_inv st" "db_inv (st\<lparr>stat_keyspace_hits := n\<rparr>) = db_inv st"
  "db_inv (st\<lparr>dirty := i\<rparr>) = db_inv st"
  "db_dict (notifyKeyspaceEvent ev k st) = db_dict st" "db_dict (signalModifiedKey st k) = db_dict st"
  "db_dict (propagateExpire st k) = db_dict st" "db_dict (keymiss st k) = db_dict st"
  "now (notifyKeyspaceEvent ev k st) = now st" "now (signalModifiedKey st k) = now st"
  "now (propagateExpire st k) = now st" "now (keymiss st k) = now st"
  "heap (notifyKeyspaceEvent ev k st) = heap st" "heap (signalModifiedKey st k) = heap st"
  "heap (propagateExpire st k) = heap st" "heap (keymiss st k) = heap st"
  "frame st0 (notifyKeyspaceEvent ev k st) X = frame st0 st X"
  "frame (notifyKeyspaceEvent ev k st) st0 X = frame st st0 X"
  "frame st0 (propagateExpire st k) X = frame st0 st X" "frame (propagateExpire st k) st0 X = frame st st0 X"
  "frame st0 (keymiss st k) X = frame st0 st X"
  "frame st0 (st\<lparr>stat_keyspace_hits := n\<rparr>) X = frame st0 st X"
  "frame (st\<lparr>stat_expiredkeys := n\<rparr>) st0 X = frame st st0 X"
  "frame st0 (st\<lparr>dirty := i\<rparr>) X = frame st0 st X"
  by (simp_all add: notifyKeyspaceEvent_def signalModifiedKey_def touchWatchedKey_def propagateExpire_def
      keymiss_def raw_map_def db_inv_def frame_def fun_eq_iff)

lemma frame_signal [simp]: "frame st0 st X \<Longrightarrow> frame st0 (signalModifiedKey st k) X"
  by (auto simp: frame_def signalModifiedKey_def touchWatchedKey_def)

lemma marked_signal [simp]: "marked (signalModifiedKey st k) k"
  by (simp add: marked_def signalModifiedKey_def touchWatchedKey_def)

lemma marked_env [simp]:
  "marked (notifyKeyspaceEvent ev k st) x = marked st x" "marked (st\<lparr>dirty := i\<rparr>) x = marked st x"
  by (simp_all add: marked_def notifyKeyspaceEvent_def)

lemma keyspace_env [simp]:
  "keyspace (notifyKeyspaceEvent ev k st) = keyspace st" "keyspace (signalModifiedKey st k) = keyspace st"
  "keyspace (keymiss st k) = keyspace st" "keyspace (st\<lparr>stat_keyspace_hits := n\<rparr>) = keyspace st"
  "keyspace (st\<lparr>dirty := i\<rparr>) = keyspace st"
  by (simp_all add: keyspace_def fun_eq_iff)

lemma expireIfNeeded_spec:
  assumes inv: "db_inv st X"
  shows "\<exists>st' b. expireIfNeeded st key = Some (st', b) \<and> db_inv st' X \<and> frame st st' X \<and>
    keyspace st' = keyspace st \<and> raw_map st' key = keyspace st key \<and> (b \<longrightarrow> db_dict st' key = None) \<and>
    dict_refs (db_dict st') \<subseteq># dict_refs (db_dict st)"
proof (cases "raw_map st key \<noteq> None \<and> live (now st) (raw_map st key) = None")
  case False
  then have "live (now st) (raw_map st key) = raw_map st key"
    by (cases "(now st, raw_map st key)" rule: live.cases) (auto split: if_splits)
  then show ?thesis using False inv
    by (auto simp: expireIfNeeded_def keyIsExpired_spec[OF inv] keyspace_def)
next
  case True
  let ?st = "notifyKeyspaceEvent ''expired'' key (propagateExpire (st\<lparr>stat_expiredkeys := stat_expiredkeys st + 1\<rparr>) key)"
  have inv': "db_inv ?st X" using inv by simp
  have present: "db_dict ?st key \<noteq> None" using True by (auto simp: raw_map_def view_def)
  obtain st' where st': "dbSyncDelete ?st key = Some (st', True)" "db_inv st' X"
      "raw_map st' = (raw_map st)(key := None)" "frame st st' X" "db_dict st' = (db_dict st)(key := None)"
    using dbSyncDelete_spec[OF inv', of key] present by auto
  have "expireIfNeeded st key = Some (signalModifiedKey st' key, True)"
    using st'(1) True inv by (simp add: expireIfNeeded_def keyIsExpired_spec[OF inv] db_inv_def Let_def)
  moreover have "keyspace st' = keyspace st"
    using st'(3,4) True by (auto simp: keyspace_def frame_def fun_eq_iff)
  moreover obtain r where "db_dict st key = Some r" using present by auto
  then have "dict_refs (db_dict st') \<subseteq># dict_refs (db_dict st)"
    using st'(5) inv dict_refs_remove[of "db_dict st" key r] by (simp add: db_inv_def store_ok_def)
  ultimately show ?thesis using st' True by (auto simp: keyspace_def)
qed

lemma raw_lookup:
  assumes "db_inv st X" "db_dict st k = Some r"
  obtains v where "val_of (heap st) r = Some v" "raw_map st k = Some (v, db_expires st k)"
    "r \<in># dict_refs (db_dict st) + X"
proof -
  have "heap_ok (heap st) (dict_refs (db_dict st) + X)" "r \<in># dict_refs (db_dict st) + X"
    using assms dict_refs_in[of "db_dict st" k r] by (auto simp: db_inv_def store_ok_def)
  with deref_ok[of "heap st" "dict_refs (db_dict st) + X" r] that assms(2) show thesis
    by (auto simp: raw_map_def view_def)
qed

lemma raw_absent: "raw_map st k = None \<longleftrightarrow> db_dict st k = None"
  by (simp add: raw_map_def view_def)

lemma absent_expires: "db_inv st X \<Longrightarrow> db_dict st k = None \<Longrightarrow> db_expires st k = None"
  by (auto simp: db_inv_def store_ok_def)

lemma lookupWriteE:
  assumes inv: "db_inv st X"
  obtains st' where "lookupKeyWrite st key = Some (st', None)" "db_inv st' X" "frame st st' X"
      "keyspace st' = keyspace st" "keyspace st key = None" "db_dict st' key = None"
      "dict_refs (db_dict st') \<subseteq># dict_refs (db_dict st)"
  | st' r v where "lookupKeyWrite st key = Some (st', Some r)" "db_inv st' X" "frame st st' X"
      "keyspace st' = keyspace st" "keyspace st key = Some (v, db_expires st' key)"
      "db_dict st' key = Some r" "val_of (heap st') r = Some v" "r \<in># dict_refs (db_dict st') + X"
      "dict_refs (db_dict st') \<subseteq># dict_refs (db_dict st)"
proof -
  obtain st' b where s: "expireIfNeeded st key = Some (st', b)" "db_inv st' X" "frame st st' X"
      "keyspace st' = keyspace st" "raw_map st' key = keyspace st key" "b \<longrightarrow> db_dict st' key = None"
      "dict_refs (db_dict st') \<subseteq># dict_refs (db_dict st)"
    using expireIfNeeded_spec[OF inv, of key] by blast
  show thesis
  proof (cases "db_dict st' key")
    case None
    then show thesis using that(1)[of st'] s raw_absent[of st' key] by (simp add: lookupKeyWrite_def lookupKey_def)
  next
    case (Some r)
    obtain v where "val_of (heap st') r = Some v" "raw_map st' key = Some (v, db_expires st' key)"
        "r \<in># dict_refs (db_dict st') + X"
      using raw_lookup[OF s(2) Some] .
    then show thesis using that(2)[of st' r v] s Some by (simp add: lookupKeyWrite_def lookupKey_def)
  qed
qed

lemma lookupReadE:
  assumes inv: "db_inv st X"
  obtains st' where "lookupKeyRead st key = Some (st', None)" "db_inv st' X" "frame st st' X"
      "keyspace st' = keyspace st" "keyspace st key = None" "dict_refs (db_dict st') \<subseteq># dict_refs (db_dict st)"
  | st' r v where "lookupKeyRead st key = Some (st', Some r)" "db_inv st' X" "frame st st' X"
      "keyspace st' = keyspace st" "keyspace st key = Some (v, db_expires st' key)"
      "val_of (heap st') r = Some v" "r \<in># dict_refs (db_dict st') + X"
      "dict_refs (db_dict st') \<subseteq># dict_refs (db_dict st)"
proof -
  obtain st' b where s: "expireIfNeeded st key = Some (st', b)" "db_inv st' X" "frame st st' X"
      "keyspace st' = keyspace st" "raw_map st' key = keyspace st key" "b \<longrightarrow> db_dict st' key = None"
      "dict_refs (db_dict st') \<subseteq># dict_refs (db_dict st)"
    using expireIfNeeded_spec[OF inv, of key] by blast
  show thesis
  proof (cases "db_dict st' key")
    case None
    then show thesis
      using that(1)[of "keymiss st' key"] s raw_absent[of st' key] by (simp add: lookupKeyRead_def lookupKey_def)
  next
    case (Some r)
    obtain v where "val_of (heap st') r = Some v" "raw_map st' key = Some (v, db_expires st' key)"
        "r \<in># dict_refs (db_dict st') + X"
      using raw_lookup[OF s(2) Some] .
    then show thesis
      using that(2)[of "st'\<lparr>stat_keyspace_hits := stat_keyspace_hits st' + 1\<rparr>" r v] s Some
      by (simp add: lookupKeyRead_def lookupKey_def)
  qed
qed

lemma keyspace_upd:
  "raw_map st' = (raw_map st)(k := e) \<Longrightarrow> now st' = now st \<Longrightarrow> keyspace st' = (keyspace st)(k := live (now st) e)"
  by (auto simp: keyspace_def fun_eq_iff)

text \<open>A reference held outside moves into the database.\<close>

lemma view_put: "view h (d(k \<mapsto> r)) e = (view h (d(k := None)) e)(k \<mapsto> (the (val_of h r), e k))"
  by (auto simp: view_def)

lemma dbAdd_spec:
  assumes inv: "db_inv st (add_mset r X)" and none: "db_dict st key = None" and v: "val_of (heap st) r = Some v"
  shows "\<exists>st'. dbAdd st key r = Some st' \<and> db_inv st' X \<and> raw_map st' = (raw_map st)(key \<mapsto> (v, None)) \<and>
    frame st st' X \<and> db_dict st' = (db_dict st)(key \<mapsto> r) \<and> heap st' = heap st \<and> db_expires st' = db_expires st"
proof -
  have "dict_refs ((db_dict st)(key \<mapsto> r)) = add_mset r (dict_refs (db_dict st))"
    using dict_refs_update[of "db_dict st" key r] inv none by (simp add: dict_refs_absent db_inv_def store_ok_def)
  then have "db_inv (st\<lparr>db_dict := (db_dict st)(key \<mapsto> r)\<rparr>) X"
    using inv by (auto simp: db_inv_def store_ok_def)
  moreover have "view (heap st) ((db_dict st)(key \<mapsto> r)) (db_expires st) =
      (view (heap st) (db_dict st) (db_expires st))(key \<mapsto> (v, None))"
    using none v absent_expires[OF inv none] by (simp add: view_put dict_refs_absent)
  ultimately show ?thesis
    using none by (simp add: dbAdd_def raw_map_def frame_def)
qed

lemma dbOverwrite_spec:
  assumes inv: "db_inv st (add_mset r X)" and old: "db_dict st key = Some old" and v: "val_of (heap st) r = Some v"
  shows "\<exists>st'. dbOverwrite st key r = Some st' \<and> db_inv st' X \<and>
    raw_map st' = (raw_map st)(key \<mapsto> (v, db_expires st key)) \<and> frame st st' X \<and>
    db_dict st' = (db_dict st)(key \<mapsto> r) \<and> core_of (heap st') r = core_of (heap st) r \<and> db_expires st' = db_expires st"
proof -
  let ?d = "db_dict st" and ?e = "db_expires st" and ?h = "heap st"
  let ?dk = "?d(key := None)"
  have ok: "store_ok ?h ?d ?e (add_mset r X)" using inv by (simp add: db_inv_def)
  from store_ok_drop[OF this old] obtain h' where h': "decrRefCount ?h old = Some h'"
    "store_ok h' ?dk (?e(key := None)) (add_mset r X)" "keeps ?h h' (add_mset r X)"
    "view h' ?dk (?e(key := None)) = (view ?h ?d ?e)(key := None)" by blast
  have fin: "finite (dom ?d)" using ok by (simp add: store_ok_def)
  have val: "val_of h' r = Some v" "core_of h' r = core_of ?h r"
    using h'(3) v by (simp_all add: keeps_def val_of_core)
  have refs: "dict_refs (?d(key \<mapsto> r)) = add_mset r (dict_refs ?dk)" using fin by (rule dict_refs_update)
  have "store_ok h' (?d(key \<mapsto> r)) ?e X"
    using ok h'(2) refs by (auto simp: store_ok_def)
  moreover have "view h' (?d(key \<mapsto> r)) ?e = (view ?h ?d ?e)(key \<mapsto> (v, ?e key))"
  proof
    fix k
    show "view h' (?d(key \<mapsto> r)) ?e k = ((view ?h ?d ?e)(key \<mapsto> (v, ?e key))) k"
      using fun_cong[OF h'(4), of k] val by (cases "k = key") (simp_all add: view_def)
  qed
  ultimately show ?thesis
    using h'(1,3) old inv val by (auto simp: dbOverwrite_def raw_map_def frame_def db_inv_def keeps_def)
qed

lemma write_value_spec:
  assumes inv: "db_inv st X" and key: "db_dict st key = Some r"
    and ob: "deref (heap st) r = Some ob" "o_refcount ob = 1" and ob': "str_obj ob' c"
  shows "\<exists>h'. set_obj (heap st) r ob' = Some h' \<and> db_inv (st\<lparr>heap := h'\<rparr>) X \<and>
    raw_map (st\<lparr>heap := h'\<rparr>) = (raw_map st)(key \<mapsto> (VStr c, db_expires st key)) \<and> frame st (st\<lparr>heap := h'\<rparr>) X \<and>
    deref h' r = Some ob'"
proof -
  let ?d = "db_dict st" and ?e = "db_expires st" and ?h = "heap st"
  let ?dk = "?d(key := None)"
  have fin: "finite (dom ?d)" using inv by (simp add: db_inv_def store_ok_def)
  have refs: "dict_refs ?d + X = add_mset r (dict_refs ?dk + X)" using dict_refs_remove[OF fin key] by simp
  then have "heap_ok ?h (add_mset r (dict_refs ?dk + X))" using inv by (simp add: db_inv_def store_ok_def)
  from heap_ok_set[OF this ob] ob' obtain h' where h': "set_obj ?h r ob' = Some h'"
    "heap_ok h' (dict_refs ?d + X)" "deref h' r = Some ob'" "\<forall>x\<in>#dict_refs ?dk + X. deref h' x = deref ?h x"
    by (auto simp: str_obj_def refs)
  have ks: "keeps ?h h' (dict_refs ?dk + X)" using h'(4) by (simp add: keeps_def core_of_def)
  have "store_ok h' ?d ?e X" using inv h'(2) by (simp add: db_inv_def store_ok_def)
  moreover have d: "?d = ?dk(key \<mapsto> r)" using key by auto
  have "view h' ?dk ?e = view ?h ?dk ?e"
    using ks fin by (intro view_keeps) (auto simp: keeps_def)
  then have "view h' ?d ?e = (view ?h ?d ?e)(key \<mapsto> (VStr c, ?e key))"
    using h'(3) ob' by (subst (1 2) d) (auto simp: view_put val_of_def str_obj_def simp del: obj_val.simps fun_upd_upd)
  ultimately show ?thesis
    using h' ks inv by (auto simp: db_inv_def raw_map_def frame_def keeps_def)
qed

lemma live_ttl: "keyspace st k = Some (v, w) \<Longrightarrow> live (now st) (Some (v', w)) = Some (v', w)"
  unfolding keyspace_def
  by (cases "(now st, raw_map st k)" rule: live.cases) (auto split: if_splits)

lemma share_value:
  assumes inv: "db_inv st X" and key: "db_dict st key = Some r" and v: "val_of (heap st) r = Some v"
    and few: "lim (dict_refs (db_dict st) + add_mset r X)"
  shows "\<exists>h. incrRefCount (heap st) r = Some h \<and> db_inv (st\<lparr>heap := h\<rparr>) (add_mset r X) \<and>
    raw_map (st\<lparr>heap := h\<rparr>) = raw_map st \<and> frame st (st\<lparr>heap := h\<rparr>) (add_mset r X)"
proof -
  let ?R = "dict_refs (db_dict st) + X"
  have h: "heap_ok (heap st) ?R" "r \<in># ?R" and fin: "finite (dom (db_dict st))"
    using inv key dict_refs_in[of "db_dict st" key r] by (auto simp: db_inv_def store_ok_def)
  have "int (count ?R r) < OBJ_FIRST_SPECIAL_REFCOUNT" if "r = Obj a" for a
    using lim_small[of r ?R] few that by auto
  then obtain h' where h': "incrRefCount (heap st) r = Some h'" "heap_ok h' (add_mset r ?R)"
      "\<forall>x. core_of h' x = core_of (heap st) x"
    using incrRefCount_spec[OF h] by blast
  have "view h' (db_dict st) (db_expires st) = view (heap st) (db_dict st) (db_expires st)"
    using h'(3) fin by (intro view_keeps) (auto simp: keeps_def)
  with h' inv few show ?thesis
    by (auto simp: db_inv_def store_ok_def raw_map_def frame_def keeps_def)
qed

lemma removeExpire_spec:
  assumes "db_inv st X" "db_dict st key = Some r" "raw_map st key = Some (v, w)"
  shows "\<exists>st' b. removeExpire st key = Some (st', b) \<and> db_inv st' X \<and> frame st st' X \<and>
    raw_map st' = (raw_map st)(key \<mapsto> (v, None))"
proof -
  have "db_inv (st\<lparr>db_expires := (db_expires st)(key := None)\<rparr>) X"
    using assms(1) by (auto simp: db_inv_def store_ok_def)
  with assms(2,3) show ?thesis
    by (auto simp: removeExpire_def raw_map_def view_def frame_def fun_eq_iff)
qed

lemma setExpire_spec:
  assumes "db_inv st X" "raw_map st key = Some (v, w)" "0 \<le> when"
  shows "\<exists>st'. setExpire st key when = Some st' \<and> db_inv st' X \<and> frame st st' X \<and>
    raw_map st' = (raw_map st)(key \<mapsto> (v, Some when))"
proof -
  obtain r where r: "db_dict st key = Some r" using assms(2) by (auto simp: raw_map_def view_def)
  have "db_inv (st\<lparr>db_expires := (db_expires st)(key \<mapsto> when)\<rparr>) X"
    using assms(1,3) r by (auto simp: db_inv_def store_ok_def)
  with assms(2) r show ?thesis
    by (auto simp: setExpire_def raw_map_def view_def frame_def fun_eq_iff)
qed

lemma frame_add: "frame st st' X \<Longrightarrow> core_of (heap st') r = core_of (heap st) r \<Longrightarrow> frame st st' (add_mset r X)"
  by (simp add: frame_def keeps_def)

lemma frame_now: "frame st st' X \<Longrightarrow> now st' = now st"
  by (simp add: frame_def)

text \<open>One more reference to \<open>r\<close> is still far from the special counts.\<close>

definition roomy :: "redis \<Rightarrow> oref multiset \<Rightarrow> oref \<Rightarrow> bool" where
  "roomy st X r \<longleftrightarrow> lim (add_mset r (dict_refs (db_dict st) + X))"

lemma lim_subset: "lim R \<Longrightarrow> R' \<subseteq># R \<Longrightarrow> lim R'"
  by (rule lim_mono) (auto intro: mset_subset_eq_count)

lemma put_value_spec:
  assumes inv: "db_inv st (add_mset r X)" and v: "val_of (heap st) r = Some v"
  shows "\<exists>st2 w. (do { (st, old) \<leftarrow> lookupKeyWrite st key;
        if old = None then dbAdd st key r else dbOverwrite st key r }) = Some st2 \<and> db_inv st2 X \<and>
      frame st st2 X \<and> raw_map st2 key = Some (v, w) \<and> w = Option.bind (keyspace st key) snd \<and>
      keyspace st2 = (keyspace st)(key \<mapsto> (v, w)) \<and> db_dict st2 key = Some r \<and> core_of (heap st2) r = core_of (heap st) r \<and>
      dict_refs (db_dict st2) \<subseteq># add_mset r (dict_refs (db_dict st))"
proof (rule lookupWriteE[OF inv, of key])
  fix st1
  assume s: "lookupKeyWrite st key = Some (st1, None)" "db_inv st1 (add_mset r X)" "frame st st1 (add_mset r X)"
    "keyspace st1 = keyspace st" "keyspace st key = None" "db_dict st1 key = None"
    "dict_refs (db_dict st1) \<subseteq># dict_refs (db_dict st)"
  have v1: "val_of (heap st1) r = Some v" "core_of (heap st1) r = core_of (heap st) r"
    using s(3) v by (simp_all add: frame_def keeps_def val_of_core)
  obtain st2 where st2: "dbAdd st1 key r = Some st2" "db_inv st2 X" "raw_map st2 = (raw_map st1)(key \<mapsto> (v, None))"
      "frame st1 st2 X" "db_dict st2 = (db_dict st1)(key \<mapsto> r)" "heap st2 = heap st1"
    using dbAdd_spec[OF s(2,6) v1(1)] by blast
  have "finite (dom (db_dict st1))" using s(2) by (simp add: db_inv_def store_ok_def)
  then have "dict_refs (db_dict st2) \<subseteq># add_mset r (dict_refs (db_dict st))"
    using s(6,7) st2(5) dict_refs_update[of "db_dict st1" key r] by (simp add: dict_refs_absent)
  moreover have "frame st st2 X" using frame_sub[OF s(3), of X] st2(4) frame_trans by auto
  moreover have "keyspace st2 = (keyspace st)(key \<mapsto> (v, None))"
    using keyspace_upd[OF st2(3) frame_now[OF st2(4)]] s(4) by simp
  ultimately show ?thesis using s st2 v1 by auto
next
  fix st1 old v0
  assume s: "lookupKeyWrite st key = Some (st1, Some old)" "db_inv st1 (add_mset r X)" "frame st st1 (add_mset r X)"
    "keyspace st1 = keyspace st" "keyspace st key = Some (v0, db_expires st1 key)" "db_dict st1 key = Some old"
    "dict_refs (db_dict st1) \<subseteq># dict_refs (db_dict st)"
  have v1: "val_of (heap st1) r = Some v" "core_of (heap st1) r = core_of (heap st) r"
    using s(3) v by (simp_all add: frame_def keeps_def val_of_core)
  obtain st2 where st2: "dbOverwrite st1 key r = Some st2" "db_inv st2 X"
      "raw_map st2 = (raw_map st1)(key \<mapsto> (v, db_expires st1 key))"
      "frame st1 st2 X" "db_dict st2 = (db_dict st1)(key \<mapsto> r)" "core_of (heap st2) r = core_of (heap st1) r"
    using dbOverwrite_spec[OF s(2,6) v1(1)] by blast
  have fin: "finite (dom (db_dict st1))" using s(2) by (simp add: db_inv_def store_ok_def)
  have "dict_refs ((db_dict st1)(key := None)) \<subseteq># dict_refs (db_dict st)"
    using dict_refs_del[OF fin] s(7) by (rule subset_mset.order_trans)
  then have "dict_refs (db_dict st2) \<subseteq># add_mset r (dict_refs (db_dict st))"
    using st2(5) dict_refs_update[OF fin, of key r] by simp
  moreover have "frame st st2 X" using frame_sub[OF s(3), of X] st2(4) frame_trans by auto
  moreover have "keyspace st2 = (keyspace st)(key \<mapsto> (v, db_expires st1 key))"
    using keyspace_upd[OF st2(3) frame_now[OF st2(4)]] s(4) live_ttl[of st1 key v0 "db_expires st1 key" v] s(5)
    by simp
  ultimately show ?thesis using s st2 v1 by auto
qed

lemma genericSetKey_spec:
  assumes inv: "db_inv st (add_mset r X)" and v: "val_of (heap st) r = Some v"
    and roomy: "roomy st (add_mset r X) r"
  shows "\<exists>st'. genericSetKey st key r keepttl signal = Some st' \<and> db_inv st' (add_mset r X) \<and>
    keyspace st' = (keyspace st)(key \<mapsto> (v, if keepttl then Option.bind (keyspace st key) snd else None)) \<and>
    frame st st' (add_mset r X) \<and> (signal \<longrightarrow> marked st' key) \<and> db_dict st' key = Some r \<and>
    dict_refs (db_dict st') \<subseteq># add_mset r (dict_refs (db_dict st))"
proof -
  obtain st2 w where st2: "(do { (st, old) \<leftarrow> lookupKeyWrite st key;
        if old = None then dbAdd st key r else dbOverwrite st key r }) = Some st2" "db_inv st2 X"
      "frame st st2 X" "raw_map st2 key = Some (v, w)" "w = Option.bind (keyspace st key) snd"
      "keyspace st2 = (keyspace st)(key \<mapsto> (v, w))" "db_dict st2 key = Some r" "core_of (heap st2) r = core_of (heap st) r"
      "dict_refs (db_dict st2) \<subseteq># add_mset r (dict_refs (db_dict st))"
    using put_value_spec[OF inv v, of key] by blast
  have sub: "dict_refs (db_dict st2) + add_mset r X \<subseteq># add_mset r (dict_refs (db_dict st)) + add_mset r X"
    by (rule subset_mset.add_right_mono) (rule st2(9))
  have "lim (add_mset r (dict_refs (db_dict st)) + add_mset r X)"
    using roomy by (simp only: roomy_def union_mset_add_mset_left)
  then have "lim (dict_refs (db_dict st2) + add_mset r X)" using sub by (rule lim_subset)
  moreover have "val_of (heap st2) r = Some v" using st2(8) v by (simp add: val_of_core)
  ultimately have "\<exists>h. incrRefCount (heap st2) r = Some h \<and> db_inv (st2\<lparr>heap := h\<rparr>) (add_mset r X) \<and>
      raw_map (st2\<lparr>heap := h\<rparr>) = raw_map st2 \<and> frame st2 (st2\<lparr>heap := h\<rparr>) (add_mset r X)"
    using share_value[OF st2(2,7)] by blast
  then obtain h where h: "incrRefCount (heap st2) r = Some h"
    "db_inv (st2\<lparr>heap := h\<rparr>) (add_mset r X)" "raw_map (st2\<lparr>heap := h\<rparr>) = raw_map st2"
    "frame st2 (st2\<lparr>heap := h\<rparr>) (add_mset r X)" by blast
  let ?st = "st2\<lparr>heap := h\<rparr>"
  have f: "frame st ?st (add_mset r X)"
    using frame_trans[OF frame_add[OF st2(3) st2(8)] h(4)] .
  have ks: "keyspace ?st = keyspace st2" using h(3) by (simp add: keyspace_def fun_eq_iff)
  have step: "genericSetKey st key r keepttl signal =
      do { st \<leftarrow> (if \<not> keepttl then map_option fst (removeExpire ?st key) else Some ?st);
           Some (if signal then signalModifiedKey st key else st) }"
    using st2(1) h(1) by (cases "lookupKeyWrite st key") (auto simp: genericSetKey_def Let_def)
  show ?thesis
  proof (cases keepttl)
    case True
    then show ?thesis using step st2 h f ks by auto
  next
    case False
    have r: "db_dict ?st key = Some r" "raw_map ?st key = Some (v, w)" using st2 h(3) by simp_all
    from removeExpire_spec[OF h(2) this] obtain st3 b where st3: "removeExpire ?st key = Some (st3, b)"
      "db_inv st3 (add_mset r X)" "frame ?st st3 (add_mset r X)" "raw_map st3 = (raw_map ?st)(key \<mapsto> (v, None))" by blast
    have "keyspace st3 = (keyspace st)(key \<mapsto> (v, None))"
      using keyspace_upd[OF st3(4) frame_now[OF st3(3)]] ks st2(6) by simp
    moreover have "db_dict st3 = db_dict st2" using st3(1) by (auto simp: removeExpire_def split: if_splits)
    ultimately show ?thesis using False step st3 st2 frame_trans[OF f st3(3)] by auto
  qed
qed

lemma decrRefCount_other: "decrRefCount h r = Some h' \<Longrightarrow> x \<noteq> r \<Longrightarrow> deref h' x = deref h x"
proof (cases r)
  case (Obj a)
  assume "decrRefCount h r = Some h'" "x \<noteq> r"
  then show ?thesis
    using Obj deref_len[of h a]
    by (cases x) (auto simp: decrRefCount_def bind_eq_Some_conv deref_update split: if_splits)
qed (auto simp: decrRefCount_def bind_eq_Some_conv split: if_splits)

lemma lim_count: "lim R \<Longrightarrow> int (count R (Obj a)) + 3 < OBJ_FIRST_SPECIAL_REFCOUNT"
proof -
  assume "lim R"
  then have "count R (Obj a) \<le> 2 ^ 30" by (simp only: lim_def)
  then show ?thesis by (simp add: refcount_limits)
qed

lemma lim_fresh: "lim R \<Longrightarrow> r \<notin># R \<Longrightarrow> lim (add_mset r R)"
  by (auto simp: lim_def not_in_iff)

text \<open>A private raw copy of a string, with the counts exact again at the end.\<close>

lemma private_copy:
  assumes ok: "heap_ok h R" and l: "lim R" and r: "r \<in># R" "val_of h r = Some (VStr c)"
  shows "\<exists>h1 dec dob s h2 new h3 ob.
    getDecodedObject h r = Some (h1, dec) \<and> deref h1 dec = Some dob \<and> o_ptr dob = PSds s \<and> sds_rep s c \<and>
    createRawStringObject h1 (Bytes c) (length c) = Some (h2, new) \<and> decrRefCount h2 dec = Some h3 \<and>
    heap_ok h3 (add_mset new R) \<and> keeps h h3 R \<and> new \<notin># R \<and> deref h3 new = Some ob \<and>
    str_obj ob c \<and> o_encoding ob = OBJ_ENCODING_RAW"
proof -
  have small: "int (count R r) < OBJ_FIRST_SPECIAL_REFCOUNT" if "r = Obj a" for a
    using lim_count[OF l, of a] that by simp
  obtain h1 dec dob s where d: "getDecodedObject h r = Some (h1, dec)" "gives h R h1 dec c"
      "deref h1 dec = Some dob" "o_ptr dob = PSds s" "sds_rep s c"
    using getDecodedObject_spec[OF ok r] small by blast
  have ok1: "heap_ok h1 (add_mset dec R)" and k1: "keeps h h1 R" using d(2) by (simp_all add: gives_def)
  obtain ob0 where "deref h1 dec = Some ob0" "obj_ok ob0" "o_ptr ob0 = PSds s"
    using deref_ok[OF ok1, of dec] d(3,4) by auto
  then have len: "length c \<le> MAX_STR" using d(5) sds_rep_unique by (fastforce simp: obj_ok_def)
  obtain ob where ob: "createRawStringObject h1 (Bytes c) (length c) = Some (h1 @ [Some ob], Obj (length h1))"
      "str_obj ob c" "o_encoding ob = OBJ_ENCODING_RAW"
    using createRawStringObject_spec[of "length c" c h1] len by auto
  let ?h = "h1 @ [Some ob]" and ?new = "Obj (length h1)"
  have g: "heap_ok ?h (add_mset ?new (add_mset dec R))" "?new \<notin># add_mset dec R" "keeps h1 ?h (add_mset dec R)"
    using gives_alloc[OF ok1 ob(2)] by (simp_all add: gives_def)
  have "heap_ok ?h (add_mset dec (add_mset ?new R))" using g(1) by (simp add: add_mset_commute)
  moreover have "int (count (add_mset ?new R) dec) + 1 < OBJ_FIRST_SPECIAL_REFCOUNT" if "dec = Obj a" for a
    using lim_count[OF l, of a] g(2) that by auto
  ultimately obtain h3 where h3: "decrRefCount ?h dec = Some h3" "heap_ok h3 (add_mset ?new R)"
      "\<forall>x\<in>#add_mset ?new R. core_of h3 x = core_of ?h x"
    using decrRefCount_spec by blast
  have "deref h3 ?new = Some ob"
    using decrRefCount_other[OF h3(1), of ?new] g(2) by (simp add: deref_alloc)
  moreover have "keeps h h3 R" using k1 g(3) h3(3) by (simp add: keeps_def)
  ultimately show ?thesis using d ob h3 g(2) by auto
qed

lemma dbUnshareStringValue_spec:
  assumes inv: "db_inv st X" and key: "db_dict st key = Some r" and v: "val_of (heap st) r = Some (VStr c)"
  shows "\<exists>st' r' ob s. dbUnshareStringValue st key r = Some (st', r') \<and> db_inv st' X \<and> raw_map st' = raw_map st \<and>
    frame st st' X \<and> db_dict st' key = Some r' \<and> db_expires st' = db_expires st \<and>
    deref (heap st') r' = Some ob \<and> str_obj ob c \<and> o_encoding ob = OBJ_ENCODING_RAW \<and> o_ptr ob = PSds s \<and> sds_rep s c"
proof -
  let ?R = "dict_refs (db_dict st) + X"
  have ok: "heap_ok (heap st) ?R" "lim ?R" and r: "r \<in># ?R"
    using inv key dict_refs_in[of "db_dict st" key r] by (auto simp: db_inv_def store_ok_def)
  obtain ob where ob: "deref (heap st) r = Some ob" "obj_ok ob" "obj_val ob = VStr c" "o_type ob = OBJ_STRING"
    using heap_strE[OF ok(1) r v] by auto
  have rawk: "raw_map st key = Some (VStr c, db_expires st key)"
    using key v by (simp add: raw_map_def view_def)
  show ?thesis
  proof (cases "o_refcount ob \<noteq> 1 \<or> o_encoding ob \<noteq> OBJ_ENCODING_RAW")
    case False
    obtain s where "o_ptr ob = PSds s" "sds_rep s c"
      using ob(2,3) False by (cases rule: str_valE) auto
    with False ob key inv show ?thesis by (auto simp: dbUnshareStringValue_def str_obj_def)
  next
    case True
    obtain h1 dec dob s h2 new h3 nob where n: "getDecodedObject (heap st) r = Some (h1, dec)" "deref h1 dec = Some dob"
        "o_ptr dob = PSds s" "sds_rep s c" "createRawStringObject h1 (Bytes c) (length c) = Some (h2, new)"
        "decrRefCount h2 dec = Some h3" "heap_ok h3 (add_mset new ?R)" "keeps (heap st) h3 ?R" "new \<notin># ?R"
        "deref h3 new = Some nob" "str_obj nob c" "o_encoding nob = OBJ_ENCODING_RAW"
      using private_copy[OF ok r v] by blast
    let ?st = "st\<lparr>heap := h3\<rparr>"
    have fin: "finite (dom (db_dict st))" using inv by (simp add: db_inv_def store_ok_def)
    have inv': "db_inv ?st (add_mset new X)"
      using inv n(7) lim_fresh[OF ok(2) n(9)] by (simp add: db_inv_def store_ok_def)
    have vn: "val_of (heap ?st) new = Some (VStr c)" using n(10,11) by (simp add: val_of_def str_obj_def)
    have rst: "raw_map ?st = raw_map st"
      using view_keeps[OF fin, of "heap st" h3] n(8) by (simp add: raw_map_def keeps_def)
    have key': "db_dict ?st key = Some r" using key by simp
    from dbOverwrite_spec[OF inv' key' vn] obtain st' where st': "dbOverwrite ?st key new = Some st'" "db_inv st' X"
      "raw_map st' = (raw_map ?st)(key \<mapsto> (VStr c, db_expires ?st key))" "frame ?st st' X"
      "db_dict st' = (db_dict ?st)(key \<mapsto> new)" "db_expires st' = db_expires ?st" by blast
    have "new \<noteq> r" using n(9) r by auto
    then have "deref (heap st') new = Some nob"
      using st'(1) key n(10) by (auto simp: dbOverwrite_def bind_eq_Some_conv Let_def dest: decrRefCount_other)
    moreover have "raw_map st' = raw_map st" using st'(3) rst rawk by (auto simp: fun_eq_iff)
    moreover have "frame st st' X"
      using st'(4) n(8) by (auto simp: frame_def keeps_def)
    moreover obtain s' where "o_ptr nob = PSds s'" "sds_rep s' c"
    proof -
      have "obj_ok nob" "obj_val nob = VStr c" using n(11) by (simp_all add: str_obj_def)
      then show thesis using that n(12) by (cases rule: str_valE) auto
    qed
    moreover have "dbUnshareStringValue st key r = Some (st', new)"
      using True ob n st'(1) by (simp add: dbUnshareStringValue_def sdslen_rep)
    ultimately show ?thesis using st' n(11,12) by auto
  qed
qed

end
