(* ===== verification/TString.thy ===== *)
theory TString
  imports Db
begin

text \<open>
  The string commands (\<open>t_string.c\<close>) on the keyspace: every command as it is written, from the parsing
  of its arguments to its replies, over reference counted objects. \<open>INCRBYFLOAT\<close> and \<open>STRALGO\<close> are not
  part of this theory. The clock stands still while a command runs, so \<open>mstime()\<close> is the time of the
  state. A signed overflow, which is undefined in C, is a failure of the model.
\<close>

section \<open>Replies and arguments\<close>

datatype reply =
    RNull
  | RNullArray
  | RStatus string
  | RInt int
  | RBulk "char list"
  | RError string
  | RArray "reply list"

definition shared_ok :: reply where "shared_ok = RStatus ''OK''"
definition shared_czero :: reply where "shared_czero = RInt 0"
definition shared_cone :: reply where "shared_cone = RInt 1"
definition shared_emptybulk :: reply where "shared_emptybulk = RBulk []"
definition shared_syntaxerr :: reply where "shared_syntaxerr = RError ''ERR syntax error''"

definition shared_wrongtypeerr :: reply where
  "shared_wrongtypeerr = RError ''WRONGTYPE Operation against a key holding the wrong kind of value''"

text \<open>The bytes of an argument, which is always an sds string when a command starts.\<close>

definition arg_bytes :: "heap \<Rightarrow> oref \<Rightarrow> char list option" where
  "arg_bytes h r = do { ob \<leftarrow> deref h r; s \<leftarrow> obj_sds ob; sds_contents s }"

text \<open>The payload of a bulk reply for an object of either encoding.\<close>

definition addReplyBulk :: "heap \<Rightarrow> oref \<Rightarrow> reply option" where
  "addReplyBulk h r = do { ob \<leftarrow> deref h r; (b, n) \<leftarrow> obj_str ob; b \<leftarrow> read_at b 0 n; Some (RBulk b) }"

definition checkType :: "heap \<Rightarrow> oref \<Rightarrow> obj_type \<Rightarrow> reply option option" where
  "checkType h r type = do {
     ob \<leftarrow> deref h r;
     Some (if o_type ob \<noteq> type then Some shared_wrongtypeerr else None)
   }"

text \<open>The error reply, or the value; \<open>long\<close> and \<open>long long\<close> have the same range.\<close>

definition getLongLongFromObjectOrReply :: "heap \<Rightarrow> oref option \<Rightarrow> (reply + int) option" where
  "getLongLongFromObjectOrReply h r = do {
     v \<leftarrow> getLongLongFromObject h r;
     Some (case v of
       None \<Rightarrow> Inl (RError ''ERR value is not an integer or out of range'')
     | Some v \<Rightarrow> Inr v)
   }"

definition getLongFromObjectOrReply :: "heap \<Rightarrow> oref option \<Rightarrow> (reply + int) option" where
  "getLongFromObjectOrReply h r = do {
     v \<leftarrow> getLongLongFromObjectOrReply h r;
     Some (case v of
       Inl e \<Rightarrow> Inl e
     | Inr v \<Rightarrow> if v < LLONG_MIN \<or> v > LLONG_MAX then Inl (RError ''ERR value is out of range'') else Inr v)
   }"

text \<open>The length is a \<open>long long\<close>; sums of a \<open>long\<close> and a \<open>size_t\<close> are converted to it modulo \<open>2 ^ 64\<close>.\<close>

definition to_ll :: "int \<Rightarrow> int" where
  "to_ll x = sint (word_of_int x :: u64)"

definition to_size :: "int \<Rightarrow> nat" where
  "to_size x = unat (word_of_int x :: u64)"

definition checkStringLength :: "redis \<Rightarrow> int \<Rightarrow> reply option" where
  "checkStringLength st sz =
     (if \<not> from_master st \<and> sz > proto_max_bulk_len st
      then Some (RError ''ERR string exceeds maximum allowed size (proto-max-bulk-len)'') else None)"

text \<open>What a command returns: the state, the argument vector, whose entries may have been re-encoded,
and the reply.\<close>

type_synonym result = "redis \<times> oref list \<times> reply"

section \<open>SET and its variants\<close>

record set_flags =
  OBJ_SET_NX :: bool
  OBJ_SET_XX :: bool
  OBJ_SET_EX :: bool
  OBJ_SET_PX :: bool
  OBJ_SET_KEEPTTL :: bool

definition OBJ_SET_NO_FLAGS :: set_flags where
  "OBJ_SET_NO_FLAGS = \<lparr>OBJ_SET_NX = False, OBJ_SET_XX = False, OBJ_SET_EX = False, OBJ_SET_PX = False,
     OBJ_SET_KEEPTTL = False\<rparr>"

datatype time_unit = UNIT_SECONDS | UNIT_MILLISECONDS

text \<open>The expire argument as milliseconds: an error reply, or the value.\<close>

definition expire_ms :: "redis \<Rightarrow> oref option \<Rightarrow> time_unit \<Rightarrow> string \<Rightarrow> (reply + int) option" where
  "expire_ms st expire unit cmdname =
     (case expire of
        None \<Rightarrow> Some (Inr 0)
      | Some ex \<Rightarrow> do {
          v \<leftarrow> getLongLongFromObjectOrReply (heap st) (Some ex);
          case v of
            Inl e \<Rightarrow> Some (Inl e)
          | Inr ms \<Rightarrow>
              if ms \<le> 0 then Some (Inl (RError (''ERR invalid expire time in '' @ cmdname)))
              else if unit = UNIT_SECONDS then (if ms * 1000 > LLONG_MAX then None else Some (Inr (ms * 1000)))
              else Some (Inr ms)
        })"

text \<open>The two lookups of the NX and XX conditions, with the outcome that the command is aborted.\<close>

definition set_aborts :: "redis \<Rightarrow> set_flags \<Rightarrow> key \<Rightarrow> (redis \<times> bool) option" where
  "set_aborts st flags key = do {
     (st, found) \<leftarrow> (if OBJ_SET_NX flags then do { (st, ob) \<leftarrow> lookupKeyWrite st key; Some (st, ob \<noteq> None) }
                    else Some (st, False));
     if found then Some (st, True)
     else if OBJ_SET_XX flags then do { (st, ob) \<leftarrow> lookupKeyWrite st key; Some (st, ob = None) }
     else Some (st, False)
   }"

definition setGenericCommand ::
    "redis \<Rightarrow> set_flags \<Rightarrow> key \<Rightarrow> oref \<Rightarrow> oref option \<Rightarrow> time_unit \<Rightarrow> string \<Rightarrow> reply option \<Rightarrow> reply option
       \<Rightarrow> (redis \<times> reply) option" where
  "setGenericCommand st flags key val expire unit cmdname ok_reply abort_reply = do {
     e \<leftarrow> expire_ms st expire unit cmdname;
     case e of
       Inl err \<Rightarrow> Some (st, err)
     | Inr milliseconds \<Rightarrow> do {
         (st, abort) \<leftarrow> set_aborts st flags key;
         if abort then Some (st, case abort_reply of Some r \<Rightarrow> r | None \<Rightarrow> RNull)
         else do {
           st \<leftarrow> genericSetKey st key val (OBJ_SET_KEEPTTL flags) True;
           let st = st\<lparr>dirty := dirty st + 1\<rparr>;
           st \<leftarrow> (if expire \<noteq> None
                 then if now st + milliseconds > LLONG_MAX then None else setExpire st key (now st + milliseconds)
                 else Some st);
           let st = notifyKeyspaceEvent ''set'' key st;
           let st = (if expire \<noteq> None then notifyKeyspaceEvent ''expire'' key st else st);
           Some (st, case ok_reply of Some r \<Rightarrow> r | None \<Rightarrow> shared_ok)
         }
       }
   }"

text \<open>\<open>strcasecmp(a, opt) == 0\<close> for a lower-case option name.\<close>

definition is_opt :: "char list \<Rightarrow> string \<Rightarrow> bool" where
  "is_opt a opt \<longleftrightarrow> map tolower (cstr a) = opt"

text \<open>The option loop of \<open>SET\<close> over the remaining arguments, each with its bytes.\<close>

fun set_options :: "('a \<times> char list) list \<Rightarrow> set_flags \<Rightarrow> time_unit \<Rightarrow> 'a option \<Rightarrow> (set_flags \<times> time_unit \<times> 'a option) option" where
  "set_options [] flags unit expire = Some (flags, unit, expire)"
| "set_options ((r, a) # rest) flags unit expire =
     (if is_opt a ''nx'' \<and> \<not> OBJ_SET_XX flags then set_options rest (flags\<lparr>OBJ_SET_NX := True\<rparr>) unit expire
      else if is_opt a ''xx'' \<and> \<not> OBJ_SET_NX flags then set_options rest (flags\<lparr>OBJ_SET_XX := True\<rparr>) unit expire
      else if is_opt a ''keepttl'' \<and> \<not> OBJ_SET_EX flags \<and> \<not> OBJ_SET_PX flags then
        set_options rest (flags\<lparr>OBJ_SET_KEEPTTL := True\<rparr>) unit expire
      else if is_opt a ''ex'' \<and> \<not> OBJ_SET_KEEPTTL flags \<and> \<not> OBJ_SET_PX flags \<and> rest \<noteq> [] then
        (case rest of
           [] \<Rightarrow> None
         | (n, _) # rest' \<Rightarrow> set_options rest' (flags\<lparr>OBJ_SET_EX := True\<rparr>) UNIT_SECONDS (Some n))
      else if is_opt a ''px'' \<and> \<not> OBJ_SET_KEEPTTL flags \<and> \<not> OBJ_SET_EX flags \<and> rest \<noteq> [] then
        (case rest of
           [] \<Rightarrow> None
         | (n, _) # rest' \<Rightarrow> set_options rest' (flags\<lparr>OBJ_SET_PX := True\<rparr>) UNIT_MILLISECONDS (Some n))
      else None)"

fun mapM :: "('a \<Rightarrow> 'b option) \<Rightarrow> 'a list \<Rightarrow> 'b list option" where
  "mapM f [] = Some []"
| "mapM f (x # xs) = do { y \<leftarrow> f x; ys \<leftarrow> mapM f xs; Some (y # ys) }"

text \<open>\<open>argv[i] = tryObjectEncoding(argv[i])\<close>.\<close>

definition encode_arg :: "redis \<Rightarrow> oref list \<Rightarrow> nat \<Rightarrow> (redis \<times> oref list \<times> oref) option" where
  "encode_arg st argv i = do {
     r \<leftarrow> fetch argv i;
     (h, r) \<leftarrow> tryObjectEncoding (no_shared st) (heap st) r;
     Some (st\<lparr>heap := h\<rparr>, argv[i := r], r)
   }"

definition arg_key :: "redis \<Rightarrow> oref list \<Rightarrow> nat \<Rightarrow> key option" where
  "arg_key st argv i = do { r \<leftarrow> fetch argv i; arg_bytes (heap st) r }"

definition setCommand :: "redis \<Rightarrow> oref list \<Rightarrow> result option" where
  "setCommand st argv = do {
     opts \<leftarrow> mapM (arg_bytes (heap st)) (drop 3 argv);
     case set_options (zip (drop 3 argv) opts) OBJ_SET_NO_FLAGS UNIT_SECONDS None of
       None \<Rightarrow> Some (st, argv, shared_syntaxerr)
     | Some (flags, unit, expire) \<Rightarrow> do {
         key \<leftarrow> arg_key st argv 1;
         (st, argv, val) \<leftarrow> encode_arg st argv 2;
         (st, rep) \<leftarrow> setGenericCommand st flags key val expire unit ''set'' None None;
         Some (st, argv, rep)
       }
   }"

definition setnxCommand :: "redis \<Rightarrow> oref list \<Rightarrow> result option" where
  "setnxCommand st argv = do {
     key \<leftarrow> arg_key st argv 1;
     (st, argv, val) \<leftarrow> encode_arg st argv 2;
     (st, rep) \<leftarrow> setGenericCommand st (OBJ_SET_NO_FLAGS\<lparr>OBJ_SET_NX := True\<rparr>) key val None UNIT_SECONDS ''setnx''
        (Some shared_cone) (Some shared_czero);
     Some (st, argv, rep)
   }"

definition setexCommand :: "redis \<Rightarrow> oref list \<Rightarrow> result option" where
  "setexCommand st argv = do {
     key \<leftarrow> arg_key st argv 1;
     expire \<leftarrow> fetch argv 2;
     (st, argv, val) \<leftarrow> encode_arg st argv 3;
     (st, rep) \<leftarrow> setGenericCommand st OBJ_SET_NO_FLAGS key val (Some expire) UNIT_SECONDS ''setex'' None None;
     Some (st, argv, rep)
   }"

definition psetexCommand :: "redis \<Rightarrow> oref list \<Rightarrow> result option" where
  "psetexCommand st argv = do {
     key \<leftarrow> arg_key st argv 1;
     expire \<leftarrow> fetch argv 2;
     (st, argv, val) \<leftarrow> encode_arg st argv 3;
     (st, rep) \<leftarrow> setGenericCommand st OBJ_SET_NO_FLAGS key val (Some expire) UNIT_MILLISECONDS ''psetex'' None None;
     Some (st, argv, rep)
   }"

section \<open>Reading\<close>

text \<open>The flag is \<open>C_OK\<close>.\<close>

definition getGenericCommand :: "redis \<Rightarrow> oref list \<Rightarrow> (redis \<times> bool \<times> reply) option" where
  "getGenericCommand st argv = do {
     key \<leftarrow> arg_key st argv 1;
     (st, ob) \<leftarrow> lookupKeyRead st key;
     case ob of
       None \<Rightarrow> Some (st, True, RNull)
     | Some r \<Rightarrow> do {
         wrong \<leftarrow> checkType (heap st) r OBJ_STRING;
         case wrong of
           Some e \<Rightarrow> Some (st, False, e)
         | None \<Rightarrow> do { rep \<leftarrow> addReplyBulk (heap st) r; Some (st, True, rep) }
       }
   }"

definition getCommand :: "redis \<Rightarrow> oref list \<Rightarrow> result option" where
  "getCommand st argv = do { (st, ok, rep) \<leftarrow> getGenericCommand st argv; Some (st, argv, rep) }"

definition getsetCommand :: "redis \<Rightarrow> oref list \<Rightarrow> result option" where
  "getsetCommand st argv = do {
     (st, ok, rep) \<leftarrow> getGenericCommand st argv;
     if \<not> ok then Some (st, argv, rep)
     else do {
       key \<leftarrow> arg_key st argv 1;
       (st, argv, val) \<leftarrow> encode_arg st argv 2;
       st \<leftarrow> setKey st key val;
       let st = notifyKeyspaceEvent ''set'' key st;
       Some (st\<lparr>dirty := dirty st + 1\<rparr>, argv, rep)
     }
   }"

text \<open>The index arithmetic of \<open>GETRANGE\<close>; \<open>None\<close> is the empty reply.\<close>

definition range_bounds :: "int \<Rightarrow> int \<Rightarrow> nat \<Rightarrow> (int \<times> int) option" where
  "range_bounds start stop strlen =
     (if start < 0 \<and> stop < 0 \<and> start > stop then None
      else
        let start = (if start < 0 then to_ll (int strlen + start) else start);
            stop = (if stop < 0 then to_ll (int strlen + stop) else stop);
            start = (if start < 0 then 0 else start);
            stop = (if stop < 0 then 0 else stop);
            stop = (if to_size stop \<ge> strlen then to_ll (int strlen - 1) else stop)
        in if start > stop \<or> strlen = 0 then None else Some (start, stop))"

definition getrangeCommand :: "redis \<Rightarrow> oref list \<Rightarrow> result option" where
  "getrangeCommand st argv = do {
     a2 \<leftarrow> fetch argv 2;
     start \<leftarrow> getLongLongFromObjectOrReply (heap st) (Some a2);
     case start of Inl e \<Rightarrow> Some (st, argv, e) | Inr start \<Rightarrow> do {
     a3 \<leftarrow> fetch argv 3;
     stop \<leftarrow> getLongLongFromObjectOrReply (heap st) (Some a3);
     case stop of Inl e \<Rightarrow> Some (st, argv, e) | Inr stop \<Rightarrow> do {
     key \<leftarrow> arg_key st argv 1;
     (st, ob) \<leftarrow> lookupKeyRead st key;
     case ob of
       None \<Rightarrow> Some (st, argv, shared_emptybulk)
     | Some r \<Rightarrow> do {
         wrong \<leftarrow> checkType (heap st) r OBJ_STRING;
         case wrong of
           Some e \<Rightarrow> Some (st, argv, e)
         | None \<Rightarrow> do {
             ob \<leftarrow> deref (heap st) r;
             (str, strlen) \<leftarrow> (if o_encoding ob = OBJ_ENCODING_INT
                then do { v \<leftarrow> obj_long ob; ll2string (stack_buf 32) 32 v }
                else do { s \<leftarrow> obj_sds ob; b \<leftarrow> sds_contents s; Some (b, sdslen s) });
             case range_bounds start stop strlen of
               None \<Rightarrow> Some (st, argv, shared_emptybulk)
             | Some (start, stop) \<Rightarrow> do {
                 b \<leftarrow> read_at str (nat start) (nat (stop - start + 1));
                 Some (st, argv, RBulk b)
               }
           }
       }}}
   }"

fun mget_loop :: "redis \<Rightarrow> oref list \<Rightarrow> (redis \<times> reply list) option" where
  "mget_loop st [] = Some (st, [])"
| "mget_loop st (a # rest) = do {
     key \<leftarrow> arg_bytes (heap st) a;
     (st, ob) \<leftarrow> lookupKeyRead st key;
     rep \<leftarrow> (case ob of
              None \<Rightarrow> Some RNull
            | Some r \<Rightarrow> do {
                ob \<leftarrow> deref (heap st) r;
                if o_type ob \<noteq> OBJ_STRING then Some RNull else addReplyBulk (heap st) r
              });
     (st, reps) \<leftarrow> mget_loop st rest;
     Some (st, rep # reps)
   }"

definition mgetCommand :: "redis \<Rightarrow> oref list \<Rightarrow> result option" where
  "mgetCommand st argv = do { (st, reps) \<leftarrow> mget_loop st (drop 1 argv); Some (st, argv, RArray reps) }"

definition strlenCommand :: "redis \<Rightarrow> oref list \<Rightarrow> result option" where
  "strlenCommand st argv = do {
     key \<leftarrow> arg_key st argv 1;
     (st, ob) \<leftarrow> lookupKeyRead st key;
     case ob of
       None \<Rightarrow> Some (st, argv, shared_czero)
     | Some r \<Rightarrow> do {
         wrong \<leftarrow> checkType (heap st) r OBJ_STRING;
         case wrong of
           Some e \<Rightarrow> Some (st, argv, e)
         | None \<Rightarrow> do { n \<leftarrow> stringObjectLen (heap st) r; Some (st, argv, RInt (int n)) }
       }
   }"

section \<open>Writing\<close>

text \<open>\<open>o->ptr = f(o->ptr)\<close> on a string object.\<close>

definition update_sds :: "redis \<Rightarrow> oref \<Rightarrow> (sds \<Rightarrow> sds option) \<Rightarrow> (redis \<times> sds) option" where
  "update_sds st r f = do {
     ob \<leftarrow> deref (heap st) r;
     s \<leftarrow> obj_sds ob;
     s \<leftarrow> f s;
     h \<leftarrow> set_obj (heap st) r (ob\<lparr>o_ptr := PSds s\<rparr>);
     Some (st\<lparr>heap := h\<rparr>, s)
   }"

definition setrange_write :: "int \<Rightarrow> char list \<Rightarrow> sds \<Rightarrow> sds option" where
  "setrange_write offset val s = do {
     s \<leftarrow> sdsgrowzero s (to_size (offset + int (length val)));
     put_block s (nat offset) (map Some val)
   }"

text \<open>The part of \<open>SETRANGE\<close> behind the checks: the object is private and raw.\<close>

definition setrange_finish :: "redis \<Rightarrow> oref list \<Rightarrow> key \<Rightarrow> oref \<Rightarrow> int \<Rightarrow> char list \<Rightarrow> result option" where
  "setrange_finish st argv key r offset val = do {
     (st, s) \<leftarrow> update_sds st r (setrange_write offset val);
     let st = signalModifiedKey st key;
     let st = notifyKeyspaceEvent ''setrange'' key st;
     Some (st\<lparr>dirty := dirty st + 1\<rparr>, argv, RInt (int (sdslen s)))
   }"

definition setrangeCommand :: "redis \<Rightarrow> oref list \<Rightarrow> result option" where
  "setrangeCommand st argv = do {
     a2 \<leftarrow> fetch argv 2;
     offset \<leftarrow> getLongFromObjectOrReply (heap st) (Some a2);
     case offset of Inl e \<Rightarrow> Some (st, argv, e) | Inr offset \<Rightarrow>
     if offset < 0 then Some (st, argv, RError ''ERR offset is out of range'')
     else do {
       key \<leftarrow> arg_key st argv 1;
       val \<leftarrow> arg_key st argv 3;
       (st, ob) \<leftarrow> lookupKeyWrite st key;
       case ob of
         None \<Rightarrow>
           if length val = 0 then Some (st, argv, shared_czero)
           else (case checkStringLength st (to_ll (offset + int (length val))) of
             Some e \<Rightarrow> Some (st, argv, e)
           | None \<Rightarrow> do {
               s \<leftarrow> sdsnewlen Null (to_size (offset + int (length val)));
               let (h, r) = createObject (heap st) OBJ_STRING (PSds s);
               st \<leftarrow> dbAdd (st\<lparr>heap := h\<rparr>) key r;
               setrange_finish st argv key r offset val
             })
       | Some r \<Rightarrow> do {
           wrong \<leftarrow> checkType (heap st) r OBJ_STRING;
           case wrong of
             Some e \<Rightarrow> Some (st, argv, e)
           | None \<Rightarrow> do {
               olen \<leftarrow> stringObjectLen (heap st) r;
               if length val = 0 then Some (st, argv, RInt (int olen))
               else (case checkStringLength st (to_ll (offset + int (length val))) of
                 Some e \<Rightarrow> Some (st, argv, e)
               | None \<Rightarrow> do {
                   (st, r) \<leftarrow> dbUnshareStringValue st key r;
                   setrange_finish st argv key r offset val
                 })
             }
         }
     }
   }"

definition incr_overflows :: "int \<Rightarrow> int \<Rightarrow> bool" where
  "incr_overflows oldvalue incr \<longleftrightarrow>
     (incr < 0 \<and> oldvalue < 0 \<and> incr < LLONG_MIN - oldvalue) \<or>
     (incr > 0 \<and> oldvalue > 0 \<and> incr > LLONG_MAX - oldvalue)"

text \<open>Storing the new number: in place when the object is a private integer, else as a new object.\<close>

definition incr_store :: "redis \<Rightarrow> key \<Rightarrow> oref option \<Rightarrow> int \<Rightarrow> redis option" where
  "incr_store st key ob value =
     (case ob of
        None \<Rightarrow> do {
          (h, new) \<leftarrow> createStringObjectFromLongLongForValue (no_shared st) (heap st) value;
          dbAdd (st\<lparr>heap := h\<rparr>) key new
        }
      | Some r \<Rightarrow> do {
          ob \<leftarrow> deref (heap st) r;
          if o_refcount ob = 1 \<and> o_encoding ob = OBJ_ENCODING_INT \<and>
             (value < 0 \<or> value \<ge> int OBJ_SHARED_INTEGERS) \<and> value \<ge> LLONG_MIN \<and> value \<le> LLONG_MAX
          then do { h \<leftarrow> set_obj (heap st) r (ob\<lparr>o_ptr := PInt value\<rparr>); Some (st\<lparr>heap := h\<rparr>) }
          else do {
            (h, new) \<leftarrow> createStringObjectFromLongLongForValue (no_shared st) (heap st) value;
            dbOverwrite (st\<lparr>heap := h\<rparr>) key new
          }
        })"

definition incrDecrCommand :: "redis \<Rightarrow> oref list \<Rightarrow> int \<Rightarrow> result option" where
  "incrDecrCommand st argv incr = do {
     key \<leftarrow> arg_key st argv 1;
     (st, ob) \<leftarrow> lookupKeyWrite st key;
     wrong \<leftarrow> (case ob of None \<Rightarrow> Some None | Some r \<Rightarrow> checkType (heap st) r OBJ_STRING);
     case wrong of
       Some e \<Rightarrow> Some (st, argv, e)
     | None \<Rightarrow> do {
         v \<leftarrow> getLongLongFromObjectOrReply (heap st) ob;
         case v of
           Inl e \<Rightarrow> Some (st, argv, e)
         | Inr oldvalue \<Rightarrow>
             if incr_overflows oldvalue incr
             then Some (st, argv, RError ''ERR increment or decrement would overflow'')
             else do {
               let value = oldvalue + incr;
               st \<leftarrow> incr_store st key ob value;
               let st = signalModifiedKey st key;
               let st = notifyKeyspaceEvent ''incrby'' key st;
               Some (st\<lparr>dirty := dirty st + 1\<rparr>, argv, RInt value)
             }
       }
   }"

definition incrCommand :: "redis \<Rightarrow> oref list \<Rightarrow> result option" where
  "incrCommand st argv = incrDecrCommand st argv 1"

definition decrCommand :: "redis \<Rightarrow> oref list \<Rightarrow> result option" where
  "decrCommand st argv = incrDecrCommand st argv (- 1)"

definition incrbyCommand :: "redis \<Rightarrow> oref list \<Rightarrow> result option" where
  "incrbyCommand st argv = do {
     a2 \<leftarrow> fetch argv 2;
     incr \<leftarrow> getLongLongFromObjectOrReply (heap st) (Some a2);
     case incr of Inl e \<Rightarrow> Some (st, argv, e) | Inr incr \<Rightarrow> incrDecrCommand st argv incr
   }"

text \<open>\<open>-incr\<close> overflows for \<open>LLONG_MIN\<close>.\<close>

definition decrbyCommand :: "redis \<Rightarrow> oref list \<Rightarrow> result option" where
  "decrbyCommand st argv = do {
     a2 \<leftarrow> fetch argv 2;
     incr \<leftarrow> getLongLongFromObjectOrReply (heap st) (Some a2);
     case incr of
       Inl e \<Rightarrow> Some (st, argv, e)
     | Inr incr \<Rightarrow> if incr = LLONG_MIN then None else incrDecrCommand st argv (- incr)
   }"

definition append_finish :: "redis \<Rightarrow> oref list \<Rightarrow> key \<Rightarrow> nat \<Rightarrow> result option" where
  "append_finish st argv key totlen = do {
     let st = signalModifiedKey st key;
     let st = notifyKeyspaceEvent ''append'' key st;
     Some (st\<lparr>dirty := dirty st + 1\<rparr>, argv, RInt (int totlen))
   }"

definition appendCommand :: "redis \<Rightarrow> oref list \<Rightarrow> result option" where
  "appendCommand st argv = do {
     key \<leftarrow> arg_key st argv 1;
     (st, ob) \<leftarrow> lookupKeyWrite st key;
     case ob of
       None \<Rightarrow> do {
         (st, argv, val) \<leftarrow> encode_arg st argv 2;
         st \<leftarrow> dbAdd st key val;
         h \<leftarrow> incrRefCount (heap st) val;
         let st = st\<lparr>heap := h\<rparr>;
         totlen \<leftarrow> stringObjectLen (heap st) val;
         append_finish st argv key totlen
       }
     | Some r \<Rightarrow> do {
         wrong \<leftarrow> checkType (heap st) r OBJ_STRING;
         case wrong of
           Some e \<Rightarrow> Some (st, argv, e)
         | None \<Rightarrow> do {
             append \<leftarrow> arg_key st argv 2;
             olen \<leftarrow> stringObjectLen (heap st) r;
             case checkStringLength st (to_ll (int olen + int (length append))) of
               Some e \<Rightarrow> Some (st, argv, e)
             | None \<Rightarrow> do {
                 (st, r) \<leftarrow> dbUnshareStringValue st key r;
                 (st, s) \<leftarrow> update_sds st r (\<lambda>s. sdscatlen s append);
                 append_finish st argv key (sdslen s)
               }
           }
       }
   }"

section \<open>Several keys\<close>

text \<open>The arguments from position \<open>j\<close> on, two at a time.\<close>

function mset_exists :: "redis \<Rightarrow> oref list \<Rightarrow> nat \<Rightarrow> (redis \<times> bool) option" where
  "mset_exists st argv j =
     (if j < length argv then do {
        key \<leftarrow> arg_key st argv j;
        (st, ob) \<leftarrow> lookupKeyWrite st key;
        if ob \<noteq> None then Some (st, True) else mset_exists st argv (j + 2)
      }
      else Some (st, False))"
  by pat_completeness auto
termination by (relation "measure (\<lambda>(st, argv, j). length argv - j)") auto

function mset_loop :: "redis \<Rightarrow> oref list \<Rightarrow> nat \<Rightarrow> (redis \<times> oref list) option" where
  "mset_loop st argv j =
     (if j < length argv then
        (case encode_arg st argv (j + 1) of
           None \<Rightarrow> None
         | Some (st, argv', val) \<Rightarrow>
             if length argv' \<noteq> length argv then None
             else do {
               key \<leftarrow> arg_key st argv' j;
               st \<leftarrow> setKey st key val;
               mset_loop (notifyKeyspaceEvent ''set'' key st) argv' (j + 2)
             })
      else Some (st, argv))"
  by pat_completeness auto
termination by (relation "measure (\<lambda>(st, argv, j). length argv - j)") auto

declare mset_exists.simps [simp del] mset_loop.simps [simp del]

definition msetGenericCommand :: "redis \<Rightarrow> oref list \<Rightarrow> bool \<Rightarrow> result option" where
  "msetGenericCommand st argv nx =
     (if length argv mod 2 = 0 then Some (st, argv, RError ''ERR wrong number of arguments for MSET'')
      else do {
        (st, exists) \<leftarrow> (if nx then mset_exists st argv 1 else Some (st, False));
        if exists then Some (st, argv, shared_czero)
        else do {
          (st, argv) \<leftarrow> mset_loop st argv 1;
          Some (st\<lparr>dirty := dirty st + int ((length argv - 1) div 2)\<rparr>, argv, if nx then shared_cone else shared_ok)
        }
      })"

definition msetCommand :: "redis \<Rightarrow> oref list \<Rightarrow> result option" where
  "msetCommand st argv = msetGenericCommand st argv False"

definition msetnxCommand :: "redis \<Rightarrow> oref list \<Rightarrow> result option" where
  "msetnxCommand st argv = msetGenericCommand st argv True"

section \<open>Running a command\<close>

datatype strcmd =
    SET | SETNX | SETEX | PSETEX | GET | GETSET | SETRANGE | GETRANGE | MGET | MSET | MSETNX
  | INCR | DECR | INCRBY | DECRBY | APPEND | STRLEN

text \<open>The entries of the command table: the name, the arity (\<open>-n\<close>: at least \<open>n\<close> arguments) and the function.\<close>

fun cmd_table :: "strcmd \<Rightarrow> string \<times> int \<times> (redis \<Rightarrow> oref list \<Rightarrow> result option)" where
  "cmd_table GET = (''get'', 2, getCommand)"
| "cmd_table SET = (''set'', -3, setCommand)"
| "cmd_table SETNX = (''setnx'', 3, setnxCommand)"
| "cmd_table SETEX = (''setex'', 4, setexCommand)"
| "cmd_table PSETEX = (''psetex'', 4, psetexCommand)"
| "cmd_table APPEND = (''append'', 3, appendCommand)"
| "cmd_table STRLEN = (''strlen'', 2, strlenCommand)"
| "cmd_table SETRANGE = (''setrange'', 4, setrangeCommand)"
| "cmd_table GETRANGE = (''getrange'', 4, getrangeCommand)"
| "cmd_table INCR = (''incr'', 2, incrCommand)"
| "cmd_table DECR = (''decr'', 2, decrCommand)"
| "cmd_table MGET = (''mget'', -2, mgetCommand)"
| "cmd_table INCRBY = (''incrby'', 3, incrbyCommand)"
| "cmd_table DECRBY = (''decrby'', 3, decrbyCommand)"
| "cmd_table GETSET = (''getset'', 3, getsetCommand)"
| "cmd_table MSET = (''mset'', -3, msetCommand)"
| "cmd_table MSETNX = (''msetnx'', -3, msetnxCommand)"

text \<open>The arguments of a request become string objects, and are released after the command.\<close>

fun create_args :: "heap \<Rightarrow> char list list \<Rightarrow> (heap \<times> oref list) option" where
  "create_args h [] = Some (h, [])"
| "create_args h (b # bs) = do {
     (h, r) \<leftarrow> createStringObject h (Bytes b) (length b);
     (h, rs) \<leftarrow> create_args h bs;
     Some (h, r # rs)
   }"

fun freeClientArgv :: "heap \<Rightarrow> oref list \<Rightarrow> heap option" where
  "freeClientArgv h [] = Some h"
| "freeClientArgv h (r # rs) = do { h \<leftarrow> decrRefCount h r; freeClientArgv h rs }"

definition arity_error :: "int \<Rightarrow> nat \<Rightarrow> bool" where
  "arity_error arity argc \<longleftrightarrow> (arity > 0 \<and> arity \<noteq> int argc) \<or> int argc < - arity"

definition arity_reply :: "string \<Rightarrow> reply" where
  "arity_reply name = RError (''ERR wrong number of arguments for '' @ [CHR 0x27] @ name @ [CHR 0x27] @ '' command'')"

definition run_command :: "redis \<Rightarrow> strcmd \<Rightarrow> char list list \<Rightarrow> (redis \<times> reply) option" where
  "run_command st cmd args = do {
     (h, argv) \<leftarrow> create_args (heap st) args;
     let st = st\<lparr>heap := h\<rparr>;
     (st, argv, rep) \<leftarrow> (case cmd_table cmd of (name, arity, proc) \<Rightarrow>
        if arity_error arity (length argv)
        then Some (st, argv, arity_reply name)
        else proc st argv);
     h \<leftarrow> freeClientArgv (heap st) argv;
     Some (st\<lparr>heap := h\<rparr>, rep)
   }"

end
