(* ===== verification/StringRefine.thy ===== *)
theory StringRefine
  imports TString
begin

text \<open>
  The string commands refine an abstract keyspace: a map from keys to values with deadlines. The
  specification of each command is given on that map alone; the refinement also shows that reference
  counts stay exact, that strings are never changed behind another holder's back, and that every
  change marks the clients that watch the key.
\<close>

section \<open>Specification\<close>

definition spec_int :: "char list \<Rightarrow> reply + int" where
  "spec_int b = (case string2ll b of
     None \<Rightarrow> Inl (RError ''ERR value is not an integer or out of range'') | Some v \<Rightarrow> Inr v)"

definition ttl :: "keymap \<Rightarrow> key \<Rightarrow> int option" where
  "ttl m k = Option.bind (m k) snd"

text \<open>Duration given by an expire argument.\<close>

definition spec_expire :: "char list option \<Rightarrow> time_unit \<Rightarrow> string \<Rightarrow> reply + int" where
  "spec_expire expire unit name =
     (case expire of
        None \<Rightarrow> Inr 0
      | Some b \<Rightarrow> (case spec_int b of
          Inl e \<Rightarrow> Inl e
        | Inr ms \<Rightarrow> if ms \<le> 0 then Inl (RError (''ERR invalid expire time in '' @ name))
                   else Inr (if unit = UNIT_SECONDS then ms * 1000 else ms)))"

definition spec_set ::
    "int \<Rightarrow> keymap \<Rightarrow> set_flags \<Rightarrow> key \<Rightarrow> char list \<Rightarrow> char list option \<Rightarrow> time_unit \<Rightarrow> string \<Rightarrow> reply \<Rightarrow> reply \<Rightarrow> keymap \<times> reply" where
  "spec_set t m flags k v expire unit name okr abr =
     (case spec_expire expire unit name of
        Inl e \<Rightarrow> (m, e)
      | Inr ms \<Rightarrow>
          if (OBJ_SET_NX flags \<and> m k \<noteq> None) \<or> (OBJ_SET_XX flags \<and> m k = None) then (m, abr)
          else (m(k \<mapsto> (VStr v, if expire \<noteq> None then Some (t + ms)
                              else if OBJ_SET_KEEPTTL flags then ttl m k else None)), okr))"

text \<open>The string at a key: an error for another type, \<^const>\<open>None\<close> for a missing key.\<close>

definition spec_str :: "keymap \<Rightarrow> key \<Rightarrow> reply + char list option" where
  "spec_str m k =
     (case m k of
        None \<Rightarrow> Inr None
      | Some (VStr s, _) \<Rightarrow> Inr (Some s)
      | Some (VObj _ _, _) \<Rightarrow> Inl shared_wrongtypeerr)"

definition spec_get :: "keymap \<Rightarrow> key \<Rightarrow> reply" where
  "spec_get m k = (case spec_str m k of Inl e \<Rightarrow> e | Inr None \<Rightarrow> RNull | Inr (Some s) \<Rightarrow> RBulk s)"

text \<open>The bytes from one position to another, both included; negative positions count from the end.\<close>

definition spec_range :: "int \<Rightarrow> int \<Rightarrow> char list \<Rightarrow> char list" where
  "spec_range start stop s =
     (let n = int (length s);
          a = (if start < 0 then max 0 (n + start) else start);
          b = (if stop < 0 then max 0 (n + stop) else stop)
      in if start < 0 \<and> stop < 0 \<and> start > stop then []
         else take (nat (min b (n - 1) - a + 1)) (drop (nat a) s))"

definition overwrite :: "nat \<Rightarrow> char list \<Rightarrow> char list \<Rightarrow> char list" where
  "overwrite off v s = take off (s @ replicate (off - length s) NUL) @ v @ drop (off + length v) s"

definition too_long :: reply where
  "too_long = RError ''ERR string exceeds maximum allowed size (proto-max-bulk-len)''"

definition put_str :: "keymap \<Rightarrow> key \<Rightarrow> char list \<Rightarrow> keymap" where
  "put_str m k s = m(k \<mapsto> (VStr s, ttl m k))"

definition spec_setrange :: "int \<Rightarrow> keymap \<Rightarrow> key \<Rightarrow> char list \<Rightarrow> char list \<Rightarrow> keymap \<times> reply" where
  "spec_setrange limit m k offb v =
     (case spec_int offb of
        Inl e \<Rightarrow> (m, e)
      | Inr off \<Rightarrow>
          if off < 0 then (m, RError ''ERR offset is out of range'')
          else (case spec_str m k of
              Inl e \<Rightarrow> (m, e)
            | Inr old \<Rightarrow>
                let s = (case old of None \<Rightarrow> [] | Some s \<Rightarrow> s) in
                if v = [] then (m, RInt (int (length s)))
                else if off + int (length v) > limit then (m, too_long)
                else let s' = overwrite (nat off) v s in (put_str m k s', RInt (int (length s')))))"

definition spec_incr :: "keymap \<Rightarrow> key \<Rightarrow> int \<Rightarrow> keymap \<times> reply" where
  "spec_incr m k incr =
     (case spec_str m k of
        Inl e \<Rightarrow> (m, e)
      | Inr old \<Rightarrow> (case spec_int (case old of None \<Rightarrow> ''0'' | Some s \<Rightarrow> s) of
          Inl e \<Rightarrow> (m, e)
        | Inr v \<Rightarrow>
            if v + incr < LLONG_MIN \<or> v + incr > LLONG_MAX
            then (m, RError ''ERR increment or decrement would overflow'')
            else (put_str m k (show_int (v + incr)), RInt (v + incr))))"

definition spec_append :: "int \<Rightarrow> keymap \<Rightarrow> key \<Rightarrow> char list \<Rightarrow> keymap \<times> reply" where
  "spec_append limit m k v =
     (case spec_str m k of
        Inl e \<Rightarrow> (m, e)
      | Inr None \<Rightarrow> (put_str m k v, RInt (int (length v)))
      | Inr (Some s) \<Rightarrow>
          if int (length s + length v) > limit then (m, too_long)
          else (put_str m k (s @ v), RInt (int (length s + length v))))"

fun spec_mset :: "char list list \<Rightarrow> keymap \<Rightarrow> keymap" where
  "spec_mset (k # v # rest) m = spec_mset rest (m(k \<mapsto> (VStr v, None)))"
| "spec_mset _ m = m"

fun every_other :: "'a list \<Rightarrow> 'a list" where
  "every_other (k # v # rest) = k # every_other rest"
| "every_other xs = xs"

definition spec_msetgen :: "bool \<Rightarrow> char list list \<Rightarrow> keymap \<Rightarrow> keymap \<times> reply" where
  "spec_msetgen nx args m =
     (if length args mod 2 = 0 then (m, RError ''ERR wrong number of arguments for MSET'')
      else if nx \<and> list_ex (\<lambda>k. m k \<noteq> None) (every_other (tl args)) then (m, shared_czero)
      else (spec_mset (tl args) m, if nx then shared_cone else shared_ok))"

definition spec_mget :: "keymap \<Rightarrow> char list list \<Rightarrow> reply" where
  "spec_mget m ks = RArray (map (\<lambda>k. case m k of Some (VStr s, _) \<Rightarrow> RBulk s | _ \<Rightarrow> RNull) ks)"

fun spec_proc :: "strcmd \<Rightarrow> int \<Rightarrow> int \<Rightarrow> char list list \<Rightarrow> keymap \<Rightarrow> keymap \<times> reply" where
  "spec_proc SET t limit args m =
     (case set_options (zip (drop 3 args) (drop 3 args)) OBJ_SET_NO_FLAGS UNIT_SECONDS None of
        None \<Rightarrow> (m, shared_syntaxerr)
      | Some (flags, unit, expire) \<Rightarrow> spec_set t m flags (args ! 1) (args ! 2) expire unit ''set'' shared_ok RNull)"
| "spec_proc SETNX t limit args m =
     spec_set t m (OBJ_SET_NO_FLAGS\<lparr>OBJ_SET_NX := True\<rparr>) (args ! 1) (args ! 2) None UNIT_SECONDS ''setnx'' shared_cone shared_czero"
| "spec_proc SETEX t limit args m =
     spec_set t m OBJ_SET_NO_FLAGS (args ! 1) (args ! 3) (Some (args ! 2)) UNIT_SECONDS ''setex'' shared_ok RNull"
| "spec_proc PSETEX t limit args m =
     spec_set t m OBJ_SET_NO_FLAGS (args ! 1) (args ! 3) (Some (args ! 2)) UNIT_MILLISECONDS ''psetex'' shared_ok RNull"
| "spec_proc GET t limit args m = (m, spec_get m (args ! 1))"
| "spec_proc GETSET t limit args m =
     ((case spec_str m (args ! 1) of Inl e \<Rightarrow> m | Inr _ \<Rightarrow> m(args ! 1 \<mapsto> (VStr (args ! 2), None))), spec_get m (args ! 1))"
| "spec_proc SETRANGE t limit args m = spec_setrange limit m (args ! 1) (args ! 2) (args ! 3)"
| "spec_proc GETRANGE t limit args m =
     (m, case spec_int (args ! 2) of Inl e \<Rightarrow> e | Inr start \<Rightarrow>
         (case spec_int (args ! 3) of Inl e \<Rightarrow> e | Inr stop \<Rightarrow>
         (case spec_str m (args ! 1) of
            Inl e \<Rightarrow> e | Inr None \<Rightarrow> RBulk [] | Inr (Some s) \<Rightarrow> RBulk (spec_range start stop s))))"
| "spec_proc MGET t limit args m = (m, spec_mget m (tl args))"
| "spec_proc MSET t limit args m = spec_msetgen False args m"
| "spec_proc MSETNX t limit args m = spec_msetgen True args m"
| "spec_proc INCR t limit args m = spec_incr m (args ! 1) 1"
| "spec_proc DECR t limit args m = spec_incr m (args ! 1) (- 1)"
| "spec_proc INCRBY t limit args m =
     (case spec_int (args ! 2) of Inl e \<Rightarrow> (m, e) | Inr v \<Rightarrow> spec_incr m (args ! 1) v)"
| "spec_proc DECRBY t limit args m =
     (case spec_int (args ! 2) of Inl e \<Rightarrow> (m, e) | Inr v \<Rightarrow> spec_incr m (args ! 1) (- v))"
| "spec_proc APPEND t limit args m = spec_append limit m (args ! 1) (args ! 2)"
| "spec_proc STRLEN t limit args m =
     (m, case spec_str m (args ! 1) of Inl e \<Rightarrow> e | Inr None \<Rightarrow> RInt 0 | Inr (Some s) \<Rightarrow> RInt (int (length s)))"

definition spec_command :: "strcmd \<Rightarrow> int \<Rightarrow> int \<Rightarrow> char list list \<Rightarrow> keymap \<Rightarrow> keymap \<times> reply" where
  "spec_command cmd t limit args m =
     (case cmd_table cmd of (name, arity, _) \<Rightarrow>
        if arity_error arity (length args)
        then (m, arity_reply name)
        else spec_proc cmd t limit args m)"

text \<open>
  The arithmetic that must not overflow for the command to be defined: the deadline, the end of the
  written range, and the negated decrement.
\<close>

definition expire_ok :: "int \<Rightarrow> char list \<Rightarrow> time_unit \<Rightarrow> bool" where
  "expire_ok t b unit \<longleftrightarrow>
     (case string2ll b of None \<Rightarrow> True
      | Some ms \<Rightarrow> ms \<le> 0 \<or> t + (if unit = UNIT_SECONDS then ms * 1000 else ms) \<le> LLONG_MAX)"

fun arith_ok :: "strcmd \<Rightarrow> int \<Rightarrow> char list list \<Rightarrow> bool" where
  "arith_ok SET t args \<longleftrightarrow>
     (case set_options (zip (drop 3 args) (drop 3 args)) OBJ_SET_NO_FLAGS UNIT_SECONDS None of
        Some (_, unit, Some b) \<Rightarrow> expire_ok t b unit | _ \<Rightarrow> True)"
| "arith_ok SETEX t args \<longleftrightarrow> expire_ok t (args ! 2) UNIT_SECONDS"
| "arith_ok PSETEX t args \<longleftrightarrow> expire_ok t (args ! 2) UNIT_MILLISECONDS"
| "arith_ok SETRANGE t args \<longleftrightarrow>
     (case string2ll (args ! 2) of None \<Rightarrow> True | Some off \<Rightarrow> off + int (length (args ! 3)) \<le> LLONG_MAX)"
| "arith_ok DECRBY t args \<longleftrightarrow> string2ll (args ! 2) \<noteq> Some LLONG_MIN"
| "arith_ok _ t args \<longleftrightarrow> True"

section \<open>Arguments\<close>

lemma arg_bytes_core: "arg_bytes h r = Option.bind (core_of h r) (\<lambda>ob. Option.bind (obj_sds ob) sds_contents)"
  by (cases "deref h r") (simp_all add: arg_bytes_def core_of_def)

lemma arg_bytes_keeps: "keeps h h' R \<Longrightarrow> r \<in># R \<Longrightarrow> arg_bytes h' r = arg_bytes h r"
  by (simp add: arg_bytes_core keeps_def)

lemma arg_bytes_val: "arg_bytes h r = Some b \<Longrightarrow> val_of h r = Some (VStr b)"
  by (auto simp: arg_bytes_def val_of_def bind_eq_Some_conv split: obj_ptr.splits)

text \<open>
  What a command finds: string arguments that only its argument vector refers to.
\<close>

definition args_from :: "redis \<Rightarrow> oref list \<Rightarrow> oref multiset \<Rightarrow> char list list \<Rightarrow> nat \<Rightarrow> bool" where
  "args_from st argv X bs j \<longleftrightarrow>
     db_inv st (mset argv + X) \<and> length argv = length bs \<and>
     (\<forall>i<length argv. j \<le> i \<longrightarrow> arg_bytes (heap st) (argv ! i) = Some (bs ! i) \<and>
        count (dict_refs (db_dict st) + (mset argv + X)) (argv ! i) = 1)"

abbreviation args_ok :: "redis \<Rightarrow> oref list \<Rightarrow> oref multiset \<Rightarrow> char list list \<Rightarrow> bool" where
  "args_ok st argv X bs \<equiv> args_from st argv X bs 0"

lemma args_fromD:
  assumes "args_from st argv X bs j" "i < length bs" "j \<le> i"
  shows "fetch argv i = Some (argv ! i)" "arg_bytes (heap st) (argv ! i) = Some (bs ! i)"
    "arg_key st argv i = Some (bs ! i)" "val_of (heap st) (argv ! i) = Some (VStr (bs ! i))" "argv ! i \<in># mset argv"
    "count (dict_refs (db_dict st) + (mset argv + X)) (argv ! i) = 1"
proof -
  have "arg_bytes (heap st) (argv ! i) = Some (bs ! i)" "i < length argv"
    "count (dict_refs (db_dict st) + (mset argv + X)) (argv ! i) = 1"
    using assms unfolding args_from_def by metis+
  then show "fetch argv i = Some (argv ! i)" "arg_bytes (heap st) (argv ! i) = Some (bs ! i)"
    "arg_key st argv i = Some (bs ! i)" "val_of (heap st) (argv ! i) = Some (VStr (bs ! i))" "argv ! i \<in># mset argv"
    "count (dict_refs (db_dict st) + (mset argv + X)) (argv ! i) = 1"
    using arg_bytes_val by (auto simp: arg_key_def)
qed

lemmas args_okD = args_fromD[where j = 0, OF _ _ le0]

text \<open>One argument taken out of the vector.\<close>

definition others :: "oref list \<Rightarrow> nat \<Rightarrow> oref multiset \<Rightarrow> oref multiset" where
  "others argv i X = (mset argv - {#argv ! i#}) + X"

lemma others_add: "i < length argv \<Longrightarrow> mset argv + X = add_mset (argv ! i) (others argv i X)"
  by (simp add: others_def)

lemma others_update: "i < length argv \<Longrightarrow> mset (argv[i := r]) + X = add_mset r (others argv i X)"
  by (simp add: others_def mset_update)

lemma others_in:
  assumes "i < length argv" "j < length argv" "i \<noteq> j"
  shows "argv ! j \<in># others argv i X"
proof -
  have "mset argv = add_mset (argv ! i) (mset (take i argv) + mset (drop (Suc i) argv))"
    by (subst id_take_nth_drop[OF assms(1)]) simp
  then have e: "mset argv - {#argv ! i#} = mset (take i argv) + mset (drop (Suc i) argv)" by simp
  have "argv ! j \<in> set (take i argv) \<or> argv ! j \<in> set (drop (Suc i) argv)"
  proof (cases "j < i")
    case True
    then have "take i argv ! j \<in> set (take i argv)" using assms(1) by (intro nth_mem) simp
    with True show ?thesis by simp
  next
    case False
    then have "drop (Suc i) argv ! (j - Suc i) \<in> set (drop (Suc i) argv)" using assms by (intro nth_mem) simp
    with False assms show ?thesis by simp
  qed
  then show ?thesis unfolding others_def e by auto
qed

lemma lim_Integer: "lim (add_mset (Integer n) R) = lim R"
  by (simp add: lim_def)

lemma lim_fresh_for: "lim R \<Longrightarrow> fresh_for r R \<Longrightarrow> lim (add_mset r R) \<and> lim (add_mset r (add_mset r R))"
  by (auto simp: fresh_for_def lim_Integer lim_fresh) (auto simp: lim_def not_in_iff)

lemma encode_arg_spec:
  assumes args: "args_from st argv X bs j" and i: "i < length bs" and ji: "j \<le> i"
  shows "\<exists>h r. encode_arg st argv i = Some (st\<lparr>heap := h\<rparr>, argv[i := r], r) \<and>
    db_inv (st\<lparr>heap := h\<rparr>) (add_mset r (others argv i X)) \<and> keyspace (st\<lparr>heap := h\<rparr>) = keyspace st \<and>
    frame st (st\<lparr>heap := h\<rparr>) (others argv i X) \<and> val_of h r = Some (VStr (bs ! i)) \<and>
    roomy (st\<lparr>heap := h\<rparr>) (add_mset r (others argv i X)) r \<and> fresh_for r (dict_refs (db_dict st) + others argv i X)"
proof -
  let ?r = "argv ! i" and ?Y = "others argv i X" and ?D = "dict_refs (db_dict st)"
  have len: "i < length argv" using args i by (simp add: args_from_def)
  have inv: "db_inv st (add_mset ?r ?Y)" using args others_add[OF len] by (simp add: args_from_def)
  then have ok: "heap_ok (heap st) (add_mset ?r (?D + ?Y))" "lim (add_mset ?r (?D + ?Y))"
    by (simp_all add: db_inv_def store_ok_def)
  have "count (?D + (mset argv + X)) ?r = 1" using args i ji by (rule args_fromD)
  then have "count (?D + add_mset ?r ?Y) ?r = 1" by (simp only: others_add[OF len, of X])
  then have lone: "?r \<notin># ?D + ?Y" by (simp add: not_in_iff)
  then have small: "int (count (?D + ?Y) ?r) + 1 < OBJ_FIRST_SPECIAL_REFCOUNT"
    unfolding not_in_iff by (simp only: refcount_limits) simp
  obtain h r where e: "tryObjectEncoding (no_shared st) (heap st) ?r = Some (h, r)" "gives (heap st) (?D + ?Y) h r (bs ! i)"
      "r = ?r \<or> fresh_for r (?D + ?Y)"
    using tryObjectEncoding_spec[OF ok(1) args_fromD(4)[OF args i ji] small] by blast
  have fresh: "fresh_for r (?D + ?Y)" using e(3) lone by (auto simp: fresh_for_def)
  have lims: "lim (add_mset r (?D + ?Y))" "lim (add_mset r (add_mset r (?D + ?Y)))"
    using lim_fresh_for[OF lim_sub[OF ok(2)] fresh] by auto
  have g: "heap_ok h (add_mset r (?D + ?Y))" "val_of h r = Some (VStr (bs ! i))" "keeps (heap st) h (?D + ?Y)"
    using e(2) by (simp_all add: gives_def)
  have "db_inv (st\<lparr>heap := h\<rparr>) (add_mset r ?Y)"
    using inv g(1) lims(1) by (simp add: db_inv_def store_ok_def)
  moreover have "view h (db_dict st) (db_expires st) = view (heap st) (db_dict st) (db_expires st)"
    using inv g(3) by (intro view_keeps) (auto simp: db_inv_def store_ok_def keeps_def)
  then have "keyspace (st\<lparr>heap := h\<rparr>) = keyspace st" by (simp add: keyspace_def raw_map_def fun_eq_iff)
  moreover have "frame st (st\<lparr>heap := h\<rparr>) ?Y" using g(3) by (auto simp: frame_def keeps_def)
  moreover have "roomy (st\<lparr>heap := h\<rparr>) (add_mset r ?Y) r" using lims(2) by (simp add: roomy_def)
  ultimately show ?thesis
    using e(1) g(2) len fresh by (auto simp: encode_arg_def)
qed

section \<open>SET\<close>

lemma frame_val: "frame st st' X \<Longrightarrow> r \<in># X \<Longrightarrow> val_of (heap st') r = val_of (heap st) r"
  using keeps_val[of "heap st" "heap st'" X r] by (simp add: frame_def)

lemma inv_heap: "db_inv st X \<Longrightarrow> heap_ok (heap st) (dict_refs (db_dict st) + X)"
  by (simp add: db_inv_def store_ok_def)

lemma getLongLong_spec:
  assumes "db_inv st X" "r \<in># X" "val_of (heap st) r = Some (VStr b)"
  shows "getLongLongFromObjectOrReply (heap st) (Some r) = Some (spec_int b)"
  using getLongLongFromObject_spec[OF inv_heap[OF assms(1)] _ assms(3)] assms(2)
  by (auto simp: getLongLongFromObjectOrReply_def spec_int_def split: option.splits)

lemma spec_int_range: "spec_int b = Inr v \<Longrightarrow> string2ll b = Some v \<and> LLONG_MIN \<le> v \<and> v \<le> LLONG_MAX"
  using string2ll_spec[of b] by (auto simp: spec_int_def split: option.splits)

lemma getLong_spec:
  assumes "db_inv st X" "r \<in># X" "val_of (heap st) r = Some (VStr b)"
  shows "getLongFromObjectOrReply (heap st) (Some r) = Some (spec_int b)"
  using getLongLong_spec[OF assms] spec_int_range[of b]
  by (auto simp: getLongFromObjectOrReply_def split: sum.splits)

text \<open>An expire argument together with its bytes.\<close>

definition expire_arg :: "redis \<Rightarrow> oref multiset \<Rightarrow> oref option \<Rightarrow> char list option \<Rightarrow> time_unit \<Rightarrow> bool" where
  "expire_arg st X expire eb unit \<longleftrightarrow>
     (case (expire, eb) of
        (None, None) \<Rightarrow> True
      | (Some r, Some b) \<Rightarrow> r \<in># X \<and> val_of (heap st) r = Some (VStr b) \<and> expire_ok (now st) b unit
      | _ \<Rightarrow> False)"

lemma expire_ms_spec:
  assumes "db_inv st X" "expire_arg st X expire eb unit"
  shows "expire_ms st expire unit name = Some (spec_expire eb unit name)"
    "\<And>ms. spec_expire eb unit name = Inr ms \<Longrightarrow> eb \<noteq> None \<Longrightarrow> 0 < ms \<and> now st + ms \<le> LLONG_MAX"
proof -
  have pos: "0 \<le> now st" using assms(1) by (simp add: db_inv_def)
  show "expire_ms st expire unit name = Some (spec_expire eb unit name)"
  proof (cases expire)
    case None
    then show ?thesis using assms(2) by (cases eb) (auto simp: expire_arg_def expire_ms_def spec_expire_def)
  next
    case (Some r)
    then obtain b where b: "eb = Some b" "r \<in># X" "val_of (heap st) r = Some (VStr b)" "expire_ok (now st) b unit"
      using assms(2) by (cases eb) (auto simp: expire_arg_def)
    show ?thesis
      using getLongLong_spec[OF assms(1) b(2,3)] b(4) pos Some b(1)
      by (auto simp: expire_ms_def spec_expire_def expire_ok_def dest!: spec_int_range split: sum.splits)
  qed
  show "0 < ms \<and> now st + ms \<le> LLONG_MAX" if "spec_expire eb unit name = Inr ms" "eb \<noteq> None" for ms
    using that assms(2)
    by (auto simp: spec_expire_def expire_arg_def expire_ok_def dest!: spec_int_range split: option.splits sum.splits if_splits)
qed

lemma lookupKeyWrite_spec:
  assumes "db_inv st X"
  shows "\<exists>st' ob. lookupKeyWrite st key = Some (st', ob) \<and> db_inv st' X \<and> frame st st' X \<and> keyspace st' = keyspace st \<and>
    dict_refs (db_dict st') \<subseteq># dict_refs (db_dict st) \<and> (ob = None \<longleftrightarrow> keyspace st key = None)"
  by (rule lookupWriteE[OF assms, of key]) auto

lemma set_aborts_spec:
  assumes inv: "db_inv st X"
  shows "\<exists>st'. set_aborts st flags key = Some (st', (OBJ_SET_NX flags \<and> keyspace st key \<noteq> None) \<or>
      (OBJ_SET_XX flags \<and> keyspace st key = None)) \<and>
    db_inv st' X \<and> frame st st' X \<and> keyspace st' = keyspace st \<and> dict_refs (db_dict st') \<subseteq># dict_refs (db_dict st)"
proof -
  obtain st1 o1 where 1: "lookupKeyWrite st key = Some (st1, o1)" "db_inv st1 X" "frame st st1 X" "keyspace st1 = keyspace st"
      "dict_refs (db_dict st1) \<subseteq># dict_refs (db_dict st)" "o1 = None \<longleftrightarrow> keyspace st key = None"
    using lookupKeyWrite_spec[OF inv, of key] by metis
  obtain st2 o2 where 2: "lookupKeyWrite st1 key = Some (st2, o2)" "db_inv st2 X" "frame st1 st2 X" "keyspace st2 = keyspace st1"
      "dict_refs (db_dict st2) \<subseteq># dict_refs (db_dict st1)" "o2 = None \<longleftrightarrow> keyspace st1 key = None"
    using lookupKeyWrite_spec[OF 1(2), of key] by metis
  have "dict_refs (db_dict st2) \<subseteq># dict_refs (db_dict st)" using 2(5) 1(5) by (rule subset_mset.order_trans)
  with 1 2 inv frame_trans[OF 1(3) 2(3)] show ?thesis
    by (cases "OBJ_SET_NX flags"; cases "OBJ_SET_XX flags") (auto simp: set_aborts_def)
qed

lemma roomy_mono:
  assumes "roomy st X r" "dict_refs (db_dict st') \<subseteq># dict_refs (db_dict st)"
  shows "roomy st' X r"
  using assms(1) unfolding roomy_def by (rule lim_subset) (use assms(2) in simp)

text \<open>What the refinement of a command says of its final state.\<close>

definition step_ok :: "redis \<Rightarrow> redis \<Rightarrow> oref multiset \<Rightarrow> keymap \<Rightarrow> bool" where
  "step_ok st st' X m \<longleftrightarrow> frame st st' X \<and> keyspace st' = m \<and> (\<forall>k. keyspace st' k \<noteq> keyspace st k \<longrightarrow> marked st' k)"

lemma set_store_spec:
  assumes inv: "db_inv st (add_mset r X)" and v: "val_of (heap st) r = Some (VStr v)"
    and roomy: "roomy st (add_mset r X) r" and d: "ex \<longrightarrow> 0 < d \<and> now st + d \<le> LLONG_MAX"
  shows "\<exists>st'. do {
      st \<leftarrow> genericSetKey st key r keepttl True;
      let st = st\<lparr>dirty := dirty st + 1\<rparr>;
      st \<leftarrow> (if ex then if now st + d > LLONG_MAX then None else setExpire st key (now st + d) else Some st);
      let st = notifyKeyspaceEvent ''set'' key st;
      let st = (if ex then notifyKeyspaceEvent ''expire'' key st else st);
      Some (st, rep)
    } = Some (st', rep) \<and> db_inv st' (add_mset r X) \<and> frame st st' (add_mset r X) \<and> marked st' key \<and>
    keyspace st' = (keyspace st)(key \<mapsto> (VStr v, if ex then Some (now st + d) else if keepttl then ttl (keyspace st) key else None))"
proof -
  let ?X = "add_mset r X"
  obtain st2 where st2: "genericSetKey st key r keepttl True = Some st2" "db_inv st2 ?X"
      "keyspace st2 = (keyspace st)(key \<mapsto> (VStr v, if keepttl then ttl (keyspace st) key else None))"
      "frame st st2 ?X" "marked st2 key" "db_dict st2 key = Some r"
    using genericSetKey_spec[OF inv v roomy, of key keepttl True] unfolding ttl_def by blast
  let ?st = "st2\<lparr>dirty := dirty st2 + 1\<rparr>"
  have inv2: "db_inv ?st ?X" and n: "now ?st = now st" using st2(2) frame_now[OF st2(4)] by simp_all
  show ?thesis
  proof (cases ex)
    case False
    then show ?thesis using st2 by simp
  next
    case True
    have "0 \<le> now st" using inv by (simp add: db_inv_def)
    have val2: "val_of (heap st2) r = Some (VStr v)" using frame_val[OF st2(4), of r] v by simp
    have raw: "raw_map ?st key = Some (VStr v, db_expires st2 key)"
      using raw_lookup[OF st2(2,6)] val2 by auto
    obtain st3 where st3: "setExpire ?st key (now st + d) = Some st3" "db_inv st3 ?X" "frame ?st st3 ?X"
        "raw_map st3 = (raw_map ?st)(key \<mapsto> (VStr v, Some (now st + d)))"
      using setExpire_spec[OF inv2 raw, of "now st + d"] d True \<open>0 \<le> now st\<close> by auto
    have "keyspace st3 = (keyspace ?st)(key := live (now st) (Some (VStr v, Some (now st + d))))"
      using keyspace_upd[OF st3(4) frame_now[OF st3(3)]] n by simp
    then have "keyspace st3 = (keyspace st)(key \<mapsto> (VStr v, Some (now st + d)))"
      using d True st2(3) by (auto simp: fun_eq_iff)
    moreover have "marked st3 key" using frame_marked[OF st3(3)] st2(5) by simp
    moreover have "frame st st3 ?X" using frame_trans[of st ?st ?X st3] st2(4) st3(3) by simp
    ultimately show ?thesis using True st2(1) st3(1,2) n d by simp
  qed
qed

lemma setGenericCommand_spec:
  assumes inv: "db_inv st (add_mset r X)" and v: "val_of (heap st) r = Some (VStr v)"
    and roomy: "roomy st (add_mset r X) r" and ex: "expire_arg st X expire eb unit"
    and spec: "spec_set (now st) (keyspace st) flags key v eb unit name (case okr of Some x \<Rightarrow> x | None \<Rightarrow> shared_ok)
        (case abr of Some x \<Rightarrow> x | None \<Rightarrow> RNull) = (m, rep)"
  shows "\<exists>st'. setGenericCommand st flags key r expire unit name okr abr = Some (st', rep) \<and>
    db_inv st' (add_mset r X) \<and> step_ok st st' (add_mset r X) m"
proof -
  let ?X = "add_mset r X"
  have ex': "expire_arg st ?X expire eb unit" using ex by (auto simp: expire_arg_def split: option.splits)
  note ms = expire_ms_spec[OF inv ex', of name]
  have exeb: "expire \<noteq> None \<longleftrightarrow> eb \<noteq> None" using ex by (auto simp: expire_arg_def split: option.splits)
  define ab where "ab \<longleftrightarrow> (OBJ_SET_NX flags \<and> keyspace st key \<noteq> None) \<or> (OBJ_SET_XX flags \<and> keyspace st key = None)"
  obtain st1 where st1: "set_aborts st flags key = Some (st1, ab)" "db_inv st1 ?X" "frame st st1 ?X"
      "keyspace st1 = keyspace st" "dict_refs (db_dict st1) \<subseteq># dict_refs (db_dict st)"
    using set_aborts_spec[OF inv] unfolding ab_def by blast
  note sp = spec[unfolded spec_set_def, folded ab_def]
  consider (err) e where "spec_expire eb unit name = Inl e" | (abort) d where "spec_expire eb unit name = Inr d" ab
    | (go) d where "spec_expire eb unit name = Inr d" "\<not> ab" by (cases "spec_expire eb unit name") auto
  then show ?thesis
  proof cases
    case err
    then show ?thesis using ms(1) inv spec by (auto simp: setGenericCommand_def spec_set_def step_ok_def)
  next
    case abort
    then have "setGenericCommand st flags key r expire unit name okr abr = Some (st1, rep)" "m = keyspace st"
      using sp ms(1) st1(1) by (simp_all add: setGenericCommand_def)
    then show ?thesis using st1 by (simp add: step_ok_def)
  next
    case go
    have v1: "val_of (heap st1) r = Some (VStr v)" using frame_val[OF st1(3), of r] v by simp
    have n: "now st1 = now st" using frame_now[OF st1(3)] .
    have d: "expire \<noteq> None \<longrightarrow> 0 < d \<and> now st1 + d \<le> LLONG_MAX" using ms(2)[OF go(1)] exeb n by simp
    have rp: "rep = (case okr of Some r \<Rightarrow> r | None \<Rightarrow> shared_ok)"
      and m: "m = (keyspace st)(key \<mapsto> (VStr v, if expire \<noteq> None then Some (now st1 + d)
           else if OBJ_SET_KEEPTTL flags then ttl (keyspace st) key else None))"
      using sp go exeb by (auto simp: n)
    from set_store_spec[OF st1(2) v1 roomy_mono[OF roomy st1(5)] d, of key "OBJ_SET_KEEPTTL flags" rep]
    obtain st' where "setGenericCommand st flags key r expire unit name okr abr = Some (st', rep)"
      "db_inv st' ?X" "frame st1 st' ?X" "marked st' key" "keyspace st' = m"
      using ms(1) go st1(1,4) rp m by (auto simp: setGenericCommand_def)
    then show ?thesis using frame_trans[OF st1(3)] m by (auto simp: step_ok_def)
  qed
qed

definition refines :: "redis \<Rightarrow> oref multiset \<Rightarrow> result option \<Rightarrow> keymap \<times> reply \<Rightarrow> bool" where
  "refines st X res spec \<longleftrightarrow>
     (\<exists>st' argv' rep. res = Some (st', argv', rep) \<and> db_inv st' (mset argv' + X) \<and> step_ok st st' X (fst spec) \<and>
        rep = snd spec)"

lemma frame_step: "frame st st1 X \<Longrightarrow> keyspace st1 = keyspace st \<Longrightarrow> step_ok st1 st' X m \<Longrightarrow> step_ok st st' X m"
  by (auto simp: step_ok_def intro: frame_trans)

lemma step_ok_sub: "step_ok st st' Y m \<Longrightarrow> set_mset X \<subseteq> set_mset Y \<Longrightarrow> step_ok st st' X m"
  by (auto simp: step_ok_def intro: frame_sub)

lemma others_sub: "set_mset X \<subseteq> set_mset (others argv i X)"
  by (auto simp: others_def)

text \<open>Encoding the value argument and storing it, with an optional expire argument.\<close>

lemma set_family:
  assumes args: "args_ok st argv X bs" and i: "i < length bs" and j: "pred_option (\<lambda>j. j < length bs \<and> j \<noteq> i) j"
    and ok: "pred_option (\<lambda>j. expire_ok (now st) (bs ! j) unit) j" and same: "argv0 = argv"
  shows "refines st X (do {
      (st, argv, val) \<leftarrow> encode_arg st argv i;
      (st, rep) \<leftarrow> setGenericCommand st flags key val (map_option ((!) argv0) j) unit name okr abr;
      Some (st, argv, rep) })
    (spec_set (now st) (keyspace st) flags key (bs ! i) (map_option ((!) bs) j) unit name
       (case okr of Some x \<Rightarrow> x | None \<Rightarrow> shared_ok) (case abr of Some x \<Rightarrow> x | None \<Rightarrow> RNull))"
proof -
  let ?Y = "others argv i X" and ?eb = "map_option ((!) bs) j"
  let ?spec = "spec_set (now st) (keyspace st) flags key (bs ! i) ?eb unit name
       (case okr of Some x \<Rightarrow> x | None \<Rightarrow> shared_ok) (case abr of Some x \<Rightarrow> x | None \<Rightarrow> RNull)"
  have len: "i < length argv" "length argv = length bs" using args i by (simp_all add: args_from_def)
  obtain h r where e: "encode_arg st argv i = Some (st\<lparr>heap := h\<rparr>, argv[i := r], r)"
      "db_inv (st\<lparr>heap := h\<rparr>) (add_mset r ?Y)" "keyspace (st\<lparr>heap := h\<rparr>) = keyspace st"
      "frame st (st\<lparr>heap := h\<rparr>) ?Y" "val_of h r = Some (VStr (bs ! i))" "roomy (st\<lparr>heap := h\<rparr>) (add_mset r ?Y) r"
    using encode_arg_spec[OF args i] by auto
  let ?st = "st\<lparr>heap := h\<rparr>"
  have ex: "expire_arg ?st ?Y (map_option ((!) argv) j) ?eb unit"
  proof (cases j)
    case (Some a)
    then have a: "a < length argv" "a \<noteq> i" "argv ! a \<in># ?Y" using j len by (auto intro: others_in)
    then have "val_of h (argv ! a) = Some (VStr (bs ! a))"
      using frame_val[OF e(4) a(3)] args_okD(4)[OF args, of a] len by simp
    with a ok Some show ?thesis by (simp add: expire_arg_def)
  qed (simp add: expire_arg_def)
  obtain st' where st': "setGenericCommand ?st flags key r (map_option ((!) argv) j) unit name okr abr = Some (st', snd ?spec)"
      "db_inv st' (add_mset r ?Y)" "step_ok ?st st' (add_mset r ?Y) (fst ?spec)"
    using setGenericCommand_spec[OF e(2) _ e(6) ex, of "bs ! i" flags key name okr abr "fst ?spec" "snd ?spec"] e(3,5) by auto
  have "step_ok st st' X (fst ?spec)"
    using frame_step[OF frame_sub[OF e(4) others_sub] e(3)] step_ok_sub[OF st'(3), of X] others_sub[of X argv i] by auto
  with st' e(1) same show ?thesis by (auto simp: refines_def others_update[OF len(1)])
qed

lemma mapM_nth: "length xs = length ys \<Longrightarrow> (\<And>i. i < length xs \<Longrightarrow> f (xs ! i) = Some (ys ! i)) \<Longrightarrow> mapM f xs = Some ys"
proof (induction xs ys rule: list_induct2)
  case (Cons x xs y ys)
  have "f x = Some y" using Cons.prems[of 0] by simp
  moreover have "mapM f xs = Some ys" using Cons.prems[of "Suc _"] by (intro Cons.IH) simp
  ultimately show ?case by simp
qed simp

text \<open>The option loop does not look at what the arguments are attached to.\<close>

lemma set_options_map:
  "set_options (map (map_prod g id) xs) flags unit (map_option g e) =
     map_option (\<lambda>(f, u, e). (f, u, map_option g e)) (set_options xs flags unit e)"
proof (induction xs flags unit e rule: set_options.induct)
  case (2 r a rest flags unit e)
  show ?case
  proof (cases rest)
    case Nil
    then show ?thesis using 2 by simp
  next
    case (Cons p rest')
    then show ?thesis using 2 by (cases p) simp
  qed
qed simp

lemma set_options_in:
  "set_options xs flags unit e = Some (f, u, Some x) \<Longrightarrow> x \<in> fst ` set xs \<or> e = Some x"
proof (induction xs flags unit e rule: set_options.induct)
  case (2 r a rest flags unit e)
  show ?case
  proof (cases rest)
    case Nil
    then show ?thesis using 2 by (auto split: if_splits)
  next
    case (Cons p rest')
    then show ?thesis using 2 by (cases p) (force split: if_splits)
  qed
qed simp

lemma setCommand_refines:
  assumes args: "args_ok st argv X bs" and len: "3 \<le> length bs" and ok: "arith_ok SET (now st) bs"
  shows "refines st X (setCommand st argv) (spec_proc SET (now st) limit bs (keyspace st))"
proof -
  have l: "length argv = length bs" using args by (simp add: args_from_def)
  have m: "mapM (arg_bytes (heap st)) (drop 3 argv) = Some (drop 3 bs)"
    using args_okD(2)[OF args] l by (intro mapM_nth) simp_all
  let ?xs = "zip [3..<length bs] (drop 3 bs)"
  have z: "zip (drop 3 ys) (drop 3 bs) = map (map_prod ((!) ys) id) ?xs" if "length ys = length bs" for ys :: "'a list"
    using that by (intro nth_equalityI) auto
  let ?o = "set_options ?xs OBJ_SET_NO_FLAGS UNIT_SECONDS None"
  note nat = set_options_map[where e = None and xs = ?xs, unfolded option.map]
  show ?thesis
  proof (cases ?o)
    case None
    then have "setCommand st argv = Some (st, argv, shared_syntaxerr)"
      using m by (simp add: setCommand_def z[OF l] nat)
    then show ?thesis using None args by (simp add: refines_def z[of bs] nat step_ok_def args_from_def)
  next
    case (Some p)
    obtain flags unit j where p: "p = (flags, unit, j)" by (cases p)
    have j: "pred_option (\<lambda>j. j < length bs \<and> j \<noteq> 2) j"
    proof (cases j)
      case (Some x)
      then have "x \<in> fst ` set ?xs" using set_options_in[of ?xs] \<open>?o = Some p\<close> p by blast
      then show ?thesis using Some by (auto dest: set_zip_leftD)
    qed simp
    have "pred_option (\<lambda>j. expire_ok (now st) (bs ! j) unit) j"
      using ok Some p by (cases j) (auto simp: z[of bs] nat)
    from set_family[OF args _ j this, of argv flags "bs ! 1" "''set''" None None] len
    show ?thesis using Some p m args_okD(3)[OF args, of 1] len
      by (simp add: setCommand_def z[OF l] z[of bs] nat)
  qed
qed

lemma setnxCommand_refines:
  assumes args: "args_ok st argv X bs" and len: "length bs = 3"
  shows "refines st X (setnxCommand st argv) (spec_proc SETNX (now st) limit bs (keyspace st))"
  using set_family[OF args, of 2 None UNIT_SECONDS argv "OBJ_SET_NO_FLAGS\<lparr>OBJ_SET_NX := True\<rparr>" "bs ! 1" "''setnx''"
      "Some shared_cone" "Some shared_czero"] len args_okD(3)[OF args, of 1]
  by (simp add: setnxCommand_def)

lemma setexCommand_refines:
  assumes args: "args_ok st argv X bs" and len: "length bs = 4" and ok: "arith_ok SETEX (now st) bs"
  shows "refines st X (setexCommand st argv) (spec_proc SETEX (now st) limit bs (keyspace st))"
  using set_family[OF args, of 3 "Some 2" UNIT_SECONDS argv OBJ_SET_NO_FLAGS "bs ! 1" "''setex''" None None]
    len ok args_okD(3)[OF args, of 1] args_okD(1)[OF args, of 2]
  by (simp add: setexCommand_def)

lemma psetexCommand_refines:
  assumes args: "args_ok st argv X bs" and len: "length bs = 4" and ok: "arith_ok PSETEX (now st) bs"
  shows "refines st X (psetexCommand st argv) (spec_proc PSETEX (now st) limit bs (keyspace st))"
  using set_family[OF args, of 3 "Some 2" UNIT_MILLISECONDS argv OBJ_SET_NO_FLAGS "bs ! 1" "''psetex''" None None]
    len ok args_okD(3)[OF args, of 1] args_okD(1)[OF args, of 2]
  by (simp add: psetexCommand_def)

section \<open>Reading commands\<close>

lemma checkType_spec:
  assumes "heap_ok h R" "r \<in># R" "val_of h r = Some v"
  shows "checkType h r OBJ_STRING = Some (case v of VStr _ \<Rightarrow> None | VObj _ _ \<Rightarrow> Some shared_wrongtypeerr)"
proof -
  obtain ob where ob: "deref h r = Some ob" "obj_ok ob" "v = obj_val ob"
    using deref_ok[OF assms(1,2)] assms(3) by (metis option.inject)
  then show ?thesis by (cases "o_ptr ob") (auto simp: checkType_def obj_ok_def)
qed

lemma addReplyBulk_spec:
  assumes "heap_ok h R" "r \<in># R" "val_of h r = Some (VStr s)"
  shows "addReplyBulk h r = Some (RBulk s)"
proof -
  obtain ob where ob: "deref h r = Some ob" "obj_ok ob" "obj_val ob = VStr s" using heap_strE[OF assms] by auto
  with obj_str_spec[OF ob(2,3)] show ?thesis by (auto simp: addReplyBulk_def)
qed

lemma args_ok_step:
  assumes args: "args_from st argv X bs j" and inv: "db_inv st' (mset argv + X)" and fr: "frame st st' (mset argv + X)"
    and sub: "dict_refs (db_dict st') \<subseteq># dict_refs (db_dict st)"
  shows "args_from st' argv X bs j"
proof -
  have "arg_bytes (heap st') (argv ! i) = Some (bs ! i) \<and> count (dict_refs (db_dict st') + (mset argv + X)) (argv ! i) = 1"
    if i: "i < length argv" "j \<le> i" for i
  proof -
    have "length argv = length bs" using args by (simp add: args_from_def)
    then have a: "arg_bytes (heap st) (argv ! i) = Some (bs ! i)"
      "count (dict_refs (db_dict st) + (mset argv + X)) (argv ! i) = 1"
      using args_fromD[OF args _ i(2)] i(1) by simp_all
    have "count (dict_refs (db_dict st')) (argv ! i) \<le> count (dict_refs (db_dict st)) (argv ! i)"
      using sub by (rule mset_subset_eq_count)
    moreover have "0 < count (mset argv) (argv ! i)" using i(1) by simp
    ultimately have "count (dict_refs (db_dict st') + (mset argv + X)) (argv ! i) = 1"
      using a(2) by (simp only: count_union)
    then show ?thesis
      using a(1) i(1) arg_bytes_keeps[of "heap st" "heap st'" "mset argv + X" "argv ! i"] fr by (simp add: frame_def)
  qed
  then show ?thesis using args inv by (simp add: args_from_def)
qed

text \<open>The three outcomes of a lookup: no key, a key of another type, a string.\<close>

lemma lookupRead_cases:
  assumes args: "args_ok st argv X bs"
  obtains (none) st' where "lookupKeyRead st key = Some (st', None)" "args_ok st' argv X bs"
      "frame st st' (mset argv + X)" "keyspace st' = keyspace st" "keyspace st key = None"
  | (obj) st' r t p w where "lookupKeyRead st key = Some (st', Some r)" "args_ok st' argv X bs"
      "frame st st' (mset argv + X)" "keyspace st' = keyspace st" "keyspace st key = Some (VObj t p, w)"
      "r \<in># dict_refs (db_dict st') + (mset argv + X)" "val_of (heap st') r = Some (VObj t p)"
  | (str) st' r s w where "lookupKeyRead st key = Some (st', Some r)" "args_ok st' argv X bs"
      "frame st st' (mset argv + X)" "keyspace st' = keyspace st" "keyspace st key = Some (VStr s, w)"
      "r \<in># dict_refs (db_dict st') + (mset argv + X)" "val_of (heap st') r = Some (VStr s)"
proof -
  have inv: "db_inv st (mset argv + X)" using args by (simp add: args_from_def)
  show thesis
  proof (rule lookupReadE[OF inv, of key])
    fix st'
    assume "lookupKeyRead st key = Some (st', None)" "db_inv st' (mset argv + X)" "frame st st' (mset argv + X)"
      "keyspace st' = keyspace st" "keyspace st key = None" "dict_refs (db_dict st') \<subseteq># dict_refs (db_dict st)"
    with none args_ok_step[OF args] show thesis by blast
  next
    fix st' r v
    assume "lookupKeyRead st key = Some (st', Some r)" "db_inv st' (mset argv + X)" "frame st st' (mset argv + X)"
      "keyspace st' = keyspace st" "keyspace st key = Some (v, db_expires st' key)"
      "val_of (heap st') r = Some v" "r \<in># dict_refs (db_dict st') + (mset argv + X)"
      "dict_refs (db_dict st') \<subseteq># dict_refs (db_dict st)"
    with str obj args_ok_step[OF args] show thesis by (cases v) blast+
  qed
qed

lemma args_inv: "args_ok st argv X bs \<Longrightarrow> db_inv st (mset argv + X)"
  by (simp add: args_from_def)

lemma getGenericCommand_spec:
  assumes args: "args_ok st argv X bs" and len: "1 < length bs"
  shows "\<exists>st'. getGenericCommand st argv = Some (st', \<not> isl (spec_str (keyspace st) (bs ! 1)), spec_get (keyspace st) (bs ! 1)) \<and>
    args_ok st' argv X bs \<and> frame st st' (mset argv + X) \<and> keyspace st' = keyspace st"
  using args
proof (cases rule: lookupRead_cases[of _ _ _ _ "bs ! 1"])
  case none
  then show ?thesis using args_okD(3)[OF args len] by (simp add: getGenericCommand_def spec_str_def spec_get_def)
next
  case obj
  note hp = inv_heap[OF args_inv[OF obj(2)]]
  show ?thesis using obj args_okD(3)[OF args len] checkType_spec[OF hp obj(6,7)]
    by (simp add: getGenericCommand_def spec_str_def spec_get_def)
next
  case str
  note hp = inv_heap[OF args_inv[OF str(2)]]
  show ?thesis
    using str args_okD(3)[OF args len] checkType_spec[OF hp str(6,7)] addReplyBulk_spec[OF hp str(6,7)]
    by (simp add: getGenericCommand_def spec_str_def spec_get_def)
qed

lemma read_step: "frame st st' (Y + X) \<Longrightarrow> keyspace st' = keyspace st \<Longrightarrow> step_ok st st' X (keyspace st)"
  by (auto simp: step_ok_def intro: frame_sub)

lemma getCommand_refines:
  assumes args: "args_ok st argv X bs" and len: "length bs = 2"
  shows "refines st X (getCommand st argv) (spec_proc GET (now st) limit bs (keyspace st))"
  using getGenericCommand_spec[OF args] len
  by (auto simp: getCommand_def refines_def dest: args_inv intro: read_step)

lemma strlenCommand_refines:
  assumes args: "args_ok st argv X bs" and len: "length bs = 2"
  shows "refines st X (strlenCommand st argv) (spec_proc STRLEN (now st) limit bs (keyspace st))"
proof -
  have k: "arg_key st argv 1 = Some (bs ! 1)" using args_okD(3)[OF args] len by simp
  show ?thesis
    using args
  proof (cases rule: lookupRead_cases[of _ _ _ _ "bs ! 1"])
    case none
    then show ?thesis using k args_inv[OF none(2)] read_step[OF none(3,4)]
      by (simp add: strlenCommand_def spec_str_def refines_def shared_czero_def)
  next
    case obj
    note hp = inv_heap[OF args_inv[OF obj(2)]]
    show ?thesis using obj k args_inv[OF obj(2)] read_step[OF obj(3,4)] checkType_spec[OF hp obj(6,7)]
      by (simp add: strlenCommand_def spec_str_def refines_def)
  next
    case str
    note hp = inv_heap[OF args_inv[OF str(2)]]
    show ?thesis
      using str k args_inv[OF str(2)] read_step[OF str(3,4)] checkType_spec[OF hp str(6,7)] stringObjectLen_spec[OF hp str(6,7)]
      by (simp add: strlenCommand_def spec_str_def refines_def)
  qed
qed

lemma to_ll_id: "LLONG_MIN \<le> x \<Longrightarrow> x \<le> LLONG_MAX \<Longrightarrow> to_ll x = x"
  unfolding to_ll_def by (rule sint_of_int64) (simp_all add: LLONG_MIN_def LLONG_MAX_def)

lemma to_size_id: "0 \<le> x \<Longrightarrow> x \<le> LLONG_MAX \<Longrightarrow> to_size x = nat x"
  by (simp add: to_size_def LLONG_MAX_def unat_eq_nat_uint uint_word_of_int)

lemma range_bounds_spec:
  assumes "LLONG_MIN \<le> start" "start \<le> LLONG_MAX" "LLONG_MIN \<le> stop" "stop \<le> LLONG_MAX" "length s \<le> MAX_STR"
  shows "case range_bounds start stop (length s) of
      None \<Rightarrow> spec_range start stop s = []
    | Some (a, b) \<Rightarrow> 0 \<le> a \<and> a \<le> b \<and> b < int (length s) \<and>
        spec_range start stop s = take (nat (b - a + 1)) (drop (nat a) s)"
proof -
  let ?n = "int (length s)"
  define a where "a = (if start < 0 then max 0 (?n + start) else start)"
  define b0 where "b0 = (if stop < 0 then max 0 (?n + stop) else stop)"
  define b where "b = min b0 (?n - 1)"
  have n: "?n \<le> 2 ^ 61" using assms(5) by (simp add: MAX_STR_def)
  have ll: "start < 0 \<Longrightarrow> to_ll (?n + start) = ?n + start" "stop < 0 \<Longrightarrow> to_ll (?n + stop) = ?n + stop"
    "to_ll (?n - 1) = ?n - 1"
    using assms n by (auto intro!: to_ll_id simp: LLONG_MIN_def LLONG_MAX_def)
  have b0: "0 \<le> b0" "b0 \<le> LLONG_MAX" using assms n by (auto simp: b0_def LLONG_MAX_def)
  have ca: "(let start = (if start < 0 then to_ll (?n + start) else start) in if start < 0 then 0 else start) = a"
    using ll by (simp add: a_def Let_def)
  have cb: "(let stop = (if stop < 0 then to_ll (?n + stop) else stop) in if stop < 0 then 0 else stop) = b0"
    using ll by (simp add: b0_def Let_def)
  have cc: "(if to_size b0 \<ge> length s then to_ll (?n - 1) else b0) = b"
    using b0 ll(3) by (auto simp: b_def to_size_id min_def)
  show ?thesis
  proof (cases "start < 0 \<and> stop < 0 \<and> start > stop")
    case True then show ?thesis by (simp add: range_bounds_def spec_range_def)
  next
    case False
    have r: "range_bounds start stop (length s) = (if a > b \<or> length s = 0 then None else Some (a, b))"
      unfolding range_bounds_def if_not_P[OF False] Let_def ca[unfolded Let_def] cb[unfolded Let_def] cc ..
    have sp: "spec_range start stop s = take (nat (b - a + 1)) (drop (nat a) s)"
      unfolding spec_range_def Let_def if_not_P[OF False] a_def b_def b0_def ..
    have "0 \<le> a" "b < ?n" by (auto simp: a_def b_def)
    with r sp show ?thesis by auto
  qed
qed

lemma getrange_str:
  assumes "obj_ok ob" "obj_val ob = VStr s"
  shows "\<exists>j. (if o_encoding ob = OBJ_ENCODING_INT
                then do { v \<leftarrow> obj_long ob; ll2string (stack_buf 32) 32 v }
                else do { s \<leftarrow> obj_sds ob; b \<leftarrow> sds_contents s; Some (b, sdslen s) }) = Some (s @ j, length s)"
  using assms
proof (cases rule: str_valE)
  case (1 x) then show ?thesis by (auto simp: sdslen_rep sdsEncodedObject_def)
next
  case (2 v) then show ?thesis using ll2string_stack[of v 32] by auto
qed

lemma heap_str_len: "heap_ok h R \<Longrightarrow> r \<in># R \<Longrightarrow> val_of h r = Some (VStr s) \<Longrightarrow> length s \<le> MAX_STR"
proof -
  assume a: "heap_ok h R" "r \<in># R" "val_of h r = Some (VStr s)"
  obtain ob where ob: "obj_ok ob" "obj_val ob = VStr s" using heap_strE[OF a] by auto
  then show ?thesis
  proof (cases rule: str_valE)
    case (2 v) then show ?thesis using length_show_int_le[of v] by (simp add: MAX_STR_def)
  qed simp
qed

lemma getrange_reply:
  assumes l: "lookupKeyRead st key = Some (st', Some r)" "arg_key st argv 1 = Some key"
    and hp: "heap_ok (heap st') R" "r \<in># R" "val_of (heap st') r = Some (VStr x)"
    and ints: "fetch argv 2 = Some a2" "fetch argv 3 = Some a3"
      "getLongLongFromObjectOrReply (heap st) (Some a2) = Some (Inr start)"
      "getLongLongFromObjectOrReply (heap st) (Some a3) = Some (Inr stop)"
    and rng: "LLONG_MIN \<le> start" "start \<le> LLONG_MAX" "LLONG_MIN \<le> stop" "stop \<le> LLONG_MAX"
  shows "getrangeCommand st argv = Some (st', argv, RBulk (spec_range start stop x))"
proof -
  obtain ob where ob: "deref (heap st') r = Some ob" "obj_ok ob" "obj_val ob = VStr x"
    using heap_strE[OF hp] by auto
  obtain j where j: "(if o_encoding ob = OBJ_ENCODING_INT
          then do { v \<leftarrow> obj_long ob; ll2string (stack_buf 32) 32 v }
          else do { s \<leftarrow> obj_sds ob; b \<leftarrow> sds_contents s; Some (b, sdslen s) }) = Some (x @ j, length x)"
    using getrange_str[OF ob(2,3)] by auto
  note rb = range_bounds_spec[OF rng heap_str_len[OF hp]] and ct = checkType_spec[OF hp]
  show ?thesis
  proof (cases "range_bounds start stop (length x)")
    case None
    then show ?thesis using l ints j ob(1) ct rb by (simp add: getrangeCommand_def shared_emptybulk_def)
  next
    case (Some ab)
    obtain a b where ab: "ab = (a, b)" by (cases ab)
    have "0 \<le> a" "a \<le> b" "b < int (length x)" "spec_range start stop x = take (nat (b - a + 1)) (drop (nat a) x)"
      using rb Some ab by auto
    then have "read_at (x @ j) (nat a) (nat (b - a + 1)) = Some (spec_range start stop x)" by simp
    with Some ab l ints j ob(1) ct show ?thesis by (simp add: getrangeCommand_def)
  qed
qed

lemma getrangeCommand_refines:
  assumes args: "args_ok st argv X bs" and len: "length bs = 4"
  shows "refines st X (getrangeCommand st argv) (spec_proc GETRANGE (now st) limit bs (keyspace st))"
proof -
  have i: "getLongLongFromObjectOrReply (heap st) (Some (argv ! 2)) = Some (spec_int (bs ! 2))"
    "getLongLongFromObjectOrReply (heap st) (Some (argv ! 3)) = Some (spec_int (bs ! 3))"
    "fetch argv 2 = Some (argv ! 2)" "fetch argv 3 = Some (argv ! 3)" "arg_key st argv 1 = Some (bs ! 1)"
    using getLongLong_spec[OF args_inv[OF args], of "argv ! 2" "bs ! 2"] getLongLong_spec[OF args_inv[OF args], of "argv ! 3" "bs ! 3"]
      args_okD[OF args, of 2] args_okD[OF args, of 3] args_okD(3)[OF args, of 1] len by auto
  show ?thesis
  proof (cases "\<exists>start stop. spec_int (bs ! 2) = Inr start \<and> spec_int (bs ! 3) = Inr stop")
    case False
    then show ?thesis
      using i args_inv[OF args]
      by (cases "spec_int (bs ! 2)"; cases "spec_int (bs ! 3)") (auto simp: getrangeCommand_def refines_def step_ok_def)
  next
    case True
    then obtain start stop where ss: "spec_int (bs ! 2) = Inr start" "spec_int (bs ! 3) = Inr stop" by auto
    show ?thesis
      using args
    proof (cases rule: lookupRead_cases[of _ _ _ _ "bs ! 1"])
      case none
      then show ?thesis using i ss args_inv[OF none(2)] read_step[OF none(3,4)]
        by (simp add: getrangeCommand_def spec_str_def refines_def shared_emptybulk_def)
    next
      case obj
      note hp = inv_heap[OF args_inv[OF obj(2)]]
      show ?thesis using obj i ss args_inv[OF obj(2)] read_step[OF obj(3,4)] checkType_spec[OF hp obj(6,7)]
        by (simp add: getrangeCommand_def spec_str_def refines_def)
    next
      case (str st' r x)
      note hp = inv_heap[OF args_inv[OF str(2)]]
      have "getrangeCommand st argv = Some (st', argv, RBulk (spec_range start stop x))"
        using getrange_reply[OF str(1) i(5) hp str(6,7) i(3,4)] i(1,2) ss spec_int_range[OF ss(1)] spec_int_range[OF ss(2)] by simp
      then show ?thesis using str ss args_inv[OF str(2)] read_step[OF str(3,4)] by (simp add: spec_str_def refines_def)
    qed
  qed
qed

lemma mget_loop_spec:
  assumes "args_ok st argv X bs" "j \<le> length bs"
  shows "\<exists>st'. mget_loop st (drop j argv) =
      Some (st', map (\<lambda>k. case keyspace st k of Some (VStr s, _) \<Rightarrow> RBulk s | _ \<Rightarrow> RNull) (drop j bs)) \<and>
    args_ok st' argv X bs \<and> frame st st' (mset argv + X) \<and> keyspace st' = keyspace st"
  using assms
proof (induction "length bs - j" arbitrary: st j)
  case 0
  then show ?case by (auto simp: args_from_def)
next
  case (Suc n)
  note args = Suc.prems(1)
  have j: "j < length bs" "j < length argv" using Suc args by (auto simp: args_from_def)
  have d: "drop j argv = argv ! j # drop (Suc j) argv" "drop j bs = bs ! j # drop (Suc j) bs"
    using j by (simp_all add: Cons_nth_drop_Suc)
  note k = args_okD(2)[OF args j(1)]
  let ?f = "\<lambda>k. case keyspace st k of Some (VStr s, _) \<Rightarrow> RBulk s | _ \<Rightarrow> RNull"
  have "\<exists>st1 ob. lookupKeyRead st (bs ! j) = Some (st1, ob) \<and> args_ok st1 argv X bs \<and>
      frame st st1 (mset argv + X) \<and> keyspace st1 = keyspace st \<and>
      (case ob of None \<Rightarrow> Some RNull
       | Some r \<Rightarrow> do { ob \<leftarrow> deref (heap st1) r;
           if o_type ob \<noteq> OBJ_STRING then Some RNull else addReplyBulk (heap st1) r }) = Some (?f (bs ! j))"
    using args
  proof (cases rule: lookupRead_cases[of _ _ _ _ "bs ! j"])
    case none
    then show ?thesis by simp
  next
    case (obj st' r)
    note hp = inv_heap[OF args_inv[OF obj(2)]]
    obtain ob where "deref (heap st') r = Some ob" by (rule deref_ok[OF hp obj(6)])
    with obj checkType_spec[OF hp obj(6,7)] show ?thesis by (auto simp: checkType_def split: if_splits)
  next
    case (str st' r x)
    note hp = inv_heap[OF args_inv[OF str(2)]]
    obtain ob where "deref (heap st') r = Some ob" "o_type ob = OBJ_STRING"
      using heap_strE[OF hp str(6,7)] by metis
    with str addReplyBulk_spec[OF hp str(6,7)] show ?thesis by simp
  qed
  then obtain st1 ob where s: "lookupKeyRead st (bs ! j) = Some (st1, ob)" "args_ok st1 argv X bs"
      "frame st st1 (mset argv + X)" "keyspace st1 = keyspace st"
      "(case ob of None \<Rightarrow> Some RNull
       | Some r \<Rightarrow> do { ob \<leftarrow> deref (heap st1) r;
           if o_type ob \<noteq> OBJ_STRING then Some RNull else addReplyBulk (heap st1) r }) = Some (?f (bs ! j))"
    by blast
  have "n = length bs - Suc j" "Suc j \<le> length bs" using Suc.hyps(2) j by auto
  from Suc.hyps(1)[OF this(1) s(2) this(2)] obtain st2 where
    "mget_loop st1 (drop (Suc j) argv) = Some (st2, map ?f (drop (Suc j) bs))" "args_ok st2 argv X bs"
    "frame st1 st2 (mset argv + X)" "keyspace st2 = keyspace st"
    using s(4) by auto
  then show ?case using s k frame_trans[OF s(3)] by (auto simp: d)
qed

lemma mgetCommand_refines:
  assumes args: "args_ok st argv X bs" and len: "2 \<le> length bs"
  shows "refines st X (mgetCommand st argv) (spec_proc MGET (now st) limit bs (keyspace st))"
proof -
  obtain st' where "mget_loop st (drop 1 argv) =
      Some (st', map (\<lambda>k. case keyspace st k of Some (VStr s, _) \<Rightarrow> RBulk s | _ \<Rightarrow> RNull) (drop 1 bs))"
    "args_ok st' argv X bs" "frame st st' (mset argv + X)" "keyspace st' = keyspace st"
    using mget_loop_spec[OF args, of 1] len by auto
  then show ?thesis
    using args_inv[of st'] read_step[of st st' "mset argv" X]
    by (auto simp: mgetCommand_def refines_def spec_mget_def drop_Suc)
qed

end
