(* ===== verification/StringWrite.thy ===== *)
theory StringWrite
  imports StringRefine
begin

text \<open>
  The writing string commands refine their specifications, and with them the execution of any command
  from its request to its reply, and any sequence of commands while time passes.
\<close>

section \<open>Writing commands\<close>

lemma lookupWrite_cases:
  assumes args: "args_from st argv X bs j"
  obtains (none) st' where "lookupKeyWrite st key = Some (st', None)" "args_from st' argv X bs j"
      "frame st st' (mset argv + X)" "keyspace st' = keyspace st" "keyspace st key = None" "db_dict st' key = None"
  | (obj) st' r t p w where "lookupKeyWrite st key = Some (st', Some r)" "args_from st' argv X bs j"
      "frame st st' (mset argv + X)" "keyspace st' = keyspace st" "keyspace st key = Some (VObj t p, w)"
      "r \<in># dict_refs (db_dict st') + (mset argv + X)" "val_of (heap st') r = Some (VObj t p)"
  | (str) st' r s where "lookupKeyWrite st key = Some (st', Some r)" "args_from st' argv X bs j"
      "frame st st' (mset argv + X)" "keyspace st' = keyspace st" "keyspace st key = Some (VStr s, db_expires st' key)"
      "r \<in># dict_refs (db_dict st') + (mset argv + X)" "val_of (heap st') r = Some (VStr s)" "db_dict st' key = Some r"
proof -
  have inv: "db_inv st (mset argv + X)" using args by (simp add: args_from_def)
  show thesis
  proof (rule lookupWriteE[OF inv, of key])
    fix st'
    assume "lookupKeyWrite st key = Some (st', None)" "db_inv st' (mset argv + X)" "frame st st' (mset argv + X)"
      "keyspace st' = keyspace st" "keyspace st key = None" "db_dict st' key = None"
      "dict_refs (db_dict st') \<subseteq># dict_refs (db_dict st)"
    with none args_ok_step[OF args] show thesis by blast
  next
    fix st' r v
    assume "lookupKeyWrite st key = Some (st', Some r)" "db_inv st' (mset argv + X)" "frame st st' (mset argv + X)"
      "keyspace st' = keyspace st" "keyspace st key = Some (v, db_expires st' key)" "db_dict st' key = Some r"
      "val_of (heap st') r = Some v" "r \<in># dict_refs (db_dict st') + (mset argv + X)"
      "dict_refs (db_dict st') \<subseteq># dict_refs (db_dict st)"
    with str obj args_ok_step[OF args] show thesis by (cases v) blast+
  qed
qed

text \<open>Encoding an argument and storing it without a time to live, as \<open>GETSET\<close> and \<open>MSET\<close> do.\<close>

lemma encode_and_set:
  assumes args: "args_from st argv X bs j" and i: "i < length bs" "j \<le> i"
  shows "\<exists>h r st'. encode_arg st argv i = Some (st\<lparr>heap := h\<rparr>, argv[i := r], r) \<and>
    frame st (st\<lparr>heap := h\<rparr>) (others argv i X) \<and> setKey (st\<lparr>heap := h\<rparr>) key r = Some st' \<and>
    db_inv st' (add_mset r (others argv i X)) \<and> frame st st' (others argv i X) \<and> marked st' key \<and>
    keyspace st' = (keyspace st)(key \<mapsto> (VStr (bs ! i), None)) \<and> fresh_for r (dict_refs (db_dict st) + others argv i X) \<and>
    dict_refs (db_dict st') \<subseteq># add_mset r (dict_refs (db_dict st))"
proof -
  let ?Y = "others argv i X"
  obtain h r where e: "encode_arg st argv i = Some (st\<lparr>heap := h\<rparr>, argv[i := r], r)"
      "db_inv (st\<lparr>heap := h\<rparr>) (add_mset r ?Y)" "keyspace (st\<lparr>heap := h\<rparr>) = keyspace st"
      "frame st (st\<lparr>heap := h\<rparr>) ?Y" "val_of h r = Some (VStr (bs ! i))" "roomy (st\<lparr>heap := h\<rparr>) (add_mset r ?Y) r"
      "fresh_for r (dict_refs (db_dict st) + ?Y)"
    using encode_arg_spec[OF args i] by blast
  have v: "val_of (heap (st\<lparr>heap := h\<rparr>)) r = Some (VStr (bs ! i))" using e(5) by simp
  obtain st' where st': "setKey (st\<lparr>heap := h\<rparr>) key r = Some st'" "db_inv st' (add_mset r ?Y)"
      "keyspace st' = (keyspace st)(key \<mapsto> (VStr (bs ! i), None))" "frame (st\<lparr>heap := h\<rparr>) st' (add_mset r ?Y)"
      "marked st' key" "dict_refs (db_dict st') \<subseteq># add_mset r (dict_refs (db_dict st))"
    using genericSetKey_spec[OF e(2) v e(6), of key False True] e(3) by (auto simp: setKey_def)
  have "frame st st' ?Y" using frame_trans[OF e(4) frame_sub[OF st'(4)]] by auto
  with e st' show ?thesis by blast
qed

lemma step_one: "frame st st' Y \<Longrightarrow> set_mset X \<subseteq> set_mset Y \<Longrightarrow> marked st' key \<Longrightarrow> keyspace st' = (keyspace st)(key := e) \<Longrightarrow>
    step_ok st st' X ((keyspace st)(key := e))"
  by (auto simp: step_ok_def intro: frame_sub)

lemma getsetCommand_refines:
  assumes args: "args_ok st argv X bs" and len: "length bs = 3"
  shows "refines st X (getsetCommand st argv) (spec_proc GETSET (now st) limit bs (keyspace st))"
proof -
  have l: "length argv = 3" using args len by (simp add: args_from_def)
  obtain st1 where s: "getGenericCommand st argv = Some (st1, \<not> isl (spec_str (keyspace st) (bs ! 1)), spec_get (keyspace st) (bs ! 1))"
      "args_ok st1 argv X bs" "frame st st1 (mset argv + X)" "keyspace st1 = keyspace st"
    using getGenericCommand_spec[OF args] len by auto
  show ?thesis
  proof (cases "spec_str (keyspace st) (bs ! 1)")
    case (Inl e)
    then show ?thesis using s args_inv[OF s(2)] read_step[OF s(3,4)] by (simp add: getsetCommand_def refines_def)
  next
    case (Inr x)
    have i: "2 < length bs" "0 \<le> (2 :: nat)" using len by simp_all
    obtain h r st' where e: "encode_arg st1 argv 2 = Some (st1\<lparr>heap := h\<rparr>, argv[2 := r], r)"
        "setKey (st1\<lparr>heap := h\<rparr>) (bs ! 1) r = Some st'" "db_inv st' (add_mset r (others argv 2 X))"
        "frame st1 st' (others argv 2 X)" "marked st' (bs ! 1)" "keyspace st' = (keyspace st1)(bs ! 1 \<mapsto> (VStr (bs ! 2), None))"
      using encode_and_set[OF s(2) i] by blast
    have k: "arg_key st1 argv 1 = Some (bs ! 1)" using args_okD(3)[OF s(2)] len by simp
    have "step_ok st1 st' X ((keyspace st1)(bs ! 1 \<mapsto> (VStr (bs ! 2), None)))"
      using step_one[OF e(4) others_sub e(5,6)] .
    then have "step_ok st st' X ((keyspace st)(bs ! 1 \<mapsto> (VStr (bs ! 2), None)))"
      using frame_step[OF frame_sub[OF s(3)] s(4)] s(4) by simp
    with Inr s(1) e k l show ?thesis
      by (auto simp: getsetCommand_def refines_def others_update step_ok_def Let_def)
  qed
qed

text \<open>A new object that nothing refers to yet.\<close>

lemma alloc_step:
  assumes inv: "db_inv st Y" and g: "gives (heap st) (dict_refs (db_dict st) + Y) h r c"
    and fresh: "fresh_for r (dict_refs (db_dict st) + Y)"
  shows "db_inv (st\<lparr>heap := h\<rparr>) (add_mset r Y)" "raw_map (st\<lparr>heap := h\<rparr>) = raw_map st" "frame st (st\<lparr>heap := h\<rparr>) Y"
    "val_of h r = Some (VStr c)" "keyspace (st\<lparr>heap := h\<rparr>) = keyspace st"
proof -
  let ?R = "dict_refs (db_dict st) + Y"
  have h: "heap_ok h (add_mset r ?R)" "keeps (heap st) h ?R" and v: "val_of h r = Some (VStr c)"
    using g by (simp_all add: gives_def)
  have "lim ?R" "finite (dom (db_dict st))" using inv by (simp_all add: db_inv_def store_ok_def)
  then show "db_inv (st\<lparr>heap := h\<rparr>) (add_mset r Y)"
    using inv h(1) lim_fresh_for[OF _ fresh] by (simp add: db_inv_def store_ok_def)
  show raw: "raw_map (st\<lparr>heap := h\<rparr>) = raw_map st"
    using view_keeps[of "db_dict st" "heap st" h] \<open>finite _\<close> h(2) by (simp add: raw_map_def keeps_def)
  show "keyspace (st\<lparr>heap := h\<rparr>) = keyspace st" using raw by (simp add: keyspace_def fun_eq_iff)
  show "frame st (st\<lparr>heap := h\<rparr>) Y" using h(2) by (auto simp: frame_def keeps_def)
  show "val_of h r = Some (VStr c)" by (rule v)
qed

text \<open>Storing a new object under a missing key, or in place of the old value.\<close>

lemma add_new:
  assumes inv: "db_inv st Y" and g: "gives (heap st) (dict_refs (db_dict st) + Y) h r c"
    and fresh: "fresh_for r (dict_refs (db_dict st) + Y)" and none: "db_dict st key = None" "keyspace st key = None"
  shows "\<exists>st'. dbAdd (st\<lparr>heap := h\<rparr>) key r = Some st' \<and> db_inv st' Y \<and> frame st st' Y \<and>
    keyspace st' = put_str (keyspace st) key c \<and> heap st' = h \<and> db_dict st' = (db_dict st)(key \<mapsto> r) \<and>
    db_expires st' = db_expires st"
proof -
  note a = alloc_step[OF inv g fresh]
  obtain st' where st': "dbAdd (st\<lparr>heap := h\<rparr>) key r = Some st'" "db_inv st' Y"
      "raw_map st' = (raw_map (st\<lparr>heap := h\<rparr>))(key \<mapsto> (VStr c, None))" "frame (st\<lparr>heap := h\<rparr>) st' Y"
      "heap st' = h" "db_dict st' = (db_dict st)(key \<mapsto> r)" "db_expires st' = db_expires st"
    using dbAdd_spec[OF a(1), of key "VStr c"] none a(4) by auto
  have "keyspace st' = put_str (keyspace st) key c"
    using keyspace_upd[OF st'(3) frame_now[OF st'(4)]] a(5) none(2) by (simp add: put_str_def ttl_def)
  with st' show ?thesis using frame_trans[OF a(3) st'(4)] by blast
qed

lemma overwrite_new:
  assumes inv: "db_inv st Y" and g: "gives (heap st) (dict_refs (db_dict st) + Y) h r c"
    and fresh: "fresh_for r (dict_refs (db_dict st) + Y)" and old: "db_dict st key = Some old"
      "keyspace st key = Some (v, db_expires st key)"
  shows "\<exists>st'. dbOverwrite (st\<lparr>heap := h\<rparr>) key r = Some st' \<and> db_inv st' Y \<and> frame st st' Y \<and>
    keyspace st' = put_str (keyspace st) key c"
proof -
  note a = alloc_step[OF inv g fresh]
  obtain st' where st': "dbOverwrite (st\<lparr>heap := h\<rparr>) key r = Some st'" "db_inv st' Y"
      "raw_map st' = (raw_map (st\<lparr>heap := h\<rparr>))(key \<mapsto> (VStr c, db_expires st key))" "frame (st\<lparr>heap := h\<rparr>) st' Y"
    using dbOverwrite_spec[OF a(1), of key old "VStr c"] old(1) a(4) by auto
  have "keyspace st' = put_str (keyspace st) key c"
    using keyspace_upd[OF st'(3) frame_now[OF st'(4)]] a(5) live_ttl[OF old(2), of "VStr c"] old(2)
    by (simp add: put_str_def ttl_def)
  with st' show ?thesis using frame_trans[OF a(3) st'(4)] by blast
qed

text \<open>Changing a private object in place.\<close>

lemma write_in_place:
  assumes inv: "db_inv st Y" and key: "db_dict st key = Some r" and ob: "deref (heap st) r = Some ob" "o_refcount ob = 1"
    and ob': "str_obj ob' c" and old: "keyspace st key = Some (v, db_expires st key)"
  shows "\<exists>h. set_obj (heap st) r ob' = Some h \<and> db_inv (st\<lparr>heap := h\<rparr>) Y \<and> frame st (st\<lparr>heap := h\<rparr>) Y \<and>
    keyspace (st\<lparr>heap := h\<rparr>) = put_str (keyspace st) key c"
proof -
  obtain h where h: "set_obj (heap st) r ob' = Some h" "db_inv (st\<lparr>heap := h\<rparr>) Y"
      "raw_map (st\<lparr>heap := h\<rparr>) = (raw_map st)(key \<mapsto> (VStr c, db_expires st key))" "frame st (st\<lparr>heap := h\<rparr>) Y"
    using write_value_spec[OF inv key ob ob'] by blast
  have "keyspace (st\<lparr>heap := h\<rparr>) = put_str (keyspace st) key c"
    using keyspace_upd[OF h(3)] live_ttl[OF old, of "VStr c"] old by (simp add: put_str_def ttl_def)
  with h show ?thesis by blast
qed

lemma incr_store_spec:
  assumes inv: "db_inv st Y" and rng: "LLONG_MIN \<le> v" "v \<le> LLONG_MAX"
    and ob: "case ob of None \<Rightarrow> db_dict st key = None \<and> keyspace st key = None
      | Some r \<Rightarrow> db_dict st key = Some r \<and> val_of (heap st) r = Some (VStr s) \<and> keyspace st key = Some (VStr s, db_expires st key)"
  shows "\<exists>st'. incr_store st key ob v = Some st' \<and> db_inv st' Y \<and> frame st st' Y \<and>
    keyspace st' = put_str (keyspace st) key (show_int v)"
proof -
  obtain h new where new: "createStringObjectFromLongLongForValue (no_shared st) (heap st) v = Some (h, new)"
      "gives (heap st) (dict_refs (db_dict st) + Y) h new (show_int v)" "fresh_for new (dict_refs (db_dict st) + Y)"
    using createInt_spec[OF inv_heap[OF inv] rng] unfolding createStringObjectFromLongLongForValue_def by blast
  show ?thesis
  proof (cases ob)
    case None
    then show ?thesis using add_new[OF inv new(2,3)] ob new(1) by (auto simp: incr_store_def)
  next
    case (Some r)
    then have r: "db_dict st key = Some r" "val_of (heap st) r = Some (VStr s)" "keyspace st key = Some (VStr s, db_expires st key)"
      using ob by simp_all
    have "r \<in># dict_refs (db_dict st) + Y" using r(1) inv by (auto simp: db_inv_def store_ok_def intro: dict_refs_in)
    then obtain ob0 where o: "deref (heap st) r = Some ob0" "o_type ob0 = OBJ_STRING"
      using heap_strE[OF inv_heap[OF inv] _ r(2)] by metis
    show ?thesis
    proof (cases "o_refcount ob0 = 1 \<and> o_encoding ob0 = OBJ_ENCODING_INT \<and> (v < 0 \<or> v \<ge> int OBJ_SHARED_INTEGERS)")
      case True
      have "str_obj (ob0\<lparr>o_ptr := PInt v\<rparr>) (show_int v)" using True o(2) rng by (simp add: str_obj_def obj_ok_def)
      with write_in_place[OF inv r(1) o(1) _ _ r(3)] True obtain h where
        "set_obj (heap st) r (ob0\<lparr>o_ptr := PInt v\<rparr>) = Some h" "db_inv (st\<lparr>heap := h\<rparr>) Y" "frame st (st\<lparr>heap := h\<rparr>) Y"
        "keyspace (st\<lparr>heap := h\<rparr>) = put_str (keyspace st) key (show_int v)" by blast
      then show ?thesis using True Some o(1) rng by (simp add: incr_store_def)
    next
      case False
      then show ?thesis using overwrite_new[OF inv new(2,3) r(1,3)] Some o(1) new(1) by (auto simp: incr_store_def)
    qed
  qed
qed

lemma incr_overflows_iff:
  "LLONG_MIN \<le> v \<Longrightarrow> v \<le> LLONG_MAX \<Longrightarrow> LLONG_MIN \<le> i \<Longrightarrow> i \<le> LLONG_MAX \<Longrightarrow>
     incr_overflows v i \<longleftrightarrow> v + i < LLONG_MIN \<or> v + i > LLONG_MAX"
  by (auto simp: incr_overflows_def LLONG_MIN_def LLONG_MAX_def)

text \<open>The common end of the writing commands.\<close>

lemma write_done:
  assumes "frame st st1 (mset argv + X)" "keyspace st1 = keyspace st" "db_inv st2 (mset argv + X)"
    "frame st1 st2 (mset argv + X)" "keyspace st2 = put_str (keyspace st1) key c"
  shows "refines st X (Some ((notifyKeyspaceEvent ev key (signalModifiedKey st2 key))\<lparr>dirty := d\<rparr>, argv, rep))
    (put_str (keyspace st) key c, rep)"
proof -
  have "frame st st2 (mset argv + X)" using assms(1,4) by (rule frame_trans)
  then have "frame st st2 X" by (rule frame_sub) auto
  with assms show ?thesis by (auto simp: refines_def step_ok_def put_str_def)
qed

lemma no_change:
  assumes "args_from st1 argv X bs j" "frame st st1 (mset argv + X)" "keyspace st1 = keyspace st"
  shows "refines st X (Some (st1, argv, rep)) (keyspace st, rep)"
  using assms read_step[of st st1 "mset argv" X] by (auto simp: refines_def args_from_def)

lemma show_0: "show_int 0 = ''0''"
  by (simp add: show_int_def show_nat_small digit_char_def char_of_def bit_0)

lemma incrDecrCommand_refines:
  assumes args: "args_ok st argv X bs" and len: "1 < length bs" and i: "LLONG_MIN \<le> i" "i \<le> LLONG_MAX"
  shows "refines st X (incrDecrCommand st argv i) (spec_incr (keyspace st) (bs ! 1) i)"
proof -
  define key where "key = bs ! 1"
  have k: "arg_key st argv 1 = Some key" using args_okD(3)[OF args len] by (simp add: key_def)
  have zero: "spec_int ''0'' = Inr 0"
    using string2ll_spec[of "''0''" 0] by (simp add: spec_int_def show_0 LLONG_MIN_def LLONG_MAX_def)
  have fin: "refines st X (do {
        v \<leftarrow> Some (spec_int s);
        case v of Inl e \<Rightarrow> Some (st1, argv, e)
        | Inr oldvalue \<Rightarrow>
             if incr_overflows oldvalue i then Some (st1, argv, RError ''ERR increment or decrement would overflow'')
             else do {
               let value = oldvalue + i;
               st \<leftarrow> incr_store st1 key ob value;
               let st = signalModifiedKey st key;
               let st = notifyKeyspaceEvent ''incrby'' key st;
               Some (st\<lparr>dirty := dirty st + 1\<rparr>, argv, RInt value) } })
      (case spec_int s of
          Inl e \<Rightarrow> (keyspace st, e)
        | Inr v \<Rightarrow>
            if v + i < LLONG_MIN \<or> v + i > LLONG_MAX
            then (keyspace st, RError ''ERR increment or decrement would overflow'')
            else (put_str (keyspace st) key (show_int (v + i)), RInt (v + i)))"
    if st1: "args_ok st1 argv X bs" "frame st st1 (mset argv + X)" "keyspace st1 = keyspace st"
      and ob: "case ob of None \<Rightarrow> db_dict st1 key = None \<and> keyspace st1 key = None
      | Some r \<Rightarrow> db_dict st1 key = Some r \<and> val_of (heap st1) r = Some (VStr s) \<and> keyspace st1 key = Some (VStr s, db_expires st1 key)"
    for st1 ob s
  proof (cases "spec_int s")
    case (Inl e)
    then show ?thesis using no_change[OF st1] by simp
  next
    case (Inr v)
    note v = spec_int_range[OF Inr]
    show ?thesis
    proof (cases "v + i < LLONG_MIN \<or> v + i > LLONG_MAX")
      case True
      then show ?thesis using no_change[OF st1] Inr incr_overflows_iff[of v i] v i by simp
    next
      case False
      then obtain st2 where "incr_store st1 key ob (v + i) = Some st2" "db_inv st2 (mset argv + X)"
          "frame st1 st2 (mset argv + X)" "keyspace st2 = put_str (keyspace st1) key (show_int (v + i))"
        using incr_store_spec[OF args_inv[OF st1(1)] _ _ ob, of "v + i"] by auto
      then show ?thesis
        using write_done[OF st1(2,3)] Inr incr_overflows_iff[of v i] v i False by (simp add: Let_def)
    qed
  qed
  have "refines st X (incrDecrCommand st argv i) (spec_incr (keyspace st) key i)"
    using args
  proof (cases rule: lookupWrite_cases[of _ _ _ _ _ key])
    case (none st')
    have "getLongLongFromObjectOrReply (heap st') None = Some (spec_int ''0'')"
      unfolding zero by (simp add: getLongLongFromObjectOrReply_def getLongLongFromObject_def)
    then show ?thesis using fin[OF none(2-4), where ob = None and s = "''0''"] none(1,4,5,6) k
      by (simp add: incrDecrCommand_def spec_incr_def spec_str_def)
  next
    case obj
    show ?thesis
      using obj k checkType_spec[OF inv_heap[OF args_inv[OF obj(2)]] obj(6,7)] no_change[OF obj(2-4)]
      by (simp add: incrDecrCommand_def spec_incr_def spec_str_def)
  next
    case (str st' r s)
    note hp = inv_heap[OF args_inv[OF str(2)]]
    have "getLongLongFromObjectOrReply (heap st') (Some r) = Some (spec_int s)"
      using getLongLongFromObject_spec[OF hp str(6,7)]
      by (auto simp: getLongLongFromObjectOrReply_def spec_int_def split: option.splits)
    then show ?thesis using fin[OF str(2-4), where ob = "Some r" and s = s] str k checkType_spec[OF hp str(6,7)]
      by (simp add: incrDecrCommand_def spec_incr_def spec_str_def)
  qed
  then show ?thesis by (simp only: key_def)
qed

lemma incr_commands_refine:
  assumes args: "args_ok st argv X bs" and len: "1 < length bs"
  shows "refines st X (incrCommand st argv) (spec_proc INCR (now st) limit bs (keyspace st))"
    "refines st X (decrCommand st argv) (spec_proc DECR (now st) limit bs (keyspace st))"
    "2 < length bs \<Longrightarrow> refines st X (incrbyCommand st argv) (spec_proc INCRBY (now st) limit bs (keyspace st))"
    "2 < length bs \<Longrightarrow> arith_ok DECRBY (now st) bs \<Longrightarrow>
       refines st X (decrbyCommand st argv) (spec_proc DECRBY (now st) limit bs (keyspace st))"
proof -
  note ref = incrDecrCommand_refines[OF args len]
  have ll: "LLONG_MIN \<le> 1" "1 \<le> LLONG_MAX" "LLONG_MIN \<le> - 1" "- 1 \<le> LLONG_MAX" by (simp_all add: LLONG_MIN_def LLONG_MAX_def)
  have same: "refines st X (Some (st, argv, e)) (keyspace st, e)" for e using no_change[OF args] by simp
  show "refines st X (incrCommand st argv) (spec_proc INCR (now st) limit bs (keyspace st))"
    "refines st X (decrCommand st argv) (spec_proc DECR (now st) limit bs (keyspace st))"
    using ref[OF ll(1,2)] ref[OF ll(3,4)] by (simp_all add: incrCommand_def decrCommand_def)
  assume l: "2 < length bs"
  then have a: "getLongLongFromObjectOrReply (heap st) (Some (argv ! 2)) = Some (spec_int (bs ! 2))"
    "fetch argv 2 = Some (argv ! 2)"
    using getLongLong_spec[OF args_inv[OF args], of "argv ! 2" "bs ! 2"] args_okD[OF args l] by auto
  show "refines st X (incrbyCommand st argv) (spec_proc INCRBY (now st) limit bs (keyspace st))"
    using a ref spec_int_range[of "bs ! 2"] same by (cases "spec_int (bs ! 2)") (simp_all add: incrbyCommand_def)
  assume "arith_ok DECRBY (now st) bs"
  then show "refines st X (decrbyCommand st argv) (spec_proc DECRBY (now st) limit bs (keyspace st))"
    using a ref spec_int_range[of "bs ! 2"] same
    by (cases "spec_int (bs ! 2)") (auto simp: decrbyCommand_def LLONG_MIN_def LLONG_MAX_def)
qed

section \<open>Strings changed in place\<close>

lemma unshare_and_update:
  assumes inv: "db_inv st Y" and key: "db_dict st key = Some r" and v: "val_of (heap st) r = Some (VStr c)"
    and ks: "keyspace st key = Some (VStr c, db_expires st key)"
    and f: "\<And>s. sds_rep s c \<Longrightarrow> \<exists>s'. f s = Some s' \<and> sds_rep s' c'" and c': "length c' \<le> MAX_STR"
  shows "\<exists>st1 r' st2 s'. dbUnshareStringValue st key r = Some (st1, r') \<and> update_sds st1 r' f = Some (st2, s') \<and>
    sdslen s' = length c' \<and> db_inv st2 Y \<and> frame st st2 Y \<and> keyspace st2 = put_str (keyspace st) key c'"
proof -
  obtain st1 r' ob s where u: "dbUnshareStringValue st key r = Some (st1, r')" "db_inv st1 Y" "raw_map st1 = raw_map st"
      "frame st st1 Y" "db_dict st1 key = Some r'" "db_expires st1 = db_expires st" "deref (heap st1) r' = Some ob"
      "str_obj ob c" "o_encoding ob = OBJ_ENCODING_RAW" "o_ptr ob = PSds s" "sds_rep s c"
    using dbUnshareStringValue_spec[OF inv key v] by blast
  obtain s' where s': "f s = Some s'" "sds_rep s' c'" using f[OF u(11)] by blast
  have ks1: "keyspace st1 = keyspace st" using u(3) frame_now[OF u(4)] by (simp add: keyspace_def fun_eq_iff)
  have rc: "o_refcount ob = 1" using u(8) by (simp add: str_obj_def)
  have "str_obj (ob\<lparr>o_ptr := PSds s'\<rparr>) c'"
    using u(8,9,10) s'(2) c' by (auto simp: str_obj_def obj_ok_def sdsEncodedObject_def)
  from write_in_place[OF u(2,5,7) rc this, of "VStr c"] ks ks1 u(6) obtain h where
    "set_obj (heap st1) r' (ob\<lparr>o_ptr := PSds s'\<rparr>) = Some h" "db_inv (st1\<lparr>heap := h\<rparr>) Y" "frame st1 (st1\<lparr>heap := h\<rparr>) Y"
    "keyspace (st1\<lparr>heap := h\<rparr>) = put_str (keyspace st) key c'" by auto
  with u s' frame_trans[OF u(4)] sdslen_rep[OF s'(2)] show ?thesis
    by (auto simp: update_sds_def)
qed

lemma checkStringLength_spec:
  assumes "\<not> from_master st" "0 \<le> n" "n \<le> LLONG_MAX"
  shows "checkStringLength st (to_ll n) = (if n > proto_max_bulk_len st then Some too_long else None)"
proof -
  have "LLONG_MIN \<le> n" using assms(2) by (simp add: LLONG_MIN_def)
  then show ?thesis using assms by (simp add: checkStringLength_def to_ll_id too_long_def)
qed

lemma append_new:
  assumes args: "args_ok st argv X bs" and len: "2 < length bs" and none: "db_dict st key = None" "keyspace st key = None"
  shows "\<exists>h r st1 h2. encode_arg st argv 2 = Some (st\<lparr>heap := h\<rparr>, argv[2 := r], r) \<and>
    dbAdd (st\<lparr>heap := h\<rparr>) key r = Some st1 \<and> incrRefCount (heap st1) r = Some h2 \<and>
    stringObjectLen h2 r = Some (length (bs ! 2)) \<and> db_inv (st1\<lparr>heap := h2\<rparr>) (mset (argv[2 := r]) + X) \<and>
    frame st (st1\<lparr>heap := h2\<rparr>) X \<and> keyspace (st1\<lparr>heap := h2\<rparr>) = put_str (keyspace st) key (bs ! 2)"
proof -
  let ?Y = "others argv 2 X"
  have l: "2 < length argv" using args len by (simp add: args_from_def)
  obtain h r where e: "encode_arg st argv 2 = Some (st\<lparr>heap := h\<rparr>, argv[2 := r], r)"
      "db_inv (st\<lparr>heap := h\<rparr>) (add_mset r ?Y)" "keyspace (st\<lparr>heap := h\<rparr>) = keyspace st"
      "frame st (st\<lparr>heap := h\<rparr>) ?Y" "val_of h r = Some (VStr (bs ! 2))" "roomy (st\<lparr>heap := h\<rparr>) (add_mset r ?Y) r"
    using encode_arg_spec[OF args len] by blast
  let ?st = "st\<lparr>heap := h\<rparr>"
  have n: "db_dict ?st key = None" and v: "val_of (heap ?st) r = Some (VStr (bs ! 2))" using none e(5) by simp_all
  obtain st1 where s: "dbAdd ?st key r = Some st1" "db_inv st1 ?Y" "raw_map st1 = (raw_map ?st)(key \<mapsto> (VStr (bs ! 2), None))"
      "frame ?st st1 ?Y" "db_dict st1 = (db_dict ?st)(key \<mapsto> r)" "heap st1 = h"
    using dbAdd_spec[OF e(2) n v] by auto
  have k1: "keyspace st1 = put_str (keyspace st) key (bs ! 2)"
    using keyspace_upd[OF s(3) frame_now[OF s(4)]] e(3) none(2) by (simp add: put_str_def ttl_def)
  have refs: "dict_refs (db_dict st1) = add_mset r (dict_refs (db_dict st))"
    using dict_refs_update[of "db_dict st" key r] s(5) none(1) e(2) by (simp add: dict_refs_absent db_inv_def store_ok_def)
  have "lim (dict_refs (db_dict st1) + add_mset r ?Y)" using e(6) unfolding refs by (simp add: roomy_def)
  then obtain h2 where h2: "incrRefCount (heap st1) r = Some h2" "db_inv (st1\<lparr>heap := h2\<rparr>) (add_mset r ?Y)"
      "raw_map (st1\<lparr>heap := h2\<rparr>) = raw_map st1" "frame st1 (st1\<lparr>heap := h2\<rparr>) (add_mset r ?Y)"
    using share_value[OF s(2), of key r "VStr (bs ! 2)"] s(5,6) e(5) by auto
  have v2: "val_of h2 r = Some (VStr (bs ! 2))" using frame_val[OF h2(4), of r] s(6) e(5) by simp
  have "stringObjectLen h2 r = Some (length (bs ! 2))"
    using stringObjectLen_spec[OF inv_heap[OF h2(2)], of r "bs ! 2"] v2 by simp
  moreover have "keyspace (st1\<lparr>heap := h2\<rparr>) = keyspace st1" using h2(3) by (simp add: keyspace_def fun_eq_iff)
  moreover have "frame st1 (st1\<lparr>heap := h2\<rparr>) X" "frame ?st st1 X" "frame st ?st X"
    using frame_sub[OF h2(4)] frame_sub[OF s(4) others_sub] frame_sub[OF e(4) others_sub] others_sub[of X argv 2] by auto
  then have "frame st (st1\<lparr>heap := h2\<rparr>) X" using frame_trans by blast
  ultimately show ?thesis using e(1) s(1) h2(1,2) k1 by (simp add: others_update[OF l]) blast
qed

text \<open>A client of a server with a sane limit on string lengths.\<close>

definition limits_ok :: "redis \<Rightarrow> bool" where
  "limits_ok st \<longleftrightarrow> \<not> from_master st \<and> proto_max_bulk_len st \<le> int MAX_STR"

lemma limits_frame: "frame st st' X \<Longrightarrow> limits_ok st \<Longrightarrow> limits_ok st' \<and> proto_max_bulk_len st' = proto_max_bulk_len st"
  by (simp add: limits_ok_def frame_def)

lemma args_len: "args_ok st argv X bs \<Longrightarrow> i < length bs \<Longrightarrow> length (bs ! i) \<le> MAX_STR"
  using heap_str_len[OF inv_heap[OF args_inv], of st argv X bs "argv ! i"] args_okD(4,5)[of st argv X bs i] by simp

lemma appendCommand_refines:
  assumes args: "args_ok st argv X bs" and len: "length bs = 3" and lim: "limits_ok st"
  shows "refines st X (appendCommand st argv) (spec_proc APPEND (now st) (proto_max_bulk_len st) bs (keyspace st))"
proof -
  define key where "key = bs ! 1"
  define val where "val = bs ! 2"
  have k: "arg_key st argv 1 = Some key" using args_okD(3)[OF args] len by (simp add: key_def)
  have "refines st X (appendCommand st argv) (spec_append (proto_max_bulk_len st) (keyspace st) key val)"
    using args
  proof (cases rule: lookupWrite_cases[of _ _ _ _ _ key])
    case (none st1)
    have l: "2 < length bs" using len by simp
    obtain h r st2 h2 where a: "encode_arg st1 argv 2 = Some (st1\<lparr>heap := h\<rparr>, argv[2 := r], r)"
        "dbAdd (st1\<lparr>heap := h\<rparr>) key r = Some st2" "incrRefCount (heap st2) r = Some h2"
        "stringObjectLen h2 r = Some (length val)" "db_inv (st2\<lparr>heap := h2\<rparr>) (mset (argv[2 := r]) + X)"
        "frame st1 (st2\<lparr>heap := h2\<rparr>) X" "keyspace (st2\<lparr>heap := h2\<rparr>) = put_str (keyspace st1) key val"
      using append_new[OF none(2) l, of key] none(4-6) unfolding val_def by auto
    have "frame st (st2\<lparr>heap := h2\<rparr>) X" using frame_trans[OF frame_sub[OF none(3)] a(6)] by simp
    then show ?thesis using none k a
      by (auto simp: appendCommand_def spec_append_def spec_str_def refines_def append_finish_def step_ok_def put_str_def Let_def)
  next
    case obj
    show ?thesis
      using obj k checkType_spec[OF inv_heap[OF args_inv[OF obj(2)]] obj(6,7)] no_change[OF obj(2-4)]
      by (simp add: appendCommand_def spec_append_def spec_str_def)
  next
    case (str st1 r s)
    note hp = inv_heap[OF args_inv[OF str(2)]]
    note ct = checkType_spec[OF hp str(6,7)] and sl = stringObjectLen_spec[OF hp str(6,7)]
    have k2: "arg_key st1 argv 2 = Some val" using args_okD(3)[OF str(2)] len by (simp add: val_def)
    have lens: "length s \<le> MAX_STR" "length val \<le> MAX_STR"
      using heap_str_len[OF hp str(6,7)] args_len[OF args] len by (simp_all add: val_def)
    have l1: "limits_ok st1" "proto_max_bulk_len st1 = proto_max_bulk_len st" using limits_frame[OF str(3) lim] by simp_all
    have cs: "checkStringLength st1 (to_ll (int (length s) + int (length val))) =
        (if int (length s) + int (length val) > proto_max_bulk_len st then Some too_long else None)"
      using checkStringLength_spec[of st1 "int (length s) + int (length val)"] l1 lens
      by (simp add: limits_ok_def MAX_STR_def LLONG_MAX_def)
    show ?thesis
    proof (cases "int (length s) + int (length val) > proto_max_bulk_len st")
      case True
      then show ?thesis using str ct sl cs k k2 no_change[OF str(2-4), of too_long]
        by (simp add: appendCommand_def spec_append_def spec_str_def)
    next
      case False
      then have "length (s @ val) \<le> MAX_STR" using lim by (simp add: limits_ok_def)
      moreover have "\<exists>x'. sdscatlen x val = Some x' \<and> sds_rep x' (s @ val)" if "sds_rep x s" for x
        using sdscatlen_spec[OF that, of val] lens by (simp add: MAX_STR_def)
      ultimately obtain st2 r' st3 x where u: "dbUnshareStringValue st1 key r = Some (st2, r')"
          "update_sds st2 r' (\<lambda>x. sdscatlen x val) = Some (st3, x)" "sdslen x = length (s @ val)"
          "db_inv st3 (mset argv + X)" "frame st1 st3 (mset argv + X)" "keyspace st3 = put_str (keyspace st1) key (s @ val)"
        using unshare_and_update[OF args_inv[OF str(2)] str(8,7), of "\<lambda>x. sdscatlen x val" "s @ val"] str(4,5) by auto
      from write_done[OF str(3,4) u(4-6)] show ?thesis using False str ct sl cs k k2 u(1-3)
        by (simp add: appendCommand_def spec_append_def spec_str_def append_finish_def Let_def)
    qed
  qed
  then show ?thesis by (simp add: key_def val_def)
qed

lemma sdsnewlen_null: "n < 2 ^ 63 \<Longrightarrow> \<exists>s. sdsnewlen Null n = Some s \<and> sds_rep s (replicate n NUL)"
proof -
  assume n: "n < 2 ^ 63"
  define T where "T = (if sdsReqType n = SDS_TYPE_5 \<and> n = 0 then SDS_TYPE_8 else sdsReqType n)"
  have fits: "n < 2 ^ hdr_bits T" using sdsReqType_fits[of n] n by (auto simp: T_def)
  have size: "buf_size (sdsHdrSize T) n = n + 1" using n by (intro buf_size_fits) simp
  let ?s = "\<lparr>sds_type = T, hdr_len = n, hdr_alloc = (if T = SDS_TYPE_5 then 0 else n),
    sds_buf = map Some (replicate n NUL) @ [Some NUL]\<rparr>"
  have "(replicate (n + 1) (Some NUL))[n := Some NUL] = replicate (n + 1) (Some NUL)"
    by (simp only: list_update_same_conv length_replicate nth_replicate)
  moreover have "replicate (n + 1) (Some NUL) = map Some (replicate n NUL) @ [Some NUL]"
    by (simp add: replicate_append_same)
  ultimately have "sdsnewlen Null n = Some ?s"
    using fits unfolding sdsnewlen_def Let_def T_def[symmetric] size by (simp del: replicate_Suc)
  moreover have "sds_rep ?s (replicate n NUL)"
    using fits by (intro sds_repI[of _ "replicate n NUL" "[]"]) (auto simp: sdslen_def sdsalloc_def split: sdstype.splits)
  ultimately show ?thesis by blast
qed

lemma overwrite_grown:
  "take off (c @ replicate (off + length v - length c) NUL) @ v @ drop (off + length v) (c @ replicate (off + length v - length c) NUL)
     = overwrite off v c"
  by (simp add: overwrite_def min_def)

lemma setrange_write_spec:
  assumes rep: "sds_rep s c" and off: "0 \<le> off" "off + int (length v) \<le> int MAX_STR"
  shows "\<exists>s'. setrange_write off v s = Some s' \<and> sds_rep s' (overwrite (nat off) v c)"
proof -
  let ?n = "nat off + length v"
  let ?d = "c @ replicate (?n - length c) NUL"
  have n: "?n \<le> 2 ^ 61" using off by (simp add: MAX_STR_def)
  then have sz: "to_size (off + int (length v)) = ?n" using off(1) by (simp add: to_size_id LLONG_MAX_def nat_add_distrib)
  obtain s1 where s1: "sdsgrowzero s ?n = Some s1" "sds_rep s1 ?d"
    using sdsgrowzero_spec[OF rep, of ?n] n by auto
  obtain rest where r: "sds_buf s1 = map Some ?d @ Some NUL # rest" "length ?d \<le> sdsalloc s1"
    "sdsalloc s1 \<le> length ?d + length rest" "sdsalloc s1 < 2 ^ hdr_bits (sds_type s1)"
    using s1(2) by (rule sds_repE)
  have ld: "?n \<le> length ?d" by simp
  let ?b = "map Some (overwrite (nat off) v c) @ Some NUL # rest"
  have "take (nat off) (sds_buf s1) @ map Some v @ drop ?n (sds_buf s1) = ?b"
    unfolding overwrite_grown[symmetric] r(1) using ld by (simp add: take_map drop_map)
  then have "put_block s1 (nat off) (map Some v) = Some (s1\<lparr>sds_buf := ?b\<rparr>)"
    using put_block_in[of "nat off" "map Some v" s1] r(1) ld by simp
  moreover have lo: "length (overwrite (nat off) v c) = length ?d" unfolding overwrite_grown[symmetric] by auto
  have "sds_rep (s1\<lparr>sds_buf := ?b\<rparr>) (overwrite (nat off) v c)"
    using r lo sdslen_rep[OF s1(2)] by (intro sds_repI) simp_all
  ultimately show ?thesis using s1(1) sz by (simp add: setrange_write_def)
qed

text \<open>A string object full of zero bytes, as \<open>SETRANGE\<close> creates it, before the value is written into it.\<close>

lemma setrange_new:
  assumes inv: "db_inv st Y" and none: "db_dict st key = None" "keyspace st key = None"
    and off: "0 \<le> off" "off + int (length v) \<le> int MAX_STR" and n: "n = nat off + length v"
  shows "\<exists>s h r st1 st2 s'. sdsnewlen Null n = Some s \<and> createObject (heap st) OBJ_STRING (PSds s) = (h, r) \<and>
    dbAdd (st\<lparr>heap := h\<rparr>) key r = Some st1 \<and> update_sds st1 r (setrange_write off v) = Some (st2, s') \<and>
    sdslen s' = length (overwrite (nat off) v []) \<and> db_inv st2 Y \<and> frame st st2 Y \<and>
    keyspace st2 = put_str (keyspace st) key (overwrite (nat off) v [])"
proof -
  let ?z = "replicate n NUL" and ?h = "heap st"
  have small: "n \<le> MAX_STR" using off n by simp
  obtain s where s: "sdsnewlen Null n = Some s" "sds_rep s ?z"
    using sdsnewlen_null[of n] small by (auto simp: MAX_STR_def)
  define ob where "ob = \<lparr>o_type = OBJ_STRING, o_encoding = OBJ_ENCODING_RAW, o_refcount = 1, o_ptr = PSds s\<rparr>"
  have ob: "createObject ?h OBJ_STRING (PSds s) = (?h @ [Some ob], Obj (length ?h))" "o_ptr ob = PSds s"
      "o_type ob = OBJ_STRING" "o_encoding ob = OBJ_ENCODING_RAW" "o_refcount ob = 1"
    by (simp_all add: createObject_def ob_def)
  have so: "str_obj ob ?z" using ob s(2) small by (auto simp: str_obj_def obj_ok_def sdsEncodedObject_def)
  let ?r = "Obj (length ?h)"
  have g: "gives ?h (dict_refs (db_dict st) + Y) (?h @ [Some ob]) ?r ?z" "?r \<notin># dict_refs (db_dict st) + Y"
    using gives_alloc[OF inv_heap[OF inv] so] by simp_all
  then have f: "fresh_for ?r (dict_refs (db_dict st) + Y)" by (simp add: fresh_for_def)
  obtain st1 where a: "dbAdd (st\<lparr>heap := ?h @ [Some ob]\<rparr>) key ?r = Some st1" "db_inv st1 Y" "frame st st1 Y"
      "keyspace st1 = put_str (keyspace st) key ?z" "heap st1 = ?h @ [Some ob]" "db_dict st1 = (db_dict st)(key \<mapsto> ?r)"
      "db_expires st1 = db_expires st"
    using add_new[OF inv g(1) f none] by blast
  obtain s' where s': "setrange_write off v s = Some s'" "sds_rep s' (overwrite (nat off) v ?z)"
    using setrange_write_spec[OF s(2) off] by blast
  have same: "overwrite (nat off) v ?z = overwrite (nat off) v []" by (simp add: overwrite_def n)
  have "length (overwrite (nat off) v []) = n" by (simp add: overwrite_def n)
  then have so': "str_obj (ob\<lparr>o_ptr := PSds s'\<rparr>) (overwrite (nat off) v [])"
    using ob s'(2) small by (auto simp: str_obj_def obj_ok_def sdsEncodedObject_def same)
  have d: "deref (heap st1) ?r = Some ob" using a(5) by (simp add: deref_alloc)
  have e: "db_expires st1 key = None" using a(7) absent_expires[OF inv none(1)] by simp
  obtain h2 where "set_obj (heap st1) ?r (ob\<lparr>o_ptr := PSds s'\<rparr>) = Some h2" "db_inv (st1\<lparr>heap := h2\<rparr>) Y"
      "frame st1 (st1\<lparr>heap := h2\<rparr>) Y" "keyspace (st1\<lparr>heap := h2\<rparr>) = put_str (keyspace st1) key (overwrite (nat off) v [])"
    using write_in_place[OF a(2) _ d ob(5) so', of key "VStr ?z"] a(4,6) e none(2)
    by (auto simp: put_str_def ttl_def)
  with s(1) ob(1,2) a(1,3,4) s'(1) d sdslen_rep[OF s'(2)] frame_trans[OF a(3)] none(2) show ?thesis
    by (auto simp: update_sds_def same put_str_def ttl_def)
qed

text \<open>The part of the specification behind the lookup.\<close>

definition spec_write :: "int \<Rightarrow> keymap \<Rightarrow> key \<Rightarrow> int \<Rightarrow> char list \<Rightarrow> char list \<Rightarrow> keymap \<times> reply" where
  "spec_write limit m k off v s =
     (if v = [] then (m, RInt (int (length s)))
      else if off + int (length v) > limit then (m, too_long)
      else (put_str m k (overwrite (nat off) v s), RInt (int (length (overwrite (nat off) v s)))))"

lemma setrange_checks:
  assumes "limits_ok st" "frame st st1 Y" "0 \<le> off" "off + int (length v) \<le> LLONG_MAX"
  shows "checkStringLength st1 (to_ll (off + int (length v))) =
      (if off + int (length v) > proto_max_bulk_len st then Some too_long else None)"
    "to_size (off + int (length v)) = nat off + length v"
    "\<not> off + int (length v) > proto_max_bulk_len st \<Longrightarrow> off + int (length v) \<le> int MAX_STR"
  using checkStringLength_spec[of st1 "off + int (length v)"] limits_frame[OF assms(2,1)] assms
  by (simp_all add: limits_ok_def to_size_id nat_add_distrib)

lemma setrange_missing:
  assumes st1: "args_ok st1 argv X bs" "frame st st1 (mset argv + X)" "keyspace st1 = keyspace st"
    and none: "keyspace st key = None" "db_dict st1 key = None"
    and lim: "limits_ok st" and off: "0 \<le> off" "off + int (length v) \<le> LLONG_MAX"
  shows "refines st X
    (if length v = 0 then Some (st1, argv, shared_czero)
     else (case checkStringLength st1 (to_ll (off + int (length v))) of
       Some e \<Rightarrow> Some (st1, argv, e)
     | None \<Rightarrow> do {
         s \<leftarrow> sdsnewlen Null (to_size (off + int (length v)));
         let (h, r) = createObject (heap st1) OBJ_STRING (PSds s);
         st \<leftarrow> dbAdd (st1\<lparr>heap := h\<rparr>) key r;
         setrange_finish st argv key r off v
       })) (spec_write (proto_max_bulk_len st) (keyspace st) key off v [])"
proof -
  note ck = setrange_checks[OF lim st1(2) off]
  consider (empty) "v = []" | (long) "v \<noteq> []" "off + int (length v) > proto_max_bulk_len st"
    | (go) "v \<noteq> []" "\<not> off + int (length v) > proto_max_bulk_len st" by blast
  then show ?thesis
  proof cases
    case empty
    then show ?thesis using no_change[OF st1, of "RInt 0"] by (simp add: spec_write_def shared_czero_def)
  next
    case long
    then show ?thesis using ck no_change[OF st1, of too_long] by (simp add: spec_write_def)
  next
    case go
    have "keyspace st1 key = None" using none(1) st1(3) by simp
    then obtain s h r st2 st3 s' where n: "sdsnewlen Null (nat off + length v) = Some s"
        "createObject (heap st1) OBJ_STRING (PSds s) = (h, r)" "dbAdd (st1\<lparr>heap := h\<rparr>) key r = Some st2"
        "update_sds st2 r (setrange_write off v) = Some (st3, s')" "sdslen s' = length (overwrite (nat off) v [])"
        "db_inv st3 (mset argv + X)" "frame st1 st3 (mset argv + X)"
        "keyspace st3 = put_str (keyspace st1) key (overwrite (nat off) v [])"
      using setrange_new[OF args_inv[OF st1(1)] none(2) _ off(1) ck(3)[OF go(2)] refl] by blast
    from write_done[OF st1(2,3) n(6-8)] show ?thesis
      using ck go n(1-5) by (simp add: spec_write_def setrange_finish_def Let_def)
  qed
qed

lemma setrange_present:
  assumes st1: "args_ok st1 argv X bs" "frame st st1 (mset argv + X)" "keyspace st1 = keyspace st"
    and str: "keyspace st key = Some (VStr s, db_expires st1 key)" "val_of (heap st1) r = Some (VStr s)" "db_dict st1 key = Some r"
      "length s \<le> MAX_STR"
    and lim: "limits_ok st" and off: "0 \<le> off" "off + int (length v) \<le> LLONG_MAX"
  shows "refines st X
    (if length v = 0 then Some (st1, argv, RInt (int (length s)))
     else (case checkStringLength st1 (to_ll (off + int (length v))) of
       Some e \<Rightarrow> Some (st1, argv, e)
     | None \<Rightarrow> do {
         (st, r) \<leftarrow> dbUnshareStringValue st1 key r;
         setrange_finish st argv key r off v
       })) (spec_write (proto_max_bulk_len st) (keyspace st) key off v s)"
proof -
  note ck = setrange_checks[OF lim st1(2) off]
  consider (empty) "v = []" | (long) "v \<noteq> []" "off + int (length v) > proto_max_bulk_len st"
    | (go) "v \<noteq> []" "\<not> off + int (length v) > proto_max_bulk_len st" by blast
  then show ?thesis
  proof cases
    case empty
    then show ?thesis using no_change[OF st1, of "RInt (int (length s))"] by (simp add: spec_write_def)
  next
    case long
    then show ?thesis using ck no_change[OF st1, of too_long] by (simp add: spec_write_def)
  next
    case go
    have "length (overwrite (nat off) v s) \<le> MAX_STR" using ck(3)[OF go(2)] off(1) str(4) by (auto simp: overwrite_def)
    then obtain st2 r' st3 x where u: "dbUnshareStringValue st1 key r = Some (st2, r')"
        "update_sds st2 r' (setrange_write off v) = Some (st3, x)" "sdslen x = length (overwrite (nat off) v s)"
        "db_inv st3 (mset argv + X)" "frame st1 st3 (mset argv + X)"
        "keyspace st3 = put_str (keyspace st1) key (overwrite (nat off) v s)"
      using unshare_and_update[OF args_inv[OF st1(1)] str(3,2), of "setrange_write off v" "overwrite (nat off) v s"]
        setrange_write_spec[OF _ off(1) ck(3)[OF go(2)]] st1(3) str(1) by auto
    from write_done[OF st1(2,3) u(4-6)] show ?thesis
      using ck go u(1-3) by (simp add: spec_write_def setrange_finish_def Let_def)
  qed
qed

lemma setrangeCommand_refines:
  assumes args: "args_ok st argv X bs" and len: "length bs = 4" and lim: "limits_ok st" and ok: "arith_ok SETRANGE (now st) bs"
  shows "refines st X (setrangeCommand st argv) (spec_proc SETRANGE (now st) (proto_max_bulk_len st) bs (keyspace st))"
proof -
  define key where "key = bs ! 1"
  define offb where "offb = bs ! 2"
  define v where "v = bs ! 3"
  have a: "fetch argv 2 = Some (argv ! 2)" "getLongFromObjectOrReply (heap st) (Some (argv ! 2)) = Some (spec_int offb)"
      "arg_key st argv 1 = Some key" "arg_key st argv 3 = Some v"
    using getLong_spec[OF args_inv[OF args], of "argv ! 2" "bs ! 2"] args_okD[OF args, of 2] args_okD(3)[OF args, of 1]
      args_okD(3)[OF args, of 3] len by (auto simp: key_def offb_def v_def)
  have self: "refines st X (Some (st, argv, rep)) (keyspace st, rep)" for rep using no_change[OF args] by simp
  have "refines st X (setrangeCommand st argv) (spec_setrange (proto_max_bulk_len st) (keyspace st) key offb v)"
  proof (cases "\<exists>off. spec_int offb = Inr off \<and> 0 \<le> off")
    case False
    then show ?thesis using a self by (cases "spec_int offb") (auto simp: setrangeCommand_def spec_setrange_def)
  next
    case True
    then obtain off where off: "spec_int offb = Inr off" "0 \<le> off" by blast
    have sum: "off + int (length v) \<le> LLONG_MAX"
      using ok off(1) spec_int_range[OF off(1)] by (simp add: offb_def v_def)
    show ?thesis
      using args
    proof (cases rule: lookupWrite_cases[of _ _ _ _ _ key])
      case none
      then show ?thesis using a off setrange_missing[OF none(2-6) lim off(2) sum]
        by (simp add: setrangeCommand_def spec_setrange_def spec_write_def spec_str_def Let_def cong: if_cong)
    next
      case obj
      show ?thesis
        using obj a off checkType_spec[OF inv_heap[OF args_inv[OF obj(2)]] obj(6,7)] no_change[OF obj(2-4)]
        by (simp add: setrangeCommand_def spec_setrange_def spec_str_def)
    next
      case str
      note hp = inv_heap[OF args_inv[OF str(2)]]
      show ?thesis
        using str a off checkType_spec[OF hp str(6,7)] stringObjectLen_spec[OF hp str(6,7)]
          setrange_present[OF str(2-5,7,8) heap_str_len[OF hp str(6,7)] lim off(2) sum]
        by (simp add: setrangeCommand_def spec_setrange_def spec_write_def spec_str_def Let_def cong: if_cong)
    qed
  qed
  then show ?thesis by (simp add: key_def offb_def v_def)
qed

section \<open>MSET\<close>

lemma mset_exists_spec:
  assumes "args_ok st argv X bs"
  shows "\<exists>st'. mset_exists st argv j = Some (st', list_ex (\<lambda>k. keyspace st k \<noteq> None) (every_other (drop j bs))) \<and>
    args_ok st' argv X bs \<and> frame st st' (mset argv + X) \<and> keyspace st' = keyspace st"
  using assms
proof (induction st argv j rule: mset_exists.induct)
  case (1 st argv j)
  note args = 1(2)
  have l: "length argv = length bs" using args by (simp add: args_from_def)
  show ?case
  proof (cases "j < length bs")
    case False
    then show ?thesis using args l by (subst mset_exists.simps) simp
  next
    case True
    have k: "arg_key st argv j = Some (bs ! j)" using args_okD(3)[OF args True] .
    have "drop j bs = bs ! j # drop (Suc j) bs" using True by (simp add: Cons_nth_drop_Suc)
    moreover have "drop (Suc j) bs = [] \<or> drop (Suc j) bs = bs ! Suc j # drop (j + 2) bs"
      by (cases "Suc j < length bs") (simp_all add: Cons_nth_drop_Suc)
    ultimately have d: "every_other (drop j bs) = bs ! j # every_other (drop (j + 2) bs)" by auto
    obtain st1 ob where s: "lookupKeyWrite st (bs ! j) = Some (st1, ob)" "db_inv st1 (mset argv + X)"
        "frame st st1 (mset argv + X)" "keyspace st1 = keyspace st" "dict_refs (db_dict st1) \<subseteq># dict_refs (db_dict st)"
        "ob = None \<longleftrightarrow> keyspace st (bs ! j) = None"
      using lookupKeyWrite_spec[OF args_inv[OF args], of "bs ! j"] by metis
    have args1: "args_ok st1 argv X bs" using args_ok_step[OF args s(2,3,5)] .
    show ?thesis
    proof (cases "keyspace st (bs ! j) = None")
      case False
      then have "ob \<noteq> None" using s(6) by simp
      then show ?thesis using s(1-4) k True l d args1 False by (subst mset_exists.simps) auto
    next
      case None: True
      from 1(1)[OF _ k s(1) refl] None s(6) args1 True l obtain st' where
        "mset_exists st1 argv (j + 2) = Some (st', list_ex (\<lambda>k. keyspace st1 k \<noteq> None) (every_other (drop (j + 2) bs)))"
        "args_ok st' argv X bs" "frame st1 st' (mset argv + X)" "keyspace st' = keyspace st1" by auto
      then show ?thesis using s k True l d None frame_trans[OF s(3)] by (subst mset_exists.simps) auto
    qed
  qed
qed

text \<open>After one pair has been stored, the later arguments are still private strings.\<close>

lemma args_after_set:
  assumes args: "args_from st argv X bs j" and i: "i < length bs" "j \<le> i"
    and inv: "db_inv st' (add_mset r (others argv i X))" and fr: "frame st st' (others argv i X)"
    and fresh: "fresh_for r (dict_refs (db_dict st) + others argv i X)"
    and refs: "dict_refs (db_dict st') \<subseteq># add_mset r (dict_refs (db_dict st))"
  shows "args_from st' (argv[i := r]) X bs (Suc i)"
proof -
  have l: "length argv = length bs" using args by (simp add: args_from_def)
  have il: "i < length argv" using i l by simp
  have "arg_bytes (heap st') (argv[i := r] ! m) = Some (bs ! m) \<and>
      count (dict_refs (db_dict st') + (mset (argv[i := r]) + X)) (argv[i := r] ! m) = 1"
    if m: "m < length argv" "Suc i \<le> m" for m
  proof -
    have mi: "m < length bs" "j \<le> m" "argv[i := r] ! m = argv ! m" using m i(2) l by simp_all
    note a = args_fromD[OF args mi(1,2)]
    have ino: "argv ! m \<in># others argv i X" using others_in[OF il m(1)] m(2) by simp
    have b: "arg_bytes (heap st') (argv ! m) = Some (bs ! m)"
      using arg_bytes_keeps[of "heap st" "heap st'" "others argv i X"] fr ino a(2) by (simp add: frame_def)
    have ne: "r \<noteq> argv ! m"
      using fresh ino a(2) by (auto simp: fresh_for_def arg_bytes_def shared_integer_def split: if_splits)
    have "count (dict_refs (db_dict st')) (argv ! m) \<le> count (add_mset r (dict_refs (db_dict st))) (argv ! m)"
      using refs by (rule mset_subset_eq_count)
    then have "count (dict_refs (db_dict st')) (argv ! m) \<le> count (dict_refs (db_dict st)) (argv ! m)" using ne by simp
    moreover have "count (dict_refs (db_dict st)) (argv ! m) + count (add_mset (argv ! i) (others argv i X)) (argv ! m) = 1"
      using a(6) by (simp only: others_add[OF il] count_union)
    moreover have "count (others argv i X) (argv ! m) \<le> count (add_mset (argv ! i) (others argv i X)) (argv ! m)" by simp
    moreover have "0 < count (others argv i X) (argv ! m)" using ino by simp
    moreover have "count (add_mset r (others argv i X)) (argv ! m) = count (others argv i X) (argv ! m)" using ne by simp
    ultimately have "count (dict_refs (db_dict st') + add_mset r (others argv i X)) (argv ! m) = 1"
      unfolding count_union by linarith
    then show ?thesis using b mi(3) others_update[OF il, of r X] by simp
  qed
  then show ?thesis using inv others_update[OF il, of r X] l by (simp add: args_from_def)
qed

lemma args_from_mono: "args_from st argv X bs j \<Longrightarrow> j \<le> j' \<Longrightarrow> args_from st argv X bs j'"
  by (simp add: args_from_def)

lemma args_from_env [simp]: "args_from (notifyKeyspaceEvent e k st) argv X bs j = args_from st argv X bs j"
  by (simp add: args_from_def)

lemma step_ok_trans:
  assumes "step_ok st st1 X m1" "step_ok st1 st2 X m2"
  shows "step_ok st st2 X m2"
proof -
  have "marked st2 k" if "keyspace st2 k \<noteq> keyspace st k" for k
    using assms that frame_marked[of st1 st2 X k] unfolding step_ok_def by metis
  then show ?thesis using assms frame_trans unfolding step_ok_def by blast
qed

lemma step_ok_env [simp]: "step_ok (notifyKeyspaceEvent e k st) st' X m = step_ok st st' X m"
proof -
  have "frame (notifyKeyspaceEvent e k st) st' X = frame st st' X" by (simp add: frame_def notifyKeyspaceEvent_def)
  then show ?thesis by (simp add: step_ok_def)
qed

lemma mset_loop_spec:
  assumes "args_from st argv X bs j" "even (length bs - j)" "j \<le> length bs"
  shows "\<exists>st' argv'. mset_loop st argv j = Some (st', argv') \<and> length argv' = length argv \<and> db_inv st' (mset argv' + X) \<and>
    step_ok st st' X (spec_mset (drop j bs) (keyspace st))"
  using assms
proof (induction "length bs - j" arbitrary: st argv j rule: less_induct)
  case less
  note args = less.prems(1)
  have l: "length argv = length bs" using args by (simp add: args_from_def)
  show ?case
  proof (cases "j < length bs")
    case False
    then show ?thesis using args l less.prems(3) by (subst mset_loop.simps) (simp add: step_ok_def args_from_def)
  next
    case True
    then have j1: "Suc j < length bs" using less.prems(2) by presburger
    let ?k = "bs ! j" and ?Y = "others argv (Suc j) X"
    have d: "drop j bs = ?k # bs ! Suc j # drop (j + 2) bs"
      using True j1 by (simp add: Cons_nth_drop_Suc)
    obtain h r st1 where e: "encode_arg st argv (Suc j) = Some (st\<lparr>heap := h\<rparr>, argv[Suc j := r], r)"
        "frame st (st\<lparr>heap := h\<rparr>) ?Y" "setKey (st\<lparr>heap := h\<rparr>) ?k r = Some st1" "db_inv st1 (add_mset r ?Y)"
        "frame st st1 ?Y" "marked st1 ?k" "keyspace st1 = (keyspace st)(?k \<mapsto> (VStr (bs ! Suc j), None))"
        "fresh_for r (dict_refs (db_dict st) + ?Y)" "dict_refs (db_dict st1) \<subseteq># add_mset r (dict_refs (db_dict st))"
      using encode_and_set[OF args j1, of ?k] by auto
    have "argv ! j \<in># ?Y" using others_in[of "Suc j" argv j X] j1 l by simp
    then have k: "arg_key (st\<lparr>heap := h\<rparr>) (argv[Suc j := r]) j = Some ?k"
      using arg_bytes_keeps[of "heap st" h ?Y "argv ! j"] e(2) args_fromD[OF args True] l True
      by (simp add: arg_key_def frame_def)
    have s1: "step_ok st st1 X (keyspace st1)" using step_one[OF e(5) others_sub e(6,7)] e(7) by simp
    have args1: "args_from (notifyKeyspaceEvent ''set'' ?k st1) (argv[Suc j := r]) X bs (j + 2)"
      using args_after_set[OF args j1 _ e(4,5,8,9)] by simp
    have "length bs - (j + 2) < length bs - j" "even (length bs - (j + 2))" "j + 2 \<le> length bs"
      using True j1 less.prems(2) by simp_all
    from less.hyps[OF this(1) args1 this(2,3)] obtain st' argv' where
      s': "mset_loop (notifyKeyspaceEvent ''set'' ?k st1) (argv[Suc j := r]) (j + 2) = Some (st', argv')"
      "length argv' = length argv" "db_inv st' (mset argv' + X)"
      "step_ok (notifyKeyspaceEvent ''set'' ?k st1) st' X (spec_mset (drop (j + 2) bs) (keyspace st1))" by auto
    have "step_ok st st' X (spec_mset (drop j bs) (keyspace st))"
      using step_ok_trans[OF s1, of st'] s'(4) e(7) d by simp
    with s' e k True l show ?thesis by (subst mset_loop.simps) simp
  qed
qed

lemma msetGenericCommand_refines:
  assumes args: "args_ok st argv X bs" and len: "3 \<le> length bs"
  shows "refines st X (msetGenericCommand st argv nx) (spec_msetgen nx bs (keyspace st))"
proof (cases "even (length bs)")
  case True
  then show ?thesis using no_change[OF args, of st] args
    by (simp add: msetGenericCommand_def spec_msetgen_def args_from_def even_iff_mod_2_eq_zero)
next
  case False
  define ex where "ex \<longleftrightarrow> nx \<and> list_ex (\<lambda>k. keyspace st k \<noteq> None) (every_other (tl bs))"
  have l: "length argv = length bs" using args by (simp add: args_from_def)
  obtain st1 where s1: "(if nx then mset_exists st argv 1 else Some (st, False)) = Some (st1, ex)" "args_ok st1 argv X bs"
      "frame st st1 (mset argv + X)" "keyspace st1 = keyspace st"
    using mset_exists_spec[OF args, of 1] args by (cases nx) (auto simp: ex_def drop_Suc)
  have sp: "spec_msetgen nx bs (keyspace st) = (if ex then (keyspace st, shared_czero)
      else (spec_mset (tl bs) (keyspace st), if nx then shared_cone else shared_ok))"
    using False by (simp only: spec_msetgen_def ex_def even_iff_mod_2_eq_zero if_False)
  show ?thesis
  proof (cases ex)
    case True
    then show ?thesis using False s1 no_change[OF s1(2-4)] l
      by (simp add: msetGenericCommand_def sp even_iff_mod_2_eq_zero)
  next
    case go: False
    have "even (length bs - 1)" "1 \<le> length bs" using False len by simp_all
    then obtain st' argv' where s': "mset_loop st1 argv 1 = Some (st', argv')" "db_inv st' (mset argv' + X)"
        "step_ok st1 st' X (spec_mset (tl bs) (keyspace st))"
      using mset_loop_spec[OF args_from_mono[OF s1(2)], of 1] s1(4) by (auto simp: drop_Suc)
    have "step_ok st st' X (spec_mset (tl bs) (keyspace st))"
      using frame_step[OF frame_sub[OF s1(3)] s1(4) s'(3)] by simp
    then show ?thesis using False s1 s' go l
      by (simp add: msetGenericCommand_def sp even_iff_mod_2_eq_zero refines_def step_ok_def)
  qed
qed

lemma mset_commands_refine:
  assumes "args_ok st argv X bs" "3 \<le> length bs"
  shows "refines st X (msetCommand st argv) (spec_proc MSET (now st) limit bs (keyspace st))"
    "refines st X (msetnxCommand st argv) (spec_proc MSETNX (now st) limit bs (keyspace st))"
  using msetGenericCommand_refines[OF assms] by (simp_all add: msetCommand_def msetnxCommand_def)

section \<open>Whole commands\<close>

lemma create_arg_spec:
  assumes inv: "db_inv st X" and len: "length b \<le> MAX_STR"
  shows "\<exists>h r. createStringObject (heap st) (Bytes b) (length b) = Some (h, r) \<and> db_inv (st\<lparr>heap := h\<rparr>) (add_mset r X) \<and>
    keyspace (st\<lparr>heap := h\<rparr>) = keyspace st \<and> frame st (st\<lparr>heap := h\<rparr>) X \<and> arg_bytes h r = Some b \<and>
    r \<notin># dict_refs (db_dict st) + X"
proof -
  let ?h = "heap st"
  obtain ob where ob: "createStringObject ?h (Bytes b) (length b) = Some (?h @ [Some ob], Obj (length ?h))"
      "str_obj ob b" "sdsEncodedObject ob"
    using createStringObject_spec[of "length b" b ?h] len by auto
  let ?r = "Obj (length ?h)"
  have g: "gives ?h (dict_refs (db_dict st) + X) (?h @ [Some ob]) ?r b" "?r \<notin># dict_refs (db_dict st) + X"
    using gives_alloc[OF inv_heap[OF inv] ob(2)] by simp_all
  have "obj_ok ob" "obj_val ob = VStr b" using ob(2) by (simp_all add: str_obj_def)
  then have "arg_bytes (?h @ [Some ob]) ?r = Some b"
    using ob(3) by (cases rule: str_valE) (auto simp: arg_bytes_def deref_alloc sdsEncodedObject_def)
  with ob(1) g alloc_step[OF inv g(1)] show ?thesis by (auto simp: fresh_for_def)
qed

lemma create_args_spec:
  assumes "db_inv st X" "\<forall>b\<in>set bs. length b \<le> MAX_STR"
  shows "\<exists>h argv. create_args (heap st) bs = Some (h, argv) \<and> args_ok (st\<lparr>heap := h\<rparr>) argv X bs \<and>
    keyspace (st\<lparr>heap := h\<rparr>) = keyspace st \<and> frame st (st\<lparr>heap := h\<rparr>) X"
  using assms
proof (induction bs arbitrary: st X)
  case Nil
  then show ?case by (simp add: args_from_def)
next
  case (Cons b bs)
  let ?D = "dict_refs (db_dict st)"
  obtain h1 r where c: "createStringObject (heap st) (Bytes b) (length b) = Some (h1, r)" "db_inv (st\<lparr>heap := h1\<rparr>) (add_mset r X)"
      "keyspace (st\<lparr>heap := h1\<rparr>) = keyspace st" "frame st (st\<lparr>heap := h1\<rparr>) X" "arg_bytes h1 r = Some b" "r \<notin># ?D + X"
    using create_arg_spec[OF Cons.prems(1), of b] Cons.prems(2) by auto
  obtain h rs where i: "create_args h1 bs = Some (h, rs)" "args_ok (st\<lparr>heap := h\<rparr>) rs (add_mset r X) bs"
      "keyspace (st\<lparr>heap := h\<rparr>) = keyspace (st\<lparr>heap := h1\<rparr>)" "frame (st\<lparr>heap := h1\<rparr>) (st\<lparr>heap := h\<rparr>) (add_mset r X)"
    using Cons.IH[OF c(2)] Cons.prems(2) by auto
  have l: "length rs = length bs" using i(2) by (simp add: args_from_def)
  have m: "mset (r # rs) + X = mset rs + add_mset r X" by simp
  have lone: "r \<notin> set rs"
  proof
    assume "r \<in> set rs"
    then obtain n where n: "n < length bs" "rs ! n = r" using l by (metis in_set_conv_nth)
    have "count (?D + (mset rs + add_mset r X)) r = 1" using args_okD(6)[OF i(2) n(1)] n(2) by simp
    moreover have "0 < count (mset rs) r" using \<open>r \<in> set rs\<close> by simp
    ultimately show False by simp
  qed
  have "arg_bytes h r = Some b"
    using arg_bytes_keeps[of h1 h "add_mset r X" r] i(4) c(5) by (simp add: frame_def)
  moreover have "count (?D + (mset rs + add_mset r X)) r = 1" using lone c(6) by (simp add: not_in_iff)
  ultimately have "arg_bytes h ((r # rs) ! n) = Some ((b # bs) ! n) \<and> count (?D + (mset rs + add_mset r X)) ((r # rs) ! n) = 1"
    if "n < length (r # rs)" for n
    using that args_okD(2,6)[OF i(2), of "n - 1"] l by (cases n) auto
  then have "args_ok (st\<lparr>heap := h\<rparr>) (r # rs) X (b # bs)"
    using args_inv[OF i(2)] l unfolding args_from_def m by simp
  moreover have "frame st (st\<lparr>heap := h\<rparr>) X" using frame_trans[OF c(4) frame_sub[OF i(4)]] by auto
  ultimately show ?case using c(1,3) i(1,3) by simp
qed

lemma release_spec:
  assumes inv: "db_inv st (add_mset r X)"
  shows "\<exists>h. decrRefCount (heap st) r = Some h \<and> db_inv (st\<lparr>heap := h\<rparr>) X \<and>
    keyspace (st\<lparr>heap := h\<rparr>) = keyspace st \<and> frame st (st\<lparr>heap := h\<rparr>) X"
proof -
  let ?R = "dict_refs (db_dict st) + X"
  have fin: "finite (dom (db_dict st))" and ok: "heap_ok (heap st) (add_mset r ?R)" "lim (add_mset r ?R)"
    using inv by (simp_all add: db_inv_def store_ok_def)
  obtain h where h: "decrRefCount (heap st) r = Some h" "heap_ok h ?R" "keeps (heap st) h ?R"
    using decrRefCount_spec[OF ok(1)] lim_small[OF ok(2)] by (auto simp: keeps_def)
  have "view h (db_dict st) (db_expires st) = view (heap st) (db_dict st) (db_expires st)"
    using fin h(3) by (intro view_keeps) (auto simp: keeps_def)
  then have "keyspace (st\<lparr>heap := h\<rparr>) = keyspace st" by (simp add: keyspace_def raw_map_def fun_eq_iff)
  then show ?thesis using h inv lim_sub[OF ok(2)] by (auto simp: db_inv_def store_ok_def frame_def keeps_def)
qed

lemma freeClientArgv_spec:
  assumes "db_inv st (mset argv + X)"
  shows "\<exists>h. freeClientArgv (heap st) argv = Some h \<and> db_inv (st\<lparr>heap := h\<rparr>) X \<and>
    keyspace (st\<lparr>heap := h\<rparr>) = keyspace st \<and> frame st (st\<lparr>heap := h\<rparr>) X"
  using assms
proof (induction argv arbitrary: st)
  case Nil
  then show ?case by simp
next
  case (Cons r argv)
  have "db_inv st (add_mset r (mset argv + X))" using Cons.prems by simp
  then obtain h where h: "decrRefCount (heap st) r = Some h" "db_inv (st\<lparr>heap := h\<rparr>) (mset argv + X)"
      "keyspace (st\<lparr>heap := h\<rparr>) = keyspace st" "frame st (st\<lparr>heap := h\<rparr>) (mset argv + X)"
    using release_spec by blast
  obtain h2 where h2: "freeClientArgv h argv = Some h2" "db_inv (st\<lparr>heap := h2\<rparr>) X" "keyspace (st\<lparr>heap := h2\<rparr>) = keyspace st"
      "frame (st\<lparr>heap := h\<rparr>) (st\<lparr>heap := h2\<rparr>) X"
    using Cons.IH[OF h(2)] h(3) by auto
  have "frame st (st\<lparr>heap := h2\<rparr>) X" using frame_trans[OF frame_sub[OF h(4)] h2(4)] by simp
  with h(1) h2 show ?case by simp
qed

lemmas command_refinements =
  setCommand_refines setnxCommand_refines setexCommand_refines psetexCommand_refines getCommand_refines getsetCommand_refines
  setrangeCommand_refines getrangeCommand_refines mgetCommand_refines mset_commands_refine incr_commands_refine
  appendCommand_refines strlenCommand_refines

lemma proc_refines:
  assumes args: "args_ok st argv X bs" and lim: "limits_ok st" and tab: "cmd_table cmd = (name, arity, proc)"
    and ar: "\<not> arity_error arity (length bs)" and ok: "arith_ok cmd (now st) bs"
  shows "refines st X (proc st argv) (spec_proc cmd (now st) (proto_max_bulk_len st) bs (keyspace st))"
  using tab ar ok command_refinements[OF args] lim
  by (cases cmd) (auto simp: arity_error_def simp del: spec_proc.simps arith_ok.simps)

definition input_ok :: "strcmd \<Rightarrow> int \<Rightarrow> char list list \<Rightarrow> bool" where
  "input_ok cmd t args \<longleftrightarrow>
     (\<forall>b\<in>set args. length b \<le> MAX_STR) \<and> (arity_error (fst (snd (cmd_table cmd))) (length args) \<or> arith_ok cmd t args)"

lemma run_command_spec:
  assumes inv: "db_inv st X" and lim: "limits_ok st" and inp: "input_ok cmd (now st) args"
    and spec: "spec_command cmd (now st) (proto_max_bulk_len st) args (keyspace st) = (m, rep)"
  shows "\<exists>st'. run_command st cmd args = Some (st', rep) \<and> db_inv st' X \<and> step_ok st st' X m"
proof -
  obtain name arity proc where t: "cmd_table cmd = (name, arity, proc)" by (cases "cmd_table cmd")
  obtain h argv where c: "create_args (heap st) args = Some (h, argv)" "args_ok (st\<lparr>heap := h\<rparr>) argv X args"
      "keyspace (st\<lparr>heap := h\<rparr>) = keyspace st" "frame st (st\<lparr>heap := h\<rparr>) X"
    using create_args_spec[OF inv, of args] inp by (auto simp: input_ok_def)
  let ?st = "st\<lparr>heap := h\<rparr>"
  have l: "length argv = length args" using c(2) by (simp add: args_from_def)
  have lim': "limits_ok ?st" using lim by (simp add: limits_ok_def)
  have "refines ?st X (if arity_error arity (length argv) then Some (?st, argv, arity_reply name) else proc ?st argv) (m, rep)"
  proof (cases "arity_error arity (length args)")
    case True
    then show ?thesis using no_change[OF c(2), of ?st] spec l t c(3) by (auto simp: spec_command_def)
  next
    case False
    then have "spec_proc cmd (now st) (proto_max_bulk_len st) args (keyspace st) = (m, rep)" "arith_ok cmd (now st) args"
      using spec inp t by (auto simp: spec_command_def input_ok_def)
    with proc_refines[OF c(2) lim' t False] False l c(3) show ?thesis by simp
  qed
  then obtain st1 argv' where r: "(if arity_error arity (length argv) then Some (?st, argv, arity_reply name) else proc ?st argv)
        = Some (st1, argv', rep)" "db_inv st1 (mset argv' + X)" "step_ok ?st st1 X m"
    by (auto simp: refines_def)
  obtain h2 where f: "freeClientArgv (heap st1) argv' = Some h2" "db_inv (st1\<lparr>heap := h2\<rparr>) X"
      "keyspace (st1\<lparr>heap := h2\<rparr>) = keyspace st1" "frame st1 (st1\<lparr>heap := h2\<rparr>) X"
    using freeClientArgv_spec[OF r(2)] by blast
  have "step_ok st1 (st1\<lparr>heap := h2\<rparr>) X m" using f(3,4) r(3) by (simp add: step_ok_def)
  then have "step_ok st (st1\<lparr>heap := h2\<rparr>) X m" using frame_step[OF c(4,3)] step_ok_trans[OF r(3)] by blast
  moreover have "run_command st cmd args = Some (st1\<lparr>heap := h2\<rparr>, rep)"
    using c(1) t r(1) f(1) by (simp add: run_command_def split: if_splits)
  ultimately show ?thesis using f(2) by blast
qed

text \<open>Requests of clients, and time passing between them.\<close>

datatype input = Command strcmd "char list list" | Tick nat

fun run_inputs :: "redis \<Rightarrow> input list \<Rightarrow> (redis \<times> reply list) option" where
  "run_inputs st [] = Some (st, [])"
| "run_inputs st (Command cmd args # xs) = do {
     (st, rep) \<leftarrow> run_command st cmd args;
     (st, reps) \<leftarrow> run_inputs st xs;
     Some (st, rep # reps) }"
| "run_inputs st (Tick d # xs) = run_inputs (st\<lparr>now := now st + int d\<rparr>) xs"

fun spec_inputs :: "int \<Rightarrow> int \<Rightarrow> keymap \<Rightarrow> input list \<Rightarrow> keymap \<times> reply list" where
  "spec_inputs limit t m [] = (m, [])"
| "spec_inputs limit t m (Command cmd args # xs) =
     (let (m, rep) = spec_command cmd t limit args m; (m, reps) = spec_inputs limit t m xs in (m, rep # reps))"
| "spec_inputs limit t m (Tick d # xs) = spec_inputs limit (t + int d) (\<lambda>k. live (t + int d) (m k)) xs"

fun inputs_ok :: "int \<Rightarrow> input list \<Rightarrow> bool" where
  "inputs_ok t [] \<longleftrightarrow> True"
| "inputs_ok t (Command cmd args # xs) \<longleftrightarrow> input_ok cmd t args \<and> inputs_ok t xs"
| "inputs_ok t (Tick d # xs) \<longleftrightarrow> inputs_ok (t + int d) xs"

lemma live_later: "live (t + int d) (live t e) = live (t + int d) e"
  by (cases "(t, e)" rule: live.cases) auto

lemma tick_spec:
  assumes "db_inv st X"
  shows "db_inv (st\<lparr>now := now st + int d\<rparr>) X"
    "keyspace (st\<lparr>now := now st + int d\<rparr>) = (\<lambda>k. live (now st + int d) (keyspace st k))"
  using assms by (simp_all add: db_inv_def keyspace_def raw_map_def live_later fun_eq_iff)

lemma run_inputs_spec:
  assumes "db_inv st X" "limits_ok st" "inputs_ok (now st) xs"
  shows "\<exists>st'. run_inputs st xs = Some (st', snd (spec_inputs (proto_max_bulk_len st) (now st) (keyspace st) xs)) \<and>
    db_inv st' X \<and> keyspace st' = fst (spec_inputs (proto_max_bulk_len st) (now st) (keyspace st) xs)"
  using assms
proof (induction st xs rule: run_inputs.induct)
  case (1 st)
  then show ?case by simp
next
  case (2 st cmd args xs)
  obtain m rep where s: "spec_command cmd (now st) (proto_max_bulk_len st) args (keyspace st) = (m, rep)" by fastforce
  have "input_ok cmd (now st) args" using 2(4) by simp
  from run_command_spec[OF 2(2,3) this s] obtain st1 where
    r: "run_command st cmd args = Some (st1, rep)" "db_inv st1 X" "step_ok st st1 X m" by blast
  then have f: "frame st st1 X" "keyspace st1 = m" by (simp_all add: step_ok_def)
  have e: "limits_ok st1" "proto_max_bulk_len st1 = proto_max_bulk_len st" "now st1 = now st"
    using limits_frame[OF f(1) 2(3)] frame_now[OF f(1)] by simp_all
  with 2(1)[OF r(1) refl r(2)] 2(4) f(2) r(1) s show ?case
    by (auto simp: split_beta)
next
  case (3 st d xs)
  then show ?case using tick_spec[OF 3(2), of d] by (simp add: limits_ok_def)
qed

section \<open>Properties\<close>

lemma spec_error_keeps: "spec_command cmd t limit args m = (m', RError e) \<Longrightarrow> m' = m"
  by (cases cmd)
    (auto simp: spec_command_def spec_set_def spec_msetgen_def spec_incr_def spec_append_def spec_setrange_def spec_mget_def
      spec_get_def shared_ok_def shared_cone_def Let_def split: if_splits option.splits sum.splits prod.splits)

definition demo_state :: redis where
  "demo_state = \<lparr>heap = [], db_dict = Map.empty, db_expires = Map.empty, watched_keys = (\<lambda>k. if k = ''k'' then [7] else []),
     dirty_cas = (\<lambda>c. False), now = 1000, masterhost = False, loading = False, ro_client = False, from_master = False,
     no_shared = False, proto_max_bulk_len = 536870912, dirty = 0, stat_keyspace_hits = 0, stat_keyspace_misses = 0,
     stat_expiredkeys = 0, events = [], propagated = []\<rparr>"

lemma demo_state_inv: "db_inv demo_state {#}" "limits_ok demo_state" "now demo_state = 1000"
    "proto_max_bulk_len demo_state = 536870912" "keyspace demo_state = Map.empty"
  by (simp_all add: demo_state_def db_inv_def store_ok_def dict_refs_def heap_ok_def deref.simps lim_def limits_ok_def
      MAX_STR_def keyspace_def raw_map_def view_def fun_eq_iff)

lemma demo_numbers: "string2ll ''10'' = Some 10" "show_int 11 = ''11''" "string2ll ''x'' = None"
proof -
  show "string2ll ''10'' = Some 10"
    by (simp add: string2ll_spec show_int_def show_nat.simps digit_char_def char_of_def bit_0 LLONG_MIN_def LLONG_MAX_def)
  show "show_int 11 = ''11''" by (simp add: show_int_def show_nat.simps digit_char_def char_of_def bit_0)
  show "string2ll ''x'' = None" by (simp add: string2ll_def signed_part_def)
qed

text \<open>
  C4: any sequence of string commands, with time passing in between, runs to the end without undefined
  behaviour (no access outside of a buffer or to a freed object, no failed assertion) and gives the
  replies and the keyspace that the specification on a map of byte strings with deadlines gives,
  whatever the encodings, the sharing of objects and the pending lazy expirations inside of the store.
\<close>

theorem string_commands_refine:
  assumes "db_inv st X" "limits_ok st" "inputs_ok (now st) xs"
  shows "\<exists>st'. run_inputs st xs = Some (st', snd (spec_inputs (proto_max_bulk_len st) (now st) (keyspace st) xs)) \<and>
    db_inv st' X \<and> keyspace st' = fst (spec_inputs (proto_max_bulk_len st) (now st) (keyspace st) xs)"
  using assms by (rule run_inputs_spec)

theorem string_commands_refine_witness:
  "\<exists>st'. run_inputs demo_state
      [Command SETEX [''SETEX'', ''k'', ''10'', ''10''], Command INCR [''INCR'', ''k''], Tick 9000, Command GET [''GET'', ''k''],
       Tick 1001, Command GET [''GET'', ''k'']] = Some (st', [RStatus ''OK'', RInt 11, RBulk ''11'', RNull]) \<and>
    keyspace st' = Map.empty"
proof -
  let ?xs = "[Command SETEX [''SETEX'', ''k'', ''10'', ''10''], Command INCR [''INCR'', ''k''], Tick 9000, Command GET [''GET'', ''k''],
       Tick 1001, Command GET [''GET'', ''k'']]"
  have "inputs_ok (now demo_state) ?xs"
    by (simp add: demo_state_inv input_ok_def arity_error_def expire_ok_def demo_numbers MAX_STR_def LLONG_MAX_def)
  moreover have "spec_inputs (proto_max_bulk_len demo_state) (now demo_state) (keyspace demo_state) ?xs =
      (Map.empty, [RStatus ''OK'', RInt 11, RBulk ''11'', RNull])"
    by (simp add: demo_state_inv spec_command_def arity_error_def spec_set_def spec_expire_def spec_int_def spec_incr_def
        spec_str_def spec_get_def put_str_def ttl_def demo_numbers shared_ok_def LLONG_MAX_def LLONG_MIN_def OBJ_SET_NO_FLAGS_def
        fun_eq_iff)
  ultimately show ?thesis using string_commands_refine[OF demo_state_inv(1,2), of ?xs]
    by (auto simp del: run_inputs.simps)
qed

lemma demo_set:
  "input_ok SET (now demo_state) [''SET'', ''k'', ''10'']"
  "spec_command SET (now demo_state) (proto_max_bulk_len demo_state) [''SET'', ''k'', ''10''] (keyspace demo_state) =
     ([''k'' \<mapsto> (VStr ''10'', None)], RStatus ''OK'')"
  by (simp_all add: demo_state_inv input_ok_def arity_error_def MAX_STR_def spec_command_def spec_set_def spec_expire_def
      shared_ok_def OBJ_SET_NO_FLAGS_def)

text \<open>
  C17: a command leaves every reference count equal to the number of references again. With its
  arguments released, the only references are those of the database and of the holders \<open>X\<close> outside of
  it (a transaction, another client), so nothing is leaked and nothing dangles; and the objects those
  holders refer to still have their contents, although the command may have shared or changed strings.
\<close>

theorem run_command_keeps_ownership:
  assumes "db_inv st X" "limits_ok st" "input_ok cmd (now st) args"
  shows "\<exists>st' rep. run_command st cmd args = Some (st', rep) \<and> heap_ok (heap st') (dict_refs (db_dict st') + X) \<and>
    dom (db_expires st') \<subseteq> dom (db_dict st') \<and> (\<forall>r. r \<in># X \<longrightarrow> val_of (heap st') r = val_of (heap st) r)"
proof -
  obtain m rep where "spec_command cmd (now st) (proto_max_bulk_len st) args (keyspace st) = (m, rep)" by fastforce
  from run_command_spec[OF assms this] show ?thesis
    by (auto simp: db_inv_def store_ok_def step_ok_def intro: frame_val)
qed

theorem run_command_keeps_ownership_witness:
  "\<exists>st' rep. run_command demo_state SET [''SET'', ''k'', ''10''] = Some (st', rep) \<and>
    heap_ok (heap st') (dict_refs (db_dict st') + {#})"
  using run_command_keeps_ownership[OF demo_state_inv(1,2) demo_set(1)] by blast

text \<open>
  C36: when a command changes what a key holds, each client that watches the key is marked, so that its
  next \<open>EXEC\<close> aborts; a command never removes such a mark, nor a watcher.
\<close>

theorem run_command_marks_watchers:
  assumes "db_inv st X" "limits_ok st" "input_ok cmd (now st) args" "run_command st cmd args = Some (st', rep)"
  shows "(keyspace st' k \<noteq> keyspace st k \<and> c \<in> set (watched_keys st k) \<longrightarrow> dirty_cas st' c) \<and>
    (dirty_cas st c \<longrightarrow> dirty_cas st' c) \<and> watched_keys st' = watched_keys st"
proof -
  obtain m rp where "spec_command cmd (now st) (proto_max_bulk_len st) args (keyspace st) = (m, rp)" by fastforce
  from run_command_spec[OF assms(1-3) this] have "step_ok st st' X m" using assms(4) by auto
  then show ?thesis unfolding step_ok_def marked_def frame_def by metis
qed

theorem run_command_marks_watchers_witness:
  "\<exists>st' rep. run_command demo_state SET [''SET'', ''k'', ''10''] = Some (st', rep) \<and> dirty_cas st' 7"
proof -
  obtain st' where r: "run_command demo_state SET [''SET'', ''k'', ''10''] = Some (st', RStatus ''OK'')"
      "step_ok demo_state st' {#} [''k'' \<mapsto> (VStr ''10'', None)]"
    using run_command_spec[OF demo_state_inv(1,2) demo_set] by blast
  have "7 \<in> set (watched_keys demo_state ''k'')" by (simp add: demo_state_def)
  moreover have "keyspace st' ''k'' \<noteq> keyspace demo_state ''k''" using r(2) by (simp add: step_ok_def demo_state_inv)
  ultimately show ?thesis
    using run_command_marks_watchers[OF demo_state_inv(1,2) demo_set(1) r(1)] r(1) by blast
qed

text \<open>C37: a command that replies with an error has not changed the keyspace.\<close>

theorem run_command_error_changes_nothing:
  assumes "db_inv st X" "limits_ok st" "input_ok cmd (now st) args" "run_command st cmd args = Some (st', RError e)"
  shows "keyspace st' = keyspace st"
proof -
  obtain m rp where s: "spec_command cmd (now st) (proto_max_bulk_len st) args (keyspace st) = (m, rp)" by fastforce
  from run_command_spec[OF assms(1-3) s] assms(4) have "step_ok st st' X m" "rp = RError e" by auto
  with spec_error_keeps[of cmd "now st"] s show ?thesis by (simp add: step_ok_def)
qed

theorem run_command_error_changes_nothing_witness:
  "\<exists>st' e. run_command demo_state INCRBY [''INCRBY'', ''k'', ''x''] = Some (st', RError e) \<and> keyspace st' = keyspace demo_state"
proof -
  let ?args = "[''INCRBY'', ''k'', ''x'']"
  have i: "input_ok INCRBY (now demo_state) ?args" by (simp add: input_ok_def MAX_STR_def)
  have "spec_command INCRBY (now demo_state) (proto_max_bulk_len demo_state) ?args (keyspace demo_state) =
      (keyspace demo_state, RError ''ERR value is not an integer or out of range'')"
    by (simp add: spec_command_def arity_error_def spec_int_def demo_numbers)
  from run_command_spec[OF demo_state_inv(1,2) i this] obtain st' where
    r: "run_command demo_state INCRBY ?args = Some (st', RError ''ERR value is not an integer or out of range'')" by blast
  with run_command_error_changes_nothing[OF demo_state_inv(1,2) i r] show ?thesis by blast
qed

lemma to_size_wide: "0 \<le> x \<Longrightarrow> x < 2 ^ 64 \<Longrightarrow> to_size x = nat x"
  by (simp add: to_size_def unat_eq_nat_uint uint_word_of_int)

lemma to_ll_wrap: "LLONG_MAX < x \<Longrightarrow> x < 2 ^ 64 \<Longrightarrow> to_ll x = x - 2 ^ 64"
proof -
  assume x: "LLONG_MAX < x" "x < 2 ^ 64"
  have e: "(word_of_int x :: u64) = word_of_int (x - 2 ^ 64)" by (simp add: word_of_int_eq_iff take_bit_eq_mod mod_simps)
  show ?thesis
    unfolding to_ll_def e by (rule sint_of_int64) (use x in \<open>simp_all add: LLONG_MAX_def\<close>)
qed



text \<open>
  C39: requests whose arithmetic is undefined in C: \<open>DECRBY\<close> negates the smallest \<open>long long\<close>, and the
  conversion of a time to live from seconds to milliseconds is not checked for overflow.
\<close>

theorem overflowing_requests_undefined:
  assumes inv: "db_inv st X" and len: "\<forall>b\<in>{c, k, v}. length b \<le> MAX_STR"
    and n: "LLONG_MAX < n * 1000" "n \<le> LLONG_MAX"
  shows "run_command st DECRBY [c, k, show_int LLONG_MIN] = None \<and> run_command st SETEX [c, k, show_int n, v] = None"
proof
  have ints: "spec_int (show_int LLONG_MIN) = Inr LLONG_MIN" "spec_int (show_int n) = Inr n"
    using n string2ll_spec[of "show_int LLONG_MIN" LLONG_MIN] string2ll_spec[of "show_int n" n]
    by (simp_all add: spec_int_def LLONG_MIN_def LLONG_MAX_def)
  have short: "length (show_int LLONG_MIN) \<le> MAX_STR" "length (show_int n) \<le> MAX_STR"
    using n length_show_int_le[of LLONG_MIN] length_show_int_le[of n] by (simp_all add: MAX_STR_def LLONG_MIN_def LLONG_MAX_def)
  let ?a = "[c, k, show_int LLONG_MIN]"
  have "\<forall>b\<in>set ?a. length b \<le> MAX_STR" using len short by simp
  from create_args_spec[OF inv this] obtain h argv where
    h: "create_args (heap st) ?a = Some (h, argv)" "args_ok (st\<lparr>heap := h\<rparr>) argv X ?a" by blast
  have "getLongLongFromObjectOrReply h (Some (argv ! 2)) = Some (Inr LLONG_MIN)"
    using getLongLong_spec[OF args_inv[OF h(2)], of "argv ! 2" "?a ! 2"] args_okD(4,5)[OF h(2), of 2] ints(1) by simp
  then show "run_command st DECRBY ?a = None"
    using h(1) args_okD(1)[OF h(2), of 2] args_inv[OF h(2)] h(2)
    by (simp add: run_command_def arity_error_def decrbyCommand_def args_from_def)
  let ?a = "[c, k, show_int n, v]"
  have "\<forall>b\<in>set ?a. length b \<le> MAX_STR" using len short by simp
  from create_args_spec[OF inv this] obtain h argv where
    h: "create_args (heap st) ?a = Some (h, argv)" "args_ok (st\<lparr>heap := h\<rparr>) argv X ?a" by blast
  have l: "length argv = 4" using h(2) by (simp add: args_from_def)
  obtain h2 r where e: "encode_arg (st\<lparr>heap := h\<rparr>) argv 3 = Some (st\<lparr>heap := h2\<rparr>, argv[3 := r], r)"
      "db_inv (st\<lparr>heap := h2\<rparr>) (add_mset r (others argv 3 X))" "frame (st\<lparr>heap := h\<rparr>) (st\<lparr>heap := h2\<rparr>) (others argv 3 X)"
    using encode_arg_spec[OF h(2), of 3] by auto
  have in2: "argv ! 2 \<in># others argv 3 X" using others_in[of 3 argv 2 X] l by simp
  then have "val_of h2 (argv ! 2) = Some (VStr (show_int n))"
    using frame_val[OF e(3)] args_okD(4)[OF h(2), of 2] by simp
  then have "getLongLongFromObjectOrReply h2 (Some (argv ! 2)) = Some (Inr n)"
    using getLongLong_spec[OF e(2), of "argv ! 2" "show_int n"] in2 ints(2) by simp
  then have "expire_ms (st\<lparr>heap := h2\<rparr>) (Some (argv ! 2)) UNIT_SECONDS ''setex'' = None"
    using n by (simp add: expire_ms_def LLONG_MAX_def)
  then show "run_command st SETEX ?a = None"
    using h(1) e(1) l args_okD(1)[OF h(2), of 2]
    by (auto simp: run_command_def arity_error_def setexCommand_def setGenericCommand_def bind_eq_None_conv)
qed

theorem overflowing_requests_undefined_witness:
  "run_command demo_state DECRBY [''DECRBY'', ''k'', show_int LLONG_MIN] = None \<and>
   run_command demo_state SETEX [''DECRBY'', ''k'', show_int LLONG_MAX, ''v''] = None"
  by (rule overflowing_requests_undefined[OF demo_state_inv(1)]) (simp_all add: MAX_STR_def LLONG_MAX_def)

end
