(* ===== verification/Footprint.thy ===== *)
theory Footprint
  imports StringWrite
begin

text \<open>
  What a string command can make the database refer to: what it already refers to, the arguments of the
  command, shared integers, and objects that the command allocates. Nothing else: in particular not the
  arguments that other clients have queued.
\<close>

definition newer :: "heap \<Rightarrow> oref \<Rightarrow> bool" where
  "newer h r \<longleftrightarrow> (case r of Integer n \<Rightarrow> True | Obj a \<Rightarrow> length h \<le> a)"

definition effect :: "redis \<Rightarrow> oref set \<Rightarrow> redis \<Rightarrow> oref set \<Rightarrow> bool" where
  "effect st A st' A' \<longleftrightarrow>
     length (heap st) \<le> length (heap st') \<and>
     (\<forall>r \<in> ran (db_dict st') \<union> A'. r \<in> ran (db_dict st) \<union> A \<or> newer (heap st) r)"

lemma newer_mono: "newer h' r \<Longrightarrow> length h \<le> length h' \<Longrightarrow> newer h r"
  by (cases r) (auto simp: newer_def)

lemma newer_simps [simp]: "newer h (Integer n)" "newer h (Obj a) \<longleftrightarrow> length h \<le> a"
  by (simp_all add: newer_def)

lemma effect_refl [simp]: "effect st A st A"
  by (simp add: effect_def)

lemma effect_trans: "effect st A st1 A1 \<Longrightarrow> effect st1 A1 st2 A2 \<Longrightarrow> effect st A st2 A2"
  unfolding effect_def by (meson Un_iff newer_mono order_trans)

lemma effect_weaken: "effect st A st' A' \<Longrightarrow> A \<subseteq> B \<Longrightarrow> A'' \<subseteq> A' \<union> B \<Longrightarrow> effect st B st' A''"
  unfolding effect_def by blast

lemma effect_env [simp]:
  "effect st A (notifyKeyspaceEvent e k st') A' = effect st A st' A'"
  "effect st A (signalModifiedKey st' k) A' = effect st A st' A'"
  "effect st A (keymiss st' k) A' = effect st A st' A'"
  "effect st A (propagateExpire st' k) A' = effect st A st' A'"
  "effect st A (st'\<lparr>dirty := n\<rparr>) A' = effect st A st' A'"
  "effect st A (st'\<lparr>stat_keyspace_hits := h\<rparr>) A' = effect st A st' A'"
  "effect st A (st'\<lparr>stat_expiredkeys := h\<rparr>) A' = effect st A st' A'"
  "effect st A (st'\<lparr>db_expires := e'\<rparr>) A' = effect st A st' A'"
  by (simp_all add: effect_def)

section \<open>Objects\<close>

lemma store_len: "store xs i x = Some ys \<Longrightarrow> length ys = length xs"
  by (auto simp: store_def split: if_splits)

lemma set_obj_len: "set_obj h r ob = Some h' \<Longrightarrow> length h' = length h"
  by (cases r) (auto dest: store_len split: if_splits)

lemma zfree_len: "zfree h r = Some h' \<Longrightarrow> length h' = length h"
  by (cases r) (auto dest: store_len split: if_splits)

lemma incrRefCount_len: "incrRefCount h r = Some h' \<Longrightarrow> length h' = length h"
  by (auto simp: incrRefCount_def bind_eq_Some_conv dest: set_obj_len zfree_len split: if_splits)

lemma decrRefCount_len: "decrRefCount h r = Some h' \<Longrightarrow> length h' = length h"
  by (auto simp: decrRefCount_def bind_eq_Some_conv dest: set_obj_len zfree_len split: if_splits)

text \<open>A function that returns a reference: to an old object, or a newer one.\<close>

definition allocs :: "heap \<Rightarrow> heap \<Rightarrow> oref \<Rightarrow> bool" where
  "allocs h h' r \<longleftrightarrow> length h \<le> length h' \<and> newer h r"

lemma createRaw_alloc: "createRawStringObject h p n = Some (h', r) \<Longrightarrow> allocs h h' r"
  by (auto simp: createRawStringObject_def createObject_def bind_eq_Some_conv allocs_def)

lemma createEmbedded_alloc: "createEmbeddedStringObject h p n = Some (h', r) \<Longrightarrow> allocs h h' r"
  by (auto simp: createEmbeddedStringObject_def bind_eq_Some_conv allocs_def Let_def)

lemma createString_alloc: "createStringObject h p n = Some (h', r) \<Longrightarrow> allocs h h' r"
  by (auto simp: createStringObject_def createRaw_alloc createEmbedded_alloc split: if_splits)

lemma createInt_alloc: "createStringObjectFromLongLongWithOptions ns h v b = Some (h', r) \<Longrightarrow> allocs h h' r"
  by (auto simp: createStringObjectFromLongLongWithOptions_def createObject_def bind_eq_Some_conv allocs_def Let_def
      dest: incrRefCount_len split: if_splits)

lemma trim_len: "trimStringObjectIfNeeded h r = Some h' \<Longrightarrow> length h' = length h"
  by (auto simp: trimStringObjectIfNeeded_def bind_eq_Some_conv dest: set_obj_len split: if_splits)

lemma tryObjectEncoding_alloc: "tryObjectEncoding ns h r = Some (h', r') \<Longrightarrow> length h \<le> length h' \<and> (r' = r \<or> newer h r')"
  by (auto simp: tryObjectEncoding_def createStringObjectFromLongLongForValue_def bind_eq_Some_conv
      dest!: createInt_alloc createEmbedded_alloc trim_len incrRefCount_len decrRefCount_len set_obj_len
      simp: allocs_def newer_def split: if_splits option.splits oref.splits)

lemma getDecodedObject_len: "getDecodedObject h r = Some (h', r') \<Longrightarrow> length h \<le> length h'"
  by (auto simp: getDecodedObject_def bind_eq_Some_conv allocs_def dest!: createString_alloc incrRefCount_len split: if_splits)

section \<open>Database\<close>

lemma ran_del: "ran (d(k := None)) \<subseteq> ran d"
  by (auto simp: ran_def)

lemma ran_put: "ran (d(k \<mapsto> v)) \<subseteq> insert v (ran d)"
  by (auto simp: ran_def)

lemma dbSyncDelete_effect: "dbSyncDelete st k = Some (st', b) \<Longrightarrow> effect st A st' A"
  using ran_del[of "db_dict st" k]
  by (auto simp: dbSyncDelete_def effect_def bind_eq_Some_conv Let_def dest: decrRefCount_len split: option.splits)

lemma expireIfNeeded_effect: "expireIfNeeded st k = Some (st', b) \<Longrightarrow> effect st A st' A"
proof -
  assume a: "expireIfNeeded st k = Some (st', b)"
  let ?st = "notifyKeyspaceEvent ''expired'' k (propagateExpire (st\<lparr>stat_expiredkeys := stat_expiredkeys st + 1\<rparr>) k)"
  have "st' = st \<or> (\<exists>st1 c. dbSyncDelete ?st k = Some (st1, c) \<and> (st' = st1 \<or> st' = signalModifiedKey st1 k))"
    using a by (auto simp: expireIfNeeded_def bind_eq_Some_conv Let_def split: if_splits)
  then show ?thesis
  proof
    assume "\<exists>st1 c. dbSyncDelete ?st k = Some (st1, c) \<and> (st' = st1 \<or> st' = signalModifiedKey st1 k)"
    then obtain st1 c where s: "dbSyncDelete ?st k = Some (st1, c)" "st' = st1 \<or> st' = signalModifiedKey st1 k" by blast
    have "effect st A ?st A" by simp
    then have "effect st A st1 A" using dbSyncDelete_effect[OF s(1)] by (rule effect_trans)
    then show ?thesis using s(2) by auto
  qed simp
qed

lemma lookupKeyRead_effect: "lookupKeyRead st k = Some (st', ob) \<Longrightarrow> effect st A st' A"
  by (auto simp: lookupKeyRead_def bind_eq_Some_conv dest: expireIfNeeded_effect split: if_splits option.splits)

lemma lookupKeyWrite_effect: "lookupKeyWrite st k = Some (st', ob) \<Longrightarrow> effect st A st' A"
  by (auto simp: lookupKeyWrite_def bind_eq_Some_conv dest: expireIfNeeded_effect)

lemma dbAdd_effect: "dbAdd st k v = Some st' \<Longrightarrow> v \<in> A \<Longrightarrow> effect st A st' A"
  using ran_put[of "db_dict st" k v] by (auto simp: dbAdd_def effect_def split: if_splits)

lemma dbOverwrite_effect: "dbOverwrite st k v = Some st' \<Longrightarrow> v \<in> A \<Longrightarrow> effect st A st' A"
  using ran_put[of "db_dict st" k v]
  by (auto simp: dbOverwrite_def effect_def bind_eq_Some_conv Let_def dest: decrRefCount_len)

lemma removeExpire_effect: "removeExpire st k = Some (st', b) \<Longrightarrow> effect st A st' A"
  by (auto simp: removeExpire_def effect_def split: if_splits)

lemma setExpire_effect: "setExpire st k w = Some st' \<Longrightarrow> effect st A st' A"
  by (auto simp: setExpire_def effect_def split: if_splits)

lemma heap_effect: "length h' \<ge> length (heap st) \<Longrightarrow> effect st A (st\<lparr>heap := h'\<rparr>) A"
  by (auto simp: effect_def)

lemma genericSetKey_effect: "genericSetKey st k v keepttl signal = Some st' \<Longrightarrow> v \<in> A \<Longrightarrow> effect st A st' A"
proof -
  assume a: "genericSetKey st k v keepttl signal = Some st'" and v: "v \<in> A"
  obtain st1 old st2 h st3 where s: "lookupKeyWrite st k = Some (st1, old)"
      "(if old = None then dbAdd st1 k v else dbOverwrite st1 k v) = Some st2" "incrRefCount (heap st2) v = Some h"
      "(if \<not> keepttl then map_option fst (removeExpire (st2\<lparr>heap := h\<rparr>) k) else Some (st2\<lparr>heap := h\<rparr>)) = Some st3"
      "st' = (if signal then signalModifiedKey st3 k else st3)"
    using a unfolding genericSetKey_def bind_eq_Some_conv Let_def by (auto simp: bind_eq_Some_conv)
  have "effect st A st1 A" using s(1) by (rule lookupKeyWrite_effect)
  moreover have "effect st1 A st2 A" using s(2) v by (auto dest: dbAdd_effect dbOverwrite_effect split: if_splits)
  moreover have "effect st2 A (st2\<lparr>heap := h\<rparr>) A" using incrRefCount_len[OF s(3)] by (intro heap_effect) simp
  moreover have "effect (st2\<lparr>heap := h\<rparr>) A st3 A"
    using s(4) by (auto dest: removeExpire_effect split: if_splits)
  ultimately have "effect st A st3 A" by (meson effect_trans)
  then show ?thesis using s(5) by simp
qed

lemma dbUnshareStringValue_effect:
  "dbUnshareStringValue st k r = Some (st', r') \<Longrightarrow> effect st A st' A"
proof -
  assume a: "dbUnshareStringValue st k r = Some (st', r')"
  show ?thesis
  proof (cases "st' = st")
    case False
    then obtain h1 dec b n h2 new h3 where s: "getDecodedObject (heap st) r = Some (h1, dec)"
        "createRawStringObject h1 (Bytes b) n = Some (h2, new)" "decrRefCount h2 dec = Some h3"
        "dbOverwrite (st\<lparr>heap := h3\<rparr>) k new = Some st'"
      using a by (auto simp: dbUnshareStringValue_def bind_eq_Some_conv split: if_splits)
    have l: "length (heap st) \<le> length h1" "length h1 \<le> length h2" "newer h1 new" "length h3 = length h2"
      using getDecodedObject_len[OF s(1)] createRaw_alloc[OF s(2)] decrRefCount_len[OF s(3)] by (simp_all add: allocs_def)
    have "effect (st\<lparr>heap := h3\<rparr>) (insert new A) st' (insert new A)" using s(4) by (rule dbOverwrite_effect) simp
    moreover have "newer (heap st) new" using newer_mono[OF l(3,1)] .
    then have "effect st A (st\<lparr>heap := h3\<rparr>) (insert new A)" using l by (auto simp: effect_def)
    ultimately have "effect st A st' (insert new A)" by (rule effect_trans[rotated])
    then show ?thesis by (rule effect_weaken) auto
  qed simp
qed

section \<open>Commands\<close>

lemma encode_arg_effect:
  assumes "encode_arg st argv i = Some (st', argv', val)"
  shows "effect st (set argv) st' (set argv') \<and> val \<in> set argv'"
proof -
  obtain r h where e: "fetch argv i = Some r" "tryObjectEncoding (no_shared st) (heap st) r = Some (h, val)"
      "st' = st\<lparr>heap := h\<rparr>" "argv' = argv[i := val]"
    using assms by (auto simp: encode_arg_def bind_eq_Some_conv)
  then have i: "i < length argv" "r = argv ! i" by (auto simp: fetch_def split: if_splits)
  have "set argv' \<subseteq> insert val (set argv)" unfolding e(4) by (rule set_update_subset_insert)
  with e(3) tryObjectEncoding_alloc[OF e(2)] i show ?thesis
    by (auto simp: effect_def e(4) set_update_memI)
qed

lemma set_aborts_effect: "set_aborts st flags k = Some (st', b) \<Longrightarrow> effect st A st' A"
  unfolding set_aborts_def
  by (auto simp: bind_eq_Some_conv dest!: lookupKeyWrite_effect[where A = A] intro: effect_trans split: if_splits)

lemma setGeneric_effect:
  assumes "setGenericCommand st flags k val ex unit name okr abr = Some (st', rep)" and v: "val \<in> A"
  shows "effect st A st' A"
proof (cases "expire_ms st ex unit name")
  case (Some e)
  show ?thesis
  proof (cases e)
    case (Inl err)
    then show ?thesis using assms(1) Some by (simp add: setGenericCommand_def)
  next
    case (Inr ms)
    then obtain st1 ab where s1: "set_aborts st flags k = Some (st1, ab)"
      using assms(1) Some by (auto simp: setGenericCommand_def bind_eq_Some_conv)
    have e1: "effect st A st1 A" using s1 by (rule set_aborts_effect)
    show ?thesis
    proof (cases ab)
      case True
      then show ?thesis using assms(1) Some Inr s1 e1 by (simp add: setGenericCommand_def)
    next
      case False
      then obtain st2 st3 where s: "genericSetKey st1 k val (OBJ_SET_KEEPTTL flags) True = Some st2"
          "(if ex \<noteq> None then if now st2 + ms > LLONG_MAX then None
            else setExpire (st2\<lparr>dirty := dirty st2 + 1\<rparr>) k (now st2 + ms) else Some (st2\<lparr>dirty := dirty st2 + 1\<rparr>)) = Some st3"
          "\<And>B. effect st A st' B = effect st A st3 B"
        using assms(1) Some Inr s1
        by (cases "ex = None") (auto simp: setGenericCommand_def bind_eq_Some_conv Let_def split: if_splits)
      have "effect st1 A st2 A" using s(1) v by (rule genericSetKey_effect)
      moreover have "effect st2 A st3 A"
      proof -
        have "effect st2 A (st2\<lparr>dirty := dirty st2 + 1\<rparr>) A" by simp
        moreover have "effect (st2\<lparr>dirty := dirty st2 + 1\<rparr>) A st3 A"
          using s(2) by (auto dest: setExpire_effect split: if_splits)
        ultimately show ?thesis by (rule effect_trans)
      qed
      ultimately show ?thesis using e1 s(3) by (meson effect_trans)
    qed
  qed
qed (use assms(1) in \<open>simp add: setGenericCommand_def\<close>)

lemma encode_set_effect:
  assumes "encode_arg st argv i = Some (st1, argv', val)" "setGenericCommand st1 flags k val ex unit name okr abr = Some (st', rep)"
  shows "effect st (set argv) st' (set argv')"
  using encode_arg_effect[OF assms(1)] setGeneric_effect[OF assms(2), of "set argv'"] effect_trans by blast

lemma set_commands_effect:
  "setCommand st argv = Some (st', argv', rep) \<Longrightarrow> effect st (set argv) st' (set argv')"
  "setnxCommand st argv = Some (st', argv', rep) \<Longrightarrow> effect st (set argv) st' (set argv')"
  "setexCommand st argv = Some (st', argv', rep) \<Longrightarrow> effect st (set argv) st' (set argv')"
  "psetexCommand st argv = Some (st', argv', rep) \<Longrightarrow> effect st (set argv) st' (set argv')"
  by (auto simp: setCommand_def setnxCommand_def setexCommand_def psetexCommand_def bind_eq_Some_conv
      dest: encode_set_effect split: option.splits)

lemma getGeneric_effect: "getGenericCommand st argv = Some (st', b, rep) \<Longrightarrow> effect st A st' A"
  by (auto simp: getGenericCommand_def bind_eq_Some_conv dest: lookupKeyRead_effect split: option.splits)

lemma mget_loop_effect: "mget_loop st as = Some (st', reps) \<Longrightarrow> effect st A st' A"
proof (induction st as arbitrary: st' reps rule: mget_loop.induct)
  case (2 st a rest)
  then obtain k st1 ob rep reps1 where s: "arg_bytes (heap st) a = Some k" "lookupKeyRead st k = Some (st1, ob)"
      "(case ob of None \<Rightarrow> Some RNull | Some r \<Rightarrow> do { ob \<leftarrow> deref (heap st1) r;
         if o_type ob \<noteq> OBJ_STRING then Some RNull else addReplyBulk (heap st1) r }) = Some rep"
      "mget_loop st1 rest = Some (st', reps1)"
    by (auto simp: bind_eq_Some_conv)
  have "effect st1 A st' A" using 2(1)[OF s(1,2) refl s(3,4)] .
  with lookupKeyRead_effect[OF s(2), of A] show ?case by (rule effect_trans)
qed simp

lemma bind_SomeE: "Option.bind m f = Some y \<Longrightarrow> (\<And>x. m = Some x \<Longrightarrow> f x = Some y \<Longrightarrow> P) \<Longrightarrow> P"
  by (auto simp: bind_eq_Some_conv)

lemma getrange_effect: "getrangeCommand st argv = Some (st', argv', rep) \<Longrightarrow> effect st (set argv) st' (set argv')"
  by (auto simp: getrangeCommand_def elim!: bind_SomeE split: option.splits sum.splits prod.splits)
    (erule lookupKeyRead_effect)+

lemma strlen_effect: "strlenCommand st argv = Some (st', argv', rep) \<Longrightarrow> effect st (set argv) st' (set argv')"
  by (auto simp: strlenCommand_def elim!: bind_SomeE split: option.splits) (erule lookupKeyRead_effect)+

lemma get_commands_effect:
  "getCommand st argv = Some (st', argv', rep) \<Longrightarrow> effect st (set argv) st' (set argv')"
  "mgetCommand st argv = Some (st', argv', rep) \<Longrightarrow> effect st (set argv) st' (set argv')"
  by (auto simp: getCommand_def mgetCommand_def bind_eq_Some_conv dest: getGeneric_effect mget_loop_effect)

lemma getset_effect: "getsetCommand st argv = Some (st', argv', rep) \<Longrightarrow> effect st (set argv) st' (set argv')"
proof -
  assume a: "getsetCommand st argv = Some (st', argv', rep)"
  obtain st1 b rp where g: "getGenericCommand st argv = Some (st1, b, rp)"
    using a by (auto simp: getsetCommand_def elim!: bind_SomeE)
  show ?thesis
  proof (cases b)
    case False
    then show ?thesis using a g getGeneric_effect[OF g] by (simp add: getsetCommand_def)
  next
    case True
    then obtain k st2 val st3 where s: "encode_arg st1 argv 2 = Some (st2, argv', val)" "setKey st2 k val = Some st3"
        "\<And>B. effect st (set argv) st' B = effect st (set argv) st3 B"
      using a g by (auto simp: getsetCommand_def Let_def elim!: bind_SomeE)
    have "effect st (set argv) st1 (set argv)" using g by (rule getGeneric_effect)
    moreover have "effect st1 (set argv) st2 (set argv')" "val \<in> set argv'" using encode_arg_effect[OF s(1)] by simp_all
    moreover have "effect st2 (set argv') st3 (set argv')"
      using genericSetKey_effect[of st2 k val False True st3] s(2) \<open>val \<in> _\<close> by (simp add: setKey_def)
    ultimately show ?thesis using s(3) by (meson effect_trans)
  qed
qed

lemma update_sds_effect: "update_sds st r f = Some (st', s) \<Longrightarrow> effect st A st' A"
  by (auto simp: update_sds_def elim!: bind_SomeE dest!: set_obj_len intro!: heap_effect)

lemma new_object_effect:
  assumes "allocs (heap st) h r" "dbAdd (st\<lparr>heap := h\<rparr>) k r = Some st' \<or> dbOverwrite (st\<lparr>heap := h\<rparr>) k r = Some st'"
  shows "effect st A st' A"
proof -
  have "effect st A (st\<lparr>heap := h\<rparr>) (insert r A)" using assms(1) by (auto simp: effect_def allocs_def)
  moreover have "effect (st\<lparr>heap := h\<rparr>) (insert r A) st' (insert r A)"
    using assms(2) dbAdd_effect[of "st\<lparr>heap := h\<rparr>" k r st' "insert r A"] dbOverwrite_effect[of "st\<lparr>heap := h\<rparr>" k r st' "insert r A"]
    by blast
  ultimately have "effect st A st' (insert r A)" by (rule effect_trans)
  then show ?thesis by (rule effect_weaken) auto
qed

lemma setrange_finish_effect: "setrange_finish st argv k r off v = Some (st', argv', rep) \<Longrightarrow> effect st A st' A \<and> argv' = argv"
  by (auto simp: setrange_finish_def Let_def elim!: bind_SomeE intro: update_sds_effect)

lemma setrange_effect:
  assumes "setrangeCommand st argv = Some (st', argv', rep)"
  shows "effect st (set argv) st' (set argv')"
proof -
  consider "st' = st" "argv' = argv"
    | k ob where "lookupKeyWrite st k = Some (st', ob)" "argv' = argv"
    | k st1 ob s h r st2 off v where "lookupKeyWrite st k = Some (st1, ob)" "createObject (heap st1) OBJ_STRING (PSds s) = (h, r)"
        "dbAdd (st1\<lparr>heap := h\<rparr>) k r = Some st2" "setrange_finish st2 argv k r off v = Some (st', argv', rep)"
    | k st1 ob r st2 r' off v where "lookupKeyWrite st k = Some (st1, ob)" "dbUnshareStringValue st1 k r = Some (st2, r')"
        "setrange_finish st2 argv k r' off v = Some (st', argv', rep)"
    using assms
    by (auto simp: setrangeCommand_def Let_def elim!: bind_SomeE split: option.splits sum.splits prod.splits if_splits)
  then show ?thesis
  proof cases
    case 1
    then show ?thesis by simp
  next
    case 2
    then show ?thesis by (auto intro: lookupKeyWrite_effect)
  next
    case (3 k st1 ob s h r st2 off v)
    have "allocs (heap st1) h r" using 3(2) by (auto simp: createObject_def allocs_def)
    then have "effect st1 (set argv) st2 (set argv)" using 3(3) by (blast intro: new_object_effect)
    then show ?thesis
      using lookupKeyWrite_effect[OF 3(1), of "set argv"] setrange_finish_effect[OF 3(4), of "set argv"] by (auto intro: effect_trans)
  next
    case (4 k st1 ob r st2 r' off v)
    then show ?thesis
      using lookupKeyWrite_effect[OF 4(1), of "set argv"] dbUnshareStringValue_effect[OF 4(2), of "set argv"]
        setrange_finish_effect[OF 4(3), of "set argv"] by (auto intro: effect_trans)
  qed
qed

lemma incr_store_effect: "incr_store st k ob v = Some st' \<Longrightarrow> effect st A st' A"
  by (auto simp: incr_store_def createStringObjectFromLongLongForValue_def elim!: bind_SomeE
      split: option.splits if_splits prod.splits
      intro: new_object_effect dest!: createInt_alloc set_obj_len intro!: heap_effect)

lemma incrDecr_effect:
  assumes "incrDecrCommand st argv i = Some (st', argv', rep)"
  shows "effect st (set argv) st' (set argv')"
proof -
  consider k ob where "lookupKeyWrite st k = Some (st', ob)" "argv' = argv"
    | k st1 ob st2 v where "lookupKeyWrite st k = Some (st1, ob)" "incr_store st1 k ob v = Some st2" "argv' = argv"
        "st' = (notifyKeyspaceEvent ''incrby'' k (signalModifiedKey st2 k))\<lparr>dirty :=
           dirty (notifyKeyspaceEvent ''incrby'' k (signalModifiedKey st2 k)) + 1\<rparr>"
    using assms by (auto simp: incrDecrCommand_def Let_def elim!: bind_SomeE split: option.splits sum.splits prod.splits if_splits)
  then show ?thesis
  proof cases
    case 1
    then show ?thesis by (auto intro: lookupKeyWrite_effect)
  next
    case (2 k st1 ob st2 v)
    show ?thesis
      using effect_trans[OF lookupKeyWrite_effect[OF 2(1)] incr_store_effect[OF 2(2)], of "set argv"] 2(3,4) by simp
  qed
qed

lemma incr_commands_effect:
  "incrCommand st argv = Some (st', argv', rep) \<Longrightarrow> effect st (set argv) st' (set argv')"
  "decrCommand st argv = Some (st', argv', rep) \<Longrightarrow> effect st (set argv) st' (set argv')"
  "incrbyCommand st argv = Some (st', argv', rep) \<Longrightarrow> effect st (set argv) st' (set argv')"
  "decrbyCommand st argv = Some (st', argv', rep) \<Longrightarrow> effect st (set argv) st' (set argv')"
  by (auto simp: incrCommand_def decrCommand_def incrbyCommand_def decrbyCommand_def elim!: bind_SomeE
      dest: incrDecr_effect split: sum.splits if_splits)

lemma append_effect:
  assumes "appendCommand st argv = Some (st', argv', rep)"
  shows "effect st (set argv) st' (set argv')"
proof -
  consider k ob where "lookupKeyWrite st k = Some (st', ob)" "argv' = argv"
    | k st1 ob st2 val st3 h where "lookupKeyWrite st k = Some (st1, ob)" "encode_arg st1 argv 2 = Some (st2, argv', val)"
        "dbAdd st2 k val = Some st3" "incrRefCount (heap st3) val = Some h"
        "\<And>A B. effect st A st' B = effect st A (st3\<lparr>heap := h\<rparr>) B"
    | k st1 ob r st2 r' st3 s f where "lookupKeyWrite st k = Some (st1, ob)" "dbUnshareStringValue st1 k r = Some (st2, r')"
        "update_sds st2 r' f = Some (st3, s)" "argv' = argv" "\<And>A B. effect st A st' B = effect st A st3 B"
    using assms
    by (auto simp: appendCommand_def append_finish_def Let_def elim!: bind_SomeE split: option.splits sum.splits prod.splits if_splits)
  then show ?thesis
  proof cases
    case 1
    then show ?thesis by (auto intro: lookupKeyWrite_effect)
  next
    case (2 k st1 ob st2 val st3 h)
    note e = encode_arg_effect[OF 2(2)]
    have "effect st3 (set argv') (st3\<lparr>heap := h\<rparr>) (set argv')" using incrRefCount_len[OF 2(4)] by (intro heap_effect) simp
    with lookupKeyWrite_effect[OF 2(1), of "set argv"] e dbAdd_effect[OF 2(3), of "set argv'"]
    show ?thesis unfolding 2(5) by (meson effect_trans)
  next
    case (3 k st1 ob r st2 r' st3 s f)
    with lookupKeyWrite_effect[OF 3(1), of "set argv"] dbUnshareStringValue_effect[OF 3(2), of "set argv"]
      update_sds_effect[OF 3(3), of "set argv"]
    show ?thesis by (meson effect_trans)
  qed
qed

lemma mset_exists_effect: "mset_exists st argv j = Some (st', b) \<Longrightarrow> effect st A st' A"
proof (induction st argv j arbitrary: st' b rule: mset_exists.induct)
  case (1 st argv j)
  show ?case
  proof (cases "j < length argv")
    case True
    then obtain k st1 ob where s: "arg_key st argv j = Some k" "lookupKeyWrite st k = Some (st1, ob)"
        "(if ob \<noteq> None then Some (st1, True) else mset_exists st1 argv (j + 2)) = Some (st', b)"
      using 1(2) by (subst (asm) mset_exists.simps) (auto elim!: bind_SomeE)
    have "effect st A st1 A" using s(2) by (rule lookupKeyWrite_effect)
    moreover have "effect st1 A st' A"
      using s(3) 1(1)[OF True s(1,2) refl] by (cases "ob = None") auto
    ultimately show ?thesis by (rule effect_trans)
  next
    case False
    then show ?thesis using 1(2) by (subst (asm) mset_exists.simps) simp
  qed
qed

lemma mset_loop_effect: "mset_loop st argv j = Some (st', argv') \<Longrightarrow> effect st (set argv) st' (set argv')"
proof (induction st argv j arbitrary: st' argv' rule: mset_loop.induct)
  case (1 st argv j)
  show ?case
  proof (cases "j < length argv")
    case True
    then obtain st1 argv1 val k st2 where s: "encode_arg st argv (j + 1) = Some (st1, argv1, val)"
        "length argv1 = length argv" "arg_key st1 argv1 j = Some k" "setKey st1 k val = Some st2"
        "mset_loop (notifyKeyspaceEvent ''set'' k st2) argv1 (j + 2) = Some (st', argv')"
      using 1(2) by (subst (asm) mset_loop.simps) (auto elim!: bind_SomeE split: option.splits if_splits prod.splits)
    note e = encode_arg_effect[OF s(1)]
    have "effect st1 (set argv1) (notifyKeyspaceEvent ''set'' k st2) (set argv1)"
      using genericSetKey_effect[of st1 k val False True st2] s(4) e by (simp add: setKey_def)
    moreover have "\<not> length argv1 \<noteq> length argv" using s(2) by simp
    then have "effect (notifyKeyspaceEvent ''set'' k st2) (set argv1) st' (set argv')"
      using 1(1)[OF True s(1) refl refl _ s(3,4,5)] by simp
    ultimately show ?thesis using e by (meson effect_trans)
  next
    case False
    then show ?thesis using 1(2) by (subst (asm) mset_loop.simps) simp
  qed
qed

lemma msetGeneric_effect:
  assumes "msetGenericCommand st argv nx = Some (st', argv', rep)"
  shows "effect st (set argv) st' (set argv')"
proof (cases "length argv mod 2 = 0")
  case False
  obtain st1 ex where s: "(if nx then mset_exists st argv 1 else Some (st, False)) = Some (st1, ex)"
    using assms False by (auto simp: msetGenericCommand_def elim!: bind_SomeE)
  have e: "effect st (set argv) st1 (set argv)"
    using s mset_exists_effect[of st argv 1 st1 ex "set argv"] by (cases nx) simp_all
  show ?thesis
  proof (cases ex)
    case True
    then show ?thesis using assms False s e by (simp add: msetGenericCommand_def)
  next
    case no: False
    then obtain st2 where l: "mset_loop st1 argv 1 = Some (st2, argv')" "\<And>A B. effect st A st' B = effect st A st2 B"
      using assms False s by (auto simp: msetGenericCommand_def elim!: bind_SomeE)
    show ?thesis unfolding l(2) using e mset_loop_effect[OF l(1)] by (rule effect_trans)
  qed
qed (use assms in \<open>simp add: msetGenericCommand_def\<close>)

lemma mset_commands_effect:
  "msetCommand st argv = Some (st', argv', rep) \<Longrightarrow> effect st (set argv) st' (set argv')"
  "msetnxCommand st argv = Some (st', argv', rep) \<Longrightarrow> effect st (set argv) st' (set argv')"
  by (simp_all add: msetCommand_def msetnxCommand_def msetGeneric_effect)

text \<open>All commands of the table.\<close>

lemma proc_effect:
  assumes "cmd_table cmd = (name, arity, proc)" "proc st argv = Some (st', argv', rep)"
  shows "effect st (set argv) st' (set argv')"
  using assms
  by (cases cmd)
    (auto dest: set_commands_effect get_commands_effect getrange_effect strlen_effect getset_effect setrange_effect
      incr_commands_effect append_effect mset_commands_effect)

end
