(* ===== verification/Multi.thy ===== *)
theory Multi
  imports Footprint
begin

text \<open>
  Transactions (\<open>multi.c\<close>): \<open>MULTI\<close>, \<open>EXEC\<close>, \<open>DISCARD\<close>, \<open>WATCH\<close>, \<open>UNWATCH\<close>, and what \<open>processCommand\<close>
  does with a command: reject it, queue it or run it. Clients are numbered; all their requests interleave
  on one database. The server is a standalone master that has finished loading, with the default user
  allowed everything, and no memory limit, persistence error, subscription or running script: the checks of
  \<open>processCommand\<close> and \<open>execCommand\<close> for these (access control lists, cluster redirection, \<open>maxmemory\<close>,
  disk errors, missing or stale replicas, publish/subscribe mode, slow scripts) all pass and are left out. So
  are the propagation of \<open>MULTI\<close> and \<open>EXEC\<close> to replicas and the append-only file, and monitors. The lookup
  of the command by its name has been done; \<open>None\<close> stands for a name that is not in the command table.
\<close>

section \<open>State\<close>

datatype command = StrCmd strcmd | MULTI | EXEC | DISCARD | WATCH | UNWATCH

text \<open>A queued command is the command with its argument vector; a watched key is the key object.\<close>

record client =
  CLIENT_MULTI :: bool
  CLIENT_DIRTY_EXEC :: bool
  mstate_commands :: "(command \<times> oref list) list"
  c_watched_keys :: "oref list"

text \<open>
  \<open>watched_obj\<close> has the key objects of the dictionary \<open>db->watched_keys\<close>, whose lists of clients are
  \<open>watched_keys\<close> of the database. \<open>strcoll\<close> is the function of the C library.
\<close>

record server =
  rdb :: redis
  clients :: "client list"
  watched_obj :: "key \<Rightarrow> oref option"
  strcoll :: "char list \<Rightarrow> char list \<Rightarrow> int"

definition set_heap :: "server \<Rightarrow> heap \<Rightarrow> server" where
  "set_heap S h = S\<lparr>rdb := (rdb S)\<lparr>heap := h\<rparr>\<rparr>"

abbreviation sheap :: "server \<Rightarrow> heap" where
  "sheap S \<equiv> heap (rdb S)"

definition set_client :: "server \<Rightarrow> nat \<Rightarrow> client \<Rightarrow> server" where
  "set_client S c cl = S\<lparr>clients := (clients S)[c := cl]\<rparr>"

definition clear_dirty_cas :: "server \<Rightarrow> nat \<Rightarrow> server" where
  "clear_dirty_cas S c = S\<lparr>rdb := (rdb S)\<lparr>dirty_cas := (dirty_cas (rdb S))(c := False)\<rparr>\<rparr>"

section \<open>Code\<close>

definition initClientMultiState :: "client \<Rightarrow> client" where
  "initClientMultiState cl = cl\<lparr>mstate_commands := []\<rparr>"

fun free_commands :: "heap \<Rightarrow> (command \<times> oref list) list \<Rightarrow> heap option" where
  "free_commands h [] = Some h"
| "free_commands h ((cmd, argv) # rest) = do { h \<leftarrow> freeClientArgv h argv; free_commands h rest }"

definition freeClientMultiState :: "server \<Rightarrow> nat \<Rightarrow> server option" where
  "freeClientMultiState S c = do {
     cl \<leftarrow> fetch (clients S) c;
     h \<leftarrow> free_commands (sheap S) (mstate_commands cl);
     Some (set_heap S h)
   }"

fun incr_all :: "heap \<Rightarrow> oref list \<Rightarrow> heap option" where
  "incr_all h [] = Some h"
| "incr_all h (r # rs) = do { h \<leftarrow> incrRefCount h r; incr_all h rs }"

definition queueMultiCommand :: "server \<Rightarrow> nat \<Rightarrow> command \<Rightarrow> oref list \<Rightarrow> server option" where
  "queueMultiCommand S c cmd argv = do {
     cl \<leftarrow> fetch (clients S) c;
     if CLIENT_DIRTY_EXEC cl then Some S
     else do {
       h \<leftarrow> incr_all (sheap S) argv;
       Some (set_client (set_heap S h) c (cl\<lparr>mstate_commands := mstate_commands cl @ [(cmd, argv)]\<rparr>))
     }
   }"

text \<open>One round of the loop of \<open>unwatchAllKeys\<close>; \<open>rest\<close> are the keys behind this one in the list of the client.\<close>

definition unwatch_key :: "server \<Rightarrow> nat \<Rightarrow> oref \<Rightarrow> oref list \<Rightarrow> server option" where
  "unwatch_key S c wk rest = do {
     k \<leftarrow> arg_bytes (sheap S) wk;
     keyobj \<leftarrow> watched_obj S k;
     if c \<notin> set (watched_keys (rdb S) k) then None
     else do {
       let cs = remove1 c (watched_keys (rdb S) k);
       let S = S\<lparr>rdb := (rdb S)\<lparr>watched_keys := (watched_keys (rdb S))(k := cs)\<rparr>\<rparr>;
       S \<leftarrow> (if cs = [] then do {
              h \<leftarrow> decrRefCount (sheap S) keyobj;
              Some ((set_heap S h)\<lparr>watched_obj := (watched_obj S)(k := None)\<rparr>)
            } else Some S);
       cl \<leftarrow> fetch (clients S) c;
       let S = set_client S c (cl\<lparr>c_watched_keys := rest\<rparr>);
       h \<leftarrow> decrRefCount (sheap S) wk;
       Some (set_heap S h)
     }
   }"

fun unwatch_loop :: "server \<Rightarrow> nat \<Rightarrow> oref list \<Rightarrow> server option" where
  "unwatch_loop S c [] = Some S"
| "unwatch_loop S c (wk # rest) = do { S \<leftarrow> unwatch_key S c wk rest; unwatch_loop S c rest }"

definition unwatchAllKeys :: "server \<Rightarrow> nat \<Rightarrow> server option" where
  "unwatchAllKeys S c = do { cl \<leftarrow> fetch (clients S) c; unwatch_loop S c (c_watched_keys cl) }"

definition discardTransaction :: "server \<Rightarrow> nat \<Rightarrow> server option" where
  "discardTransaction S c = do {
     S \<leftarrow> freeClientMultiState S c;
     cl \<leftarrow> fetch (clients S) c;
     let S = set_client S c ((initClientMultiState cl)\<lparr>CLIENT_MULTI := False, CLIENT_DIRTY_EXEC := False\<rparr>);
     let S = clear_dirty_cas S c;
     unwatchAllKeys S c
   }"

definition flagTransaction :: "server \<Rightarrow> nat \<Rightarrow> server option" where
  "flagTransaction S c = do {
     cl \<leftarrow> fetch (clients S) c;
     Some (if CLIENT_MULTI cl then set_client S c (cl\<lparr>CLIENT_DIRTY_EXEC := True\<rparr>) else S)
   }"

definition multiCommand :: "server \<Rightarrow> nat \<Rightarrow> (server \<times> reply) option" where
  "multiCommand S c = do {
     cl \<leftarrow> fetch (clients S) c;
     if CLIENT_MULTI cl then Some (S, RError ''ERR MULTI calls can not be nested'')
     else Some (set_client S c (cl\<lparr>CLIENT_MULTI := True\<rparr>), shared_ok)
   }"

definition discardCommand :: "server \<Rightarrow> nat \<Rightarrow> (server \<times> reply) option" where
  "discardCommand S c = do {
     cl \<leftarrow> fetch (clients S) c;
     if \<not> CLIENT_MULTI cl then Some (S, RError ''ERR DISCARD without MULTI'')
     else do { S \<leftarrow> discardTransaction S c; Some (S, shared_ok) }
   }"

definition execCommandAbort :: "server \<Rightarrow> nat \<Rightarrow> string \<Rightarrow> (server \<times> reply) option" where
  "execCommandAbort S c error = do {
     S \<leftarrow> discardTransaction S c;
     let error = (if error \<noteq> [] \<and> hd error = CHR ''-'' then tl error else error);
     Some (S, RError (''EXECABORT Transaction discarded because of: '' @ error))
   }"

fun already_watched :: "server \<Rightarrow> oref \<Rightarrow> oref list \<Rightarrow> bool option" where
  "already_watched S key [] = Some False"
| "already_watched S key (wk # rest) = do {
     eq \<leftarrow> equalStringObjects (strcoll S) (sheap S) key wk;
     if eq then Some True else already_watched S key rest
   }"

definition watchForKey :: "server \<Rightarrow> nat \<Rightarrow> oref \<Rightarrow> server option" where
  "watchForKey S c key = do {
     cl \<leftarrow> fetch (clients S) c;
     found \<leftarrow> already_watched S key (c_watched_keys cl);
     if found then Some S
     else do {
       k \<leftarrow> arg_bytes (sheap S) key;
       S \<leftarrow> (if watched_obj S k = None then do {
              h \<leftarrow> incrRefCount (sheap S) key;
              Some ((set_heap S h)\<lparr>watched_obj := (watched_obj S)(k \<mapsto> key)\<rparr>)
            } else Some S);
       let S = S\<lparr>rdb := (rdb S)\<lparr>watched_keys := (watched_keys (rdb S))(k := watched_keys (rdb S) k @ [c])\<rparr>\<rparr>;
       h \<leftarrow> incrRefCount (sheap S) key;
       Some (set_client (set_heap S h) c (cl\<lparr>c_watched_keys := c_watched_keys cl @ [key]\<rparr>))
     }
   }"

fun watch_loop :: "server \<Rightarrow> nat \<Rightarrow> oref list \<Rightarrow> server option" where
  "watch_loop S c [] = Some S"
| "watch_loop S c (key # rest) = do { S \<leftarrow> watchForKey S c key; watch_loop S c rest }"

definition watchCommand :: "server \<Rightarrow> nat \<Rightarrow> oref list \<Rightarrow> (server \<times> reply) option" where
  "watchCommand S c argv = do {
     cl \<leftarrow> fetch (clients S) c;
     if CLIENT_MULTI cl then Some (S, RError ''ERR WATCH inside MULTI is not allowed'')
     else do { S \<leftarrow> watch_loop S c (drop 1 argv); Some (S, shared_ok) }
   }"

definition unwatchCommand :: "server \<Rightarrow> nat \<Rightarrow> (server \<times> reply) option" where
  "unwatchCommand S c = do { S \<leftarrow> unwatchAllKeys S c; Some (clear_dirty_cas S c, shared_ok) }"

text \<open>Entries of the command table. A command that is called inside of \<open>EXEC\<close> is not \<open>EXEC\<close> itself.\<close>

fun command_table :: "command \<Rightarrow> string \<times> int" where
  "command_table (StrCmd cmd) = (case cmd_table cmd of (name, arity, _) \<Rightarrow> (name, arity))"
| "command_table MULTI = (''multi'', 1)"
| "command_table EXEC = (''exec'', 1)"
| "command_table DISCARD = (''discard'', 1)"
| "command_table WATCH = (''watch'', -2)"
| "command_table UNWATCH = (''unwatch'', 1)"

fun call :: "server \<Rightarrow> nat \<Rightarrow> command \<Rightarrow> oref list \<Rightarrow> (server \<times> oref list \<times> reply) option" where
  "call S c (StrCmd cmd) argv = (case cmd_table cmd of (_, _, proc) \<Rightarrow> do {
     (db, argv, rep) \<leftarrow> proc (rdb S) argv;
     Some (S\<lparr>rdb := db\<rparr>, argv, rep) })"
| "call S c MULTI argv = do { (S, rep) \<leftarrow> multiCommand S c; Some (S, argv, rep) }"
| "call S c DISCARD argv = do { (S, rep) \<leftarrow> discardCommand S c; Some (S, argv, rep) }"
| "call S c WATCH argv = do { (S, rep) \<leftarrow> watchCommand S c argv; Some (S, argv, rep) }"
| "call S c UNWATCH argv = do { (S, rep) \<leftarrow> unwatchCommand S c; Some (S, argv, rep) }"
| "call S c EXEC argv = None"

fun is_readonly :: "command \<Rightarrow> bool" where
  "is_readonly (StrCmd cmd) \<longleftrightarrow> cmd \<in> {GET, STRLEN, GETRANGE, MGET}"
| "is_readonly _ \<longleftrightarrow> False"

text \<open>The commands \<open>j, ..., j + n - 1\<close> of the queue; a command may replace entries of its argument vector.\<close>

fun exec_loop :: "server \<Rightarrow> nat \<Rightarrow> nat \<Rightarrow> nat \<Rightarrow> (server \<times> reply list) option" where
  "exec_loop S c j 0 = Some (S, [])"
| "exec_loop S c j (Suc n) = do {
     cl \<leftarrow> fetch (clients S) c;
     (cmd, argv) \<leftarrow> fetch (mstate_commands cl) j;
     (S, argv, rep) \<leftarrow> call S c cmd argv;
     cl \<leftarrow> fetch (clients S) c;
     cmds \<leftarrow> store (mstate_commands cl) j (cmd, argv);
     (S, reps) \<leftarrow> exec_loop (set_client S c (cl\<lparr>mstate_commands := cmds\<rparr>)) c (j + 1) n;
     Some (S, rep # reps)
   }"

definition shared_execaborterr :: reply where
  "shared_execaborterr = RError ''EXECABORT Transaction discarded because of previous errors.''"

definition execCommand :: "server \<Rightarrow> nat \<Rightarrow> (server \<times> reply) option" where
  "execCommand S c = do {
     cl \<leftarrow> fetch (clients S) c;
     if \<not> CLIENT_MULTI cl then Some (S, RError ''ERR EXEC without MULTI'')
     else if dirty_cas (rdb S) c \<or> CLIENT_DIRTY_EXEC cl then do {
       let rep = (if CLIENT_DIRTY_EXEC cl then shared_execaborterr else RNullArray);
       S \<leftarrow> discardTransaction S c;
       Some (S, rep)
     }
     else do {
       let must_propagate = list_ex (\<lambda>(cmd, _). \<not> is_readonly cmd) (mstate_commands cl);
       S \<leftarrow> unwatchAllKeys S c;
       (S, reps) \<leftarrow> exec_loop S c 0 (length (mstate_commands cl));
       S \<leftarrow> discardTransaction S c;
       let db = rdb S;
       let S = (if must_propagate \<and> \<not> loading db then S\<lparr>rdb := db\<lparr>dirty := dirty db + 1\<rparr>\<rparr> else S);
       Some (S, RArray reps)
     }
   }"

text \<open>Error messages of \<open>rejectCommandFormat\<close>: line breaks in the text become spaces.\<close>

fun unknown_args :: "char list \<Rightarrow> char list list \<Rightarrow> char list" where
  "unknown_args acc [] = acc"
| "unknown_args acc (a # as) =
     (if length acc < 128 then unknown_args (acc @ ''`'' @ take (128 - length acc) (cstr a) @ ''`, '') as else acc)"

definition no_breaks :: "char list \<Rightarrow> char list" where
  "no_breaks = map (\<lambda>x. if x = CHR 0x0D \<or> x = CHR 0x0A then CHR '' '' else x)"

definition rejectCommandFormat :: "server \<Rightarrow> nat \<Rightarrow> command option \<Rightarrow> char list \<Rightarrow> (server \<times> reply) option" where
  "rejectCommandFormat S c cmd msg = do {
     S \<leftarrow> flagTransaction S c;
     let msg = no_breaks msg;
     if cmd = Some EXEC then execCommandAbort S c msg else Some (S, RError (''ERR '' @ msg))
   }"

definition shared_queued :: reply where
  "shared_queued = RStatus ''QUEUED''"

text \<open>The argument vector and the state after the command, and the reply.\<close>

definition processCommand :: "server \<Rightarrow> nat \<Rightarrow> command option \<Rightarrow> oref list \<Rightarrow> (server \<times> oref list \<times> reply) option" where
  "processCommand S c cmd argv =
     (case cmd of
        None \<Rightarrow> do {
          args \<leftarrow> mapM (arg_bytes (sheap S)) argv;
          name \<leftarrow> fetch args 0;
          (S, rep) \<leftarrow> rejectCommandFormat S c None
             (''unknown command `'' @ cstr name @ ''`, with args beginning with: '' @ unknown_args [] (drop 1 args));
          Some (S, argv, rep)
        }
      | Some cm \<Rightarrow>
          if arity_error (snd (command_table cm)) (length argv) then do {
            (S, rep) \<leftarrow> rejectCommandFormat S c (Some cm)
               (''wrong number of arguments for '' @ [CHR 0x27] @ fst (command_table cm) @ [CHR 0x27] @ '' command'');
            Some (S, argv, rep)
          }
          else do {
            cl \<leftarrow> fetch (clients S) c;
            if CLIENT_MULTI cl \<and> cm \<notin> {EXEC, DISCARD, MULTI, WATCH} then do {
              S \<leftarrow> queueMultiCommand S c cm argv;
              Some (S, argv, shared_queued)
            }
            else if cm = EXEC then do { (S, rep) \<leftarrow> execCommand S c; Some (S, argv, rep) }
            else call S c cm argv
          })"

text \<open>A request: its arguments become objects, which are released after the command.\<close>

definition handle_request :: "server \<Rightarrow> nat \<Rightarrow> command option \<Rightarrow> char list list \<Rightarrow> (server \<times> reply) option" where
  "handle_request S c cmd args = do {
     (h, argv) \<leftarrow> create_args (sheap S) args;
     (S, argv, rep) \<leftarrow> processCommand (set_heap S h) c cmd argv;
     h \<leftarrow> freeClientArgv (sheap S) argv;
     Some (set_heap S h, rep)
   }"

definition new_client :: client where
  "new_client = \<lparr>CLIENT_MULTI = False, CLIENT_DIRTY_EXEC = False, mstate_commands = [], c_watched_keys = []\<rparr>"

text \<open>
  The end of a connection, as far as transactions are concerned; its slot is free for the next one.
\<close>

definition freeClient :: "server \<Rightarrow> nat \<Rightarrow> server option" where
  "freeClient S c = do {
     S \<leftarrow> unwatchAllKeys S c;
     S \<leftarrow> freeClientMultiState S c;
     Some (clear_dirty_cas (set_client S c new_client) c)
   }"

end
