(* ===== verification/MultiInv.thy ===== *)
theory MultiInv
  imports Multi
begin

text \<open>
  The invariant of transactions: exact reference counts across the database, the queues of all clients
  and the lists of watched keys; queued arguments are private to their queue; the lists of watching
  clients and the lists of watched keys agree. Every event keeps it and never gets stuck.
\<close>

section \<open>References\<close>

definition client_refs :: "client \<Rightarrow> oref multiset" where
  "client_refs cl = mset (concat (map snd (mstate_commands cl))) + mset (c_watched_keys cl)"

definition refs :: "server \<Rightarrow> oref multiset" where
  "refs S = sum_list (map client_refs (clients S)) + dict_refs (watched_obj S)"

definition rest_refs :: "server \<Rightarrow> nat \<Rightarrow> oref multiset" where
  "rest_refs S c =
     sum_list (map client_refs (take c (clients S))) + sum_list (map client_refs (drop (Suc c) (clients S))) +
     dict_refs (watched_obj S)"

lemma server_simps [simp]:
  "clients (set_heap S h) = clients S" "watched_obj (set_heap S h) = watched_obj S"
  "rdb (set_heap S h) = (rdb S)\<lparr>heap := h\<rparr>" "strcoll (set_heap S h) = strcoll S"
  "clients (set_client S c cl) = (clients S)[c := cl]" "watched_obj (set_client S c cl) = watched_obj S"
  "rdb (set_client S c cl) = rdb S" "strcoll (set_client S c cl) = strcoll S"
  "clients (clear_dirty_cas S c) = clients S" "watched_obj (clear_dirty_cas S c) = watched_obj S"
  "rdb (clear_dirty_cas S c) = (rdb S)\<lparr>dirty_cas := (dirty_cas (rdb S))(c := False)\<rparr>"
  by (simp_all add: set_heap_def set_client_def clear_dirty_cas_def)

lemma set_heap_simps [simp]:
  "set_heap (set_heap S h) h' = set_heap S h'" "set_heap (set_client (set_heap S h) c cl) h' = set_heap (set_client S c cl) h'"
  by (simp_all add: set_heap_def set_client_def)

lemma refs_split: "c < length (clients S) \<Longrightarrow> refs S = client_refs (clients S ! c) + rest_refs S c"
proof -
  assume c: "c < length (clients S)"
  have "sum_list (map client_refs (clients S)) =
      sum_list (map client_refs (take c (clients S))) + (client_refs (clients S ! c) + sum_list (map client_refs (drop (Suc c) (clients S))))"
    by (subst id_take_nth_drop[OF c]) simp
  then show ?thesis by (simp add: refs_def rest_refs_def)
qed

lemma refs_cong [simp]:
  "refs (set_heap S h) = refs S" "refs (S\<lparr>rdb := db\<rparr>) = refs S" "refs (clear_dirty_cas S c) = refs S"
  "rest_refs (set_heap S h) c = rest_refs S c" "rest_refs (S\<lparr>rdb := db\<rparr>) c = rest_refs S c"
  "rest_refs (set_client S c cl) c = rest_refs S c"
  by (simp_all add: refs_def rest_refs_def)

lemma refs_set_client: "c < length (clients S) \<Longrightarrow> refs (set_client S c cl) = client_refs cl + rest_refs S c"
  using refs_split[of c "set_client S c cl"] by simp

lemma client_refs_in: "c < length (clients S) \<Longrightarrow> r \<in># client_refs (clients S ! c) \<Longrightarrow> r \<in># refs S"
  by (simp add: refs_split)

lemma queue_in_refs:
  assumes "c < length (clients S)" "(cmd, argv) \<in> set (mstate_commands (clients S ! c))" "r \<in> set argv"
  shows "r \<in># refs S"
  using assms by (intro client_refs_in) (force simp: client_refs_def)+

lemma watched_in_refs: "c < length (clients S) \<Longrightarrow> r \<in> set (c_watched_keys (clients S ! c)) \<Longrightarrow> r \<in># refs S"
  by (intro client_refs_in) (auto simp: client_refs_def)

lemma obj_in_refs: "finite (dom (watched_obj S)) \<Longrightarrow> watched_obj S k = Some r \<Longrightarrow> r \<in># refs S"
  by (simp add: refs_def dict_refs_in)

section \<open>Invariant\<close>

definition sole :: "server \<Rightarrow> oref multiset \<Rightarrow> oref \<Rightarrow> bool" where
  "sole S X r \<longleftrightarrow> count (dict_refs (db_dict (rdb S)) + (refs S + X)) r = 1"

definition queueable :: "command \<Rightarrow> nat \<Rightarrow> bool" where
  "queueable cmd n \<longleftrightarrow> cmd \<notin> {MULTI, EXEC, DISCARD, WATCH} \<and> \<not> arity_error (snd (command_table cmd)) n"

definition queue_ok :: "server \<Rightarrow> oref multiset \<Rightarrow> command \<times> oref list \<Rightarrow> bool" where
  "queue_ok S X q \<longleftrightarrow>
     (case q of (cmd, argv) \<Rightarrow> queueable cmd (length argv) \<and>
        (\<forall>r\<in>set argv. arg_bytes (sheap S) r \<noteq> None \<and> sole S X r))"

definition watch_ok :: "server \<Rightarrow> bool" where
  "watch_ok S \<longleftrightarrow>
     finite (dom (watched_obj S)) \<and>
     (\<forall>k. (watched_obj S k = None) = (watched_keys (rdb S) k = []) \<and> distinct (watched_keys (rdb S) k) \<and>
        (\<forall>c\<in>set (watched_keys (rdb S) k). c < length (clients S)) \<and>
        (\<forall>r. watched_obj S k = Some r \<longrightarrow> arg_bytes (sheap S) r = Some k)) \<and>
     (\<forall>c<length (clients S). \<exists>ks. mapM (arg_bytes (sheap S)) (c_watched_keys (clients S ! c)) = Some ks \<and> distinct ks \<and>
        (\<forall>k. (c \<in> set (watched_keys (rdb S) k)) = (k \<in> set ks)) \<and> (\<forall>k\<in>set ks. length k < 2 ^ 31))"

definition flags_ok :: "server \<Rightarrow> bool" where
  "flags_ok S \<longleftrightarrow> (\<forall>cl\<in>set (clients S). \<not> CLIENT_MULTI cl \<longrightarrow> mstate_commands cl = [] \<and> \<not> CLIENT_DIRTY_EXEC cl)"

text \<open>
  \<open>X\<close> has the references held by the command that is being processed; \<open>Q c i\<close> selects the entries of the
  queues that are still to be executed.
\<close>

definition minv :: "(nat \<Rightarrow> nat \<Rightarrow> bool) \<Rightarrow> server \<Rightarrow> oref multiset \<Rightarrow> bool" where
  "minv Q S X \<longleftrightarrow>
     db_inv (rdb S) (refs S + X) \<and> limits_ok (rdb S) \<and> flags_ok S \<and> watch_ok S \<and>
     (\<forall>c<length (clients S). \<forall>i<length (mstate_commands (clients S ! c)). Q c i \<longrightarrow>
        queue_ok S X (mstate_commands (clients S ! c) ! i))"

abbreviation everything :: "nat \<Rightarrow> nat \<Rightarrow> bool" where
  "everything \<equiv> \<lambda>c i. True"

lemma invD:
  assumes "minv Q S X"
  shows "db_inv (rdb S) (refs S + X)" "limits_ok (rdb S)" "flags_ok S" "watch_ok S"
  using assms by (simp_all add: minv_def)

lemma inv_queueD:
  assumes "minv Q S X" "c < length (clients S)" "i < length (mstate_commands (clients S ! c))" "Q c i"
    "mstate_commands (clients S ! c) ! i = (cmd, argv)"
  shows "queueable cmd (length argv)" "\<And>r. r \<in> set argv \<Longrightarrow> arg_bytes (sheap S) r \<noteq> None"
    "\<And>r. r \<in> set argv \<Longrightarrow> sole S X r"
    "\<And>r. r \<in> set argv \<Longrightarrow> r \<in># refs S"
proof -
  have q: "queue_ok S X (cmd, argv)" using assms unfolding minv_def by metis
  then show "queueable cmd (length argv)" "\<And>r. r \<in> set argv \<Longrightarrow> arg_bytes (sheap S) r \<noteq> None"
    "\<And>r. r \<in> set argv \<Longrightarrow> sole S X r"
    by (simp_all add: queue_ok_def)
  have "(cmd, argv) \<in> set (mstate_commands (clients S ! c))" using assms(3,5) by (metis nth_mem)
  then show "\<And>r. r \<in> set argv \<Longrightarrow> r \<in># refs S" using queue_in_refs[OF assms(2)] by blast
qed

text \<open>
  How the invariant is carried over a change: the queues keep entries, their arguments keep their
  contents and are not referred to from anywhere else.
\<close>

lemma inv_intro:
  assumes inv: "minv Q S X" and db: "db_inv (rdb S') (refs S' + X')" and lim: "limits_ok (rdb S')"
    and fl: "flags_ok S'" and w: "watch_ok S'" and ks: "keeps (sheap S) (sheap S') (refs S')"
    and len: "length (clients S') = length (clients S)"
    and q: "\<And>c i. c < length (clients S) \<Longrightarrow> i < length (mstate_commands (clients S' ! c)) \<Longrightarrow> Q' c i \<Longrightarrow>
      i < length (mstate_commands (clients S ! c)) \<and> Q c i \<and> mstate_commands (clients S' ! c) ! i = mstate_commands (clients S ! c) ! i"
    and few: "\<And>r. r \<in># refs S \<Longrightarrow> r \<in># refs S' \<Longrightarrow> arg_bytes (sheap S) r \<noteq> None \<Longrightarrow> sole S X r \<Longrightarrow>
      count (dict_refs (db_dict (rdb S')) + (refs S' + X')) r \<le> 1"
  shows "minv Q' S' X'"
proof -
  have "queue_ok S' X' (mstate_commands (clients S' ! c) ! i)"
    if c: "c < length (clients S')" and i: "i < length (mstate_commands (clients S' ! c))" and Q: "Q' c i" for c i
  proof -
    have c': "c < length (clients S)" using c len by simp
    note s = q[OF c' i Q]
    obtain cmd argv where e: "mstate_commands (clients S ! c) ! i = (cmd, argv)" by fastforce
    then have e': "mstate_commands (clients S' ! c) ! i = (cmd, argv)" using s by simp
    have i': "i < length (mstate_commands (clients S ! c))" "Q c i" using s by simp_all
    note d = inv_queueD[OF inv c' i' e]
    have "(cmd, argv) \<in> set (mstate_commands (clients S' ! c))" using i e' by (metis nth_mem)
    then have in': "r \<in># refs S'" if "r \<in> set argv" for r using queue_in_refs[OF c _ that] by blast
    have "arg_bytes (sheap S') r \<noteq> None \<and> sole S' X' r" if r: "r \<in> set argv" for r
    proof -
      have "count (dict_refs (db_dict (rdb S')) + (refs S' + X')) r \<le> 1" using few[OF d(4)[OF r] in'[OF r] d(2)[OF r] d(3)[OF r]] .
      moreover have "0 < count (refs S') r" using in'[OF r] by simp
      ultimately have "sole S' X' r" unfolding sole_def count_union by linarith
      then show ?thesis using d(2)[OF r] arg_bytes_keeps[OF ks in'[OF r]] by simp
    qed
    with d(1) e' show ?thesis by (simp add: queue_ok_def)
  qed
  then show ?thesis using db lim fl w by (simp add: minv_def)
qed

lemma inv_shrink:
  assumes "minv Q S X" "db_inv (rdb S') (refs S' + X')" "limits_ok (rdb S')" "flags_ok S'" "watch_ok S'"
    "keeps (sheap S) (sheap S') (refs S')" "length (clients S') = length (clients S)"
    "\<And>c i. c < length (clients S) \<Longrightarrow> i < length (mstate_commands (clients S' ! c)) \<Longrightarrow> Q' c i \<Longrightarrow>
      i < length (mstate_commands (clients S ! c)) \<and> Q c i \<and> mstate_commands (clients S' ! c) ! i = mstate_commands (clients S ! c) ! i"
    and sub: "dict_refs (db_dict (rdb S')) + (refs S' + X') \<subseteq># dict_refs (db_dict (rdb S)) + (refs S + X)"
  shows "minv Q' S' X'"
  using assms(1-8)
proof (rule inv_intro)
  fix r
  assume "sole S X r"
  then show "count (dict_refs (db_dict (rdb S')) + (refs S' + X')) r \<le> 1"
    using mset_subset_eq_count[OF sub, of r] by (simp add: sole_def)
qed simp_all

lemma mapM_cong: "(\<And>x. x \<in> set xs \<Longrightarrow> f x = g x) \<Longrightarrow> mapM f xs = mapM g xs"
  by (induction xs) (simp_all add: bind_eq_Some_conv)

text \<open>When neither the lists of watched keys nor the lists of watching clients change.\<close>

lemma watch_ok_keeps:
  assumes w: "watch_ok S" and ks: "keeps (sheap S) (sheap S') (refs S)"
    and "watched_obj S' = watched_obj S" "watched_keys (rdb S') = watched_keys (rdb S)"
      "map c_watched_keys (clients S') = map c_watched_keys (clients S)"
  shows "watch_ok S'"
proof -
  have len: "length (clients S') = length (clients S)" using assms(5) by (metis length_map)
  have cw: "c_watched_keys (clients S' ! c) = c_watched_keys (clients S ! c)" if "c < length (clients S)" for c
    using assms(5) that len by (metis nth_map)
  have fin: "finite (dom (watched_obj S))" using w by (simp add: watch_ok_def)
  have "arg_bytes (sheap S') r = arg_bytes (sheap S) r" if "r \<in># refs S" for r
    using arg_bytes_keeps[OF ks that] .
  then have "mapM (arg_bytes (sheap S')) (c_watched_keys (clients S ! c)) = mapM (arg_bytes (sheap S)) (c_watched_keys (clients S ! c))"
    if "c < length (clients S)" for c
    using that by (intro mapM_cong) (auto intro: watched_in_refs)
  moreover have "arg_bytes (sheap S') r = Some k" if "watched_obj S k = Some r" for k r
    using arg_bytes_keeps[OF ks obj_in_refs[OF fin that]] w that by (simp add: watch_ok_def)
  ultimately show ?thesis
    using w len cw assms(3,4) by (simp add: watch_ok_def)
qed

section \<open>Arguments and string commands\<close>

lemma in_dict_refs: "finite (dom d) \<Longrightarrow> r \<in># dict_refs d \<longleftrightarrow> r \<in> ran d"
  by (auto simp: dict_refs_def ran_def image_iff) force

lemma arg_bytes_old: "arg_bytes h r \<noteq> None \<Longrightarrow> \<not> newer h r"
  by (cases r) (auto simp: arg_bytes_def shared_integer_def bind_eq_None_conv not_le dest: deref_len split: if_splits)

lemma db_finite: "db_inv st X \<Longrightarrow> finite (dom (db_dict st))"
  by (simp add: db_inv_def store_ok_def)

lemma soleD:
  assumes "sole S X r" "r \<in># refs S"
  shows "count (refs S) r = 1" "r \<notin># dict_refs (db_dict (rdb S))" "r \<notin># X"
  using assms unfolding sole_def not_in_iff count_union by (auto simp: count_greater_zero_iff[symmetric] simp del: count_greater_zero_iff)

lemma inv_create:
  assumes inv: "minv Q S X" and len: "\<forall>b\<in>set args. length b \<le> MAX_STR"
  shows "\<exists>h argv. create_args (sheap S) args = Some (h, argv) \<and> minv Q (set_heap S h) (mset argv + X) \<and>
    args_ok ((rdb S)\<lparr>heap := h\<rparr>) argv (refs S + X) args \<and> keyspace ((rdb S)\<lparr>heap := h\<rparr>) = keyspace (rdb S) \<and>
    frame (rdb S) ((rdb S)\<lparr>heap := h\<rparr>) (refs S + X)"
proof -
  obtain h argv where c: "create_args (sheap S) args = Some (h, argv)" "args_ok ((rdb S)\<lparr>heap := h\<rparr>) argv (refs S + X) args"
      "keyspace ((rdb S)\<lparr>heap := h\<rparr>) = keyspace (rdb S)" "frame (rdb S) ((rdb S)\<lparr>heap := h\<rparr>) (refs S + X)"
    using create_args_spec[OF invD(1)[OF inv] len] by blast
  let ?S = "set_heap S h" and ?D = "dict_refs (db_dict (rdb S))"
  have dd: "db_dict ((rdb S)\<lparr>heap := h\<rparr>) = db_dict (rdb S)" by simp
  have ks: "keeps (sheap S) h (refs S)" using c(4) by (simp add: frame_def keeps_def)
  have "db_inv (rdb ?S) (refs ?S + (mset argv + X))" using args_inv[OF c(2)] by (simp add: add.left_commute)
  moreover have "limits_ok (rdb ?S)" using invD(2)[OF inv] limits_frame[OF c(4)] by simp
  moreover have "flags_ok ?S" using invD(3)[OF inv] by (simp add: flags_ok_def)
  moreover have "watch_ok ?S" using watch_ok_keeps[OF invD(4)[OF inv], of ?S] ks by simp
  moreover have "count (dict_refs (db_dict (rdb ?S)) + (refs ?S + (mset argv + X))) r \<le> 1" if r: "r \<in># refs S" "sole S X r" for r
  proof -
    have "r \<notin> set argv"
    proof
      assume "r \<in> set argv"
      then obtain n where n: "n < length args" "argv ! n = r" using c(2) by (metis args_from_def in_set_conv_nth)
      have "count (?D + (mset argv + (refs S + X))) r = 1" using args_okD(6)[OF c(2) n(1)] n(2) by simp
      moreover have "0 < count (refs S) r" "0 < count (mset argv) r" using r(1) \<open>r \<in> set argv\<close> by simp_all
      ultimately show False unfolding count_union by linarith
    qed
    then have "count (mset argv) r = 0" by simp
    then show ?thesis using r(2) by (simp only: sole_def server_simps refs_cong dd count_union add_0 order_refl)
  qed
  ultimately have "minv Q ?S (mset argv + X)" using inv ks by (intro inv_intro[OF inv]) simp_all
  with c show ?thesis by blast
qed

lemma inv_free:
  assumes inv: "minv Q S (mset argv + X)"
  shows "\<exists>h. freeClientArgv (sheap S) argv = Some h \<and> minv Q (set_heap S h) X \<and>
    keyspace ((rdb S)\<lparr>heap := h\<rparr>) = keyspace (rdb S) \<and> frame (rdb S) ((rdb S)\<lparr>heap := h\<rparr>) (refs S + X)"
proof -
  have "db_inv (rdb S) (mset argv + (refs S + X))" using invD(1)[OF inv] by (simp add: add.left_commute)
  then obtain h where h: "freeClientArgv (sheap S) argv = Some h" "db_inv ((rdb S)\<lparr>heap := h\<rparr>) (refs S + X)"
      "keyspace ((rdb S)\<lparr>heap := h\<rparr>) = keyspace (rdb S)" "frame (rdb S) ((rdb S)\<lparr>heap := h\<rparr>) (refs S + X)"
    using freeClientArgv_spec by blast
  have ks: "keeps (sheap S) h (refs S)" using h(4) by (simp add: frame_def keeps_def)
  have "watch_ok (set_heap S h)" using watch_ok_keeps[OF invD(4)[OF inv], of "set_heap S h"] ks by simp
  moreover have "flags_ok (set_heap S h)" using invD(3)[OF inv] by (simp add: flags_ok_def)
  moreover have "limits_ok ((rdb S)\<lparr>heap := h\<rparr>)" using invD(2)[OF inv] limits_frame[OF h(4)] by simp
  ultimately have "minv Q (set_heap S h) X" using h(2) ks by (intro inv_shrink[OF inv]) simp_all
  with h show ?thesis by blast
qed

text \<open>A command of the string table, as the current command of a client.\<close>

lemma inv_db_step:
  assumes inv: "minv Q S (mset argv + X)" and db: "db_inv db' (mset argv' + (refs S + X))"
    and fr: "frame (rdb S) db' (refs S + X)" and ef: "effect (rdb S) (set argv) db' (set argv')"
  shows "minv Q (S\<lparr>rdb := db'\<rparr>) (mset argv' + X)"
proof -
  let ?S = "S\<lparr>rdb := db'\<rparr>"
  have ks: "keeps (sheap S) (heap db') (refs S)" using fr by (simp add: frame_def keeps_def)
  have "watch_ok ?S" using watch_ok_keeps[OF invD(4)[OF inv], of ?S] ks fr by (simp add: frame_def)
  moreover have "flags_ok ?S" using invD(3)[OF inv] by (simp add: flags_ok_def)
  moreover have "limits_ok db'" using invD(2)[OF inv] limits_frame[OF fr] by simp
  moreover have "db_inv db' (refs S + (mset argv' + X))" using db by (simp add: add.left_commute)
  moreover have "count (dict_refs (db_dict db') + (refs S + (mset argv' + X))) r \<le> 1"
    if r: "r \<in># refs S" "arg_bytes (sheap S) r \<noteq> None" "sole S (mset argv + X) r" for r
  proof -
    note s = soleD[OF r(3,1)]
    have "r \<notin> ran (db_dict (rdb S))" "r \<notin> set argv"
      using s(2,3) in_dict_refs[OF db_finite[OF invD(1)[OF inv]]] by auto
    then have "r \<notin> ran (db_dict db')" "r \<notin> set argv'"
      using ef arg_bytes_old[OF r(2)] unfolding effect_def by blast+
    then have "r \<notin># dict_refs (db_dict db')" using in_dict_refs[OF db_finite[OF db]] by simp
    then have "count (dict_refs (db_dict db')) r = 0" "count (mset argv') r = 0" "count X r = 0"
      using \<open>r \<notin> set argv'\<close> s(3) by (simp_all add: not_in_iff)
    then show ?thesis using s(1) unfolding count_union by linarith
  qed
  ultimately show ?thesis using ks by (intro inv_intro[OF inv]) simp_all
qed

lemma inv_call_str:
  assumes inv: "minv Q S (mset argv + X)" and args: "args_ok (rdb S) argv (refs S + X) bs"
    and ar: "\<not> arity_error (snd (command_table (StrCmd cmd))) (length argv)" and ok: "arith_ok cmd (now (rdb S)) bs"
    and spec: "spec_command cmd (now (rdb S)) (proto_max_bulk_len (rdb S)) bs (keyspace (rdb S)) = (m, rep)"
  shows "\<exists>db' argv'. call S c (StrCmd cmd) argv = Some (S\<lparr>rdb := db'\<rparr>, argv', rep) \<and>
    minv Q (S\<lparr>rdb := db'\<rparr>) (mset argv' + X) \<and> step_ok (rdb S) db' (refs S + X) m"
proof -
  obtain name arity proc where t: "cmd_table cmd = (name, arity, proc)" by (cases "cmd_table cmd")
  have l: "length argv = length bs" using args by (simp add: args_from_def)
  have ar': "\<not> arity_error arity (length bs)" using ar t l by simp
  have sp: "spec_proc cmd (now (rdb S)) (proto_max_bulk_len (rdb S)) bs (keyspace (rdb S)) = (m, rep)"
    using spec t ar' by (simp add: spec_command_def)
  obtain db' argv' where r: "proc (rdb S) argv = Some (db', argv', rep)" "db_inv db' (mset argv' + (refs S + X))"
      "step_ok (rdb S) db' (refs S + X) m"
    using proc_refines[OF args invD(2)[OF inv] t ar' ok] sp by (auto simp: refines_def)
  have "minv Q (S\<lparr>rdb := db'\<rparr>) (mset argv' + X)"
    using inv_db_step[OF inv r(2) _ proc_effect[OF t r(1)]] r(3) by (simp add: step_ok_def)
  moreover have "call S c (StrCmd cmd) argv = Some (S\<lparr>rdb := db'\<rparr>, argv', rep)" using r(1) t by simp
  ultimately show ?thesis using r(3) by blast
qed

section \<open>Queueing\<close>

lemma incr_spec:
  assumes inv: "db_inv st X" and r: "r \<in># X" and few: "lim (dict_refs (db_dict st) + add_mset r X)"
  shows "\<exists>h. incrRefCount (heap st) r = Some h \<and> db_inv (st\<lparr>heap := h\<rparr>) (add_mset r X) \<and>
    keyspace (st\<lparr>heap := h\<rparr>) = keyspace st \<and> frame st (st\<lparr>heap := h\<rparr>) X"
proof -
  let ?R = "dict_refs (db_dict st) + X"
  have "int (count ?R r) < OBJ_FIRST_SPECIAL_REFCOUNT" if "r = Obj a" for a
    using lim_small[of r ?R] few that by auto
  then obtain h where h: "incrRefCount (heap st) r = Some h" "heap_ok h (add_mset r ?R)" "\<forall>x. core_of h x = core_of (heap st) x"
    using incrRefCount_spec[OF inv_heap[OF inv], of r] r by auto
  have "view h (db_dict st) (db_expires st) = view (heap st) (db_dict st) (db_expires st)"
    using h(3) db_finite[OF inv] by (intro view_keeps) (auto simp: keeps_def)
  then have "keyspace (st\<lparr>heap := h\<rparr>) = keyspace st" by (simp add: keyspace_def raw_map_def fun_eq_iff)
  with h inv few show ?thesis by (auto simp: db_inv_def store_ok_def frame_def keeps_def)
qed

lemma incr_all_spec:
  assumes "db_inv st X" "set rs \<subseteq> set_mset X" "lim (dict_refs (db_dict st) + (mset rs + X))"
  shows "\<exists>h. incr_all (heap st) rs = Some h \<and> db_inv (st\<lparr>heap := h\<rparr>) (mset rs + X) \<and>
    keyspace (st\<lparr>heap := h\<rparr>) = keyspace st \<and> frame st (st\<lparr>heap := h\<rparr>) X"
  using assms
proof (induction rs arbitrary: st X)
  case (Cons r rs)
  have "lim (dict_refs (db_dict st) + add_mset r X)" using Cons.prems(3) by (rule lim_subset) simp
  then obtain h where h: "incrRefCount (heap st) r = Some h" "db_inv (st\<lparr>heap := h\<rparr>) (add_mset r X)"
      "keyspace (st\<lparr>heap := h\<rparr>) = keyspace st" "frame st (st\<lparr>heap := h\<rparr>) X"
    using incr_spec[OF Cons.prems(1)] Cons.prems(2) by auto
  obtain h2 where h2: "incr_all h rs = Some h2" "db_inv (st\<lparr>heap := h2\<rparr>) (mset rs + add_mset r X)"
      "keyspace (st\<lparr>heap := h2\<rparr>) = keyspace (st\<lparr>heap := h\<rparr>)" "frame (st\<lparr>heap := h\<rparr>) (st\<lparr>heap := h2\<rparr>) (add_mset r X)"
    using Cons.IH[OF h(2)] Cons.prems(2,3) by auto
  have "frame st (st\<lparr>heap := h2\<rparr>) X" using frame_trans[OF h(4) frame_sub[OF h2(4)]] by auto
  with h h2 show ?case by simp
qed simp

text \<open>Changes of a client that concern neither its queue nor its watched keys.\<close>

lemma inv_client:
  assumes inv: "minv Q S X" and c: "c < length (clients S)"
    and cl: "mstate_commands cl = mstate_commands (clients S ! c)" "c_watched_keys cl = c_watched_keys (clients S ! c)"
      "\<not> CLIENT_MULTI cl \<longrightarrow> mstate_commands cl = [] \<and> \<not> CLIENT_DIRTY_EXEC cl"
  shows "minv Q (set_client S c cl) X"
proof -
  have r: "refs (set_client S c cl) = refs S"
    using refs_set_client[OF c, of cl] refs_split[OF c] cl by (simp add: client_refs_def)
  have "flags_ok (set_client S c cl)"
    using invD(3)[OF inv] cl(3) unfolding flags_ok_def by (auto dest!: set_update_subset_insert[THEN subsetD])
  moreover have "map c_watched_keys ((clients S)[c := cl]) = map c_watched_keys (clients S)"
    using cl(2) c by (simp add: map_update list_update_same_conv)
  then have "watch_ok (set_client S c cl)" using watch_ok_keeps[OF invD(4)[OF inv]] by simp
  moreover have "mstate_commands ((clients S)[c := cl] ! c') = mstate_commands (clients S ! c')" if "c' < length (clients S)" for c'
    using that cl(1) c by (cases "c' = c") simp_all
  ultimately show ?thesis
    using invD(1,2)[OF inv] r by (intro inv_shrink[OF inv]) simp_all
qed

lemma args_lim:
  assumes args: "args_ok st argv Y bs" and d: "mset as \<subseteq># mset argv"
  shows "lim (dict_refs (db_dict st) + (mset as + (mset argv + Y)))"
  unfolding lim_def
proof
  fix a
  let ?D = "dict_refs (db_dict st)"
  have sub: "count (mset as) (Obj a) \<le> count (mset argv) (Obj a)" using d by (rule mset_subset_eq_count)
  show "count (?D + (mset as + (mset argv + Y))) (Obj a) \<le> 2 ^ 30"
  proof (cases "Obj a \<in> set argv")
    case True
    then obtain n where "n < length bs" "argv ! n = Obj a" using args by (metis args_from_def in_set_conv_nth)
    then have "count (?D + (mset argv + Y)) (Obj a) = 1" using args_okD(6)[OF args] by metis
    then have "count (?D + (mset as + (mset argv + Y))) (Obj a) \<le> 2" using sub unfolding count_union by linarith
    then show ?thesis by simp
  next
    case False
    then have "count (mset argv) (Obj a) = 0" by simp
    then have "count (?D + (mset as + (mset argv + Y))) (Obj a) = count (?D + (mset argv + Y)) (Obj a)"
      using sub unfolding count_union by linarith
    moreover have "lim (?D + (mset argv + Y))" using args_inv[OF args] by (simp add: db_inv_def store_ok_def)
    ultimately show ?thesis by (simp only: lim_def)
  qed
qed

lemma inv_add_entry:
  assumes inv: "minv (\<lambda>c' i. c' \<noteq> c \<or> i \<noteq> n) S X" and c: "c < length (clients S)" "mstate_commands (clients S ! c) ! n = q"
    and q: "queue_ok S X q"
  shows "minv everything S X"
proof -
  have "queue_ok S X (mstate_commands (clients S ! c') ! i)"
    if "c' < length (clients S)" "i < length (mstate_commands (clients S ! c'))" for c' i
    using inv c q that unfolding minv_def by (cases "c' = c \<and> i = n") auto
  then show ?thesis using inv by (simp add: minv_def)
qed

lemma inv_queue:
  assumes inv: "minv everything S (mset argv)" and args: "args_ok (rdb S) argv (refs S) bs" and c: "c < length (clients S)"
    and m: "CLIENT_MULTI (clients S ! c)" and q: "queueable cmd (length argv)"
  shows "\<exists>S' h. queueMultiCommand S c cmd argv = Some S' \<and> freeClientArgv (sheap S') argv = Some h \<and>
    minv everything (set_heap S' h) {#} \<and> step_ok (rdb S) ((rdb S')\<lparr>heap := h\<rparr>) (refs S) (keyspace (rdb S)) \<and>
    (if CLIENT_DIRTY_EXEC (clients S ! c) then clients S' = clients S
     else clients S' = (clients S)[c := (clients S ! c)\<lparr>mstate_commands := mstate_commands (clients S ! c) @ [(cmd, argv)]\<rparr>] \<and>
       keeps (sheap S) h (mset argv + refs S))"
proof (cases "CLIENT_DIRTY_EXEC (clients S ! c)")
  case True
  then show ?thesis
    using inv_free[of everything S argv "{#}"] inv c by (auto simp: queueMultiCommand_def step_ok_def)
next
  case False
  let ?cl = "clients S ! c" and ?D = "dict_refs (db_dict (rdb S))"
  let ?cl' = "?cl\<lparr>mstate_commands := mstate_commands ?cl @ [(cmd, argv)]\<rparr>"
  have db: "db_inv (rdb S) (mset argv + refs S)" using args_inv[OF args] .
  obtain h1 where h1: "incr_all (sheap S) argv = Some h1" "db_inv ((rdb S)\<lparr>heap := h1\<rparr>) (mset argv + (mset argv + refs S))"
      "keyspace ((rdb S)\<lparr>heap := h1\<rparr>) = keyspace (rdb S)" "frame (rdb S) ((rdb S)\<lparr>heap := h1\<rparr>) (mset argv + refs S)"
    using incr_all_spec[OF db _ args_lim[OF args subset_mset.order_refl]] by auto
  obtain h2 where h2: "freeClientArgv h1 argv = Some h2" "db_inv ((rdb S)\<lparr>heap := h2\<rparr>) (mset argv + refs S)"
      "keyspace ((rdb S)\<lparr>heap := h2\<rparr>) = keyspace (rdb S)" "frame ((rdb S)\<lparr>heap := h1\<rparr>) ((rdb S)\<lparr>heap := h2\<rparr>) (mset argv + refs S)"
    using freeClientArgv_spec[OF h1(2)] h1(3) by auto
  have fr: "frame (rdb S) ((rdb S)\<lparr>heap := h2\<rparr>) (mset argv + refs S)" using frame_trans[OF h1(4) h2(4)] .
  let ?S = "set_heap (set_client S c ?cl') h2"
  have rf: "refs ?S = mset argv + refs S"
    using refs_set_client[OF c, of ?cl'] refs_split[OF c] by (simp add: client_refs_def)
  have ks: "keeps (sheap S) h2 (mset argv + refs S)" using fr by (simp add: frame_def)
  have "watch_ok ?S"
  proof (rule watch_ok_keeps[OF invD(4)[OF inv]])
    show "map c_watched_keys (clients ?S) = map c_watched_keys (clients S)"
      using c by (simp add: map_update list_update_same_conv)
  qed (use ks in \<open>simp_all add: keeps_def\<close>)
  moreover have "flags_ok ?S"
    using invD(3)[OF inv] m unfolding flags_ok_def by (auto dest!: set_update_subset_insert[THEN subsetD])
  moreover have "limits_ok (rdb ?S)" using invD(2)[OF inv] limits_frame[OF fr] by simp
  moreover have "i < length (mstate_commands (clients S ! c')) \<and> True \<and>
      mstate_commands (clients ?S ! c') ! i = mstate_commands (clients S ! c') ! i"
    if "c' < length (clients S)" "i < length (mstate_commands (clients ?S ! c'))" "c' \<noteq> c \<or> i \<noteq> length (mstate_commands ?cl)" for c' i
    using that c by (cases "c' = c") (auto simp: nth_append)
  ultimately have i1: "minv (\<lambda>c' i. c' \<noteq> c \<or> i \<noteq> length (mstate_commands ?cl)) ?S {#}"
    using h2(2) ks rf by (intro inv_shrink[OF inv]) (simp_all add: add.commute)
  have "arg_bytes h2 r \<noteq> None \<and> sole ?S {#} r" if r: "r \<in> set argv" for r
  proof -
    obtain n where n: "n < length bs" "argv ! n = r" using args r by (metis args_from_def in_set_conv_nth)
    have "arg_bytes h2 r = arg_bytes (sheap S) r" using arg_bytes_keeps[OF ks] r by simp
    then show ?thesis using args_okD(2,6)[OF args n(1)] n(2) rf by (simp add: sole_def)
  qed
  then have "queue_ok ?S {#} (cmd, argv)" using q by (simp add: queue_ok_def)
  then have "minv everything ?S {#}" using c by (intro inv_add_entry[OF i1]) simp_all
  moreover have "frame (rdb S) ((rdb S)\<lparr>heap := h2\<rparr>) (refs S)" using fr by (rule frame_sub) simp
  ultimately show ?thesis
    using False c h1(1) h2(1,3) ks by (auto simp: queueMultiCommand_def step_ok_def)
qed

section \<open>Unwatching\<close>

text \<open>What unwatching by client \<open>c\<close> changes.\<close>

definition unwatched :: "nat \<Rightarrow> server \<Rightarrow> server \<Rightarrow> oref multiset \<Rightarrow> bool" where
  "unwatched c S S' X \<longleftrightarrow>
     (\<exists>cw. clients S' = (clients S)[c := (clients S ! c)\<lparr>c_watched_keys := cw\<rparr>]) \<and>
     rdb S' = (rdb S)\<lparr>heap := sheap S', watched_keys := watched_keys (rdb S')\<rparr> \<and>
     keyspace (rdb S') = keyspace (rdb S) \<and> refs S' \<subseteq># refs S \<and> keeps (sheap S) (sheap S') (refs S' + X) \<and>
     (\<forall>k c'. c' \<in> set (watched_keys (rdb S') k) \<longrightarrow> c' \<in> set (watched_keys (rdb S) k)) \<and>
     (\<forall>k c'. c' \<noteq> c \<longrightarrow> (c' \<in> set (watched_keys (rdb S') k)) = (c' \<in> set (watched_keys (rdb S) k)))"

lemma unwatched_refl: "unwatched c S S X"
proof -
  have "clients S = (clients S)[c := (clients S ! c)\<lparr>c_watched_keys := c_watched_keys (clients S ! c)\<rparr>]" by simp
  then have "\<exists>cw. clients S = (clients S)[c := (clients S ! c)\<lparr>c_watched_keys := cw\<rparr>]" by (rule exI)
  then show ?thesis unfolding unwatched_def by simp
qed

lemma unwatched_trans:
  assumes c: "c < length (clients S)" and a: "unwatched c S S1 X" and b: "unwatched c S1 S2 X"
  shows "unwatched c S S2 X"
proof -
  obtain cw cw' where cl: "clients S1 = (clients S)[c := (clients S ! c)\<lparr>c_watched_keys := cw\<rparr>]"
      "clients S2 = (clients S1)[c := (clients S1 ! c)\<lparr>c_watched_keys := cw'\<rparr>]"
    using a b unfolding unwatched_def by blast
  have "clients S2 = (clients S)[c := (clients S ! c)\<lparr>c_watched_keys := cw'\<rparr>]" using cl c by simp
  then have ex: "\<exists>cw. clients S2 = (clients S)[c := (clients S ! c)\<lparr>c_watched_keys := cw\<rparr>]" by (rule exI)
  have e: "rdb S1 = (rdb S)\<lparr>heap := sheap S1, watched_keys := watched_keys (rdb S1)\<rparr>"
    "rdb S2 = (rdb S1)\<lparr>heap := sheap S2, watched_keys := watched_keys (rdb S2)\<rparr>"
    using a b unfolding unwatched_def by blast+
  have e2: "rdb S2 = (rdb S)\<lparr>heap := sheap S2, watched_keys := watched_keys (rdb S2)\<rparr>"
    by (subst e(2), subst e(1)) simp
  have r: "refs S1 \<subseteq># refs S" "refs S2 \<subseteq># refs S1" and k: "keeps (sheap S) (sheap S1) (refs S1 + X)"
    "keeps (sheap S1) (sheap S2) (refs S2 + X)"
    using a b by (simp_all add: unwatched_def)
  have "set_mset (refs S2 + X) \<subseteq> set_mset (refs S1 + X)" using set_mset_mono[OF r(2)] by auto
  with k(1) have "keeps (sheap S) (sheap S1) (refs S2 + X)" by (rule keeps_sub)
  then have ks: "keeps (sheap S) (sheap S2) (refs S2 + X)" using k(2) by (rule keeps_trans)
  have rs: "refs S2 \<subseteq># refs S" using r(2,1) by (rule subset_mset.order_trans)
  show ?thesis
    unfolding unwatched_def using a b ex e2 ks rs by (simp add: unwatched_def)
qed

lemma mapM_Cons: "mapM f (x # xs) = Some zs \<longleftrightarrow> (\<exists>y ys. zs = y # ys \<and> f x = Some y \<and> mapM f xs = Some ys)"
  by (auto simp: bind_eq_Some_conv)

lemma watch_okD:
  assumes "watch_ok S"
  shows "finite (dom (watched_obj S))" "(watched_obj S k = None) = (watched_keys (rdb S) k = [])"
    "distinct (watched_keys (rdb S) k)" "c \<in> set (watched_keys (rdb S) k) \<Longrightarrow> c < length (clients S)"
    "watched_obj S k = Some r \<Longrightarrow> arg_bytes (sheap S) r = Some k"
  using assms unfolding watch_ok_def by blast+

lemma watch_ok_client:
  assumes "watch_ok S" "c < length (clients S)"
  obtains ks where "mapM (arg_bytes (sheap S)) (c_watched_keys (clients S ! c)) = Some ks" "distinct ks"
    "\<And>k. (c \<in> set (watched_keys (rdb S) k)) = (k \<in> set ks)" "\<And>k. k \<in> set ks \<Longrightarrow> length k < 2 ^ 31"
  using assms unfolding watch_ok_def by metis

text \<open>The lists after a client has been taken out of the list of one key.\<close>

lemma watch_ok_unwatch:
  assumes w: "watch_ok S" and c: "c < length (clients S)" and wk: "c_watched_keys (clients S ! c) = wk # rest"
    "arg_bytes (sheap S) wk = Some k"
    and S': "clients S' = (clients S)[c := (clients S ! c)\<lparr>c_watched_keys := rest\<rparr>]"
      "watched_keys (rdb S') = (watched_keys (rdb S))(k := remove1 c (watched_keys (rdb S) k))"
      "watched_obj S' = (if remove1 c (watched_keys (rdb S) k) = [] then (watched_obj S)(k := None) else watched_obj S)"
    and bytes: "\<And>r. r \<in># refs S' \<Longrightarrow> arg_bytes (sheap S') r = arg_bytes (sheap S) r"
  shows "watch_ok S'"
proof -
  let ?cs = "remove1 c (watched_keys (rdb S) k)"
  note d = watch_okD[OF w]
  have len: "length (clients S') = length (clients S)" using S'(1) by simp
  have fin: "finite (dom (watched_obj S'))" using d(1) by (auto simp: S'(3) intro: finite_subset[rotated])
  obtain ks where ks: "mapM (arg_bytes (sheap S)) (wk # rest) = Some ks" "distinct ks"
      "\<And>k'. (c \<in> set (watched_keys (rdb S) k')) = (k' \<in> set ks)" "\<And>k. k \<in> set ks \<Longrightarrow> length k < 2 ^ 31"
    using watch_ok_client[OF w c] unfolding wk(1) by metis
  obtain ks' where ks': "ks = k # ks'" "mapM (arg_bytes (sheap S)) rest = Some ks'"
    using ks(1) wk(2) unfolding mapM_Cons by auto
  have ne: "watched_keys (rdb S) k \<noteq> []" using ks(3)[of k] ks'(1) by auto
  have setcs: "set ?cs = set (watched_keys (rdb S) k) - {c}" using d(3)[of k] by simp
  have key: "(watched_obj S' k' = None) = (watched_keys (rdb S') k' = []) \<and> distinct (watched_keys (rdb S') k') \<and>
      (\<forall>c\<in>set (watched_keys (rdb S') k'). c < length (clients S')) \<and>
      (\<forall>r. watched_obj S' k' = Some r \<longrightarrow> arg_bytes (sheap S') r = Some k')" for k'
  proof -
    have "arg_bytes (sheap S') r = Some k'" if "watched_obj S' k' = Some r" for r
      using bytes[OF obj_in_refs[OF fin that]] d(5)[of k' r] that S'(3) by (auto split: if_splits)
    moreover have "(watched_obj S' k' = None) = (watched_keys (rdb S') k' = [])"
      using d(2)[of k'] ne by (cases "k' = k") (auto simp: S'(2,3))
    ultimately show ?thesis using d(3)[of k'] d(4)[of _ k'] setcs len by (cases "k' = k") (auto simp: S'(2))
  qed
  have "\<exists>ks. mapM (arg_bytes (sheap S')) (c_watched_keys (clients S' ! c')) = Some ks \<and> distinct ks \<and>
        (\<forall>k. (c' \<in> set (watched_keys (rdb S') k)) = (k \<in> set ks)) \<and> (\<forall>k\<in>set ks. length k < 2 ^ 31)"
    if c': "c' < length (clients S')" for c'
  proof (cases "c' = c")
    case True
    have "mapM (arg_bytes (sheap S')) rest = Some ks'"
      unfolding ks'(2)[symmetric] using watched_in_refs[OF c'] bytes S'(1) c True by (intro mapM_cong) auto
    moreover have "(c \<in> set (watched_keys (rdb S') k')) = (k' \<in> set ks')" for k'
      using ks(2) ks(3)[of k'] ks'(1) setcs by (auto simp: S'(2))
    ultimately show ?thesis using True S'(1) c ks(2,4) ks'(1) by auto
  next
    case False
    then have cl: "clients S' ! c' = clients S ! c'" using S'(1) by simp
    obtain kz where kz: "mapM (arg_bytes (sheap S)) (c_watched_keys (clients S ! c')) = Some kz" "distinct kz"
        "\<And>k. (c' \<in> set (watched_keys (rdb S) k)) = (k \<in> set kz)" "\<And>k. k \<in> set kz \<Longrightarrow> length k < 2 ^ 31"
      using watch_ok_client[OF w] c' len by metis
    have "mapM (arg_bytes (sheap S')) (c_watched_keys (clients S' ! c')) = Some kz"
      unfolding kz(1)[symmetric] cl using watched_in_refs[OF c'] bytes cl by (intro mapM_cong) auto
    moreover have "(c' \<in> set (watched_keys (rdb S') k')) = (k' \<in> set kz)" for k'
      using kz(3)[of k'] setcs False by (auto simp: S'(2))
    ultimately show ?thesis using kz by blast
  qed
  with key fin show ?thesis unfolding watch_ok_def by blast
qed

lemma unwatch_key_spec:
  assumes inv: "minv Q S X" and c: "c < length (clients S)" and wk: "c_watched_keys (clients S ! c) = wk # rest"
  shows "\<exists>S'. unwatch_key S c wk rest = Some S' \<and> minv Q S' X \<and> unwatched c S S' X \<and>
    c_watched_keys (clients S' ! c) = rest"
proof -
  let ?st = "rdb S"
  note w = invD(4)[OF inv]
  obtain ks where ks: "mapM (arg_bytes (sheap S)) (wk # rest) = Some ks" "\<And>k. (c \<in> set (watched_keys ?st k)) = (k \<in> set ks)"
    using watch_ok_client[OF w c] unfolding wk by metis
  then obtain k where k: "arg_bytes (sheap S) wk = Some k" "c \<in> set (watched_keys ?st k)" unfolding mapM_Cons by auto
  obtain keyobj where ko: "watched_obj S k = Some keyobj" using watch_okD(2)[OF w, of k] k(2) by (cases "watched_obj S k") auto
  define cs where "cs = remove1 c (watched_keys ?st k)"
  define wo where "wo = (if cs = [] then (watched_obj S)(k := None) else watched_obj S)"
  define cl where "cl = (clients S ! c)\<lparr>c_watched_keys := rest\<rparr>"
  let ?wk = "(watched_keys ?st)(k := cs)"
  let ?R = "client_refs cl + (rest_refs (S\<lparr>watched_obj := wo\<rparr>) c)"
  have wkR: "client_refs (clients S ! c) + rest_refs (S\<lparr>watched_obj := wo\<rparr>) c = add_mset wk ?R"
    by (simp add: client_refs_def cl_def wk)
  have dr: "dict_refs (watched_obj S) = add_mset keyobj (dict_refs ((watched_obj S)(k := None)))"
    using dict_refs_remove[OF watch_okD(1)[OF w] ko] .
  have R: "refs S = (if cs = [] then add_mset keyobj (add_mset wk ?R) else add_mset wk ?R)"
    unfolding wkR[symmetric] refs_split[OF c] using dr by (simp add: rest_refs_def wo_def)
  have db: "db_inv (?st\<lparr>watched_keys := ?wk\<rparr>) (refs S + X)" using invD(1)[OF inv] by (simp add: db_inv_def)
  have "\<exists>h1. (if cs = [] then decrRefCount (sheap S) keyobj else Some (sheap S)) = Some h1 \<and>
      db_inv (?st\<lparr>watched_keys := ?wk, heap := h1\<rparr>) (add_mset wk (?R + X)) \<and>
      keyspace (?st\<lparr>watched_keys := ?wk, heap := h1\<rparr>) = keyspace ?st \<and> keeps (sheap S) h1 (add_mset wk (?R + X))"
  proof (cases "cs = []")
    case True
    then show ?thesis using release_spec[of "?st\<lparr>watched_keys := ?wk\<rparr>" keyobj "add_mset wk (?R + X)"] db R
      by (auto simp: frame_def keyspace_def raw_map_def fun_eq_iff)
  next
    case False
    then show ?thesis using db R by (simp add: keyspace_def raw_map_def fun_eq_iff)
  qed
  then obtain h1 where h1: "(if cs = [] then decrRefCount (sheap S) keyobj else Some (sheap S)) = Some h1"
      "db_inv (?st\<lparr>watched_keys := ?wk, heap := h1\<rparr>) (add_mset wk (?R + X))"
      "keyspace (?st\<lparr>watched_keys := ?wk, heap := h1\<rparr>) = keyspace ?st" "keeps (sheap S) h1 (add_mset wk (?R + X))" by blast
  obtain h2 where h2: "decrRefCount h1 wk = Some h2" "db_inv (?st\<lparr>watched_keys := ?wk, heap := h2\<rparr>) (?R + X)"
      "keyspace (?st\<lparr>watched_keys := ?wk, heap := h2\<rparr>) = keyspace ?st" "keeps h1 h2 (?R + X)"
    using release_spec[OF h1(2)] h1(3) by (auto simp: frame_def)
  have "keeps (sheap S) h1 (?R + X)" using h1(4) by (simp add: keeps_def)
  then have kp: "keeps (sheap S) h2 (?R + X)" using h2(4) by (rule keeps_trans)
  define S' where "S' = S\<lparr>rdb := ?st\<lparr>watched_keys := ?wk, heap := h2\<rparr>, clients := (clients S)[c := cl], watched_obj := wo\<rparr>"
  have f: "clients S' = (clients S)[c := cl]" "rdb S' = ?st\<lparr>watched_keys := ?wk, heap := h2\<rparr>" "watched_obj S' = wo"
    by (simp_all add: S'_def)
  have rS': "refs S' = ?R" using refs_split[of c S'] c by (simp add: f) (simp add: rest_refs_def f)
  have kp': "keeps (sheap S) (sheap S') (refs S' + X)" using kp unfolding rS' by (simp add: f)
  have run: "unwatch_key S c wk rest = Some S'"
    using k ko h1(1) h2(1) c by (simp add: unwatch_key_def Let_def set_heap_def set_client_def S'_def cs_def wo_def cl_def split: if_splits)
  have bytes: "arg_bytes (sheap S') r = arg_bytes (sheap S) r" if "r \<in># refs S'" for r
    using arg_bytes_keeps[OF kp'] that by simp
  have wok: "watch_ok S'"
    by (rule watch_ok_unwatch[OF w c wk k(1) _ _ _ bytes]) (simp_all add: f cl_def cs_def wo_def)
  have fl: "flags_ok S'"
    using invD(3)[OF inv] c unfolding flags_ok_def f cl_def by (auto dest!: set_update_subset_insert[THEN subsetD])
  have sub: "refs S' \<subseteq># refs S" unfolding R rS' by (auto intro: subset_mset.order_trans[of _ "add_mset wk ?R"])
  have "mstate_commands (clients S' ! c') = mstate_commands (clients S ! c')" if "c' < length (clients S)" for c'
    using that c by (cases "c' = c") (simp_all add: f cl_def)
  then have "minv Q S' X"
    using h2(2) invD(2)[OF inv] wok fl sub kp' rS'
    by (intro inv_shrink[OF inv]) (simp_all add: f limits_ok_def keeps_def)
  moreover have "unwatched c S S' X"
  proof -
    have "clients S' = (clients S)[c := (clients S ! c)\<lparr>c_watched_keys := rest\<rparr>]" using f(1) by (simp only: cl_def)
    then have "\<exists>cw. clients S' = (clients S)[c := (clients S ! c)\<lparr>c_watched_keys := cw\<rparr>]" by (rule exI)
    moreover have "rdb S' = (rdb S)\<lparr>heap := sheap S', watched_keys := watched_keys (rdb S')\<rparr>" by (simp add: f)
    moreover have "keyspace (rdb S') = keyspace (rdb S)" using h2(3) by (simp only: f)
    moreover have "c' \<in> set (watched_keys (rdb S') k') \<Longrightarrow> c' \<in> set (watched_keys (rdb S) k')" for c' k'
      using set_remove1_subset[of c "watched_keys ?st k"] by (auto simp: f cs_def split: if_splits)
    moreover have "c' \<noteq> c \<Longrightarrow> (c' \<in> set (watched_keys (rdb S') k')) = (c' \<in> set (watched_keys (rdb S) k'))" for c' k'
      by (simp add: f cs_def)
    ultimately show ?thesis unfolding unwatched_def using sub kp' by blast
  qed
  moreover have "c_watched_keys (clients S' ! c) = rest" using c by (simp add: f cl_def)
  ultimately show ?thesis using run by blast
qed

lemma unwatched_clients:
  assumes "unwatched c S S' X"
  shows "length (clients S') = length (clients S)" "c' \<noteq> c \<Longrightarrow> clients S' ! c' = clients S ! c'"
    "c < length (clients S) \<Longrightarrow> clients S' ! c = (clients S ! c)\<lparr>c_watched_keys := c_watched_keys (clients S' ! c)\<rparr>"
  using assms by (auto simp: unwatched_def)

lemma unwatch_loop_spec:
  assumes "minv Q S X" "c < length (clients S)" "c_watched_keys (clients S ! c) = wks"
  shows "\<exists>S'. unwatch_loop S c wks = Some S' \<and> minv Q S' X \<and> unwatched c S S' X \<and> c_watched_keys (clients S' ! c) = []"
  using assms
proof (induction wks arbitrary: S)
  case Nil
  then show ?case by (simp add: unwatched_refl)
next
  case (Cons wk rest)
  obtain S1 where S1: "unwatch_key S c wk rest = Some S1" "minv Q S1 X" "unwatched c S S1 X" "c_watched_keys (clients S1 ! c) = rest"
    using unwatch_key_spec[OF Cons.prems] by blast
  have c1: "c < length (clients S1)" using unwatched_clients(1)[OF S1(3)] Cons.prems(2) by simp
  obtain S2 where S2: "unwatch_loop S1 c rest = Some S2" "minv Q S2 X" "unwatched c S1 S2 X" "c_watched_keys (clients S2 ! c) = []"
    using Cons.IH[OF S1(2) c1 S1(4)] by blast
  then show ?case using S1(1) unwatched_trans[OF Cons.prems(2) S1(3) S2(3)] by simp
qed

lemma unwatchAllKeys_spec:
  assumes "minv Q S X" "c < length (clients S)"
  shows "\<exists>S'. unwatchAllKeys S c = Some S' \<and> minv Q S' X \<and> unwatched c S S' X \<and>
    c_watched_keys (clients S' ! c) = [] \<and> (\<forall>k. c \<notin> set (watched_keys (rdb S') k))"
proof -
  obtain S' where S': "unwatchAllKeys S c = Some S'" "minv Q S' X" "unwatched c S S' X" "c_watched_keys (clients S' ! c) = []"
    using unwatch_loop_spec[OF assms refl] assms(2) by (auto simp: unwatchAllKeys_def)
  have "c < length (clients S')" using unwatched_clients(1)[OF S'(3)] assms(2) by simp
  then have "c \<notin> set (watched_keys (rdb S') k)" for k
    using watch_ok_client[OF invD(4)[OF S'(2)], of c] S'(4) by (metis empty_iff list.set(1) mapM.simps(1) option.inject)
  with S' show ?thesis by blast
qed

section \<open>Discarding\<close>

lemma free_commands_spec:
  assumes "db_inv st (mset (concat (map snd q)) + X)"
  shows "\<exists>h. free_commands (heap st) q = Some h \<and> db_inv (st\<lparr>heap := h\<rparr>) X \<and>
    keyspace (st\<lparr>heap := h\<rparr>) = keyspace st \<and> frame st (st\<lparr>heap := h\<rparr>) X"
  using assms
proof (induction q arbitrary: st)
  case (Cons p q)
  obtain cmd argv where p: "p = (cmd, argv)" by fastforce
  have "db_inv st (mset argv + (mset (concat (map snd q)) + X))" using Cons.prems p by (simp add: add.assoc)
  from freeClientArgv_spec[OF this] obtain h where
    h: "freeClientArgv (heap st) argv = Some h" "db_inv (st\<lparr>heap := h\<rparr>) (mset (concat (map snd q)) + X)"
      "keyspace (st\<lparr>heap := h\<rparr>) = keyspace st" "frame st (st\<lparr>heap := h\<rparr>) (mset (concat (map snd q)) + X)" by blast
  obtain h2 where h2: "free_commands h q = Some h2" "db_inv (st\<lparr>heap := h2\<rparr>) X" "keyspace (st\<lparr>heap := h2\<rparr>) = keyspace st"
      "frame (st\<lparr>heap := h\<rparr>) (st\<lparr>heap := h2\<rparr>) X"
    using Cons.IH[OF h(2)] h(3) by auto
  have "frame st (st\<lparr>heap := h\<rparr>) X" using h(4) by (rule frame_sub) simp
  then have "frame st (st\<lparr>heap := h2\<rparr>) X" using h2(4) by (rule frame_trans)
  with p h h2 show ?case by simp
qed simp

text \<open>What the end of a transaction, or of a connection, changes.\<close>

definition dropped :: "nat \<Rightarrow> server \<Rightarrow> server \<Rightarrow> oref multiset \<Rightarrow> bool" where
  "dropped c S S' X \<longleftrightarrow>
     clients S' = (clients S)[c := new_client] \<and>
     rdb S' = (rdb S)\<lparr>heap := sheap S', watched_keys := watched_keys (rdb S'), dirty_cas := (dirty_cas (rdb S))(c := False)\<rparr> \<and>
     keyspace (rdb S') = keyspace (rdb S) \<and> refs S' \<subseteq># refs S \<and> keeps (sheap S) (sheap S') (refs S' + X) \<and>
     (\<forall>k. c \<notin> set (watched_keys (rdb S') k)) \<and>
     (\<forall>k c'. c' \<noteq> c \<longrightarrow> (c' \<in> set (watched_keys (rdb S') k)) = (c' \<in> set (watched_keys (rdb S) k)))"

lemma dirty_cas_simps [simp]:
  "db_inv (st\<lparr>dirty_cas := f\<rparr>) X = db_inv st X" "limits_ok (st\<lparr>dirty_cas := f\<rparr>) = limits_ok st"
  "watch_ok (clear_dirty_cas S c) = watch_ok S" "flags_ok (clear_dirty_cas S c) = flags_ok S"
  by (simp_all add: db_inv_def limits_ok_def watch_ok_def flags_ok_def)

lemma inv_clear_dirty: "minv Q S X \<Longrightarrow> minv Q (clear_dirty_cas S c) X"
  by (rule inv_shrink[of Q S X]) (simp_all add: invD)

lemma keyspace_env2: "keyspace (st\<lparr>dirty_cas := f\<rparr>) = keyspace st"
  by (simp add: keyspace_def raw_map_def fun_eq_iff)

lemma inv_free_queue:
  assumes inv: "minv Q S X" and c: "c < length (clients S)" and Q: "\<And>c' i. c' \<noteq> c \<Longrightarrow> Q c' i"
    and cl: "mstate_commands cl = []" "c_watched_keys cl = c_watched_keys (clients S ! c)" "\<not> CLIENT_DIRTY_EXEC cl"
  shows "\<exists>h. freeClientMultiState S c = Some (set_heap S h) \<and> minv everything (set_client (set_heap S h) c cl) X \<and>
    keyspace ((rdb S)\<lparr>heap := h\<rparr>) = keyspace (rdb S) \<and> refs (set_client (set_heap S h) c cl) \<subseteq># refs S \<and>
    keeps (sheap S) h (refs (set_client (set_heap S h) c cl) + X)"
proof -
  let ?q = "mstate_commands (clients S ! c)"
  have R: "refs S = mset (concat (map snd ?q)) + (client_refs cl + rest_refs S c)"
    using refs_split[OF c] cl by (simp add: client_refs_def)
  obtain h where h: "free_commands (sheap S) ?q = Some h" "db_inv ((rdb S)\<lparr>heap := h\<rparr>) (client_refs cl + rest_refs S c + X)"
      "keyspace ((rdb S)\<lparr>heap := h\<rparr>) = keyspace (rdb S)" "frame (rdb S) ((rdb S)\<lparr>heap := h\<rparr>) (client_refs cl + rest_refs S c + X)"
    using free_commands_spec[of "rdb S" ?q "client_refs cl + rest_refs S c + X"] invD(1)[OF inv] R by (auto simp: add.assoc)
  let ?S = "set_client (set_heap S h) c cl"
  have R': "refs ?S = client_refs cl + rest_refs S c" using refs_set_client[of c "set_heap S h" cl] c by simp
  have kp: "keeps (sheap S) h (refs ?S + X)" using h(4) unfolding R' by (simp add: frame_def)
  have bytes: "arg_bytes h r = arg_bytes (sheap S) r" if "r \<in># refs ?S" for r using arg_bytes_keeps[OF kp] that by simp
  have kpw: "keeps (sheap S) h (refs ?S)" using kp by (simp add: keeps_def)
  have "watch_ok ?S"
  proof -
    have "watch_ok ((set_client S c cl)\<lparr>rdb := rdb S\<rparr>)"
      using invD(4)[OF inv] cl(2) c unfolding watch_ok_def by (auto simp: nth_list_update)
    then show ?thesis
      by (rule watch_ok_keeps) (use kpw R' refs_set_client[OF c, of cl] in simp_all)
  qed
  moreover have "flags_ok ?S"
    using invD(3)[OF inv] cl unfolding flags_ok_def by (auto dest!: set_update_subset_insert[THEN subsetD])
  moreover have "i < length (mstate_commands (clients S ! c')) \<and> Q c' i \<and>
      mstate_commands (clients ?S ! c') ! i = mstate_commands (clients S ! c') ! i"
    if "c' < length (clients S)" "i < length (mstate_commands (clients ?S ! c'))" for c' i
    using that c cl(1) Q by (cases "c' = c") auto
  ultimately have "minv everything ?S X"
    using h(2) invD(2)[OF inv] limits_frame[OF h(4)] kpw R' by (intro inv_shrink[OF inv]) (simp_all add: R)
  moreover have "freeClientMultiState S c = Some (set_heap S h)" using h(1) c by (simp add: freeClientMultiState_def)
  moreover have "refs ?S \<subseteq># refs S" unfolding R R' by simp
  ultimately show ?thesis using h(3) kp by blast
qed

lemma client_eq: "\<not> CLIENT_MULTI cl \<Longrightarrow> \<not> CLIENT_DIRTY_EXEC cl \<Longrightarrow> mstate_commands cl = [] \<Longrightarrow> c_watched_keys cl = [] \<Longrightarrow>
    cl = new_client"
  by (simp add: new_client_def)

lemma dropped_unwatched:
  assumes c: "c < length (clients S)" and cl: "\<not> CLIENT_MULTI cl" "\<not> CLIENT_DIRTY_EXEC cl" "mstate_commands cl = []"
    and q: "keyspace ((rdb S)\<lparr>heap := h\<rparr>) = keyspace (rdb S)" "refs (set_client (set_heap S h) c cl) \<subseteq># refs S"
      "keeps (sheap S) h (refs (set_client (set_heap S h) c cl) + X)"
    and u: "unwatched c (clear_dirty_cas (set_client (set_heap S h) c cl) c) S' X" "c_watched_keys (clients S' ! c) = []"
      "\<forall>k. c \<notin> set (watched_keys (rdb S') k)"
  shows "dropped c S S' X"
proof -
  let ?S = "clear_dirty_cas (set_client (set_heap S h) c cl) c"
  obtain cw where cw: "clients S' = (clients S)[c := cl\<lparr>c_watched_keys := cw\<rparr>]"
    using u(1) c by (auto simp: unwatched_def)
  then have "cl\<lparr>c_watched_keys := cw\<rparr> = new_client" using u(2) c cl by (intro client_eq) simp_all
  with cw have cs: "clients S' = (clients S)[c := new_client]" by simp
  have e: "rdb S' = (rdb ?S)\<lparr>heap := sheap S', watched_keys := watched_keys (rdb S')\<rparr>" "refs S' \<subseteq># refs ?S"
      "keeps (sheap ?S) (sheap S') (refs S' + X)" "keyspace (rdb S') = keyspace (rdb ?S)"
    using u(1) by (simp_all add: unwatched_def)
  have e1: "rdb S' = (rdb S)\<lparr>heap := sheap S', watched_keys := watched_keys (rdb S'), dirty_cas := (dirty_cas (rdb S))(c := False)\<rparr>"
    by (subst e(1)) simp
  have sub: "refs S' \<subseteq># refs (set_client (set_heap S h) c cl)" using e(2) by simp
  then have "set_mset (refs S' + X) \<subseteq> set_mset (refs (set_client (set_heap S h) c cl) + X)" using set_mset_mono by fastforce
  with q(3) have "keeps (sheap S) h (refs S' + X)" by (rule keeps_sub)
  moreover have "keeps h (sheap S') (refs S' + X)" using e(3) by simp
  ultimately have ks: "keeps (sheap S) (sheap S') (refs S' + X)" by (rule keeps_trans)
  have "refs S' \<subseteq># refs S" using sub q(2) by (rule subset_mset.order_trans)
  moreover have "keyspace (rdb S') = keyspace (rdb S)" using e(4) q(1) by (simp add: keyspace_env2)
  moreover have "\<forall>k c'. c' \<noteq> c \<longrightarrow> (c' \<in> set (watched_keys (rdb S') k)) = (c' \<in> set (watched_keys (rdb S) k))"
    using u(1) by (simp add: unwatched_def)
  ultimately show ?thesis unfolding dropped_def using cs e1 ks u(3) by blast
qed

lemma discardTransaction_spec:
  assumes inv: "minv Q S X" and c: "c < length (clients S)" and Q: "\<And>c' i. c' \<noteq> c \<Longrightarrow> Q c' i"
  shows "\<exists>S'. discardTransaction S c = Some S' \<and> minv everything S' X \<and> dropped c S S' X"
proof -
  define cl where "cl = (initClientMultiState (clients S ! c))\<lparr>CLIENT_MULTI := False, CLIENT_DIRTY_EXEC := False\<rparr>"
  have f: "\<not> CLIENT_MULTI cl" "\<not> CLIENT_DIRTY_EXEC cl" "mstate_commands cl = []" "c_watched_keys cl = c_watched_keys (clients S ! c)"
    by (simp_all add: cl_def initClientMultiState_def)
  obtain h where h: "freeClientMultiState S c = Some (set_heap S h)" "minv everything (set_client (set_heap S h) c cl) X"
      "keyspace ((rdb S)\<lparr>heap := h\<rparr>) = keyspace (rdb S)" "refs (set_client (set_heap S h) c cl) \<subseteq># refs S"
      "keeps (sheap S) h (refs (set_client (set_heap S h) c cl) + X)"
    using inv_free_queue[OF inv c Q f(3,4,2)] by blast
  let ?S = "clear_dirty_cas (set_client (set_heap S h) c cl) c"
  have "c < length (clients ?S)" using c by simp
  then obtain S' where S': "unwatchAllKeys ?S c = Some S'" "minv everything S' X" "unwatched c ?S S' X"
      "c_watched_keys (clients S' ! c) = []" "\<forall>k. c \<notin> set (watched_keys (rdb S') k)"
    using unwatchAllKeys_spec[OF inv_clear_dirty[OF h(2)]] by blast
  have "discardTransaction S c = Some S'"
    using h(1) S'(1) c by (simp add: discardTransaction_def cl_def Let_def)
  with S' dropped_unwatched[OF c f(1-3) h(3-5) S'(3-5)] show ?thesis by blast
qed

lemma freeClient_spec:
  assumes inv: "minv everything S X" and c: "c < length (clients S)"
  shows "\<exists>S'. freeClient S c = Some S' \<and> minv everything S' X \<and> dropped c S S' X"
proof -
  obtain S1 where S1: "unwatchAllKeys S c = Some S1" "minv everything S1 X" "unwatched c S S1 X"
      "c_watched_keys (clients S1 ! c) = []" "\<forall>k. c \<notin> set (watched_keys (rdb S1) k)"
    using unwatchAllKeys_spec[OF inv c] by blast
  have c1: "c < length (clients S1)" using unwatched_clients(1)[OF S1(3)] c by simp
  have n: "mstate_commands new_client = []" "c_watched_keys new_client = c_watched_keys (clients S1 ! c)" "\<not> CLIENT_DIRTY_EXEC new_client"
    using S1(4) by (simp_all add: new_client_def)
  obtain h where h: "freeClientMultiState S1 c = Some (set_heap S1 h)" "minv everything (set_client (set_heap S1 h) c new_client) X"
      "keyspace ((rdb S1)\<lparr>heap := h\<rparr>) = keyspace (rdb S1)" "refs (set_client (set_heap S1 h) c new_client) \<subseteq># refs S1"
      "keeps (sheap S1) h (refs (set_client (set_heap S1 h) c new_client) + X)"
    using inv_free_queue[OF S1(2) c1 _ n] by blast
  let ?S = "clear_dirty_cas (set_client (set_heap S1 h) c new_client) c"
  obtain cw where cw: "clients S1 = (clients S)[c := (clients S ! c)\<lparr>c_watched_keys := cw\<rparr>]" using S1(3) by (auto simp: unwatched_def)
  have e: "rdb S1 = (rdb S)\<lparr>heap := sheap S1, watched_keys := watched_keys (rdb S1)\<rparr>" "refs S1 \<subseteq># refs S"
      "keeps (sheap S) (sheap S1) (refs S1 + X)" "keyspace (rdb S1) = keyspace (rdb S)"
    using S1(3) by (simp_all add: unwatched_def)
  have "set_mset (refs ?S + X) \<subseteq> set_mset (refs S1 + X)" using set_mset_mono[OF h(4)] by auto
  with e(3) have "keeps (sheap S) (sheap S1) (refs ?S + X)" by (rule keeps_sub)
  moreover have "keeps (sheap S1) (sheap ?S) (refs ?S + X)" using h(5) by simp
  ultimately have ks: "keeps (sheap S) (sheap ?S) (refs ?S + X)" by (rule keeps_trans)
  have wk: "watched_keys (rdb ?S) = watched_keys (rdb S1)" by simp
  have "rdb ?S = (rdb S)\<lparr>heap := sheap ?S, watched_keys := watched_keys (rdb ?S), dirty_cas := (dirty_cas (rdb S))(c := False)\<rparr>"
    unfolding wk using arg_cong[OF e(1), of dirty_cas] by (simp add: clear_dirty_cas_def) (subst e(1), simp)
  moreover have "refs ?S \<subseteq># refs S" using h(4) e(2) by (simp add: subset_mset.order_trans[of _ "refs S1"])
  moreover have "keyspace (rdb ?S) = keyspace (rdb S)" using h(3) e(4) by (simp add: keyspace_env2)
  moreover have "clients ?S = (clients S)[c := new_client]" using cw by simp
  moreover have "\<forall>k c'. c' \<noteq> c \<longrightarrow> (c' \<in> set (watched_keys (rdb ?S) k)) = (c' \<in> set (watched_keys (rdb S) k))"
    using S1(3) by (simp add: unwatched_def)
  moreover have "\<forall>k. c \<notin> set (watched_keys (rdb ?S) k)" using S1(5) unfolding wk .
  ultimately have "dropped c S ?S X" unfolding dropped_def using ks by blast
  moreover have "freeClient S c = Some ?S" using S1(1) h(1) by (simp add: freeClient_def)
  ultimately show ?thesis using inv_clear_dirty[OF h(2)] by blast
qed

section \<open>Watching\<close>

lemma already_watched_spec:
  assumes ok: "heap_ok (sheap S) R" and r: "r \<in># R" "arg_bytes (sheap S) r = Some k" "length k < 2 ^ 31"
    and ks: "set wks \<subseteq> set_mset R" "mapM (arg_bytes (sheap S)) wks = Some ks" "\<And>k. k \<in> set ks \<Longrightarrow> length k < 2 ^ 31"
  shows "already_watched S r wks = Some (k \<in> set ks)"
  using ks
proof (induction wks arbitrary: ks)
  case (Cons wk wks)
  obtain k1 ks1 where k1: "ks = k1 # ks1" "arg_bytes (sheap S) wk = Some k1" "mapM (arg_bytes (sheap S)) wks = Some ks1"
    using Cons.prems(2) unfolding mapM_Cons by blast
  have "equalStringObjects (strcoll S) (sheap S) r wk = Some (k = k1)"
    using equalStringObjects_spec[OF ok r(1) _ arg_bytes_val[OF r(2)] arg_bytes_val[OF k1(2)] r(3)] Cons.prems(1,3) k1(1) by simp
  then show ?case using Cons.IH[OF _ k1(3)] Cons.prems(1,3) k1(1) by auto
qed simp

text \<open>What watching a key changes.\<close>

definition watched :: "nat \<Rightarrow> server \<Rightarrow> server \<Rightarrow> oref multiset \<Rightarrow> bool" where
  "watched c S S' X \<longleftrightarrow>
     (\<exists>cw. clients S' = (clients S)[c := (clients S ! c)\<lparr>c_watched_keys := cw\<rparr>]) \<and>
     rdb S' = (rdb S)\<lparr>heap := sheap S', watched_keys := watched_keys (rdb S')\<rparr> \<and>
     keyspace (rdb S') = keyspace (rdb S) \<and> keeps (sheap S) (sheap S') (refs S + X) \<and> set_mset (refs S) \<subseteq> set_mset (refs S') \<and>
     (\<forall>k c'. c' \<in> set (watched_keys (rdb S) k) \<longrightarrow> c' \<in> set (watched_keys (rdb S') k)) \<and>
     (\<forall>k c'. c' \<noteq> c \<longrightarrow> (c' \<in> set (watched_keys (rdb S') k)) = (c' \<in> set (watched_keys (rdb S) k)))"

lemma watched_refl: "watched c S S X"
proof -
  have "clients S = (clients S)[c := (clients S ! c)\<lparr>c_watched_keys := c_watched_keys (clients S ! c)\<rparr>]" by simp
  then have "\<exists>cw. clients S = (clients S)[c := (clients S ! c)\<lparr>c_watched_keys := cw\<rparr>]" by (rule exI)
  then show ?thesis unfolding watched_def by simp
qed

lemma watched_trans:
  assumes c: "c < length (clients S)" and a: "watched c S S1 X" and b: "watched c S1 S2 X"
  shows "watched c S S2 X"
proof -
  obtain cw cw' where cl: "clients S1 = (clients S)[c := (clients S ! c)\<lparr>c_watched_keys := cw\<rparr>]"
      "clients S2 = (clients S1)[c := (clients S1 ! c)\<lparr>c_watched_keys := cw'\<rparr>]"
    using a b unfolding watched_def by blast
  have "clients S2 = (clients S)[c := (clients S ! c)\<lparr>c_watched_keys := cw'\<rparr>]" using cl c by simp
  then have ex: "\<exists>cw. clients S2 = (clients S)[c := (clients S ! c)\<lparr>c_watched_keys := cw\<rparr>]" by (rule exI)
  have e: "rdb S1 = (rdb S)\<lparr>heap := sheap S1, watched_keys := watched_keys (rdb S1)\<rparr>"
    "rdb S2 = (rdb S1)\<lparr>heap := sheap S2, watched_keys := watched_keys (rdb S2)\<rparr>"
    using a b unfolding watched_def by blast+
  have e2: "rdb S2 = (rdb S)\<lparr>heap := sheap S2, watched_keys := watched_keys (rdb S2)\<rparr>"
    by (subst e(2), subst e(1)) simp
  have k: "keeps (sheap S) (sheap S1) (refs S + X)" "keeps (sheap S1) (sheap S2) (refs S1 + X)"
    "set_mset (refs S) \<subseteq> set_mset (refs S1)"
    using a b by (simp_all add: watched_def)
  have "set_mset (refs S + X) \<subseteq> set_mset (refs S1 + X)" using k(3) by auto
  with k(2) have "keeps (sheap S1) (sheap S2) (refs S + X)" by (rule keeps_sub)
  with k(1) have ks: "keeps (sheap S) (sheap S2) (refs S + X)" by (rule keeps_trans)
  show ?thesis
    unfolding watched_def using a b ex e2 ks by (auto simp: watched_def)
qed

lemma watch_ok_watch:
  assumes w: "watch_ok S" and c: "c < length (clients S)" and r: "arg_bytes (sheap S') r = Some k" "length k < 2 ^ 31"
    and new: "c \<notin> set (watched_keys (rdb S) k)"
    and S': "clients S' = (clients S)[c := (clients S ! c)\<lparr>c_watched_keys := c_watched_keys (clients S ! c) @ [r]\<rparr>]"
      "watched_keys (rdb S') = (watched_keys (rdb S))(k := watched_keys (rdb S) k @ [c])"
      "watched_obj S' = (if watched_obj S k = None then (watched_obj S)(k \<mapsto> r) else watched_obj S)"
    and bytes: "\<And>r. r \<in># refs S \<Longrightarrow> arg_bytes (sheap S') r = arg_bytes (sheap S) r"
  shows "watch_ok S'"
proof -
  note d = watch_okD[OF w]
  have len: "length (clients S') = length (clients S)" using S'(1) by simp
  have fin: "finite (dom (watched_obj S'))" using d(1) by (simp add: S'(3))
  have key: "(watched_obj S' k' = None) = (watched_keys (rdb S') k' = []) \<and> distinct (watched_keys (rdb S') k') \<and>
      (\<forall>c\<in>set (watched_keys (rdb S') k'). c < length (clients S')) \<and>
      (\<forall>r. watched_obj S' k' = Some r \<longrightarrow> arg_bytes (sheap S') r = Some k')" for k'
  proof -
    have "arg_bytes (sheap S') r' = Some k'" if "watched_obj S' k' = Some r'" for r'
      using bytes[OF obj_in_refs[OF d(1), of k' r']] d(5)[of k' r'] that r(1) S'(3) by (auto split: if_splits)
    moreover have "(watched_obj S' k' = None) = (watched_keys (rdb S') k' = [])"
      using d(2)[of k'] by (cases "k' = k") (auto simp: S'(2,3))
    ultimately show ?thesis using d(3)[of k'] d(4)[of _ k'] new len c by (cases "k' = k") (auto simp: S'(2))
  qed
  have "\<exists>ks. mapM (arg_bytes (sheap S')) (c_watched_keys (clients S' ! c')) = Some ks \<and> distinct ks \<and>
        (\<forall>k. (c' \<in> set (watched_keys (rdb S') k)) = (k \<in> set ks)) \<and> (\<forall>k\<in>set ks. length k < 2 ^ 31)"
    if c': "c' < length (clients S')" for c'
  proof -
    have cS: "c' < length (clients S)" using c' len by simp
    obtain ks where ks: "mapM (arg_bytes (sheap S)) (c_watched_keys (clients S ! c')) = Some ks" "distinct ks"
        "\<And>k. (c' \<in> set (watched_keys (rdb S) k)) = (k \<in> set ks)" "\<And>k. k \<in> set ks \<Longrightarrow> length k < 2 ^ 31"
      using watch_ok_client[OF w cS] by metis
    have m: "mapM (arg_bytes (sheap S')) (c_watched_keys (clients S ! c')) = Some ks"
      unfolding ks(1)[symmetric] using watched_in_refs[OF cS] bytes by (intro mapM_cong) auto
    show ?thesis
    proof (cases "c' = c")
      case True
      have snoc: "mapM f xs = Some ys \<Longrightarrow> f x = Some y \<Longrightarrow> mapM f (xs @ [x]) = Some (ys @ [y])" for f :: "oref \<Rightarrow> char list option" and xs x ys y
        by (induction xs arbitrary: ys) (auto simp: bind_eq_Some_conv)
      have "mapM (arg_bytes (sheap S')) (c_watched_keys (clients S' ! c')) = Some (ks @ [k])"
        using snoc[OF m r(1)] True c by (simp add: S'(1))
      moreover have "k \<notin> set ks" using ks(3)[of k] new True by simp
      moreover have "(c' \<in> set (watched_keys (rdb S') k')) = (k' \<in> set (ks @ [k]))" for k'
        using ks(3)[of k'] True by (auto simp: S'(2))
      ultimately show ?thesis using ks(2,4) r(2) by (intro exI[of _ "ks @ [k]"]) auto
    next
      case False
      then have "mapM (arg_bytes (sheap S')) (c_watched_keys (clients S' ! c')) = Some ks" using m by (simp add: S'(1))
      moreover have "(c' \<in> set (watched_keys (rdb S') k')) = (k' \<in> set ks)" for k' using ks(3)[of k'] False by (auto simp: S'(2))
      ultimately show ?thesis using ks(2,4) by blast
    qed
  qed
  with key fin show ?thesis unfolding watch_ok_def by blast
qed

lemma watchForKey_new:
  assumes inv: "minv Q S X" and c: "c < length (clients S)" and r: "r \<in># X" "arg_bytes (sheap S) r = Some k" "length k < 2 ^ 31"
    and few: "lim (dict_refs (db_dict (rdb S)) + add_mset r (add_mset r (refs S + X)))"
    and new: "c \<notin> set (watched_keys (rdb S) k)" "already_watched S r (c_watched_keys (clients S ! c)) = Some False"
  shows "\<exists>S'. watchForKey S c r = Some S' \<and> minv Q S' X \<and> watched c S S' X \<and> c \<in> set (watched_keys (rdb S') k) \<and>
    refs S' \<subseteq># add_mset r (add_mset r (refs S))"
proof -
  let ?st = "rdb S" and ?D = "dict_refs (db_dict (rdb S))"
  note w = invD(4)[OF inv]
  define R where "R = (if watched_obj S k = None then add_mset r (refs S) else refs S)"
  have limR: "lim (?D + add_mset r (R + X))" "lim (?D + add_mset r (refs S + X))"
    by (rule lim_subset[OF few], simp add: R_def)+
  have "\<exists>h1. (if watched_obj S k = None then incrRefCount (sheap S) r else Some (sheap S)) = Some h1 \<and>
      db_inv (?st\<lparr>heap := h1\<rparr>) (R + X) \<and> keyspace (?st\<lparr>heap := h1\<rparr>) = keyspace ?st \<and> keeps (sheap S) h1 (refs S + X)"
    using incr_spec[OF invD(1)[OF inv], of r] r(1) limR(2) invD(1)[OF inv] by (cases "watched_obj S k = None") (auto simp: R_def frame_def)
  then obtain h1 where h1: "(if watched_obj S k = None then incrRefCount (sheap S) r else Some (sheap S)) = Some h1"
      "db_inv (?st\<lparr>heap := h1\<rparr>) (R + X)" "keyspace (?st\<lparr>heap := h1\<rparr>) = keyspace ?st" "keeps (sheap S) h1 (refs S + X)" by blast
  obtain h2 where h2: "incrRefCount h1 r = Some h2" "db_inv (?st\<lparr>heap := h2\<rparr>) (add_mset r (R + X))"
      "keyspace (?st\<lparr>heap := h2\<rparr>) = keyspace ?st" "keeps h1 h2 (R + X)"
    using incr_spec[OF h1(2), of r] r(1) limR(1) h1(3) by (auto simp: frame_def)
  have "keeps h1 h2 (refs S + X)" using h2(4) by (rule keeps_sub) (auto simp: R_def)
  with h1(4) have kp: "keeps (sheap S) h2 (refs S + X)" by (rule keeps_trans)
  define cl where "cl = (clients S ! c)\<lparr>c_watched_keys := c_watched_keys (clients S ! c) @ [r]\<rparr>"
  define wo where "wo = (if watched_obj S k = None then (watched_obj S)(k \<mapsto> r) else watched_obj S)"
  let ?wk = "(watched_keys ?st)(k := watched_keys ?st k @ [c])"
  define S' where "S' = S\<lparr>rdb := ?st\<lparr>watched_keys := ?wk, heap := h2\<rparr>, clients := (clients S)[c := cl], watched_obj := wo\<rparr>"
  have f: "clients S' = (clients S)[c := cl]" "rdb S' = ?st\<lparr>watched_keys := ?wk, heap := h2\<rparr>" "watched_obj S' = wo"
    by (simp_all add: S'_def)
  have "rest_refs S' c + refs S = rest_refs S c + R"
    using dict_refs_update[OF watch_okD(1)[OF w], of k r] by (auto simp: rest_refs_def f wo_def R_def dict_refs_absent)
  then have rS': "refs S' = add_mset r R"
    using refs_split[OF c] refs_split[of c S'] c by (simp add: f cl_def client_refs_def ac_simps)
  have run: "watchForKey S c r = Some S'"
    using new(2) r(2) h1(1) h2(1) c
    by (auto simp: watchForKey_def Let_def set_heap_def set_client_def S'_def wo_def cl_def split: if_splits)
  have bytes: "arg_bytes h2 r' = arg_bytes (sheap S) r'" if "r' \<in># refs S + X" for r'
    using arg_bytes_keeps[OF kp that] .
  have wok: "watch_ok S'"
    by (rule watch_ok_watch[OF w c _ r(3) new(1)]) (use bytes r(1,2) in \<open>simp_all add: f cl_def wo_def\<close>)
  have fl: "flags_ok S'"
    using invD(3)[OF inv] c unfolding flags_ok_def f cl_def by (auto dest!: set_update_subset_insert[THEN subsetD])
  have ms: "mstate_commands (clients S' ! c') = mstate_commands (clients S ! c')" if "c' < length (clients S)" for c'
    using that c by (cases "c' = c") (simp_all add: f cl_def)
  have sets: "set_mset (refs S) \<subseteq> set_mset (refs S')" "set_mset (refs S') \<subseteq> set_mset (refs S + X)"
    using r(1) unfolding rS' by (auto simp: R_def split: if_splits)
  have "keeps (sheap S) (sheap S') (refs S')" using kp sets(2) by (simp add: f keeps_sub)
  moreover have "count (dict_refs (db_dict (rdb S')) + (refs S' + X)) x \<le> 1" if x: "x \<in># refs S" "sole S X x" for x
  proof -
    have "x \<noteq> r" using soleD(3)[OF x(2,1)] r(1) by auto
    then have "count (refs S') x = count (refs S) x" unfolding rS' by (simp add: R_def)
    then show ?thesis using x(2) by (simp add: sole_def f)
  qed
  moreover have "db_inv (rdb S') (refs S' + X)" using h2(2) unfolding rS' by (simp add: f db_inv_def)
  ultimately have "minv Q S' X"
    using invD(2)[OF inv] wok fl ms by (intro inv_intro[OF inv]) (simp_all add: f limits_ok_def)
  moreover have "watched c S S' X"
  proof -
    have "clients S' = (clients S)[c := (clients S ! c)\<lparr>c_watched_keys := c_watched_keys (clients S ! c) @ [r]\<rparr>]"
      using f(1) by (simp only: cl_def)
    then have "\<exists>cw. clients S' = (clients S)[c := (clients S ! c)\<lparr>c_watched_keys := cw\<rparr>]" by (rule exI)
    moreover have "keyspace (rdb S') = keyspace (rdb S)" using h2(3) by (simp add: f keyspace_def raw_map_def fun_eq_iff)
    moreover have "rdb S' = (rdb S)\<lparr>heap := sheap S', watched_keys := watched_keys (rdb S')\<rparr>" by (simp add: f)
    moreover have "c' \<noteq> c \<Longrightarrow> (c' \<in> set (watched_keys (rdb S') k')) = (c' \<in> set (watched_keys (rdb S) k'))" for c' k'
      by (simp add: f)
    moreover have "c' \<in> set (watched_keys (rdb S) k') \<Longrightarrow> c' \<in> set (watched_keys (rdb S') k')" for c' k'
      by (auto simp: f)
    ultimately show ?thesis unfolding watched_def using kp sets(1) f(2) by auto
  qed
  moreover have "c \<in> set (watched_keys (rdb S') k)" by (simp add: f)
  moreover have "refs S' \<subseteq># add_mset r (add_mset r (refs S))" unfolding rS' by (simp add: R_def)
  ultimately show ?thesis using run by blast
qed

lemma watchForKey_spec:
  assumes inv: "minv Q S X" and c: "c < length (clients S)" and r: "r \<in># X" "arg_bytes (sheap S) r = Some k" "length k < 2 ^ 31"
    and few: "lim (dict_refs (db_dict (rdb S)) + add_mset r (add_mset r (refs S + X)))"
  shows "\<exists>S'. watchForKey S c r = Some S' \<and> minv Q S' X \<and> watched c S S' X \<and> c \<in> set (watched_keys (rdb S') k) \<and>
    refs S' \<subseteq># add_mset r (add_mset r (refs S))"
proof -
  obtain ks where ks: "mapM (arg_bytes (sheap S)) (c_watched_keys (clients S ! c)) = Some ks"
      "\<And>k. (c \<in> set (watched_keys (rdb S) k)) = (k \<in> set ks)" "\<And>k. k \<in> set ks \<Longrightarrow> length k < 2 ^ 31"
    using watch_ok_client[OF invD(4)[OF inv] c] by metis
  have "already_watched S r (c_watched_keys (clients S ! c)) = Some (k \<in> set ks)"
    using already_watched_spec[OF inv_heap[OF invD(1)[OF inv]] _ r(2,3) _ ks(1,3)] r(1) watched_in_refs[OF c] by auto
  then show ?thesis
    using watchForKey_new[OF inv c r few] ks(2)[of k] inv c
    by (cases "k \<in> set ks") (auto simp: watchForKey_def watched_refl)
qed

lemma count_lim:
  assumes "lim R" "count R r \<le> 2 ^ 29"
  shows "lim (add_mset r (add_mset r R))"
  unfolding lim_def
proof
  fix a
  have "count R (Obj a) \<le> 2 ^ 30" using assms(1) by (simp only: lim_def)
  then show "count (add_mset r (add_mset r R)) (Obj a) \<le> 2 ^ 30" using assms(2) by (cases "r = Obj a") simp_all
qed

lemma watch_loop_spec:
  assumes "minv Q S (mset argv)" "args_from (rdb S) argv (refs S) bs j" "c < length (clients S)" "\<forall>b\<in>set bs. length b < 2 ^ 31" "j \<le> length bs"
  shows "\<exists>S'. watch_loop S c (drop j argv) = Some S' \<and> minv Q S' (mset argv) \<and> watched c S S' (mset argv) \<and>
    (\<forall>k\<in>set (drop j bs). c \<in> set (watched_keys (rdb S') k))"
  using assms
proof (induction "length bs - j" arbitrary: S j)
  case 0
  then have "drop j argv = []" by (simp add: args_from_def)
  then show ?case using 0 by (simp add: watched_refl)
next
  case (Suc n)
  note inv = Suc.prems(1) and args = Suc.prems(2) and c = Suc.prems(3)
  let ?r = "argv ! j" and ?k = "bs ! j" and ?D = "dict_refs (db_dict (rdb S))"
  have j: "j < length bs" "length argv = length bs" using Suc.hyps(2) args by (auto simp: args_from_def)
  have d: "drop j argv = ?r # drop (Suc j) argv" "drop j bs = ?k # drop (Suc j) bs" using j by (simp_all add: Cons_nth_drop_Suc)
  note a = args_fromD[OF args j(1)]
  have k: "length ?k < 2 ^ 31" using Suc.prems(4) j(1) by simp
  have cnt: "count (?D + (refs S + mset argv)) ?r = 1" using a(6) by (simp add: add.commute)
  have "lim (?D + (refs S + mset argv))" using invD(1)[OF inv] by (simp add: db_inv_def store_ok_def)
  then have few: "lim (?D + add_mset ?r (add_mset ?r (refs S + mset argv)))"
    using count_lim[of "?D + (refs S + mset argv)" ?r] cnt by simp
  obtain S1 where S1: "watchForKey S c ?r = Some S1" "minv Q S1 (mset argv)" "watched c S S1 (mset argv)"
      "c \<in> set (watched_keys (rdb S1) ?k)" "refs S1 \<subseteq># add_mset ?r (add_mset ?r (refs S))"
    using watchForKey_spec[OF inv c _ a(2) k few] a(5) by auto
  have e: "rdb S1 = (rdb S)\<lparr>heap := sheap S1, watched_keys := watched_keys (rdb S1)\<rparr>" "keeps (sheap S) (sheap S1) (refs S + mset argv)"
    "length (clients S1) = length (clients S)"
    using S1(3) by (auto simp: watched_def)
  have dd: "db_dict (rdb S1) = db_dict (rdb S)" by (subst e(1)) simp
  have "arg_bytes (sheap S1) (argv ! i) = Some (bs ! i) \<and> count (?D + (mset argv + refs S1)) (argv ! i) = 1"
    if i: "i < length argv" "Suc j \<le> i" for i
  proof -
    have i': "i < length bs" "j \<le> i" using i j by simp_all
    note b = args_fromD[OF args i']
    have "?r \<noteq> argv ! i"
    proof
      assume eq: "?r = argv ! i"
      have "{#argv ! j, argv ! i#} \<subseteq># mset argv"
      proof -
        have "i < length argv" "j < length argv" "j \<noteq> i" using i j by simp_all
        then have "argv ! i \<in># mset argv - {#argv ! j#}" using others_in[of j argv i "{#}"] by (simp add: others_def)
        then show ?thesis using \<open>j < length argv\<close> by (simp add: insert_subset_eq_iff)
      qed
      then have "2 \<le> count (mset argv) (argv ! i)" using eq mset_subset_eq_count[of "{#argv ! j, argv ! i#}" "mset argv" "argv ! i"] by simp
      then show False using b(6) unfolding count_union by linarith
    qed
    then have "count (refs S1) (argv ! i) \<le> count (refs S) (argv ! i)" using mset_subset_eq_count[OF S1(5), of "argv ! i"] by simp
    then have "count (?D + (mset argv + refs S1)) (argv ! i) \<le> 1" using b(6) unfolding count_union by linarith
    moreover have "0 < count (mset argv) (argv ! i)" using i(1) by simp
    ultimately have "count (?D + (mset argv + refs S1)) (argv ! i) = 1" unfolding count_union by linarith
    then show ?thesis using arg_bytes_keeps[OF e(2), of "argv ! i"] b(2) i(1) by simp
  qed
  then have args1: "args_from (rdb S1) argv (refs S1) bs (Suc j)"
    using invD(1)[OF S1(2)] j(2) dd by (simp add: args_from_def add.commute)
  have "n = length bs - Suc j" "Suc j \<le> length bs" "c < length (clients S1)" using Suc.hyps(2) j c e(3) by auto
  then obtain S2 where S2: "watch_loop S1 c (drop (Suc j) argv) = Some S2" "minv Q S2 (mset argv)" "watched c S1 S2 (mset argv)"
      "\<forall>k\<in>set (drop (Suc j) bs). c \<in> set (watched_keys (rdb S2) k)"
    using Suc.hyps(1)[OF _ S1(2) args1 _ Suc.prems(4)] by blast
  have "c \<in> set (watched_keys (rdb S2) ?k)" using S1(4) S2(3) by (simp add: watched_def)
  then show ?case using S1(1) S2 watched_trans[OF c S1(3) S2(3)] by (simp add: d)
qed

end
