(* ===== verification/Transactions.thy ===== *)
theory Transactions
  imports MultiInv
begin

text \<open>
  Execution of a transaction: \<open>EXEC\<close> runs the queued commands as one step of the specification
  \<open>spec_exec\<close>, or drops them, and what this means for the other clients.
\<close>

section \<open>EXEC\<close>

definition contents :: "heap \<Rightarrow> oref list \<Rightarrow> char list list" where
  "contents h argv = map (\<lambda>r. the (arg_bytes h r)) argv"

text \<open>The queue of a client, with the bytes of the arguments.\<close>

definition queue_bytes :: "heap \<Rightarrow> (command \<times> oref list) list \<Rightarrow> (command \<times> char list list) list" where
  "queue_bytes h q = map (\<lambda>(cmd, argv). (cmd, contents h argv)) q"

fun spec_exec :: "int \<Rightarrow> int \<Rightarrow> keymap \<Rightarrow> (command \<times> char list list) list \<Rightarrow> keymap \<times> reply list" where
  "spec_exec t limit m [] = (m, [])"
| "spec_exec t limit m ((StrCmd cmd, args) # q) =
     (let (m, rep) = spec_command cmd t limit args m; (m, reps) = spec_exec t limit m q in (m, rep # reps))"
| "spec_exec t limit m (_ # q) = (let (m, reps) = spec_exec t limit m q in (m, shared_ok # reps))"

fun arith_queue :: "int \<Rightarrow> (command \<times> char list list) list \<Rightarrow> bool" where
  "arith_queue t [] \<longleftrightarrow> True"
| "arith_queue t ((StrCmd cmd, args) # q) \<longleftrightarrow> arith_ok cmd t args \<and> arith_queue t q"
| "arith_queue t (_ # q) \<longleftrightarrow> arith_queue t q"

text \<open>What a client knows of its transaction.\<close>

record session =
  in_multi :: bool
  bad :: bool
  queued :: "(command \<times> char list list) list"

definition session_of :: "server \<Rightarrow> nat \<Rightarrow> session" where
  "session_of S c = (let cl = clients S ! c in
     \<lparr>in_multi = CLIENT_MULTI cl, bad = CLIENT_DIRTY_EXEC cl, queued = queue_bytes (sheap S) (mstate_commands cl)\<rparr>)"

text \<open>What a step of client \<open>c\<close> means for the others.\<close>

definition others_ok :: "nat \<Rightarrow> server \<Rightarrow> server \<Rightarrow> bool" where
  "others_ok c S S' \<longleftrightarrow>
     now (rdb S') = now (rdb S) \<and> proto_max_bulk_len (rdb S') = proto_max_bulk_len (rdb S) \<and>
     length (clients S') = length (clients S) \<and>
     (\<forall>c'. c' \<noteq> c \<longrightarrow>
        (c' < length (clients S) \<longrightarrow> session_of S' c' = session_of S c') \<and>
        (\<forall>k. (c' \<in> set (watched_keys (rdb S') k)) = (c' \<in> set (watched_keys (rdb S) k))) \<and>
        (dirty_cas (rdb S) c' \<longrightarrow> dirty_cas (rdb S') c') \<and>
        (\<forall>k. c' \<in> set (watched_keys (rdb S) k) \<and> keyspace (rdb S') k \<noteq> keyspace (rdb S) k \<longrightarrow> dirty_cas (rdb S') c'))"

lemma others_ok_refl [simp]: "others_ok c S S"
  by (simp add: others_ok_def)

lemma others_ok_trans: "others_ok c S S1 \<Longrightarrow> others_ok c S1 S2 \<Longrightarrow> others_ok c S S2"
  unfolding others_ok_def by metis

lemma rdb_env: "db' = st\<lparr>heap := h, watched_keys := w\<rparr> \<Longrightarrow>
    now db' = now st \<and> proto_max_bulk_len db' = proto_max_bulk_len st \<and> dirty_cas db' = dirty_cas st"
  by simp

lemma rdb_env_dirty: "db' = st\<lparr>heap := h, watched_keys := w, dirty_cas := d\<rparr> \<Longrightarrow>
    now db' = now st \<and> proto_max_bulk_len db' = proto_max_bulk_len st \<and> dirty_cas db' = d"
  by simp

lemma queue_bytes_keeps:
  assumes "keeps h h' Y" "\<forall>p\<in>set q. set (snd p) \<subseteq> set_mset Y"
  shows "queue_bytes h' q = queue_bytes h q"
proof -
  have "contents h' (snd p) = contents h (snd p)" if "p \<in> set q" for p
    using assms(2) that by (auto simp: contents_def intro!: arg_cong[where f = the] arg_bytes_keeps[OF assms(1)])
  then show ?thesis by (auto simp: queue_bytes_def)
qed

lemma session_keeps:
  assumes "keeps (sheap S) (sheap S') Y" "\<And>cmd argv. (cmd, argv) \<in> set (mstate_commands (clients S ! c)) \<Longrightarrow> set argv \<subseteq> set_mset Y"
    "clients S' ! c = (clients S ! c)\<lparr>c_watched_keys := cw\<rparr>"
  shows "session_of S' c = session_of S c"
proof -
  have "queue_bytes (sheap S') (mstate_commands (clients S ! c)) = queue_bytes (sheap S) (mstate_commands (clients S ! c))"
    using assms(1) by (intro queue_bytes_keeps[of _ _ Y]) (auto intro: assms(2)[THEN subsetD])
  then show ?thesis using assms(3) by (simp add: session_of_def Let_def)
qed

lemma client_same: "cl' = cl \<Longrightarrow> cl' = cl\<lparr>c_watched_keys := c_watched_keys cl\<rparr>"
  by simp

lemma session_keeps_refs:
  assumes "keeps (sheap S) (sheap S') (refs S + X) \<or> keeps (sheap S) (sheap S') (refs S' + X)" "c < length (clients S)"
    "length (clients S') = length (clients S)" "clients S' ! c = (clients S ! c)\<lparr>c_watched_keys := cw\<rparr>"
  shows "session_of S' c = session_of S c"
proof -
  have "set argv \<subseteq> set_mset (refs S + X) \<and> set argv \<subseteq> set_mset (refs S' + X)"
    if "(cmd, argv) \<in> set (mstate_commands (clients S ! c))" for cmd argv
    using queue_in_refs[of c S cmd argv] queue_in_refs[of c S' cmd argv] that assms(2-4) by auto
  then show ?thesis using assms(1,4) session_keeps by metis
qed

lemma others_ok_unwatched:
  assumes "unwatched c S S' X"
  shows "others_ok c S S'"
proof -
  obtain cw where "clients S' = (clients S)[c := (clients S ! c)\<lparr>c_watched_keys := cw\<rparr>]" using assms by (auto simp: unwatched_def)
  then have "session_of S' c' = session_of S c'" if "c' \<noteq> c" "c' < length (clients S)" for c'
    using assms that by (intro session_keeps_refs[OF disjI2 _ _ client_same]) (auto simp: unwatched_def)
  then show ?thesis
    using rdb_env[where db' = "rdb S'" and st = "rdb S" and h = "sheap S'" and w = "watched_keys (rdb S')"] unwatched_clients(1)[OF assms] assms
    by (simp add: others_ok_def unwatched_def)
qed

lemma others_ok_dropped:
  assumes "dropped c S S' X"
  shows "others_ok c S S'"
proof -
  have "session_of S' c' = session_of S c'" if "c' \<noteq> c" "c' < length (clients S)" for c'
    using assms that by (intro session_keeps_refs[OF disjI2 _ _ client_same]) (auto simp: dropped_def)
  then show ?thesis
    using rdb_env_dirty[where db' = "rdb S'" and st = "rdb S" and h = "sheap S'" and w = "watched_keys (rdb S')" and d = "(dirty_cas (rdb S))(c := False)"] assms
    by (simp add: others_ok_def dropped_def)
qed

lemma others_ok_watched:
  assumes "watched c S S' X"
  shows "others_ok c S S'"
proof -
  obtain cw where "clients S' = (clients S)[c := (clients S ! c)\<lparr>c_watched_keys := cw\<rparr>]" using assms by (auto simp: watched_def)
  then have l: "length (clients S') = length (clients S)"
    and "session_of S' c' = session_of S c'" if "c' \<noteq> c" "c' < length (clients S)" for c'
    using assms that by (simp, intro session_keeps_refs[OF disjI1 _ _ client_same]) (auto simp: watched_def)
  then show ?thesis
    using rdb_env[where db' = "rdb S'" and st = "rdb S" and h = "sheap S'" and w = "watched_keys (rdb S')"] assms
    by (auto simp: others_ok_def watched_def)
qed

lemma others_ok_step:
  assumes "step_ok (rdb S) (rdb S') Y m" "clients S' = clients S"
    "\<And>c' cmd argv. c' \<noteq> c \<Longrightarrow> c' < length (clients S) \<Longrightarrow> (cmd, argv) \<in> set (mstate_commands (clients S ! c')) \<Longrightarrow> set argv \<subseteq> set_mset Y"
  shows "others_ok c S S'"
proof -
  have "session_of S' c' = session_of S c'" if "c' \<noteq> c" "c' < length (clients S)" for c'
    using assms that by (intro session_keeps[of S S' Y, OF _ _ client_same]) (auto simp: step_ok_def frame_def)
  then show ?thesis using assms(1,2) unfolding others_ok_def step_ok_def frame_def marked_def by auto
qed

lemma others_ok_cong:
  assumes "rdb S' = rdb S" "length (clients S') = length (clients S)"
    "\<And>c'. c' \<noteq> c \<Longrightarrow> c' < length (clients S) \<Longrightarrow> clients S' ! c' = clients S ! c'"
  shows "others_ok c S S'"
  using assms by (simp add: others_ok_def session_of_def)

text \<open>References move between an entry of a queue and the command that is being executed.\<close>

lemma concat_update:
  "j < length q \<Longrightarrow> mset (concat (map snd (q[j := (cmd, as')]))) + mset (snd (q ! j)) = mset (concat (map snd q)) + mset as'"
  using mset_concat_update[of j "map snd q" as'] by (simp add: map_update)

lemma inv_move:
  assumes inv: "minv Q S X" and c: "c < length (clients S)" and q: "mstate_commands (clients S ! c) = q" "j < length q" "q ! j = (cmd0, as)"
    and X': "mset as' + X' = mset as + X" and Q: "\<And>c' i. Q' c' i \<Longrightarrow> Q c' i \<and> (c' \<noteq> c \<or> i \<noteq> j)"
  shows "minv Q' (set_client S c ((clients S ! c)\<lparr>mstate_commands := q[j := (cmd, as')]\<rparr>)) X'"
    "refs (set_client S c ((clients S ! c)\<lparr>mstate_commands := q[j := (cmd, as')]\<rparr>)) + X' = refs S + X"
proof -
  let ?cl = "(clients S ! c)\<lparr>mstate_commands := q[j := (cmd, as')]\<rparr>"
  let ?S = "set_client S c ?cl"
  have u: "client_refs ?cl + mset as = client_refs (clients S ! c) + mset as'"
    using concat_update[OF q(2), of cmd as'] q(1,3) by (simp add: client_refs_def ac_simps)
  have "refs ?S + mset as = client_refs ?cl + mset as + rest_refs S c" unfolding refs_set_client[OF c] by (simp add: ac_simps)
  also have "\<dots> = refs S + mset as'" unfolding u refs_split[OF c] by (simp add: ac_simps)
  finally have e1: "refs ?S + mset as = refs S + mset as'" .
  have "refs ?S + X' + mset as = (refs ?S + mset as) + X'" by (simp add: ac_simps)
  also have "\<dots> = refs S + (mset as' + X')" unfolding e1 by (simp add: ac_simps)
  also have "\<dots> = refs S + X + mset as" unfolding X' by (simp add: ac_simps)
  finally show eq: "refs ?S + X' = refs S + X" by simp
  have "CLIENT_MULTI (clients S ! c)" using invD(3)[OF inv] c q(1,2) unfolding flags_ok_def by (metis length_greater_0_conv not_gr_zero not_less_zero nth_mem)
  then have "flags_ok ?S" using invD(3)[OF inv] unfolding flags_ok_def by (auto dest!: set_update_subset_insert[THEN subsetD])
  moreover have "map c_watched_keys ((clients S)[c := ?cl]) = map c_watched_keys (clients S)"
    using c by (simp add: map_update list_update_same_conv)
  then have "watch_ok ?S" using watch_ok_keeps[OF invD(4)[OF inv]] by simp
  moreover have "db_inv (rdb ?S) (refs ?S + X')" using invD(1)[OF inv] unfolding eq by simp
  moreover have "i < length (mstate_commands (clients S ! c')) \<and> Q c' i \<and> mstate_commands (clients ?S ! c') ! i = mstate_commands (clients S ! c') ! i"
    if "c' < length (clients S)" "i < length (mstate_commands (clients ?S ! c'))" "Q' c' i" for c' i
    using that Q[of c' i] q(1) c by (cases "c' = c") auto
  ultimately show "minv Q' ?S X'"
    using invD(2)[OF inv] eq by (intro inv_shrink[OF inv]) simp_all
qed

lemma set_client_twice: "set_client ((set_client S c cl)\<lparr>rdb := db\<rparr>) c cl' = set_client (S\<lparr>rdb := db\<rparr>) c cl'"
  by (simp add: set_client_def)

lemma exec_str_step:
  assumes inv: "minv (\<lambda>c' i. c' \<noteq> c \<or> j \<le> i) S X" and c: "c < length (clients S)"
    and q: "mstate_commands (clients S ! c) = q" "j < length q" "q ! j = (StrCmd cmd, argv)"
    and ok: "arith_ok cmd (now (rdb S)) (contents (sheap S) argv)"
    and spec: "spec_command cmd (now (rdb S)) (proto_max_bulk_len (rdb S)) (contents (sheap S) argv) (keyspace (rdb S)) = (m, rep)"
  shows "\<exists>db' argv' Y. call S c (StrCmd cmd) argv = Some (S\<lparr>rdb := db'\<rparr>, argv', rep) \<and>
    minv (\<lambda>c' i. c' \<noteq> c \<or> Suc j \<le> i) (set_client (S\<lparr>rdb := db'\<rparr>) c ((clients S ! c)\<lparr>mstate_commands := q[j := (StrCmd cmd, argv')]\<rparr>)) X \<and>
    step_ok (rdb S) db' Y m \<and> (\<forall>p\<in>set (drop (Suc j) q). set (snd p) \<subseteq> set_mset Y) \<and> others_ok c S (S\<lparr>rdb := db'\<rparr>)"
proof -
  let ?Q = "\<lambda>c' i. c' \<noteq> c \<or> Suc j \<le> i" and ?D = "dict_refs (db_dict (rdb S))" and ?bs = "contents (sheap S) argv"
  let ?cl = "\<lambda>as. (clients S ! c)\<lparr>mstate_commands := q[j := (StrCmd cmd, as)]\<rparr>"
  define S0 where "S0 = set_client S c (?cl [])"
  have i0: "minv ?Q S0 (mset argv + X)" unfolding S0_def by (rule inv_move(1)[OF inv c q]) auto
  have r0: "refs S0 + (mset argv + X) = refs S + X" unfolding S0_def by (rule inv_move(2)[OF inv c q, where Q' = ?Q]) auto
  have j: "j < length (mstate_commands (clients S ! c))" "mstate_commands (clients S ! c) ! j = (StrCmd cmd, argv)" using q by simp_all
  note d = inv_queueD[OF inv c j(1) _ j(2)]
  have r1: "mset argv + (refs S0 + X) = refs S + X" unfolding r0[symmetric] by (simp add: ac_simps)
  have "arg_bytes (sheap S) (argv ! i) = Some (?bs ! i)" if "i < length argv" for i
    using d(2)[of "argv ! i"] that by (auto simp: contents_def)
  moreover have "count (?D + (mset argv + (refs S0 + X))) (argv ! i) = 1" if "i < length argv" for i
    using d(3)[of "argv ! i"] that unfolding r1 sole_def by simp
  moreover have e: "rdb S0 = rdb S" by (simp add: S0_def)
  moreover have "db_inv (rdb S) (mset argv + (refs S0 + X))" using invD(1)[OF inv] unfolding r1 .
  moreover have "length argv = length ?bs" by (simp add: contents_def)
  ultimately have "args_ok (rdb S0) argv (refs S0 + X) ?bs"
    unfolding args_from_def e by blast
  moreover have "\<not> arity_error (snd (command_table (StrCmd cmd))) (length argv)"
    using d(1) by (simp add: queueable_def)
  ultimately obtain db' argv' where r: "call S0 c (StrCmd cmd) argv = Some (S0\<lparr>rdb := db'\<rparr>, argv', rep)"
      "minv ?Q (S0\<lparr>rdb := db'\<rparr>) (mset argv' + X)" "step_ok (rdb S0) db' (refs S0 + X) m"
    using inv_call_str[OF i0, of ?bs cmd m rep c] ok spec by (auto simp: S0_def)
  obtain name arity proc where t: "cmd_table cmd = (name, arity, proc)" by (cases "cmd_table cmd")
  obtain db2 where db2: "proc (rdb S) argv = Some (db2, argv', rep)" "S0\<lparr>rdb := db2\<rparr> = S0\<lparr>rdb := db'\<rparr>"
    using r(1) t by (auto simp: S0_def elim!: bind_SomeE)
  then have "db2 = db'" using arg_cong[OF db2(2), of rdb] by simp
  then have "call S c (StrCmd cmd) argv = Some (S\<lparr>rdb := db'\<rparr>, argv', rep)" using db2(1) t by simp
  moreover have "minv ?Q (set_client (S0\<lparr>rdb := db'\<rparr>) c ((clients (S0\<lparr>rdb := db'\<rparr>) ! c)\<lparr>mstate_commands := (q[j := (StrCmd cmd, [])])[j := (StrCmd cmd, argv')]\<rparr>)) X"
    by (rule inv_move(1)[OF r(2)]) (use c q in \<open>auto simp: S0_def\<close>)
  then have "minv ?Q (set_client (S\<lparr>rdb := db'\<rparr>) c (?cl argv')) X"
    using c by (simp add: S0_def set_client_twice)
  moreover have "set (snd p) \<subseteq> set_mset (refs S0 + X)" if p: "p \<in> set (drop (Suc j) q)" for p
  proof -
    have "p \<in> set (mstate_commands (clients S0 ! c))"
      using p c q(2) by (simp add: S0_def) (metis drop_update_cancel in_set_dropD lessI)
    then show ?thesis using queue_in_refs[of c S0 "fst p" "snd p"] c by (auto simp: S0_def)
  qed
  moreover have st: "step_ok (rdb S) db' (refs S0 + X) m" using r(3) e by simp
  moreover have sub: "set as \<subseteq> set_mset (refs S0 + X)"
    if "c' \<noteq> c" "c' < length (clients S)" "(cm, as) \<in> set (mstate_commands (clients S ! c'))" for c' cm as
    using queue_in_refs[of c' S0 cm as] that by (auto simp: S0_def)
  moreover have "others_ok c S (S\<lparr>rdb := db'\<rparr>)"
    by (rule others_ok_step[where Y = "refs S0 + X" and m = m]) (use st in simp, simp, rule sub)
  ultimately show ?thesis by blast
qed

lemma exec_unwatch_step:
  assumes inv: "minv Q S X" and c: "c < length (clients S)" and w: "c_watched_keys (clients S ! c) = []"
  shows "call S c UNWATCH argv = Some (clear_dirty_cas S c, argv, shared_ok)"
  using c w by (simp add: unwatchCommand_def unwatchAllKeys_def)

lemma queueable_cases: "queueable cmd n \<Longrightarrow> (\<exists>s. cmd = StrCmd s) \<or> cmd = UNWATCH"
  by (cases cmd) (auto simp: queueable_def)

text \<open>The state during the loop: the client no longer watches anything.\<close>

lemma exec_loop_spec:
  assumes "minv (\<lambda>c' i. c' \<noteq> c \<or> j \<le> i) S X" "c < length (clients S)" "mstate_commands (clients S ! c) = q" "n = length q - j" "j \<le> length q"
    "c_watched_keys (clients S ! c) = []" "arith_queue (now (rdb S)) (queue_bytes (sheap S) (drop j q))"
    "spec_exec (now (rdb S)) (proto_max_bulk_len (rdb S)) (keyspace (rdb S)) (queue_bytes (sheap S) (drop j q)) = (m, reps)"
  shows "\<exists>S'. exec_loop S c j n = Some (S', reps) \<and> minv (\<lambda>c' i. c' \<noteq> c) S' X \<and> keyspace (rdb S') = m \<and> others_ok c S S' \<and>
    (\<exists>q'. clients S' = (clients S)[c := (clients S ! c)\<lparr>mstate_commands := q'\<rparr>])"
  using assms
proof (induction n arbitrary: j S q reps)
  case 0
  then have "clients S ! c = (clients S ! c)\<lparr>mstate_commands := q\<rparr>" by (cases "clients S ! c") auto
  then have "clients S = (clients S)[c := (clients S ! c)\<lparr>mstate_commands := q\<rparr>]" by (metis list_update_id)
  moreover have "minv (\<lambda>c' i. c' \<noteq> c) S X" using 0(1) unfolding minv_def by auto
  ultimately show ?case using 0 by (auto simp: queue_bytes_def)
next
  case (Suc n)
  note inv = Suc.prems(1) and c = Suc.prems(2) and q = Suc.prems(3)
  have j: "j < length q" using Suc.prems(4) by simp
  obtain cmd argv where e: "q ! j = (cmd, argv)" by fastforce
  have d: "drop j q = (cmd, argv) # drop (Suc j) q" using j e by (simp add: Cons_nth_drop_Suc[symmetric])
  have "queueable cmd (length argv)" using inv_queueD(1)[OF inv c _ _ e[folded q]] j q by simp
  then consider (str) s where "cmd = StrCmd s" | (un) "cmd = UNWATCH" using queueable_cases by blast
  then obtain S1 argv' rep rs m1 where S1: "call S c cmd argv = Some (S1, argv', rep)" "clients S1 = clients S"
      "minv (\<lambda>c' i. c' \<noteq> c \<or> Suc j \<le> i) (set_client S1 c ((clients S ! c)\<lparr>mstate_commands := q[j := (cmd, argv')]\<rparr>)) X"
      "others_ok c S S1" "reps = rep # rs" "queue_bytes (sheap S1) (drop (Suc j) q) = queue_bytes (sheap S) (drop (Suc j) q)"
      "spec_exec (now (rdb S1)) (proto_max_bulk_len (rdb S1)) (keyspace (rdb S1)) (queue_bytes (sheap S) (drop (Suc j) q)) = (m, rs)"
      "arith_queue (now (rdb S1)) (queue_bytes (sheap S) (drop (Suc j) q))"
  proof cases
    case (str s)
    obtain m1 rep where sp: "spec_command s (now (rdb S)) (proto_max_bulk_len (rdb S)) (contents (sheap S) argv) (keyspace (rdb S)) = (m1, rep)"
      by fastforce
    have ok: "arith_ok s (now (rdb S)) (contents (sheap S) argv)" "arith_queue (now (rdb S)) (queue_bytes (sheap S) (drop (Suc j) q))"
      using Suc.prems(7) str by (simp_all add: d queue_bytes_def)
    obtain rs where rs: "spec_exec (now (rdb S)) (proto_max_bulk_len (rdb S)) m1 (queue_bytes (sheap S) (drop (Suc j) q)) = (m, rs)" "reps = rep # rs"
      using Suc.prems(8) str sp by (auto simp: d queue_bytes_def split: prod.splits)
    obtain db' argv' Y where x: "call S c (StrCmd s) argv = Some (S\<lparr>rdb := db'\<rparr>, argv', rep)"
        "minv (\<lambda>c' i. c' \<noteq> c \<or> Suc j \<le> i) (set_client (S\<lparr>rdb := db'\<rparr>) c ((clients S ! c)\<lparr>mstate_commands := q[j := (StrCmd s, argv')]\<rparr>)) X"
        "step_ok (rdb S) db' Y m1" "\<forall>p\<in>set (drop (Suc j) q). set (snd p) \<subseteq> set_mset Y" "others_ok c S (S\<lparr>rdb := db'\<rparr>)"
      using exec_str_step[OF inv c q j _ ok(1) sp] e str by blast
    have f: "keyspace db' = m1" "frame (rdb S) db' Y" using x(3) by (simp_all add: step_ok_def)
    have "queue_bytes (heap db') (drop (Suc j) q) = queue_bytes (sheap S) (drop (Suc j) q)"
      using f(2) x(4) by (intro queue_bytes_keeps) (simp_all add: frame_def)
    then show thesis
      using that[of "S\<lparr>rdb := db'\<rparr>" argv' rep rs] x str f rs ok(2)
      by (simp add: frame_def)
  next
    case un
    let ?S = "clear_dirty_cas S c"
    have "minv (\<lambda>c' i. c' \<noteq> c \<or> Suc j \<le> i) (set_client ?S c ((clients ?S ! c)\<lparr>mstate_commands := q[j := (cmd, argv)]\<rparr>)) X"
      by (rule inv_move(1)[OF inv_clear_dirty[OF inv]]) (use c q j e in auto)
    moreover have "others_ok c S ?S" by (simp add: others_ok_def keyspace_env2 session_of_def)
    moreover obtain rs where "spec_exec (now (rdb S)) (proto_max_bulk_len (rdb S)) (keyspace (rdb S)) (queue_bytes (sheap S) (drop (Suc j) q)) = (m, rs)"
        "reps = shared_ok # rs"
      using Suc.prems(8) un by (auto simp: d queue_bytes_def split: prod.splits)
    moreover have "arith_queue (now (rdb S)) (queue_bytes (sheap S) (drop (Suc j) q))"
      using Suc.prems(7) un by (simp add: d queue_bytes_def)
    ultimately show thesis
      using that[of ?S argv shared_ok rs] exec_unwatch_step[OF inv c Suc.prems(6), of argv] un by (simp add: keyspace_env2)
  qed
  let ?S = "set_client S1 c ((clients S ! c)\<lparr>mstate_commands := q[j := (cmd, argv')]\<rparr>)"
  have "\<exists>S'. exec_loop ?S c (Suc j) n = Some (S', rs) \<and> minv (\<lambda>c' i. c' \<noteq> c) S' X \<and> keyspace (rdb S') = m \<and> others_ok c ?S S' \<and>
    (\<exists>q'. clients S' = (clients ?S)[c := (clients ?S ! c)\<lparr>mstate_commands := q'\<rparr>])"
  proof (rule Suc.IH[OF S1(3), where q = "q[j := (cmd, argv')]"])
    show "n = length (q[j := (cmd, argv')]) - Suc j" using Suc.prems(4) by simp
    show "arith_queue (now (rdb ?S)) (queue_bytes (sheap ?S) (drop (Suc j) (q[j := (cmd, argv')])))" using S1(6,8) by simp
    show "spec_exec (now (rdb ?S)) (proto_max_bulk_len (rdb ?S)) (keyspace (rdb ?S)) (queue_bytes (sheap ?S) (drop (Suc j) (q[j := (cmd, argv')]))) = (m, rs)"
      using S1(6,7) by simp
  qed (use Suc.prems(6) S1(2) c j in simp_all)
  then obtain S' q' where S': "exec_loop ?S c (Suc j) n = Some (S', rs)" "minv (\<lambda>c' i. c' \<noteq> c) S' X" "keyspace (rdb S') = m" "others_ok c ?S S'"
      "clients S' = (clients ?S)[c := (clients ?S ! c)\<lparr>mstate_commands := q'\<rparr>]" by blast
  have "others_ok c S ?S" using others_ok_trans[OF S1(4) others_ok_cong, of ?S] S1(2) by simp
  then have "others_ok c S S'" using S'(4) by (rule others_ok_trans)
  moreover have "clients S' = (clients S)[c := (clients S ! c)\<lparr>mstate_commands := q'\<rparr>]" using S'(5) S1(2) c by simp
  moreover have "exec_loop S c j (Suc n) = Some (S', reps)" using S1(1,2,5) S'(1) c q j e by simp
  ultimately show ?case using S'(2,3) by blast
qed

lemma dropped_clean: "dropped c S S' X \<Longrightarrow> \<not> dirty_cas (rdb S') c"
  using rdb_env_dirty[where db' = "rdb S'" and st = "rdb S" and h = "sheap S'" and w = "watched_keys (rdb S')" and d = "(dirty_cas (rdb S))(c := False)"]
  by (simp add: dropped_def)

lemma keyspace_dirty [simp]: "keyspace (st\<lparr>dirty := n\<rparr>) = keyspace st"
  by (rule ext) (simp add: keyspace_def raw_map_def)

lemma inv_dirty: "minv Q S X \<Longrightarrow> minv Q (S\<lparr>rdb := (rdb S)\<lparr>dirty := n\<rparr>\<rparr>) X"
  unfolding minv_def db_inv_def queue_ok_def sole_def flags_ok_def watch_ok_def limits_ok_def by simp

lemma exec_abort_spec:
  assumes inv: "minv everything S X" and c: "c < length (clients S)" and m: "CLIENT_MULTI (clients S ! c)"
    and d: "dirty_cas (rdb S) c \<or> CLIENT_DIRTY_EXEC (clients S ! c)"
  shows "\<exists>S'. execCommand S c = Some (S', if CLIENT_DIRTY_EXEC (clients S ! c) then shared_execaborterr else RNullArray) \<and>
    minv everything S' X \<and> dropped c S S' X"
proof -
  obtain S' where "discardTransaction S c = Some S'" "minv everything S' X" "dropped c S S' X"
    using discardTransaction_spec[OF inv c] by auto
  then show ?thesis using c m d by (auto simp: execCommand_def)
qed

lemma exec_run_spec:
  assumes inv: "minv everything S X" and c: "c < length (clients S)" and m: "CLIENT_MULTI (clients S ! c)"
    and d: "\<not> dirty_cas (rdb S) c" "\<not> CLIENT_DIRTY_EXEC (clients S ! c)"
    and ok: "arith_queue (now (rdb S)) (queue_bytes (sheap S) (mstate_commands (clients S ! c)))"
    and spec: "spec_exec (now (rdb S)) (proto_max_bulk_len (rdb S)) (keyspace (rdb S))
      (queue_bytes (sheap S) (mstate_commands (clients S ! c))) = (ks, reps)"
  shows "\<exists>S'. execCommand S c = Some (S', RArray reps) \<and> minv everything S' X \<and> keyspace (rdb S') = ks \<and> others_ok c S S' \<and>
    clients S' = (clients S)[c := new_client] \<and> \<not> dirty_cas (rdb S') c \<and> (\<forall>k. c \<notin> set (watched_keys (rdb S') k))"
proof -
  let ?q = "mstate_commands (clients S ! c)"
  obtain S1 where S1: "unwatchAllKeys S c = Some S1" "minv everything S1 X" "unwatched c S S1 X" "c_watched_keys (clients S1 ! c) = []"
    using unwatchAllKeys_spec[OF inv c] by blast
  have u: "others_ok c S S1" using S1(3) by (rule others_ok_unwatched)
  have l: "length (clients S1) = length (clients S)" "mstate_commands (clients S1 ! c) = ?q" "keyspace (rdb S1) = keyspace (rdb S)"
    using S1(3) c by (auto simp: unwatched_def)
  obtain cw where cw: "clients S1 = (clients S)[c := (clients S ! c)\<lparr>c_watched_keys := cw\<rparr>]" using S1(3) by (auto simp: unwatched_def)
  have "set (snd p) \<subseteq> set_mset (refs S1 + X)" if "p \<in> set ?q" for p
    using queue_in_refs[of c S1 "fst p" "snd p"] that c l by auto
  then have qb: "queue_bytes (sheap S1) ?q = queue_bytes (sheap S) ?q"
    using S1(3) by (intro queue_bytes_keeps[where Y = "refs S1 + X"]) (simp_all add: unwatched_def)
  have i1: "minv (\<lambda>c' i. c' \<noteq> c \<or> 0 \<le> i) S1 X" using S1(2) by simp
  have "\<exists>S'. exec_loop S1 c 0 (length ?q) = Some (S', reps) \<and> minv (\<lambda>c' i. c' \<noteq> c) S' X \<and> keyspace (rdb S') = ks \<and> others_ok c S1 S' \<and>
    (\<exists>q'. clients S' = (clients S1)[c := (clients S1 ! c)\<lparr>mstate_commands := q'\<rparr>])"
    by (rule exec_loop_spec[OF i1, where q = ?q]) (use c l S1(4) ok spec qb u in \<open>simp_all add: others_ok_def\<close>)
  then obtain S2 q' where S2: "exec_loop S1 c 0 (length ?q) = Some (S2, reps)" "minv (\<lambda>c' i. c' \<noteq> c) S2 X" "keyspace (rdb S2) = ks" "others_ok c S1 S2"
      "clients S2 = (clients S1)[c := (clients S1 ! c)\<lparr>mstate_commands := q'\<rparr>]" by blast
  obtain S3 where S3: "discardTransaction S2 c = Some S3" "minv everything S3 X" "dropped c S2 S3 X"
    using discardTransaction_spec[OF S2(2)] S2(5) l c by auto
  have "others_ok c S S3" using others_ok_trans[OF u others_ok_trans[OF S2(4) others_ok_dropped[OF S3(3)]]] .
  moreover have "clients S3 = (clients S)[c := new_client]" using S3(3) S2(5) cw by (simp add: dropped_def)
  moreover have "keyspace (rdb S3) = ks" "\<not> dirty_cas (rdb S3) c" "\<forall>k. c \<notin> set (watched_keys (rdb S3) k)"
    using S3(3) S2(3) dropped_clean[OF S3(3)] by (simp_all add: dropped_def)
  ultimately show ?thesis
    using S1(1) S2(1) S3(1,2) inv_dirty[OF S3(2), of "dirty (rdb S3) + 1"] c m d
    by (cases "list_ex (\<lambda>(cmd, _). \<not> is_readonly cmd) ?q \<and> \<not> loading (rdb S3)")
       (simp_all add: execCommand_def Let_def others_ok_def session_of_def)
qed

end
