(* ===== verification/Requests.thy ===== *)
theory Requests
  imports Transactions
begin

text \<open>
  The server against a specification of requests: a client has a session (is it in a transaction, is the
  transaction flagged, which commands are queued) and all clients share one keyspace. Every request of the
  code is one step of this specification; over interleaved requests the watched keys work as an
  optimistic lock.
\<close>

section \<open>Specification of requests\<close>

definition idle :: session where
  "idle = \<lparr>in_multi = False, bad = False, queued = []\<rparr>"

text \<open>\<open>touched\<close>: a key that the client watches was changed.\<close>

definition spec_request :: "session \<Rightarrow> bool \<Rightarrow> int \<Rightarrow> int \<Rightarrow> keymap \<Rightarrow> command option \<Rightarrow> char list list \<Rightarrow> session \<times> keymap \<times> reply" where
  "spec_request s touched t limit m cmd args =
     (case cmd of
        None \<Rightarrow> (s\<lparr>bad := bad s \<or> in_multi s\<rparr>, m,
          RError (''ERR '' @ no_breaks (''unknown command `'' @ cstr (hd args) @ ''`, with args beginning with: '' @ unknown_args [] (tl args))))
      | Some cm \<Rightarrow>
          if arity_error (snd (command_table cm)) (length args) then
            if cm = EXEC then (idle, m,
              RError (''EXECABORT Transaction discarded because of: wrong number of arguments for '' @ [CHR 0x27] @ ''exec'' @ [CHR 0x27] @ '' command''))
            else (s\<lparr>bad := bad s \<or> in_multi s\<rparr>, m, arity_reply (fst (command_table cm)))
          else if in_multi s \<and> cm \<notin> {EXEC, DISCARD, MULTI, WATCH} then
            (if bad s then s else s\<lparr>queued := queued s @ [(cm, args)]\<rparr>, m, shared_queued)
          else (case cm of
            StrCmd sc \<Rightarrow> (let (m, rep) = spec_command sc t limit args m in (s, m, rep))
          | MULTI \<Rightarrow> if in_multi s then (s, m, RError ''ERR MULTI calls can not be nested'') else (s\<lparr>in_multi := True\<rparr>, m, shared_ok)
          | DISCARD \<Rightarrow> if in_multi s then (idle, m, shared_ok) else (s, m, RError ''ERR DISCARD without MULTI'')
          | WATCH \<Rightarrow> (s, m, if in_multi s then RError ''ERR WATCH inside MULTI is not allowed'' else shared_ok)
          | UNWATCH \<Rightarrow> (s, m, shared_ok)
          | EXEC \<Rightarrow>
              if \<not> in_multi s then (s, m, RError ''ERR EXEC without MULTI'')
              else if bad s then (idle, m, shared_execaborterr)
              else if touched then (idle, m, RNullArray)
              else (let (m, reps) = spec_exec t limit m (queued s) in (idle, m, RArray reps))))"

text \<open>Requests for which no computation on signed integers of the code overflows.\<close>

definition request_ok :: "session \<Rightarrow> int \<Rightarrow> command option \<Rightarrow> char list list \<Rightarrow> bool" where
  "request_ok s t cmd args \<longleftrightarrow>
     args \<noteq> [] \<and> (\<forall>b\<in>set args. length b \<le> MAX_STR) \<and>
     (case cmd of
        Some (StrCmd sc) \<Rightarrow> in_multi s \<or> arity_error (snd (command_table (StrCmd sc))) (length args) \<or> arith_ok sc t args
      | Some WATCH \<Rightarrow> \<forall>b\<in>set args. length b < 2 ^ 31
      | Some EXEC \<Rightarrow> arith_queue t (queued s)
      | _ \<Rightarrow> True)"

text \<open>Commands that leave the watched keys of their client alone.\<close>

definition quiet :: "command option \<Rightarrow> bool" where
  "quiet cmd \<longleftrightarrow> cmd \<notin> {Some EXEC, Some DISCARD, Some UNWATCH}"

definition self_ok :: "nat \<Rightarrow> server \<Rightarrow> server \<Rightarrow> bool" where
  "self_ok c S S' \<longleftrightarrow>
     (\<forall>k. c \<in> set (watched_keys (rdb S) k) \<longrightarrow> c \<in> set (watched_keys (rdb S') k)) \<and>
     (dirty_cas (rdb S) c \<longrightarrow> dirty_cas (rdb S') c) \<and>
     (\<forall>k. c \<in> set (watched_keys (rdb S) k) \<and> keyspace (rdb S') k \<noteq> keyspace (rdb S) k \<longrightarrow> dirty_cas (rdb S') c)"

definition outcome :: "nat \<Rightarrow> command option \<Rightarrow> char list list \<Rightarrow> server \<Rightarrow> server \<Rightarrow> session \<Rightarrow> keymap \<Rightarrow> bool" where
  "outcome c cmd bs S S' s m \<longleftrightarrow>
     others_ok c S S' \<and> session_of S' c = s \<and> keyspace (rdb S') = m \<and> (quiet cmd \<longrightarrow> self_ok c S S') \<and>
     (cmd = Some WATCH \<and> 2 \<le> length bs \<and> \<not> in_multi s \<longrightarrow> (\<forall>k\<in>set (tl bs). c \<in> set (watched_keys (rdb S') k)))"

lemma self_ok_refl [simp]: "self_ok c S S"
  by (simp add: self_ok_def)

lemma self_ok_trans: "self_ok c S S1 \<Longrightarrow> self_ok c S1 S2 \<Longrightarrow> self_ok c S S2"
  unfolding self_ok_def by metis

lemma self_ok_step: "step_ok (rdb S) (rdb S') Y m \<Longrightarrow> self_ok c S S'"
  unfolding self_ok_def step_ok_def frame_def marked_def by auto

lemma self_ok_cong: "rdb S' = rdb S \<Longrightarrow> self_ok c S S'"
  by (simp add: self_ok_def)

lemma self_ok_watched: "watched c S S' X \<Longrightarrow> self_ok c S S'"
  using rdb_env[where db' = "rdb S'" and st = "rdb S" and h = "sheap S'" and w = "watched_keys (rdb S')"]
  by (auto simp: self_ok_def watched_def)

text \<open>A step that leaves the sessions and the tables of watched keys alone.\<close>

lemma calm_step:
  assumes st: "step_ok (rdb S) (rdb S') (refs S + X) m" and cl: "clients S' = clients S" and c: "c < length (clients S)"
  shows "others_ok c S S'" "self_ok c S S'" "session_of S' c = session_of S c"
proof -
  have k: "keeps (sheap S) (sheap S') (refs S + X)" using st by (simp add: step_ok_def frame_def)
  show "session_of S' c = session_of S c" using k c cl by (intro session_keeps_refs[OF disjI1 _ _ client_same]) simp_all
  show "self_ok c S S'" using st by (rule self_ok_step)
  show "others_ok c S S'"
  proof (rule others_ok_step[OF st cl])
    fix c' cmd argv assume "c' < length (clients S)" "(cmd, argv) \<in> set (mstate_commands (clients S ! c'))"
    then show "set argv \<subseteq> set_mset (refs S + X)" using queue_in_refs[of c' S cmd argv] by auto
  qed
qed

lemma outcome_before:
  assumes "step_ok (rdb S) (rdb S0) (refs S + X) (keyspace (rdb S))" "clients S0 = clients S" "c < length (clients S)"
    "outcome c cmd bs S0 S' s m"
  shows "outcome c cmd bs S S' s m"
  using calm_step[OF assms(1-3)] assms(4) others_ok_trans self_ok_trans unfolding outcome_def by blast

lemma outcome_after:
  assumes "outcome c cmd bs S S' s m" "step_ok (rdb S') (rdb S'') (refs S' + X) (keyspace (rdb S'))" "clients S'' = clients S'" "c < length (clients S')"
  shows "outcome c cmd bs S S'' s m"
proof -
  have "watched_keys (rdb S'') = watched_keys (rdb S')" "keyspace (rdb S'') = keyspace (rdb S')"
    using assms(2) by (simp_all add: step_ok_def frame_def)
  then show ?thesis using calm_step[OF assms(2-4)] assms(1) others_ok_trans self_ok_trans unfolding outcome_def by metis
qed

section \<open>The commands\<close>

lemma session_client: "c < length (clients S) \<Longrightarrow> session_of (set_client S c cl) c =
    \<lparr>in_multi = CLIENT_MULTI cl, bad = CLIENT_DIRTY_EXEC cl, queued = queue_bytes (sheap S) (mstate_commands cl)\<rparr>"
  by (simp add: session_of_def Let_def)

lemma session_sel [simp]:
  "in_multi (session_of S c) = CLIENT_MULTI (clients S ! c)" "bad (session_of S c) = CLIENT_DIRTY_EXEC (clients S ! c)"
  "queued (session_of S c) = queue_bytes (sheap S) (mstate_commands (clients S ! c))"
  by (simp_all add: session_of_def Let_def)

lemma session_new: "clients S' = (clients S)[c := new_client] \<Longrightarrow> c < length (clients S) \<Longrightarrow> session_of S' c = idle"
  by (simp add: session_of_def new_client_def idle_def queue_bytes_def)

text \<open>A change of the flags of the client.\<close>

lemma flag_outcome:
  assumes inv: "minv everything S X" and c: "c < length (clients S)"
    and cl: "mstate_commands cl = mstate_commands (clients S ! c)" "c_watched_keys cl = c_watched_keys (clients S ! c)"
      "\<not> CLIENT_MULTI cl \<longrightarrow> mstate_commands cl = [] \<and> \<not> CLIENT_DIRTY_EXEC cl"
    and nw: "cmd \<noteq> Some WATCH \<or> length bs < 2"
  shows "minv everything (set_client S c cl) X"
    "outcome c cmd bs S (set_client S c cl)
       ((session_of S c)\<lparr>in_multi := CLIENT_MULTI cl, bad := CLIENT_DIRTY_EXEC cl\<rparr>) (keyspace (rdb S))"
proof -
  show "minv everything (set_client S c cl) X" by (rule inv_client[OF inv c cl])
  have "others_ok c S (set_client S c cl)" by (rule others_ok_cong) simp_all
  moreover have "self_ok c S (set_client S c cl)" by (rule self_ok_cong) simp
  ultimately show "outcome c cmd bs S (set_client S c cl)
       ((session_of S c)\<lparr>in_multi := CLIENT_MULTI cl, bad := CLIENT_DIRTY_EXEC cl\<rparr>) (keyspace (rdb S))"
    using nw cl(1) session_client[OF c, of cl] by (auto simp: outcome_def session_of_def Let_def)
qed

lemma same_outcome: "c < length (clients S) \<Longrightarrow> cmd \<noteq> Some WATCH \<or> length bs < 2 \<or> CLIENT_MULTI (clients S ! c) \<Longrightarrow>
    outcome c cmd bs S S (session_of S c) (keyspace (rdb S))"
  by (auto simp: outcome_def)

lemma dropped_outcome:
  assumes "dropped c S S' X" "c < length (clients S)" "cmd \<in> {Some EXEC, Some DISCARD}"
  shows "outcome c cmd bs S S' idle (keyspace (rdb S))"
  using assms others_ok_dropped[OF assms(1)] session_new[of S' S c] by (auto simp: outcome_def quiet_def dropped_def)

definition failed :: "session \<Rightarrow> session" where
  "failed s = s\<lparr>bad := bad s \<or> in_multi s\<rparr>"

lemma reject_spec:
  assumes inv: "minv everything S X" and c: "c < length (clients S)" and cmd: "cmd \<noteq> Some EXEC" "cmd \<noteq> Some WATCH \<or> length bs < 2"
  shows "\<exists>S'. rejectCommandFormat S c cmd msg = Some (S', RError (''ERR '' @ no_breaks msg)) \<and> minv everything S' X \<and>
    outcome c cmd bs S S' (failed (session_of S c)) (keyspace (rdb S))"
proof (cases "CLIENT_MULTI (clients S ! c)")
  case True
  have "outcome c cmd bs S (set_client S c ((clients S ! c)\<lparr>CLIENT_DIRTY_EXEC := True\<rparr>)) (failed (session_of S c)) (keyspace (rdb S))"
    using flag_outcome(2)[OF inv c, of "(clients S ! c)\<lparr>CLIENT_DIRTY_EXEC := True\<rparr>" cmd bs] True cmd(2)
    by (simp add: failed_def session_of_def Let_def)
  then show ?thesis
    using flag_outcome(1)[OF inv c, of "(clients S ! c)\<lparr>CLIENT_DIRTY_EXEC := True\<rparr>"] True cmd c
    by (auto simp: rejectCommandFormat_def flagTransaction_def)
next
  case False
  then have "failed (session_of S c) = session_of S c" by (simp add: failed_def)
  then show ?thesis
    using inv False cmd c same_outcome[OF c, of cmd bs] by (auto simp: rejectCommandFormat_def flagTransaction_def)
qed

lemma reject_exec_spec:
  assumes inv: "minv everything S X" and c: "c < length (clients S)" and msg: "no_breaks msg = msg" "msg \<noteq> []" "hd msg \<noteq> CHR ''-''"
  shows "\<exists>S'. rejectCommandFormat S c (Some EXEC) msg = Some (S', RError (''EXECABORT Transaction discarded because of: '' @ msg)) \<and>
    minv everything S' X \<and> outcome c (Some EXEC) bs S S' idle (keyspace (rdb S))"
proof -
  let ?cl = "clients S ! c"
  define S1 where "S1 = (if CLIENT_MULTI ?cl then set_client S c (?cl\<lparr>CLIENT_DIRTY_EXEC := True\<rparr>) else S)"
  have i1: "minv everything S1 X" using inv_client[OF inv c, of "?cl\<lparr>CLIENT_DIRTY_EXEC := True\<rparr>"] inv by (simp add: S1_def)
  have c1: "c < length (clients S1)" using c by (simp add: S1_def)
  obtain S' where S': "discardTransaction S1 c = Some S'" "minv everything S' X" "dropped c S1 S' X"
    using discardTransaction_spec[OF i1 c1] by auto
  have "others_ok c S S1" using c by (intro others_ok_cong) (simp_all add: S1_def)
  moreover have "keyspace (rdb S1) = keyspace (rdb S)" by (simp add: S1_def)
  ultimately have "outcome c (Some EXEC) bs S S' idle (keyspace (rdb S))"
    using dropped_outcome[OF S'(3) c1, of "Some EXEC" bs] others_ok_trans by (auto simp: outcome_def quiet_def)
  moreover have "flagTransaction S c = Some S1" using c by (simp add: flagTransaction_def S1_def)
  ultimately show ?thesis
    using S' msg by (auto simp: rejectCommandFormat_def execCommandAbort_def)
qed

lemma multi_spec:
  assumes inv: "minv everything S X" and c: "c < length (clients S)"
  shows "\<exists>S'. multiCommand S c =
      Some (S', if CLIENT_MULTI (clients S ! c) then RError ''ERR MULTI calls can not be nested'' else shared_ok) \<and>
    minv everything S' X \<and>
    outcome c (Some MULTI) bs S S' (if CLIENT_MULTI (clients S ! c) then session_of S c else (session_of S c)\<lparr>in_multi := True\<rparr>) (keyspace (rdb S))"
proof (cases "CLIENT_MULTI (clients S ! c)")
  case True
  then show ?thesis using inv c True same_outcome[OF c, of "Some MULTI" bs] by (auto simp: multiCommand_def)
next
  case False
  let ?cl = "(clients S ! c)\<lparr>CLIENT_MULTI := True\<rparr>"
  have e: "(session_of S c)\<lparr>in_multi := CLIENT_MULTI ?cl, bad := CLIENT_DIRTY_EXEC ?cl\<rparr> = (session_of S c)\<lparr>in_multi := True\<rparr>"
    by (simp add: session_of_def Let_def)
  have "outcome c (Some MULTI) bs S (set_client S c ?cl) ((session_of S c)\<lparr>in_multi := True\<rparr>) (keyspace (rdb S))"
    unfolding e[symmetric] by (rule flag_outcome(2)[OF inv c]) simp_all
  then show ?thesis
    using inv_client[OF inv c, of ?cl] False c by (auto simp: multiCommand_def)
qed

lemma discard_spec:
  assumes inv: "minv everything S X" and c: "c < length (clients S)"
  shows "\<exists>S'. discardCommand S c =
      Some (S', if CLIENT_MULTI (clients S ! c) then shared_ok else RError ''ERR DISCARD without MULTI'') \<and>
    minv everything S' X \<and>
    outcome c (Some DISCARD) bs S S' (if CLIENT_MULTI (clients S ! c) then idle else session_of S c) (keyspace (rdb S))"
proof (cases "CLIENT_MULTI (clients S ! c)")
  case True
  obtain S' where "discardTransaction S c = Some S'" "minv everything S' X" "dropped c S S' X"
    using discardTransaction_spec[OF inv c] by auto
  then show ?thesis using True c dropped_outcome[of c S S' X "Some DISCARD" bs] by (auto simp: discardCommand_def)
next
  case False
  then show ?thesis using inv c same_outcome[OF c, of "Some DISCARD" bs] by (auto simp: discardCommand_def)
qed

lemma watch_spec:
  assumes inv: "minv everything S (mset argv)" and args: "args_ok (rdb S) argv (refs S) bs" and c: "c < length (clients S)"
    and len: "\<forall>b\<in>set bs. length b < 2 ^ 31" "bs \<noteq> []"
  shows "\<exists>S'. watchCommand S c argv =
      Some (S', if CLIENT_MULTI (clients S ! c) then RError ''ERR WATCH inside MULTI is not allowed'' else shared_ok) \<and>
    minv everything S' (mset argv) \<and> outcome c (Some WATCH) bs S S' (session_of S c) (keyspace (rdb S))"
proof (cases "CLIENT_MULTI (clients S ! c)")
  case True
  then show ?thesis using inv c same_outcome[OF c, of "Some WATCH" bs] by (auto simp: watchCommand_def)
next
  case False
  have "args_from (rdb S) argv (refs S) bs 1" using args by (simp add: args_from_def)
  moreover have "1 \<le> length bs" using len(2) by (cases bs) simp_all
  ultimately obtain S' where S': "watch_loop S c (drop 1 argv) = Some S'" "minv everything S' (mset argv)" "watched c S S' (mset argv)"
      "\<forall>k\<in>set (drop 1 bs). c \<in> set (watched_keys (rdb S') k)"
    using watch_loop_spec[OF inv _ c len(1), of 1] by blast
  obtain cw where cw: "clients S' = (clients S)[c := (clients S ! c)\<lparr>c_watched_keys := cw\<rparr>]" using S'(3) by (auto simp: watched_def)
  have "session_of S' c = session_of S c"
    using S'(3) c cw by (intro session_keeps_refs[OF disjI1, where X = "mset argv" and cw = cw]) (auto simp: watched_def)
  then have "outcome c (Some WATCH) bs S S' (session_of S c) (keyspace (rdb S))"
    using others_ok_watched[OF S'(3)] self_ok_watched[OF S'(3)] S'(3,4) by (simp add: outcome_def watched_def drop_Suc)
  then show ?thesis using S' False c by (auto simp: watchCommand_def)
qed

lemma unwatch_spec:
  assumes inv: "minv everything S X" and c: "c < length (clients S)"
  shows "\<exists>S'. unwatchCommand S c = Some (S', shared_ok) \<and> minv everything S' X \<and>
    outcome c (Some UNWATCH) bs S S' (session_of S c) (keyspace (rdb S))"
proof -
  obtain S1 where S1: "unwatchAllKeys S c = Some S1" "minv everything S1 X" "unwatched c S S1 X"
    using unwatchAllKeys_spec[OF inv c] by blast
  let ?S = "clear_dirty_cas S1 c"
  obtain cw where cw: "clients S1 = (clients S)[c := (clients S ! c)\<lparr>c_watched_keys := cw\<rparr>]" using S1(3) by (auto simp: unwatched_def)
  have "session_of S1 c = session_of S c"
    using S1(3) c cw by (intro session_keeps_refs[OF disjI2, where X = X and cw = cw]) (auto simp: unwatched_def)
  moreover have "session_of ?S c = session_of S1 c" by (simp add: session_of_def)
  moreover have "others_ok c S1 ?S" by (simp add: others_ok_def keyspace_env2 session_of_def)
  then have "others_ok c S ?S" using others_ok_trans[OF others_ok_unwatched[OF S1(3)]] by blast
  ultimately have "outcome c (Some UNWATCH) bs S ?S (session_of S c) (keyspace (rdb S))"
    using S1(3) by (simp add: outcome_def quiet_def unwatched_def keyspace_env2)
  then show ?thesis using S1(1) inv_clear_dirty[OF S1(2)] by (auto simp: unwatchCommand_def)
qed

lemma exec_spec:
  assumes inv: "minv everything S X" and c: "c < length (clients S)"
    and ok: "arith_queue (now (rdb S)) (queued (session_of S c))"
    and spec: "spec_request (session_of S c) (dirty_cas (rdb S) c) (now (rdb S)) (proto_max_bulk_len (rdb S)) (keyspace (rdb S)) (Some EXEC) bs = (s, m, rep)"
    and len: "length bs = 1"
  shows "\<exists>S'. execCommand S c = Some (S', rep) \<and> minv everything S' X \<and> outcome c (Some EXEC) bs S S' s m"
proof -
  have "\<not> arity_error (snd (command_table EXEC)) (length bs)" using len by (simp add: arity_error_def)
  note sp = spec[unfolded spec_request_def option.case if_not_P[OF this], simplified]
  consider "\<not> CLIENT_MULTI (clients S ! c)"
    | "CLIENT_MULTI (clients S ! c)" "dirty_cas (rdb S) c \<or> CLIENT_DIRTY_EXEC (clients S ! c)"
    | "CLIENT_MULTI (clients S ! c)" "\<not> dirty_cas (rdb S) c" "\<not> CLIENT_DIRTY_EXEC (clients S ! c)" by blast
  then show ?thesis
  proof cases
    case 1
    then show ?thesis using sp inv c same_outcome[OF c, of "Some EXEC" bs] by (auto simp: execCommand_def)
  next
    case 2
    obtain S' where S': "execCommand S c = Some (S', if CLIENT_DIRTY_EXEC (clients S ! c) then shared_execaborterr else RNullArray)"
        "minv everything S' X" "dropped c S S' X" using exec_abort_spec[OF inv c 2] by blast
    then show ?thesis using 2 sp dropped_outcome[OF S'(3) c, of "Some EXEC" bs] by auto
  next
    case 3
    obtain ks reps where e: "spec_exec (now (rdb S)) (proto_max_bulk_len (rdb S)) (keyspace (rdb S))
        (queue_bytes (sheap S) (mstate_commands (clients S ! c))) = (ks, reps)" by fastforce
    obtain S' where S': "execCommand S c = Some (S', RArray reps)" "minv everything S' X" "keyspace (rdb S') = ks" "others_ok c S S'"
        "clients S' = (clients S)[c := new_client]"
      using exec_run_spec[OF inv c 3 _ e] ok by auto
    then have "outcome c (Some EXEC) bs S S' idle ks" using session_new[OF S'(5) c] by (simp add: outcome_def quiet_def)
    then show ?thesis using S'(1,2) 3 sp e by simp
  qed
qed

section \<open>Dispatch\<close>

lemma arity_no_breaks:
  "no_breaks (''wrong number of arguments for '' @ [CHR 0x27] @ fst (command_table cm) @ [CHR 0x27] @ '' command'') =
   ''wrong number of arguments for '' @ [CHR 0x27] @ fst (command_table cm) @ [CHR 0x27] @ '' command''"
proof (cases cm)
  case (StrCmd sc)
  then show ?thesis by (cases sc) (simp_all add: no_breaks_def)
qed (simp_all add: no_breaks_def)

lemma process_unknown:
  assumes inv: "minv everything S (mset argv)" and args: "args_ok (rdb S) argv (refs S) bs" and c: "c < length (clients S)" and ne: "bs \<noteq> []"
    and spec: "spec_request (session_of S c) d t l (keyspace (rdb S)) None bs = (s, m, rep)"
  shows "\<exists>S'. processCommand S c None argv = Some (S', argv, rep) \<and> minv everything S' (mset argv) \<and> outcome c None bs S S' s m"
proof -
  have "mapM (arg_bytes (sheap S)) argv = Some bs" using args by (intro mapM_nth) (simp_all add: args_from_def)
  moreover obtain b bs' where bs: "bs = b # bs'" using ne by (cases bs) auto
  moreover define msg where "msg = ''unknown command `'' @ cstr b @ ''`, with args beginning with: '' @ unknown_args [] bs'"
  moreover obtain S' where S': "rejectCommandFormat S c None msg = Some (S', RError (''ERR '' @ no_breaks msg))" "minv everything S' (mset argv)"
      "outcome c None bs S S' (failed (session_of S c)) (keyspace (rdb S))"
    using reject_spec[OF inv c, of None bs msg] by auto
  ultimately have "processCommand S c None argv = Some (S', argv, RError (''ERR '' @ no_breaks msg))" by (simp add: processCommand_def)
  moreover have "s = failed (session_of S c)" "m = keyspace (rdb S)" "rep = RError (''ERR '' @ no_breaks msg)"
    using spec by (simp_all add: spec_request_def failed_def msg_def bs)
  ultimately show ?thesis using S'(2,3) by blast
qed

lemma process_arity:
  assumes inv: "minv everything S (mset argv)" and c: "c < length (clients S)" and len: "length argv = length bs"
    and ar: "arity_error (snd (command_table cm)) (length bs)"
    and spec: "spec_request (session_of S c) d t l (keyspace (rdb S)) (Some cm) bs = (s, m, rep)"
  shows "\<exists>S'. processCommand S c (Some cm) argv = Some (S', argv, rep) \<and> minv everything S' (mset argv) \<and> outcome c (Some cm) bs S S' s m"
proof (cases "cm = EXEC")
  case True
  then show ?thesis
    using reject_exec_spec[OF inv c arity_no_breaks[of cm], of bs] spec len ar by (auto simp: processCommand_def spec_request_def)
next
  case False
  let ?msg = "''wrong number of arguments for '' @ [CHR 0x27] @ fst (command_table cm) @ [CHR 0x27] @ '' command''"
  have "cm \<noteq> WATCH \<or> length bs < 2" using ar by (auto simp: arity_error_def)
  then obtain S' where S': "rejectCommandFormat S c (Some cm) ?msg = Some (S', RError (''ERR '' @ ?msg))" "minv everything S' (mset argv)"
      "outcome c (Some cm) bs S S' (failed (session_of S c)) (keyspace (rdb S))"
    using reject_spec[OF inv c, of "Some cm" bs ?msg] False unfolding arity_no_breaks by auto
  have "processCommand S c (Some cm) argv = Some (S', argv, RError (''ERR '' @ ?msg))"
    using S'(1) ar len by (simp add: processCommand_def)
  moreover have "s = failed (session_of S c)" "m = keyspace (rdb S)" "rep = RError (''ERR '' @ ?msg)"
    using spec ar False by (simp_all add: spec_request_def failed_def arity_reply_def)
  ultimately show ?thesis using S'(2,3) by blast
qed

lemma process_call:
  assumes inv: "minv everything S (mset argv)" and args: "args_ok (rdb S) argv (refs S) bs" and c: "c < length (clients S)"
    and ok: "request_ok (session_of S c) (now (rdb S)) (Some cm) bs" and ar: "\<not> arity_error (snd (command_table cm)) (length bs)"
    and nq: "\<not> (in_multi (session_of S c) \<and> cm \<notin> {EXEC, DISCARD, MULTI, WATCH})"
    and spec: "spec_request (session_of S c) (dirty_cas (rdb S) c) (now (rdb S)) (proto_max_bulk_len (rdb S)) (keyspace (rdb S)) (Some cm) bs = (s, m, rep)"
  shows "\<exists>S' argv'. processCommand S c (Some cm) argv = Some (S', argv', rep) \<and> minv everything S' (mset argv') \<and> outcome c (Some cm) bs S S' s m"
proof -
  have len: "length argv = length bs" using args by (simp add: args_from_def)
  note sp = spec[unfolded spec_request_def option.case if_not_P[OF ar] if_not_P[OF nq]]
  have pc: "processCommand S c (Some cm) argv =
      (if cm = EXEC then do { (S, rep) \<leftarrow> execCommand S c; Some (S, argv, rep) } else call S c cm argv)"
    using ar nq c len by (auto simp: processCommand_def)
  have fin: ?thesis if "call S c cm argv = Some (S', argv', rep)" "cm \<noteq> EXEC" "minv everything S' (mset argv')" "outcome c (Some cm) bs S S' s m"
    for S' argv' using that pc by auto
  show ?thesis
  proof (cases cm)
    case (StrCmd sc)
    obtain m1 rep1 where e: "spec_command sc (now (rdb S)) (proto_max_bulk_len (rdb S)) bs (keyspace (rdb S)) = (m1, rep1)" by fastforce
    have "arith_ok sc (now (rdb S)) bs" using ok ar nq StrCmd by (simp add: request_ok_def)
    then obtain db' argv' where S': "call S c (StrCmd sc) argv = Some (S\<lparr>rdb := db'\<rparr>, argv', rep1)"
        "minv everything (S\<lparr>rdb := db'\<rparr>) (mset argv' + {#})" "step_ok (rdb S) db' (refs S + {#}) m1"
      using inv_call_str[of everything S argv "{#}" bs sc m1 rep1 c] inv args ar len StrCmd e by auto
    have "outcome c (Some cm) bs S (S\<lparr>rdb := db'\<rparr>) (session_of S c) m1"
      using calm_step[of S "S\<lparr>rdb := db'\<rparr>" "{#}" m1 c] S'(3) c StrCmd by (simp add: outcome_def step_ok_def)
    moreover have "s = session_of S c" "m = m1" "rep = rep1" using sp e StrCmd by simp_all
    ultimately show ?thesis using S'(1,2) StrCmd by (intro fin[of "S\<lparr>rdb := db'\<rparr>" argv']) auto
  next
    case MULTI
    obtain S' where "multiCommand S c = Some (S', rep)" "minv everything S' (mset argv)" "outcome c (Some cm) bs S S' s m"
      using multi_spec[OF inv c, of bs] sp MULTI by (auto split: if_splits)
    then show ?thesis using MULTI by (intro fin[of S' argv]) auto
  next
    case EXEC
    have "length bs = 1" using ar EXEC by (simp add: arity_error_def)
    then obtain S' where "execCommand S c = Some (S', rep)" "minv everything S' (mset argv)" "outcome c (Some cm) bs S S' s m"
      using exec_spec[OF inv c _ spec[unfolded EXEC]] ok EXEC by (auto simp: request_ok_def)
    then show ?thesis using EXEC pc by auto
  next
    case DISCARD
    obtain S' where "discardCommand S c = Some (S', rep)" "minv everything S' (mset argv)" "outcome c (Some cm) bs S S' s m"
      using discard_spec[OF inv c, of bs] sp DISCARD by (auto split: if_splits)
    then show ?thesis using DISCARD by (intro fin[of S' argv]) auto
  next
    case WATCH
    obtain S' where "watchCommand S c argv = Some (S', rep)" "minv everything S' (mset argv)" "outcome c (Some cm) bs S S' s m"
      using watch_spec[OF inv args c] ok sp WATCH by (auto simp: request_ok_def)
    then show ?thesis using WATCH by (intro fin[of S' argv]) auto
  next
    case UNWATCH
    obtain S' where "unwatchCommand S c = Some (S', rep)" "minv everything S' (mset argv)" "outcome c (Some cm) bs S S' s m"
      using unwatch_spec[OF inv c, of bs] sp UNWATCH by auto
    then show ?thesis using UNWATCH by (intro fin[of S' argv]) auto
  qed
qed

lemma process_queue:
  assumes inv: "minv everything S (mset argv)" and args: "args_ok (rdb S) argv (refs S) bs" and c: "c < length (clients S)"
    and ar: "\<not> arity_error (snd (command_table cm)) (length bs)"
    and q: "in_multi (session_of S c)" "cm \<notin> {EXEC, DISCARD, MULTI, WATCH}"
    and spec: "spec_request (session_of S c) d t l (keyspace (rdb S)) (Some cm) bs = (s, m, rep)"
  shows "\<exists>S' h. processCommand S c (Some cm) argv = Some (S', argv, rep) \<and> freeClientArgv (sheap S') argv = Some h \<and>
    minv everything (set_heap S' h) {#} \<and> outcome c (Some cm) bs S (set_heap S' h) s m"
proof -
  let ?cl = "clients S ! c"
  have len: "length argv = length bs" using args by (simp add: args_from_def)
  have multi: "CLIENT_MULTI ?cl" using q(1) by simp
  have "queueable cm (length argv)" using ar q(2) len by (simp add: queueable_def)
  then obtain S' h where S': "queueMultiCommand S c cm argv = Some S'" "freeClientArgv (sheap S') argv = Some h"
      "minv everything (set_heap S' h) {#}" "step_ok (rdb S) ((rdb S')\<lparr>heap := h\<rparr>) (refs S) (keyspace (rdb S))"
      "if CLIENT_DIRTY_EXEC ?cl then clients S' = clients S
       else clients S' = (clients S)[c := ?cl\<lparr>mstate_commands := mstate_commands ?cl @ [(cm, argv)]\<rparr>] \<and> keeps (sheap S) h (mset argv + refs S)"
    using inv_queue[OF inv args c multi] by blast
  let ?S = "set_heap S' h"
  have ocl: "length (clients S') = length (clients S)" "\<And>c'. c' \<noteq> c \<Longrightarrow> clients S' ! c' = clients S ! c'"
    using S'(5) by (auto split: if_splits)
  have st: "step_ok (rdb S) (rdb ?S) (refs S + {#}) (keyspace (rdb S))" using S'(4) by simp
  have kp: "keeps (sheap S) (sheap ?S) (refs S + {#})" using st by (simp add: step_ok_def frame_def)
  have ses: "session_of ?S c' = session_of S c'" if "c' < length (clients S)" "clients S' ! c' = clients S ! c'" for c'
    by (rule session_keeps_refs[OF disjI1[OF kp] _ _ client_same]) (use that ocl in simp_all)
  have "others_ok c S ?S"
    using st ses ocl unfolding others_ok_def step_ok_def frame_def marked_def by auto
  moreover have "self_ok c S ?S" using st by (rule self_ok_step)
  moreover have "session_of ?S c = s"
  proof (cases "CLIENT_DIRTY_EXEC ?cl")
    case True
    then show ?thesis using S'(5) ses c spec ar q by (simp add: spec_request_def)
  next
    case False
    then have n: "clients S' ! c = ?cl\<lparr>mstate_commands := mstate_commands ?cl @ [(cm, argv)]\<rparr>" "keeps (sheap S) h (mset argv + refs S)"
      using S'(5) c by simp_all
    have "queue_bytes h (mstate_commands ?cl) = queue_bytes (sheap S) (mstate_commands ?cl)"
      using kp queue_in_refs[OF c] by (intro queue_bytes_keeps[of _ _ "refs S"]) auto
    moreover have "contents h argv = bs"
      using args arg_bytes_keeps[OF n(2)] by (auto simp: contents_def args_from_def intro!: nth_equalityI)
    ultimately have "queue_bytes h (mstate_commands ?cl @ [(cm, argv)]) = queued (session_of S c) @ [(cm, bs)]"
      by (simp add: queue_bytes_def)
    moreover have "s = (session_of S c)\<lparr>queued := queued (session_of S c) @ [(cm, bs)]\<rparr>"
      using False spec ar q by (simp add: spec_request_def)
    ultimately show ?thesis using n(1) by (simp add: session_of_def Let_def)
  qed
  moreover have "m = keyspace (rdb S)" "rep = shared_queued" using spec ar q by (simp_all add: spec_request_def)
  moreover have "keyspace (rdb ?S) = keyspace (rdb S)" using st by (simp add: step_ok_def)
  ultimately have "outcome c (Some cm) bs S ?S s m" using q(2) by (simp add: outcome_def)
  moreover have "processCommand S c (Some cm) argv = Some (S', argv, rep)"
    using S'(1) c multi ar q(2) len \<open>rep = shared_queued\<close> by (auto simp: processCommand_def)
  ultimately show ?thesis using S'(2,3) by blast
qed

text \<open>A whole request.\<close>

lemma handle_request_spec:
  assumes inv: "minv everything S {#}" and c: "c < length (clients S)" and ok: "request_ok (session_of S c) (now (rdb S)) cmd args"
    and spec: "spec_request (session_of S c) (dirty_cas (rdb S) c) (now (rdb S)) (proto_max_bulk_len (rdb S)) (keyspace (rdb S)) cmd args = (s, m, rep)"
  shows "\<exists>S'. handle_request S c cmd args = Some (S', rep) \<and> minv everything S' {#} \<and> outcome c cmd args S S' s m"
proof -
  have ne: "args \<noteq> []" using ok by (simp add: request_ok_def)
  obtain h argv where h: "create_args (sheap S) args = Some (h, argv)" "minv everything (set_heap S h) (mset argv)"
      "args_ok (rdb (set_heap S h)) argv (refs (set_heap S h)) args" "step_ok (rdb S) (rdb (set_heap S h)) (refs S + {#}) (keyspace (rdb S))"
    using inv_create[OF inv, of args] ok by (auto simp: request_ok_def step_ok_def)
  let ?S = "set_heap S h"
  note calm = calm_step[OF h(4) _ c, simplified]
  have env: "now (rdb ?S) = now (rdb S)" "proto_max_bulk_len (rdb ?S) = proto_max_bulk_len (rdb S)" "keyspace (rdb ?S) = keyspace (rdb S)"
      "dirty_cas (rdb ?S) c = dirty_cas (rdb S) c" "session_of ?S c = session_of S c"
    using h(4) calm by (simp_all add: step_ok_def)
  have c': "c < length (clients ?S)" using c by simp
  note sp = spec[folded env] and ok' = ok[folded env]
  have fin: ?thesis if p: "processCommand ?S c cmd argv = Some (S1, argv1, rep)" and i: "minv everything S1 (mset argv1)" and out: "outcome c cmd args ?S S1 s m"
    for S1 argv1
  proof -
    obtain h1 where h1: "freeClientArgv (sheap S1) argv1 = Some h1" "minv everything (set_heap S1 h1) {#}"
        "step_ok (rdb S1) (rdb (set_heap S1 h1)) (refs S1 + {#}) (keyspace (rdb S1))"
      using inv_free[of everything S1 argv1 "{#}"] i by (auto simp: step_ok_def)
    have "c < length (clients S1)" using out c by (simp add: outcome_def others_ok_def)
    then have "outcome c cmd args S (set_heap S1 h1) s m"
      using outcome_before[OF h(4) _ c outcome_after[OF out h1(3)]] by simp
    then show ?thesis using h(1) p h1(1,2) by (simp add: handle_request_def)
  qed
  consider (unknown) "cmd = None" | (arity) cm where "cmd = Some cm" "arity_error (snd (command_table cm)) (length args)"
    | (queue) cm where "cmd = Some cm" "\<not> arity_error (snd (command_table cm)) (length args)" "in_multi (session_of ?S c)" "cm \<notin> {EXEC, DISCARD, MULTI, WATCH}"
    | (call) cm where "cmd = Some cm" "\<not> arity_error (snd (command_table cm)) (length args)" "\<not> (in_multi (session_of ?S c) \<and> cm \<notin> {EXEC, DISCARD, MULTI, WATCH})"
    by (cases cmd) blast+
  then show ?thesis
  proof cases
    case unknown
    then show ?thesis using process_unknown[OF h(2,3) c' ne] sp fin by blast
  next
    case arity
    have "length argv = length args" using h(3) by (simp add: args_from_def)
    then show ?thesis using process_arity[OF h(2) c' _ arity(2)] sp fin arity(1) by blast
  next
    case queue
    obtain S1 h1 where q: "processCommand ?S c cmd argv = Some (S1, argv, rep)" "freeClientArgv (sheap S1) argv = Some h1"
        "minv everything (set_heap S1 h1) {#}" "outcome c cmd args ?S (set_heap S1 h1) s m"
      using process_queue[OF h(2,3) c' queue(2-4)] sp queue(1) by blast
    have "outcome c cmd args S (set_heap S1 h1) s m" using outcome_before[OF h(4) _ c q(4)] by simp
    then show ?thesis using h(1) q by (simp add: handle_request_def)
  next
    case call
    then show ?thesis using process_call[OF h(2,3) c' _ call(2,3)] sp ok' fin by blast
  qed
qed

end
