(* ===== verification/Interleaving.thy ===== *)
theory Interleaving
  imports Requests
begin

text \<open>
  Interleaved requests of all clients, disconnects and the passing of time: the states the server can
  reach, and what a transaction can rely on while the others keep sending requests.
\<close>

section \<open>Events\<close>

datatype event = Request nat "command option" "char list list" | Disconnect nat | Wait nat

fun handle :: "server \<Rightarrow> event \<Rightarrow> (server \<times> reply option) option" where
  "handle S (Request c cmd args) = do { (S, rep) \<leftarrow> handle_request S c cmd args; Some (S, Some rep) }"
| "handle S (Disconnect c) = do { S \<leftarrow> freeClient S c; Some (S, None) }"
| "handle S (Wait d) = Some (S\<lparr>rdb := (rdb S)\<lparr>now := now (rdb S) + int d\<rparr>\<rparr>, None)"

fun event_ok :: "server \<Rightarrow> event \<Rightarrow> bool" where
  "event_ok S (Request c cmd args) \<longleftrightarrow> c < length (clients S) \<and> request_ok (session_of S c) (now (rdb S)) cmd args"
| "event_ok S (Disconnect c) \<longleftrightarrow> c < length (clients S)"
| "event_ok S (Wait d) \<longleftrightarrow> True"

fun run_events :: "server \<Rightarrow> event list \<Rightarrow> server option" where
  "run_events S [] = Some S"
| "run_events S (ev # evs) = do { (S, rep) \<leftarrow> handle S ev; run_events S evs }"

fun events_ok :: "server \<Rightarrow> event list \<Rightarrow> bool" where
  "events_ok S [] \<longleftrightarrow> True"
| "events_ok S (ev # evs) \<longleftrightarrow> event_ok S ev \<and> (case handle S ev of None \<Rightarrow> True | Some (S, _) \<Rightarrow> events_ok S evs)"

text \<open>The server after its start, with \<open>n\<close> connections.\<close>

definition start :: "nat \<Rightarrow> int \<Rightarrow> int \<Rightarrow> (char list \<Rightarrow> char list \<Rightarrow> int) \<Rightarrow> server" where
  "start n t limit coll =
     \<lparr>rdb = \<lparr>heap = [], db_dict = Map.empty, db_expires = Map.empty, watched_keys = (\<lambda>k. []), dirty_cas = (\<lambda>c. False), now = t,
        masterhost = False, loading = False, ro_client = False, from_master = False, no_shared = False, proto_max_bulk_len = limit,
        dirty = 0, stat_keyspace_hits = 0, stat_keyspace_misses = 0, stat_expiredkeys = 0, events = [], propagated = []\<rparr>,
      clients = replicate n new_client, watched_obj = Map.empty, strcoll = coll\<rparr>"

inductive reachable :: "server \<Rightarrow> bool" where
  init: "0 \<le> t \<Longrightarrow> limit \<le> int MAX_STR \<Longrightarrow> reachable (start n t limit coll)"
| step: "reachable S \<Longrightarrow> event_ok S ev \<Longrightarrow> handle S ev = Some (S', rep) \<Longrightarrow> reachable S'"

lemma sum_list_empty: "sum_list (replicate n {#}) = {#}"
  by (induction n) simp_all

lemma start_inv: "0 \<le> t \<Longrightarrow> limit \<le> int MAX_STR \<Longrightarrow> minv everything (start n t limit coll) {#}"
  by (auto simp: start_def minv_def db_inv_def store_ok_def dict_refs_def heap_ok_def deref.simps lim_def limits_ok_def refs_def
      client_refs_def flags_ok_def watch_ok_def new_client_def sum_list_empty)

lemma wait_spec:
  assumes "minv everything S {#}"
  shows "minv everything (S\<lparr>rdb := (rdb S)\<lparr>now := now (rdb S) + int d\<rparr>\<rparr>) {#}"
    "keyspace ((rdb S)\<lparr>now := now (rdb S) + int d\<rparr>) k = live (now (rdb S) + int d) (keyspace (rdb S) k)"
  using assms tick_spec[OF invD(1)[OF assms], of d]
  by (simp_all add: minv_def limits_ok_def queue_ok_def sole_def flags_ok_def watch_ok_def)

lemma handle_spec:
  assumes "minv everything S {#}" "event_ok S ev"
  shows "\<exists>S' rep. handle S ev = Some (S', rep) \<and> minv everything S' {#}"
proof (cases ev)
  case (Request c cmd args)
  obtain s m rep where "spec_request (session_of S c) (dirty_cas (rdb S) c) (now (rdb S)) (proto_max_bulk_len (rdb S)) (keyspace (rdb S)) cmd args = (s, m, rep)"
    using prod_cases3 by blast
  then show ?thesis using handle_request_spec[OF assms(1)] assms(2) Request by fastforce
next
  case (Disconnect c)
  then show ?thesis using freeClient_spec[OF assms(1), of c] assms(2) by auto
next
  case (Wait d)
  then show ?thesis using wait_spec(1)[OF assms(1)] by simp
qed

lemma reachable_inv: "reachable S \<Longrightarrow> minv everything S {#}"
proof (induction rule: reachable.induct)
  case (step S ev S' rep)
  then show ?case using handle_spec[of S ev] by auto
qed (rule start_inv)

lemma run_spec:
  assumes "reachable S" "events_ok S evs"
  shows "\<exists>S'. run_events S evs = Some S' \<and> reachable S'"
  using assms
proof (induction evs arbitrary: S)
  case (Cons ev evs)
  obtain S1 rep where "handle S ev = Some (S1, rep)" using handle_spec[OF reachable_inv[OF Cons.prems(1)], of ev] Cons.prems(2) by auto
  then show ?case using Cons reachable.step[of S ev S1 rep] by auto
qed auto

text \<open>The client an event belongs to.\<close>

fun of_client :: "event \<Rightarrow> nat option" where
  "of_client (Request c cmd args) = Some c"
| "of_client (Disconnect c) = Some c"
| "of_client (Wait d) = None"

lemma handle_others:
  assumes "minv everything S {#}" "event_ok S ev" "handle S ev = Some (S', rep)" "of_client ev = Some c"
  shows "others_ok c S S'"
proof (cases ev)
  case (Request c' cmd args)
  obtain s m rep where "spec_request (session_of S c) (dirty_cas (rdb S) c) (now (rdb S)) (proto_max_bulk_len (rdb S)) (keyspace (rdb S)) cmd args = (s, m, rep)"
    using prod_cases3 by blast
  then show ?thesis using handle_request_spec[OF assms(1)] assms(2-4) Request by (fastforce simp: outcome_def)
next
  case (Disconnect c')
  then show ?thesis using freeClient_spec[OF assms(1), of c] assms(2-4) others_ok_dropped by auto
next
  case (Wait d)
  then show ?thesis using assms(4) by simp
qed

section \<open>What a transaction relies on\<close>

text \<open>Events that leave the watched keys of client \<open>c\<close> alone.\<close>

fun quiet_for :: "nat \<Rightarrow> event \<Rightarrow> bool" where
  "quiet_for c (Request c' cmd args) \<longleftrightarrow> c' \<noteq> c \<or> quiet cmd"
| "quiet_for c (Disconnect c') \<longleftrightarrow> c' \<noteq> c"
| "quiet_for c (Wait d) \<longleftrightarrow> True"

definition locked :: "nat \<Rightarrow> key \<Rightarrow> server \<Rightarrow> server \<Rightarrow> bool" where
  "locked c k S S' \<longleftrightarrow>
     c \<in> set (watched_keys (rdb S') k) \<and> (dirty_cas (rdb S) c \<longrightarrow> dirty_cas (rdb S') c) \<and>
     (\<exists>d. now (rdb S') = now (rdb S) + int d) \<and>
     (dirty_cas (rdb S') c \<or> keyspace (rdb S') k = live (now (rdb S')) (keyspace (rdb S) k))"

lemma keyspace_live: "live (now st) (keyspace st k) = keyspace st k"
  using live_later[of "now st" 0] by (simp add: keyspace_def)

lemma locked_refl: "c \<in> set (watched_keys (rdb S) k) \<Longrightarrow> locked c k S S"
  using exI[of "\<lambda>d. now (rdb S) = now (rdb S) + int d" 0] by (simp add: locked_def keyspace_live)

lemma locked_trans:
  assumes "locked c k S S1" "locked c k S1 S2"
  shows "locked c k S S2"
proof -
  obtain d1 d2 where d: "now (rdb S1) = now (rdb S) + int d1" "now (rdb S2) = now (rdb S1) + int d2" using assms by (auto simp: locked_def)
  have "live (now (rdb S2)) (live (now (rdb S1)) e) = live (now (rdb S2)) e" for e unfolding d(2) by (rule live_later)
  then have "dirty_cas (rdb S2) c \<or> keyspace (rdb S2) k = live (now (rdb S2)) (keyspace (rdb S) k)"
    using assms unfolding locked_def by metis
  moreover have "now (rdb S2) = now (rdb S) + int (d1 + d2)" using d by simp
  ultimately show ?thesis using assms unfolding locked_def by blast
qed

lemma handle_locked:
  assumes inv: "minv everything S {#}" and ok: "event_ok S ev" and h: "handle S ev = Some (S', rep)" and q: "quiet_for c ev"
    and w: "c \<in> set (watched_keys (rdb S) k)"
  shows "locked c k S S'"
proof -
  have eq: "locked c k S S'" if "now (rdb S') = now (rdb S)" "c \<in> set (watched_keys (rdb S') k)"
      "dirty_cas (rdb S) c \<longrightarrow> dirty_cas (rdb S') c" "keyspace (rdb S') k \<noteq> keyspace (rdb S) k \<longrightarrow> dirty_cas (rdb S') c"
    using that exI[of "\<lambda>d. now (rdb S') = now (rdb S) + int d" 0] keyspace_live[of "rdb S" k] by (auto simp: locked_def)
  consider (other) c' where "of_client ev = Some c'" "c' \<noteq> c" | (own) cmd args where "ev = Request c cmd args" "quiet cmd" | (wait) d where "ev = Wait d"
    using q by (cases ev) auto
  then show ?thesis
  proof cases
    case other
    then show ?thesis using handle_others[OF inv ok h other(1)] w by (intro eq) (auto simp: others_ok_def)
  next
    case own
    obtain s m rp where "spec_request (session_of S c) (dirty_cas (rdb S) c) (now (rdb S)) (proto_max_bulk_len (rdb S)) (keyspace (rdb S)) cmd args = (s, m, rp)"
      using prod_cases3 by blast
    then have "others_ok c S S'" "self_ok c S S'" using handle_request_spec[OF inv] ok h own by (fastforce simp: outcome_def)+
    then show ?thesis using w by (intro eq) (auto simp: others_ok_def self_ok_def)
  next
    case wait
    then show ?thesis using h w wait_spec(2)[OF inv, of d k] by (auto simp: locked_def)
  qed
qed

lemma run_locked:
  assumes "reachable S" "events_ok S evs" "run_events S evs = Some S'" "\<forall>ev\<in>set evs. quiet_for c ev" "c \<in> set (watched_keys (rdb S) k)"
  shows "locked c k S S'"
  using assms
proof (induction evs arbitrary: S)
  case Nil
  then show ?case using locked_refl by simp
next
  case (Cons ev evs)
  obtain S1 rep where h: "handle S ev = Some (S1, rep)" using handle_spec[OF reachable_inv[OF Cons.prems(1)], of ev] Cons.prems(2) by auto
  have l: "locked c k S S1" using handle_locked[OF reachable_inv[OF Cons.prems(1)] _ h] Cons.prems by simp
  have "reachable S1" using reachable.step[OF Cons.prems(1) _ h] Cons.prems(2) by simp
  then have "locked c k S1 S'" using Cons.IH[of S1] Cons.prems h l by (simp add: locked_def)
  with l show ?case by (rule locked_trans)
qed

text \<open>The commands client \<open>c\<close> sends, when it only sends commands that are queued.\<close>

fun queues :: "nat \<Rightarrow> event \<Rightarrow> bool" where
  "queues c (Request c' (Some cm) args) \<longleftrightarrow> c' \<noteq> c \<or> queueable cm (length args)"
| "queues c (Request c' None args) \<longleftrightarrow> c' \<noteq> c"
| "queues c (Disconnect c') \<longleftrightarrow> c' \<noteq> c"
| "queues c (Wait d) \<longleftrightarrow> True"

fun sent :: "nat \<Rightarrow> event list \<Rightarrow> (command \<times> char list list) list" where
  "sent c [] = []"
| "sent c (Request c' (Some cm) args # evs) = (if c' = c then (cm, args) # sent c evs else sent c evs)"
| "sent c (_ # evs) = sent c evs"

lemma sent_Cons: "sent c (ev # evs) = sent c [ev] @ sent c evs"
  by (cases "(c, [ev])" rule: sent.cases) auto

lemma handle_queues:
  assumes inv: "minv everything S {#}" and ok: "event_ok S ev" and h: "handle S ev = Some (S', rep)" and q: "queues c ev"
    and c: "c < length (clients S)" and s: "session_of S c = \<lparr>in_multi = True, bad = False, queued = xs\<rparr>"
  shows "session_of S' c = \<lparr>in_multi = True, bad = False, queued = xs @ sent c [ev]\<rparr> \<and> length (clients S') = length (clients S)"
proof -
  consider (other) c' where "of_client ev = Some c'" "c' \<noteq> c" "sent c [ev] = []" | (own) cm args where "ev = Request c (Some cm) args" "queueable cm (length args)"
    | (wait) d where "ev = Wait d"
    using q by (cases "(c, ev)" rule: queues.cases) auto
  then show ?thesis
  proof cases
    case other
    then show ?thesis using handle_others[OF inv ok h other(1)] c s by (simp add: others_ok_def)
  next
    case own
    let ?s = "\<lparr>in_multi = True, bad = False, queued = xs @ [(cm, args)]\<rparr>"
    have "spec_request (session_of S c) (dirty_cas (rdb S) c) (now (rdb S)) (proto_max_bulk_len (rdb S)) (keyspace (rdb S)) (Some cm) args =
        (?s, keyspace (rdb S), shared_queued)"
      unfolding s using own(2) by (auto simp: spec_request_def queueable_def)
    then show ?thesis using handle_request_spec[OF inv c] ok h own(1) by (fastforce simp: outcome_def others_ok_def)
  next
    case wait
    then show ?thesis using h s by (auto simp: session_of_def Let_def)
  qed
qed

lemma run_queues:
  assumes "reachable S" "events_ok S evs" "run_events S evs = Some S'" "\<forall>ev\<in>set evs. queues c ev" "c < length (clients S)"
    "session_of S c = \<lparr>in_multi = True, bad = False, queued = xs\<rparr>"
  shows "session_of S' c = \<lparr>in_multi = True, bad = False, queued = xs @ sent c evs\<rparr> \<and> length (clients S') = length (clients S)"
  using assms
proof (induction evs arbitrary: S xs)
  case Nil
  then show ?case by simp
next
  case (Cons ev evs)
  obtain S1 rep where h: "handle S ev = Some (S1, rep)" using handle_spec[OF reachable_inv[OF Cons.prems(1)], of ev] Cons.prems(2) by auto
  have l: "session_of S1 c = \<lparr>in_multi = True, bad = False, queued = xs @ sent c [ev]\<rparr>" "length (clients S1) = length (clients S)"
    using handle_queues[OF reachable_inv[OF Cons.prems(1)] _ h _ Cons.prems(5,6)] Cons.prems(2,4) by simp_all
  have "reachable S1" using reachable.step[OF Cons.prems(1) _ h] Cons.prems(2) by simp
  then show ?case
    using Cons.IH[OF _ _ _ _ _ l(1)] Cons.prems h l(2) sent_Cons[of c ev evs] by simp
qed

section \<open>Properties\<close>

definition demo_server :: server where
  "demo_server = start 2 1000 536870912 (\<lambda>a b. 0)"

abbreviation demo_watch :: "event list" where
  "demo_watch \<equiv> [Request 0 (Some WATCH) [''WATCH'', ''k''], Request 0 (Some MULTI) [''MULTI'']]"

abbreviation demo_queue :: "event list" where
  "demo_queue \<equiv> [Request 0 (Some (StrCmd APPEND)) [''APPEND'', ''k'', ''w''], Request 1 (Some (StrCmd GET)) [''GET'', ''k'']]"

definition exec_reply :: "event list \<Rightarrow> reply option" where
  "exec_reply evs = do { S \<leftarrow> run_events demo_server evs; (S, rep) \<leftarrow> handle_request S 0 (Some EXEC) [''EXEC'']; Some rep }"

lemma demo_reachable: "reachable demo_server"
  unfolding demo_server_def by (rule reachable.init) (simp_all add: MAX_STR_def)

lemma handle_length:
  assumes "minv everything S {#}" "event_ok S ev" "handle S ev = Some (S', rep)"
  shows "length (clients S') = length (clients S)"
proof (cases "of_client ev")
  case None
  then show ?thesis using assms(3) by (cases ev) auto
next
  case (Some c)
  then show ?thesis using handle_others[OF assms] by (simp add: others_ok_def)
qed

lemma events_ok_any:
  assumes "minv everything S {#}" "\<And>S'. length (clients S') = length (clients S) \<Longrightarrow> \<forall>ev\<in>set evs. event_ok S' ev"
  shows "events_ok S evs"
  using assms
proof (induction evs arbitrary: S)
  case (Cons ev evs)
  have ok: "event_ok S ev" using Cons.prems(2) by simp
  obtain S' rep where h: "handle S ev = Some (S', rep)" "minv everything S' {#}" using handle_spec[OF Cons.prems(1) ok] by blast
  have "length (clients S') = length (clients S)" using handle_length[OF Cons.prems(1) ok h(1)] .
  then show ?case using Cons.IH[OF h(2)] Cons.prems(2) ok h(1) by simp
qed simp

lemma demo_ok: "length (clients S) = 2 \<Longrightarrow> \<forall>ev\<in>set (demo_watch @ demo_queue). event_ok S ev"
  by (simp add: request_ok_def MAX_STR_def)

lemma demo_reply: "exec_reply (demo_watch @ demo_queue) = Some (RArray [RInt 1])"
  by code_simp

lemma demo_watches:
  "map_option (\<lambda>S. (0 \<in> set (watched_keys (rdb S) ''k''), session_of S 0, length (clients S))) (run_events demo_server demo_watch) =
   Some (True, \<lparr>in_multi = True, bad = False, queued = []\<rparr>, 2)"
  by code_simp

lemma run_events_append: "run_events S (xs @ ys) = do { S \<leftarrow> run_events S xs; run_events S ys }"
  by (induction xs arbitrary: S) (auto split: bind_splits)

text \<open>The states of the example: after \<open>MULTI\<close>, before \<open>EXEC\<close> and after it.\<close>

lemma demo_states:
  obtains S S' S'' where "run_events demo_server demo_watch = Some S" "reachable S" "0 \<in> set (watched_keys (rdb S) ''k'')"
    "session_of S 0 = \<lparr>in_multi = True, bad = False, queued = []\<rparr>" "length (clients S) = 2" "events_ok S demo_queue"
    "run_events S demo_queue = Some S'" "event_ok S' (Request 0 (Some EXEC) [''EXEC''])"
    "handle_request S' 0 (Some EXEC) [''EXEC''] = Some (S'', RArray [RInt 1])"
proof -
  obtain S where S: "run_events demo_server demo_watch = Some S" "0 \<in> set (watched_keys (rdb S) ''k'')"
      "session_of S 0 = \<lparr>in_multi = True, bad = False, queued = []\<rparr>" "length (clients S) = 2"
    using demo_watches by auto
  have l: "length (clients demo_server) = 2" by (simp add: demo_server_def start_def)
  have ok: "events_ok demo_server demo_watch" using demo_ok l by (intro events_ok_any reachable_inv demo_reachable) auto
  have r: "reachable S" using run_spec[OF demo_reachable ok] S(1) by auto
  obtain S' S'' where S': "run_events S demo_queue = Some S'" "handle_request S' 0 (Some EXEC) [''EXEC''] = Some (S'', RArray [RInt 1])"
    using demo_reply S(1) unfolding exec_reply_def run_events_append by (auto elim!: bind_SomeE)
  have q: "events_ok S demo_queue" using demo_ok S(4) by (intro events_ok_any reachable_inv r) auto
  have "session_of S' 0 = \<lparr>in_multi = True, bad = False, queued = [] @ sent 0 demo_queue\<rparr> \<and> length (clients S') = length (clients S)"
    using S(4) by (intro run_queues[OF r q S'(1) _ _ S(3)]) (simp_all add: queueable_def arity_error_def)
  then have "event_ok S' (Request 0 (Some EXEC) [''EXEC''])" using S(4) by (simp add: request_ok_def MAX_STR_def)
  then show thesis using that S r S' q by blast
qed

text \<open>
  C12: in every state the server can reach, whatever the clients send and in whatever order, each
  reference count is the number of references of the database, the queues and the tables of watched keys;
  the two tables of watched keys agree; only a client in a transaction has queued commands; and a queued
  command has arguments of its own that no one else refers to, so that executing it cannot change what
  another client sees.
\<close>

theorem server_invariant:
  assumes "reachable S"
  shows "heap_ok (sheap S) (dict_refs (db_dict (rdb S)) + refs S) \<and> watch_ok S \<and> flags_ok S \<and>
    (\<forall>c<length (clients S). \<forall>q\<in>set (mstate_commands (clients S ! c)). queue_ok S {#} q)"
proof -
  note inv = reachable_inv[OF assms]
  have "queue_ok S {#} q" if "c < length (clients S)" "q \<in> set (mstate_commands (clients S ! c))" for c q
    using inv that unfolding minv_def in_set_conv_nth by auto
  then show ?thesis using invD[OF inv] by (simp add: db_inv_def store_ok_def)
qed

theorem server_invariant_witness:
  "\<exists>S. run_events demo_server demo_watch = Some S \<and> heap_ok (sheap S) (dict_refs (db_dict (rdb S)) + refs S) \<and> watch_ok S"
  using demo_states server_invariant by metis

text \<open>
  C16: the server never gets stuck: in every reachable state every request, disconnect and passing of time
  is handled without undefined behaviour, and a request gets exactly one reply.
\<close>

theorem server_progress:
  assumes "reachable S" "event_ok S ev"
  shows "\<exists>S' rep. handle S ev = Some (S', rep) \<and> reachable S' \<and> ((rep \<noteq> None) = (\<exists>c cmd args. ev = Request c cmd args))"
proof -
  obtain S' rep where h: "handle S ev = Some (S', rep)" using handle_spec[OF reachable_inv[OF assms(1)] assms(2)] by blast
  moreover have "(rep \<noteq> None) = (\<exists>c cmd args. ev = Request c cmd args)" using h by (cases ev) (auto elim!: bind_SomeE)
  ultimately show ?thesis using reachable.step[OF assms h] by (intro exI conjI)
qed

theorem server_progress_witness:
  "\<exists>S' rep. handle demo_server (Request 1 (Some (StrCmd INCR)) [''INCR'', ''k'']) = Some (S', Some rep) \<and> reachable S'"
proof -
  have "event_ok demo_server (Request 1 (Some (StrCmd INCR)) [''INCR'', ''k''])"
    by (simp add: demo_server_def start_def request_ok_def MAX_STR_def)
  from server_progress[OF demo_reachable this] show ?thesis by auto
qed



text \<open>
  C5: watched keys are an optimistic lock. When a client that watches a key gets its transaction executed,
  the key still has the value, and the time to live, it had at any earlier time since it was watched:
  no request of any client, the passing of time or a disconnect in between has changed it unnoticed. The
  one change that goes unnoticed is that the key has expired and nobody has looked at it since.
\<close>

theorem watched_keys_lock:
  assumes "reachable S" "c \<in> set (watched_keys (rdb S) k)" "events_ok S evs" "\<forall>ev\<in>set evs. quiet_for c ev" "run_events S evs = Some S'"
    "event_ok S' (Request c (Some EXEC) args)" "handle_request S' c (Some EXEC) args = Some (S'', RArray reps)"
  shows "keyspace (rdb S') k = live (now (rdb S')) (keyspace (rdb S) k)"
proof -
  have l: "locked c k S S'" using run_locked[OF assms(1,3,5,4,2)] .
  have "reachable S'" using run_spec[OF assms(1,3)] assms(5) by simp
  moreover obtain s m rep where
    sp: "spec_request (session_of S' c) (dirty_cas (rdb S') c) (now (rdb S')) (proto_max_bulk_len (rdb S')) (keyspace (rdb S')) (Some EXEC) args = (s, m, rep)"
    using prod_cases3 by blast
  ultimately have "rep = RArray reps" using handle_request_spec[OF reachable_inv _ _ sp] assms(6,7) by auto
  then have "\<not> dirty_cas (rdb S') c" using sp by (auto simp: spec_request_def shared_execaborterr_def split: if_splits)
  then show ?thesis using l by (simp add: locked_def)
qed

theorem watched_keys_lock_witness:
  "\<exists>S S'. run_events demo_server demo_watch = Some S \<and> run_events S demo_queue = Some S' \<and>
    keyspace (rdb S') ''k'' = live (now (rdb S')) (keyspace (rdb S) ''k'')"
proof -
  obtain S S' S'' where S: "run_events demo_server demo_watch = Some S" "reachable S" "0 \<in> set (watched_keys (rdb S) ''k'')"
    "session_of S 0 = \<lparr>in_multi = True, bad = False, queued = []\<rparr>" "length (clients S) = 2" "events_ok S demo_queue"
    "run_events S demo_queue = Some S'" "event_ok S' (Request 0 (Some EXEC) [''EXEC''])"
    "handle_request S' 0 (Some EXEC) [''EXEC''] = Some (S'', RArray [RInt 1])" by (rule demo_states)
  have "\<forall>ev\<in>set demo_queue. quiet_for 0 ev" by (simp add: quiet_def)
  from watched_keys_lock[OF S(2,3,6) this S(7,8,9)] S(1,7) show ?thesis by blast
qed



end
