(* ===== verification/Query.thy ===== *)
theory Query
  imports SdsArgs
begin

text \<open>
  The parser of requests (\<open>networking.c\<close>): inline requests and arrays of bulk strings, read from a
  connection in arbitrary pieces, and the encoder of the client library (\<open>deps/hiredis/hiredis.c\<close>). The
  query buffer is given by its contents; that the string operations on it (\<open>sdsrange\<close>, \<open>sdsIncrLen\<close>,
  \<open>sdsMakeRoomFor\<close>) act on the contents as here is shown in the theory of strings. \<open>None\<close> stands for a
  failed assertion or undefined behaviour.
\<close>

section \<open>State\<close>

datatype request_type = REQ_UNKNOWN | PROTO_REQ_INLINE | PROTO_REQ_MULTIBULK

definition PROTO_IOBUF_LEN :: nat where
  "PROTO_IOBUF_LEN = 1024 * 16"

definition PROTO_INLINE_MAX_SIZE :: nat where
  "PROTO_INLINE_MAX_SIZE = 1024 * 64"

definition PROTO_MBULK_BIG_ARG :: nat where
  "PROTO_MBULK_BIG_ARG = 1024 * 32"

text \<open>
  The part of the client that concerns its requests. \<open>argv_size\<close> is the number of entries allocated for
  \<open>argv\<close>; \<open>closing\<close> stands for \<open>CLIENT_CLOSE_AFTER_REPLY\<close> and \<open>CLIENT_CLOSE_ASAP\<close>.
\<close>

record query =
  querybuf :: "char list"
  qb_pos :: nat
  reqtype :: request_type
  multibulklen :: nat
  bulklen :: int
  argv_size :: nat
  q_argv :: "char list list"
  q_master :: bool
  closing :: bool

text \<open>What comes out: requests to be executed, and the error reply before the connection is closed.\<close>

datatype query_event = Query "char list list" | Protocol_Error string

definition unread :: "query \<Rightarrow> char list" where
  "unread q = drop (qb_pos q) (querybuf q)"

definition strchr :: "char list \<Rightarrow> char \<Rightarrow> nat option" where
  "strchr s c = (let p = takeWhile (\<lambda>x. x \<noteq> c) (cstr s) in if length p < length (cstr s) then Some (length p) else None)"

definition setProtocolError :: "query \<Rightarrow> query" where
  "setProtocolError q = q\<lparr>closing := True\<rparr>"

abbreviation CR :: char where "CR \<equiv> CHR 0x0D"

abbreviation LF :: char where "LF \<equiv> CHR 0x0A"

section \<open>Inline requests\<close>

definition processInlineBuffer :: "query \<Rightarrow> query \<times> query_event list \<times> bool" where
  "processInlineBuffer q =
     (case strchr (unread q) LF of
        None \<Rightarrow>
          if length (unread q) > PROTO_INLINE_MAX_SIZE
          then (setProtocolError q, [Protocol_Error ''Protocol error: too big inline request''], False)
          else (q, [], False)
      | Some newline \<Rightarrow>
          let crlf = (newline \<noteq> 0 \<and> unread q ! (newline - 1) = CR);
              querylen = (if crlf then newline - 1 else newline);
              linefeed_chars = (if crlf then 2 else 1)
          in case sdssplitargs (take querylen (unread q)) of
               None \<Rightarrow> (setProtocolError q, [Protocol_Error ''Protocol error: unbalanced quotes in request''], False)
             | Some argv \<Rightarrow>
                 if querylen \<noteq> 0 \<and> q_master q then (setProtocolError q, [], False)
                 else (q\<lparr>qb_pos := qb_pos q + querylen + linefeed_chars, q_argv := argv\<rparr>, [], True))"

section \<open>Arrays of bulk strings\<close>

text \<open>
  The number of arguments. The last component is the result of the function when it returns here, and
  \<^const>\<open>None\<close> when it goes on.
\<close>

definition multibulk_header :: "query \<Rightarrow> (query \<times> query_event list \<times> bool option) option" where
  "multibulk_header q =
     (if q_argv q \<noteq> [] then None
      else case strchr (unread q) CR of
        None \<Rightarrow>
          if length (unread q) > PROTO_INLINE_MAX_SIZE
          then Some (setProtocolError q, [Protocol_Error ''Protocol error: too big mbulk count string''], Some False)
          else Some (q, [], Some False)
      | Some newline \<Rightarrow>
          if int newline > int (length (unread q)) - 2 then Some (q, [], Some False)
          else do {
            ch \<leftarrow> fetch (querybuf q) (qb_pos q);
            if ch \<noteq> CHR ''*'' then None
            else case string2ll (take (newline - 1) (drop 1 (unread q))) of
              None \<Rightarrow> Some (setProtocolError q, [Protocol_Error ''Protocol error: invalid multibulk length''], Some False)
            | Some ll \<Rightarrow>
                if ll > 1024 * 1024
                then Some (setProtocolError q, [Protocol_Error ''Protocol error: invalid multibulk length''], Some False)
                else
                  let q = q\<lparr>qb_pos := qb_pos q + newline + 2\<rparr>
                  in if ll \<le> 0 then Some (q, [], Some True)
                     else Some (q\<lparr>multibulklen := nat ll, argv_size := nat ll\<rparr>, [], None)
          })"

text \<open>
  The length of the next argument, if it is not known yet; \<open>False\<close> leaves the loop. \<open>addReplyErrorFormat\<close>
  replaces line breaks by blanks.
\<close>

definition read_bulklen :: "int \<Rightarrow> query \<Rightarrow> (query \<times> query_event list \<times> bool) option" where
  "read_bulklen limit q =
     (if bulklen q \<noteq> -1 then Some (q, [], True)
      else case strchr (unread q) CR of
        None \<Rightarrow>
          if length (unread q) > PROTO_INLINE_MAX_SIZE
          then Some (setProtocolError q, [Protocol_Error ''Protocol error: too big bulk count string''], False)
          else Some (q, [], False)
      | Some newline \<Rightarrow>
          if int newline > int (length (unread q)) - 2 then Some (q, [], False)
          else do {
            ch \<leftarrow> fetch (querybuf q) (qb_pos q);
            if ch \<noteq> CHR ''$''
            then Some (setProtocolError q,
              [Protocol_Error (''Protocol error: expected '' @ [CHR 0x27, CHR ''$'', CHR 0x27] @ '', got '' @ [CHR 0x27, if ch = CR \<or> ch = LF then CHR '' '' else ch, CHR 0x27])], False)
            else case string2ll (take (newline - 1) (drop 1 (unread q))) of
              None \<Rightarrow> Some (setProtocolError q, [Protocol_Error ''Protocol error: invalid bulk length''], False)
            | Some ll \<Rightarrow>
                if ll < 0 \<or> (\<not> q_master q \<and> ll > limit)
                then Some (setProtocolError q, [Protocol_Error ''Protocol error: invalid bulk length''], False)
                else
                  let q = q\<lparr>qb_pos := qb_pos q + newline + 2\<rparr>;
                      q = (if ll \<ge> int PROTO_MBULK_BIG_ARG \<and> int (length (unread q)) \<le> ll + 2
                           then q\<lparr>querybuf := unread q, qb_pos := 0\<rparr> else q)
                  in Some (q\<lparr>bulklen := ll\<rparr>, [], True)
          })"

text \<open>A whole argument is in the buffer; a buffer with just one big argument becomes the argument.\<close>

definition take_bulk :: "query \<Rightarrow> query option" where
  "take_bulk q =
     (if length (q_argv q) \<ge> argv_size q then None
      else
        let n = nat (bulklen q);
            q' = q\<lparr>q_argv := q_argv q @ [take n (unread q)], bulklen := -1, multibulklen := multibulklen q - 1\<rparr>
        in if qb_pos q = 0 \<and> n \<ge> PROTO_MBULK_BIG_ARG \<and> length (querybuf q) = n + 2
           then Some (q'\<lparr>querybuf := []\<rparr>)
           else Some (q'\<lparr>qb_pos := qb_pos q + n + 2\<rparr>))"

lemma read_bulklen_mb: "read_bulklen limit q = Some (q', evs, go) \<Longrightarrow> multibulklen q' = multibulklen q"
  by (auto simp: read_bulklen_def setProtocolError_def Let_def split: if_splits option.splits bind_splits)

lemma take_bulk_mb: "take_bulk q = Some q' \<Longrightarrow> multibulklen q' = multibulklen q - 1"
  by (auto simp: take_bulk_def Let_def split: if_splits)

function multibulk_loop :: "int \<Rightarrow> query \<Rightarrow> (query \<times> query_event list \<times> bool) option" where
  "multibulk_loop limit q =
     (if multibulklen q = 0 then Some (q, [], True)
      else case read_bulklen limit q of
        None \<Rightarrow> None
      | Some (q', evs, go) \<Rightarrow>
          if \<not> go then Some (q', evs, False)
          else if bulklen q' + 2 > LLONG_MAX then None
          else if int (length (unread q')) < bulklen q' + 2 then Some (q', [], False)
          else case take_bulk q' of None \<Rightarrow> None | Some q'' \<Rightarrow> multibulk_loop limit q'')"
  by pat_completeness auto

termination
  by (relation "measure (\<lambda>(limit, q). multibulklen q)") (auto dest!: read_bulklen_mb take_bulk_mb)

definition processMultibulkBuffer :: "int \<Rightarrow> query \<Rightarrow> (query \<times> query_event list \<times> bool) option" where
  "processMultibulkBuffer limit q = do {
     (q, evs, ret) \<leftarrow> (if multibulklen q = 0 then multibulk_header q else Some (q, [], None));
     case ret of
       Some ok \<Rightarrow> Some (q, evs, ok)
     | None \<Rightarrow> if multibulklen q > 0 then multibulk_loop limit q else None
   }"

section \<open>The input buffer\<close>

definition resetClient :: "query \<Rightarrow> query" where
  "resetClient q = q\<lparr>reqtype := REQ_UNKNOWN, multibulklen := 0, bulklen := -1, q_argv := []\<rparr>"

definition determine_reqtype :: "query \<Rightarrow> query" where
  "determine_reqtype q =
     (if reqtype q = REQ_UNKNOWN
      then q\<lparr>reqtype := if querybuf q ! qb_pos q = CHR ''*'' then PROTO_REQ_MULTIBULK else PROTO_REQ_INLINE\<rparr> else q)"

definition is_quit :: "char list list \<Rightarrow> bool" where
  "is_quit args \<longleftrightarrow> map tolower (cstr (hd args)) = ''quit''"

text \<open>
  The execution of a request is the event \<^const>\<open>Query\<close>. \<open>QUIT\<close> closes the connection and does not reset
  the client.
\<close>

partial_function (option) input_loop :: "int \<Rightarrow> query \<Rightarrow> (query \<times> query_event list) option" where
  "input_loop limit q =
     (if qb_pos q < length (querybuf q) \<and> \<not> closing q then
        let q = determine_reqtype q in do {
          (q, evs, ok) \<leftarrow> (if reqtype q = PROTO_REQ_INLINE then Some (processInlineBuffer q) else processMultibulkBuffer limit q);
          if \<not> ok then Some (q, evs)
          else if q_argv q = [] then input_loop limit (resetClient q)
          else do {
            let args = q_argv q;
            (q, evs) \<leftarrow> input_loop limit (if is_quit args then q\<lparr>closing := True\<rparr> else resetClient q);
            Some (q, Query args # evs)
          }
        }
      else Some (q, []))"

definition processInputBuffer :: "int \<Rightarrow> query \<Rightarrow> (query \<times> query_event list) option" where
  "processInputBuffer limit q = do {
     (q, evs) \<leftarrow> input_loop limit q;
     Some (q\<lparr>querybuf := unread q, qb_pos := 0\<rparr>, evs)
   }"

text \<open>How much is read at once, and what is done with the bytes that were read.\<close>

definition readlen :: "query \<Rightarrow> nat" where
  "readlen q =
     (if reqtype q = PROTO_REQ_MULTIBULK \<and> multibulklen q \<noteq> 0 \<and> bulklen q \<noteq> -1 \<and> bulklen q \<ge> int PROTO_MBULK_BIG_ARG
      then let remaining = bulklen q + 2 - int (length (querybuf q))
           in if 0 < remaining \<and> remaining < int PROTO_IOBUF_LEN then nat remaining else PROTO_IOBUF_LEN
      else PROTO_IOBUF_LEN)"

definition readQueryFromClient :: "nat \<Rightarrow> int \<Rightarrow> query \<Rightarrow> char list \<Rightarrow> (query \<times> query_event list) option" where
  "readQueryFromClient maxlen limit q bytes =
     (let q = q\<lparr>querybuf := querybuf q @ bytes\<rparr>
      in if length (querybuf q) > maxlen then Some (q\<lparr>closing := True\<rparr>, [])
         else processInputBuffer limit q)"

fun read_all :: "nat \<Rightarrow> int \<Rightarrow> query \<Rightarrow> char list list \<Rightarrow> (query \<times> query_event list) option" where
  "read_all maxlen limit q [] = Some (q, [])"
| "read_all maxlen limit q (b # bs) = do {
     (q, evs) \<leftarrow> readQueryFromClient maxlen limit q b;
     (q, evs') \<leftarrow> read_all maxlen limit q bs;
     Some (q, evs @ evs') }"

definition new_query :: query where
  "new_query = \<lparr>querybuf = [], qb_pos = 0, reqtype = REQ_UNKNOWN, multibulklen = 0, bulklen = -1, argv_size = 0, q_argv = [],
     q_master = False, closing = False\<rparr>"

section \<open>The encoder of the client library\<close>

text \<open>\<open>countDigits\<close> and the helper \<open>bulklen\<close> of \<open>hiredis.c\<close>.\<close>

function count_digits :: "nat \<Rightarrow> nat \<Rightarrow> nat" where
  "count_digits v result =
     (if v < 10 then result
      else if v < 100 then result + 1
      else if v < 1000 then result + 2
      else if v < 10000 then result + 3
      else count_digits (v div 10000) (result + 4))"
  by pat_completeness auto
termination
  by (relation "measure fst") auto

definition countDigits :: "nat \<Rightarrow> nat" where
  "countDigits v = count_digits v 1"

definition bulk_size :: "nat \<Rightarrow> nat" where
  "bulk_size len = 1 + countDigits len + 2 + len + 2"

text \<open>\<open>sprintf\<close> writes a terminator behind the text; the next piece overwrites it.\<close>

definition put_text :: "char list \<Rightarrow> nat \<Rightarrow> char list \<Rightarrow> (char list \<times> nat) option" where
  "put_text buf pos s = do {
     buf \<leftarrow> write_at buf pos (s @ [NUL]);
     Some (buf, pos + length s) }"

fun format_args :: "char list \<Rightarrow> nat \<Rightarrow> char list list \<Rightarrow> (char list \<times> nat) option" where
  "format_args cmd pos [] = Some (cmd, pos)"
| "format_args cmd pos (arg # args) = do {
     (cmd, pos) \<leftarrow> put_text cmd pos (CHR ''$'' # show_nat (length arg) @ [CR, LF]);
     cmd \<leftarrow> write_at cmd pos arg;
     let pos = pos + length arg;
     cmd \<leftarrow> store cmd pos CR;
     cmd \<leftarrow> store cmd (pos + 1) LF;
     format_args cmd (pos + 2) args
   }"

text \<open>
  The length is an \<open>int\<close>; \<open>malloced\<close> are the bytes found in the new block. The result has the length and the
  bytes in front of the terminator.
\<close>

definition redisFormatCommandArgv :: "(nat \<Rightarrow> char list) \<Rightarrow> char list list \<Rightarrow> (nat \<times> char list) option" where
  "redisFormatCommandArgv malloced argv =
     (let totlen = 1 + countDigits (length argv) + 2 + sum_list (map (\<lambda>arg. bulk_size (length arg)) argv)
      in if totlen \<ge> 2 ^ 31 - 1 \<or> length (malloced (totlen + 1)) \<noteq> totlen + 1 then None
         else do {
           (cmd, pos) \<leftarrow> put_text (malloced (totlen + 1)) 0 (CHR ''*'' # show_nat (length argv) @ [CR, LF]);
           (cmd, pos) \<leftarrow> format_args cmd pos argv;
           if pos \<noteq> totlen then None
           else do { cmd \<leftarrow> store cmd pos NUL; Some (totlen, take totlen cmd) }
         })"

section \<open>Encoded requests\<close>

definition encode_bulk :: "char list \<Rightarrow> char list" where
  "encode_bulk b = CHR ''$'' # show_nat (length b) @ [CR, LF] @ b @ [CR, LF]"

definition encode_request :: "char list list \<Rightarrow> char list" where
  "encode_request args = CHR ''*'' # show_nat (length args) @ [CR, LF] @ concat (map encode_bulk args)"

definition encode_all :: "char list list list \<Rightarrow> char list" where
  "encode_all reqs = concat (map encode_request reqs)"

definition request_fits :: "int \<Rightarrow> char list list \<Rightarrow> bool" where
  "request_fits limit args \<longleftrightarrow>
     args \<noteq> [] \<and> length args \<le> 1024 * 1024 \<and> (\<forall>b\<in>set args. int (length b) \<le> limit) \<and> \<not> is_quit args"

lemma count_digits_length: "count_digits v result = result + length (show_nat v) - 1"
proof (induction v result rule: count_digits.induct)
  case (1 v result)
  have l: "length (show_nat v) = k" if "10 ^ (k - 1) \<le> v" "v < 10 ^ k" "0 < k" for k
    using length_show_nat_range[of "k - 1" v] that by simp
  consider "v < 10" | "10 \<le> v" "v < 100" | "100 \<le> v" "v < 1000" | "1000 \<le> v" "v < 10000" | "10000 \<le> v" by linarith
  then show ?case
  proof cases
    case 1
    then show ?thesis by (simp add: show_nat_small)
  next
    case 2
    then show ?thesis using l[of 2] by simp
  next
    case 3
    then show ?thesis using l[of 3] by simp
  next
    case 4
    then show ?thesis using l[of 4] by simp
  next
    case 5
    then have "count_digits v result = count_digits (v div 10000) (result + 4)" by simp
    moreover have "length (show_nat v) = 4 + length (show_nat (v div 10000))" using length_show_nat_split[of 4 v] 5 by simp
    moreover have "0 < length (show_nat (v div 10000))" using show_nat_nonempty by simp
    ultimately show ?thesis using 1 5 by simp
  qed
qed

declare count_digits.simps [simp del]

lemma countDigits_length: "countDigits v = length (show_nat v)"
  using show_nat_nonempty[of v] by (cases "show_nat v") (simp_all add: countDigits_def count_digits_length)

lemma length_encode_bulk: "length (encode_bulk b) = bulk_size (length b)"
  by (simp add: encode_bulk_def bulk_size_def countDigits_length)

lemma write_next:
  assumes "length (done @ s) \<le> length buf" "take (length done) buf = done"
  obtains buf' where "write_at buf (length done) s = Some buf'" "length buf' = length buf" "take (length (done @ s)) buf' = done @ s"
  using assms by (auto simp: write_at_def)

lemma put_text_next:
  assumes "length (done @ s) < length buf" "take (length done) buf = done"
  obtains buf' where "put_text buf (length done) s = Some (buf', length (done @ s))" "length buf' = length buf"
    "take (length (done @ s)) buf' = done @ s"
proof -
  obtain buf' where w: "write_at buf (length done) (s @ [NUL]) = Some buf'" "length buf' = length buf"
      "take (length (done @ s @ [NUL])) buf' = done @ s @ [NUL]"
    by (rule write_next[of "done" "s @ [NUL]" buf]) (use assms in auto)
  have "take (length (done @ s)) (take (length (done @ s @ [NUL])) buf') = done @ s" unfolding w(3) by simp
  then show thesis using that[of buf'] w(1,2) by (simp add: put_text_def)
qed

lemma store_next:
  assumes "length done < length buf" "take (length done) buf = done"
  obtains buf' where "store buf (length done) x = Some buf'" "length buf' = length buf" "take (length (done @ [x])) buf' = done @ [x]"
  using assms by (auto simp: store_def take_Suc_conv_app_nth)

text \<open>The buffer has been filled up to a position, with room for the rest.\<close>

lemma format_args_spec:
  assumes "length buf = length done + sum_list (map (\<lambda>arg. bulk_size (length arg)) args) + 1" "take (length done) buf = done"
  shows "\<exists>buf'. format_args buf (length done) args = Some (buf', length done + length (concat (map encode_bulk args))) \<and>
    length buf' = length buf \<and> take (length done + length (concat (map encode_bulk args))) buf' = done @ concat (map encode_bulk args)"
  using assms
proof (induction args arbitrary: buf "done")
  case (Cons arg args)
  let ?h = "CHR ''$'' # show_nat (length arg) @ [CR, LF]"
  define d1 d2 d3 d4 where "d1 = done @ ?h" and "d2 = d1 @ arg" and "d3 = d2 @ [CR]" and "d4 = d3 @ [LF]"
  note ds = this
  have e: "d4 = done @ encode_bulk arg" by (simp add: ds encode_bulk_def)
  have len: "length buf = length d4 + sum_list (map (\<lambda>arg. bulk_size (length arg)) args) + 1"
    using Cons.prems(1) unfolding e by (simp add: length_encode_bulk)
  obtain b1 where b1: "put_text buf (length done) ?h = Some (b1, length d1)" "length b1 = length buf" "take (length d1) b1 = d1"
    unfolding d1_def by (rule put_text_next[of "done" ?h buf]) (use Cons.prems(2) len ds in auto)
  obtain b2 where b2: "write_at b1 (length d1) arg = Some b2" "length b2 = length b1" "take (length d2) b2 = d2"
    unfolding d2_def by (rule write_next[of d1 arg b1]) (use b1(2,3) len d2_def d3_def d4_def in auto)
  obtain b3 where b3: "store b2 (length d2) CR = Some b3" "length b3 = length b2" "take (length d3) b3 = d3"
    unfolding d3_def by (rule store_next[of d2 b2 CR]) (use b2(2,3) b1(2) len d3_def d4_def in auto)
  obtain b4 where b4: "store b3 (length d3) LF = Some b4" "length b4 = length b3" "take (length d4) b4 = d4"
    unfolding d4_def by (rule store_next[of d3 b3 LF]) (use b3(2,3) b2(2) b1(2) len d4_def in auto)
  have "length b4 = length d4 + sum_list (map (\<lambda>arg. bulk_size (length arg)) args) + 1"
    using b4(2) b3(2) b2(2) b1(2) len by simp
  from Cons.IH[OF this b4(3)] obtain b5 where b5: "format_args b4 (length d4) args = Some (b5, length d4 + length (concat (map encode_bulk args)))"
      "length b5 = length b4" "take (length d4 + length (concat (map encode_bulk args))) b5 = d4 @ concat (map encode_bulk args)" by blast
  have "length d2 = length d1 + length arg" "length d3 = length d1 + length arg + 1" "length d4 = length d1 + length arg + 2"
    by (simp_all add: d2_def d3_def d4_def)
  then have "format_args buf (length done) (arg # args) = Some (b5, length d4 + length (concat (map encode_bulk args)))"
    using b1(1) b2(1) b3(1) b4(1) b5(1) by simp
  then show ?case using b5(2,3) b4(2) b3(2) b2(2) b1(2) by (simp add: e add.assoc)
qed simp

lemma redisFormatCommandArgv_spec:
  assumes "\<And>n. length (malloced n) = n" "length (encode_request argv) < 2 ^ 31 - 1"
  shows "redisFormatCommandArgv malloced argv = Some (length (encode_request argv), encode_request argv)"
proof -
  let ?h = "CHR ''*'' # show_nat (length argv) @ [CR, LF]"
  define totlen where "totlen = 1 + countDigits (length argv) + 2 + sum_list (map (\<lambda>arg. bulk_size (length arg)) argv)"
  have t: "totlen = length (encode_request argv)" "totlen = length ?h + length (concat (map encode_bulk argv))"
    by (simp_all add: totlen_def encode_request_def countDigits_length length_concat comp_def length_encode_bulk)
  have r: "encode_request argv = ?h @ concat (map encode_bulk argv)" by (simp add: encode_request_def)
  obtain b1 where b1: "put_text (malloced (totlen + 1)) (length ([] :: char list)) ?h = Some (b1, length ([] @ ?h))"
      "length b1 = length (malloced (totlen + 1))" "take (length ([] @ ?h)) b1 = [] @ ?h"
    by (rule put_text_next[of "[]" ?h "malloced (totlen + 1)"]) (use assms(1) t(2) in auto)
  have "length b1 = length ?h + sum_list (map (\<lambda>arg. bulk_size (length arg)) argv) + 1"
    using b1(2) assms(1) by (simp add: totlen_def countDigits_length)
  moreover have "take (length ?h) b1 = ?h" using b1(3) by simp
  ultimately obtain b2 where b2: "format_args b1 (length ?h) argv = Some (b2, length ?h + length (concat (map encode_bulk argv)))" "length b2 = length b1"
      "take (length ?h + length (concat (map encode_bulk argv))) b2 = ?h @ concat (map encode_bulk argv)"
    using format_args_spec[of b1 ?h argv] by blast
  have "store b2 totlen NUL = Some (b2[totlen := NUL])" using b1(2) b2(2) assms(1) by simp
  moreover have "take totlen (b2[totlen := NUL]) = encode_request argv" using b2(3) r t(2) by simp
  moreover have "\<not> (totlen \<ge> 2 ^ 31 - 1 \<or> length (malloced (totlen + 1)) \<noteq> totlen + 1)" using assms t(1) by simp
  ultimately show ?thesis
    unfolding redisFormatCommandArgv_def totlen_def[symmetric] Let_def using b1(1) b2(1) t by simp
qed

section \<open>Parsing encoded requests\<close>

lemma show_nat_plain: "NUL \<notin> set (show_nat n)" "CR \<notin> set (show_nat n)"
  using show_nat_digits[of n] by (auto simp: list_all_iff is_digit_def NUL_def)

lemma cstr_plain: "NUL \<notin> set xs \<Longrightarrow> cstr xs = xs"
  by (auto simp: cstr_def takeWhile_eq_all_conv)

lemma strchr_none: "c \<notin> set xs \<Longrightarrow> strchr xs c = None"
proof -
  assume "c \<notin> set xs"
  then have "c \<notin> set (cstr xs)" by (auto simp: cstr_def dest: set_takeWhileD)
  then have "takeWhile (\<lambda>x. x \<noteq> c) (cstr xs) = cstr xs" unfolding takeWhile_eq_all_conv by metis
  then show ?thesis by (simp add: strchr_def Let_def del: takeWhile_eq_all_conv)
qed

lemma strchr_found:
  assumes "c \<notin> set xs" "NUL \<notin> set xs" "c \<noteq> NUL"
  shows "strchr (xs @ c # ys) c = Some (length xs)"
proof -
  have "cstr (xs @ c # ys) = xs @ c # cstr ys" using assms by (auto simp: cstr_def takeWhile_append)
  moreover have "takeWhile (\<lambda>x. x \<noteq> c) (xs @ c # cstr ys) = xs" using assms(1) by (auto simp: takeWhile_append)
  ultimately show ?thesis by (simp add: strchr_def)
qed

text \<open>A line of which a part has arrived.\<close>

lemma line_arrives:
  assumes u: "u @ fut = line @ CR # LF # mr" and line: "CR \<notin> set line" "NUL \<notin> set line"
  obtains (none) "strchr u CR = None" "length u \<le> length line" "length mr < length fut"
    | (cr) "strchr u CR = Some (length line)" "int (length line) > int (length u) - 2" "length mr < length fut"
    | (whole) rest where "strchr u CR = Some (length line)" "\<not> int (length line) > int (length u) - 2" "u = line @ CR # LF # rest"
        "rest @ fut = mr"
proof -
  consider "length u \<le> length line" | "length u = Suc (length line)" | "length u \<ge> length line + 2" by linarith
  then show thesis
  proof cases
    case 1
    then have "u = take (length u) line" using arg_cong[OF u, of "take (length u)"] by simp
    then have "set u \<subseteq> set line" using set_take_subset by metis
    moreover have "length mr < length fut" using 1 arg_cong[OF u, of length] by auto
    ultimately show thesis using none[OF strchr_none 1] line(1) by blast
  next
    case 2
    then have "u = line @ [CR]" using arg_cong[OF u, of "take (length u)"] by simp
    moreover have "length mr < length fut" using 2 arg_cong[OF u, of length] by auto
    ultimately show thesis using cr strchr_found[OF line, of "[]"] by (auto simp: NUL_def)
  next
    case 3
    have e: "line @ CR # LF # mr = (line @ [CR, LF]) @ mr" by simp
    have t: "take (length line + 2) u = line @ [CR, LF]"
      using arg_cong[OF u[unfolded e], of "take (length line + 2)"] 3 by simp
    define rest where "rest = drop (length line + 2) u"
    have ur: "u = line @ CR # LF # rest" using append_take_drop_id[of "length line + 2" u] unfolding t rest_def by simp
    moreover have "rest @ fut = mr" using u unfolding ur by simp
    moreover have "strchr u CR = Some (length line)" unfolding ur using strchr_found[OF line] by (auto simp: NUL_def)
    ultimately show thesis using whole 3 by auto
  qed
qed

lemma string2ll_nat: "int n \<le> LLONG_MAX \<Longrightarrow> string2ll (show_nat n) = Some (int n)"
  by (simp add: string2ll_spec show_int_def LLONG_MIN_def)

definition open_query :: "query \<Rightarrow> bool" where
  "open_query q \<longleftrightarrow> \<not> closing q \<and> \<not> q_master q \<and> qb_pos q \<le> length (querybuf q)"

text \<open>
  In the middle of a request: the arguments \<open>done\<close> have been read, \<open>rest\<close> is still to come, and \<open>inp\<close> is
  the input from here on, when \<open>tail\<close> follows the request.
\<close>

definition middle :: "query \<Rightarrow> char list list \<Rightarrow> char list list \<Rightarrow> char list \<Rightarrow> char list \<Rightarrow> bool" where
  "middle q done rest tail inp \<longleftrightarrow>
     open_query q \<and> reqtype q = PROTO_REQ_MULTIBULK \<and> multibulklen q = length rest \<and> q_argv q = done \<and>
     argv_size q = length done + length rest \<and>
     ((bulklen q = -1 \<and> inp = concat (map encode_bulk rest) @ tail) \<or>
      (\<exists>b rest'. rest = b # rest' \<and> bulklen q = int (length b) \<and> inp = b @ CR # LF # concat (map encode_bulk rest') @ tail))"

lemma unread_fetch: "unread q = c # cs \<Longrightarrow> fetch (querybuf q) (qb_pos q) = Some c"
  by (metis fetch_in drop_eq_Nil list.distinct(1) list.sel(1) hd_drop_conv_nth not_le unread_def)

lemma unread_skip: "unread q = xs @ ys \<Longrightarrow> unread (q\<lparr>qb_pos := qb_pos q + length xs\<rparr>) = ys"
  by (simp add: unread_def add.commute flip: drop_drop)

lemma read_bulklen_known: "bulklen q \<noteq> -1 \<Longrightarrow> read_bulklen limit q = Some (q, [], True)"
  by (simp add: read_bulklen_def)

lemma read_bulklen_middle:
  assumes m: "middle q done (b # rest) tail (unread q @ fut)" and b: "int (length b) \<le> limit" "limit \<le> LLONG_MAX" and q: "bulklen q = -1"
  shows "(read_bulklen limit q = Some (q, [], False) \<and> length tail < length fut) \<or>
    (\<exists>q'. read_bulklen limit q = Some (q', [], True) \<and> bulklen q' = int (length b) \<and> middle q' done (b # rest) tail (unread q' @ fut))"
proof -
  let ?line = "CHR ''$'' # show_nat (length b)"
  have u: "unread q @ fut = ?line @ CR # LF # b @ CR # LF # concat (map encode_bulk rest) @ tail"
    using m q by (auto simp: middle_def encode_bulk_def)
  have line: "CR \<notin> set ?line" "NUL \<notin> set ?line" using show_nat_plain by (auto simp: NUL_def)
  have small: "length ?line \<le> PROTO_INLINE_MAX_SIZE"
    using show_nat_u64_short[of "length b"] b by (simp add: LLONG_MAX_def PROTO_INLINE_MAX_SIZE_def)
  show ?thesis
  proof (rule line_arrives[OF u line], goal_cases none cr whole)
    case none
    then show ?thesis using q small by (simp add: read_bulklen_def)
  next
    case cr
    then show ?thesis using q by (simp add: read_bulklen_def)
  next
    case (whole r)
    have f: "fetch (querybuf q) (qb_pos q) = Some CHR ''$''" using unread_fetch[of q] whole(3) by simp
    have n: "string2ll (take (length ?line - 1) (drop 1 (unread q))) = Some (int (length b))"
      using whole(3) string2ll_nat[of "length b"] b by simp
    let ?q1 = "q\<lparr>qb_pos := qb_pos q + length ?line + 2\<rparr>"
    let ?q2 = "if int (length b) \<ge> int PROTO_MBULK_BIG_ARG \<and> int (length (unread ?q1)) \<le> int (length b) + 2
      then ?q1\<lparr>querybuf := unread ?q1, qb_pos := 0\<rparr> else ?q1"
    have r1: "unread ?q1 = r" using unread_skip[of q "?line @ [CR, LF]" r] whole(3) by simp
    have "qb_pos q + length ?line + 2 \<le> length (querybuf q)"
      using arg_cong[OF whole(3), of length] m by (simp add: unread_def middle_def open_query_def)
    then have "unread (?q2\<lparr>bulklen := int (length b)\<rparr>) = r" "open_query (?q2\<lparr>bulklen := int (length b)\<rparr>)"
      using r1 m by (auto simp: unread_def open_query_def middle_def)
    moreover have "read_bulklen limit q = Some (?q2\<lparr>bulklen := int (length b)\<rparr>, [], True)"
      using whole(1,2) f n q b(1) m by (simp add: read_bulklen_def middle_def open_query_def Let_def)
    ultimately show ?thesis using m whole(4) q by (auto simp: middle_def)
  qed
qed

lemma take_bulk_middle:
  assumes m: "middle q done (b # rest) tail (unread q @ fut)" and k: "bulklen q = int (length b)" and l: "length b + 2 \<le> length (unread q)"
  shows "\<exists>q'. take_bulk q = Some q' \<and> middle q' (done @ [b]) rest tail (unread q' @ fut)"
proof -
  have e: "b @ CR # LF # concat (map encode_bulk rest) @ tail = (b @ [CR, LF]) @ concat (map encode_bulk rest) @ tail" by simp
  have u: "unread q @ fut = (b @ [CR, LF]) @ concat (map encode_bulk rest) @ tail" using m k unfolding e[symmetric] by (auto simp: middle_def)
  define r where "r = drop (length b + 2) (unread q)"
  have "take (length b + 2) (unread q) = b @ [CR, LF]" using arg_cong[OF u, of "take (length b + 2)"] l by simp
  then have ur: "unread q = (b @ [CR, LF]) @ r" using append_take_drop_id[of "length b + 2" "unread q"] unfolding r_def by metis
  then have r: "r @ fut = concat (map encode_bulk rest) @ tail" using u by simp
  have pos: "qb_pos q + length b + 2 \<le> length (querybuf q)" using l by (simp add: unread_def)
  let ?q = "q\<lparr>q_argv := q_argv q @ [b], bulklen := -1, multibulklen := multibulklen q - 1\<rparr>"
  have tb: "take_bulk q = Some (if qb_pos q = 0 \<and> length b \<ge> PROTO_MBULK_BIG_ARG \<and> length (querybuf q) = length b + 2
      then ?q\<lparr>querybuf := []\<rparr> else ?q\<lparr>qb_pos := qb_pos q + length b + 2\<rparr>)"
    using m k ur by (simp add: take_bulk_def middle_def Let_def)
  show ?thesis
  proof (cases "qb_pos q = 0 \<and> length b \<ge> PROTO_MBULK_BIG_ARG \<and> length (querybuf q) = length b + 2")
    case True
    then have "r = []" using ur arg_cong[OF ur, of length] by (simp add: unread_def)
    then show ?thesis using tb True m r by (auto simp: middle_def open_query_def unread_def)
  next
    case False
    have "unread (?q\<lparr>qb_pos := qb_pos q + length b + 2\<rparr>) = r" using unread_skip[OF ur] by (simp add: unread_def add.assoc)
    then show ?thesis using tb False m r pos by (auto simp: middle_def open_query_def)
  qed
qed

lemma multibulk_loop_middle:
  assumes "middle q done rest tail (unread q @ fut)" "\<forall>b\<in>set rest. int (length b) \<le> limit" "limit \<le> LLONG_MAX - 2"
  shows "(\<exists>q'. multibulk_loop limit q = Some (q', [], True) \<and> middle q' (done @ rest) [] tail (unread q' @ fut)) \<or>
    (\<exists>q' d r. multibulk_loop limit q = Some (q', [], False) \<and> middle q' d r tail (unread q' @ fut) \<and> d @ r = done @ rest \<and> r \<noteq> [] \<and> length tail < length fut)"
  using assms
proof (induction rest arbitrary: q "done")
  case Nil
  then show ?case by (auto simp: middle_def)
next
  case (Cons b rest)
  have mb: "multibulklen q \<noteq> 0" using Cons.prems(1) by (simp add: middle_def)
  have lim: "int (length b) \<le> limit" "limit \<le> LLONG_MAX" using Cons.prems(2,3) by simp_all
  consider (wait) "read_bulklen limit q = Some (q, [], False)" "length tail < length fut"
    | (go) q1 where "read_bulklen limit q = Some (q1, [], True)" "bulklen q1 = int (length b)" "middle q1 done (b # rest) tail (unread q1 @ fut)"
  proof (cases "bulklen q = -1")
    case True
    then show thesis using read_bulklen_middle[OF Cons.prems(1) lim] that by blast
  next
    case False
    then show thesis using that(2)[of q] read_bulklen_known[OF False] Cons.prems(1) by (auto simp: middle_def)
  qed
  then show ?case
  proof cases
    case wait
    have "multibulk_loop limit q = Some (q, [], False)" by (subst multibulk_loop.simps) (simp add: mb wait(1))
    then show ?thesis using wait(2) Cons.prems(1) by blast
  next
    case go
    show ?thesis
    proof (cases "length (unread q1) < length b + 2")
      case True
      have "multibulk_loop limit q = Some (q1, [], False)"
        using True go lim Cons.prems(3) by (subst multibulk_loop.simps) (simp add: mb)
      moreover have "unread q1 @ fut = b @ CR # LF # concat (map encode_bulk rest) @ tail" using go(2,3) by (auto simp: middle_def)
      from arg_cong[OF this, of length] have "length tail < length fut" using True by simp
      ultimately show ?thesis using go(3) by blast
    next
      case False
      then obtain q2 where q2: "take_bulk q1 = Some q2" "middle q2 (done @ [b]) rest tail (unread q2 @ fut)"
        using take_bulk_middle[OF go(3,2)] by auto
      have "multibulk_loop limit q = multibulk_loop limit q2"
        using False go lim q2(1) Cons.prems(3) by (subst multibulk_loop.simps) (simp add: mb)
      then show ?thesis using Cons.IH[OF q2(2)] Cons.prems(2,3) by simp
    qed
  qed
qed

declare multibulk_loop.simps [simp del]

text \<open>Between two requests.\<close>

definition between :: "query \<Rightarrow> bool" where
  "between q \<longleftrightarrow> open_query q \<and> multibulklen q = 0 \<and> bulklen q = -1 \<and> q_argv q = []"

lemma multibulk_header_between:
  assumes q: "between q" "reqtype q = PROTO_REQ_MULTIBULK" and u: "unread q @ fut = encode_request args @ tail"
    and args: "args \<noteq> []" "length args \<le> 1024 * 1024"
  shows "(multibulk_header q = Some (q, [], Some False) \<and> length tail < length fut) \<or>
    (\<exists>q'. multibulk_header q = Some (q', [], None) \<and> middle q' [] args tail (unread q' @ fut))"
proof -
  let ?line = "CHR ''*'' # show_nat (length args)"
  have u: "unread q @ fut = ?line @ CR # LF # concat (map encode_bulk args) @ tail"
    using u by (simp add: encode_request_def)
  have line: "CR \<notin> set ?line" "NUL \<notin> set ?line" using show_nat_plain by (auto simp: NUL_def)
  have small: "length ?line \<le> PROTO_INLINE_MAX_SIZE"
    using show_nat_u64_short[of "length args"] args by (simp add: PROTO_INLINE_MAX_SIZE_def)
  have a: "q_argv q = []" using q(1) by (simp add: between_def)
  show ?thesis
  proof (rule line_arrives[OF u line], goal_cases none cr whole)
    case none
    then show ?case using a small by (simp add: multibulk_header_def)
  next
    case cr
    then show ?case using a by (simp add: multibulk_header_def)
  next
    case (whole r)
    have f: "fetch (querybuf q) (qb_pos q) = Some CHR ''*''" using unread_fetch[of q] whole(3) by simp
    have n: "string2ll (take (length ?line - 1) (drop 1 (unread q))) = Some (int (length args))"
      using whole(3) string2ll_nat[of "length args"] args by (simp add: LLONG_MAX_def)
    let ?q1 = "q\<lparr>qb_pos := qb_pos q + length ?line + 2\<rparr>"
    let ?q2 = "?q1\<lparr>multibulklen := length args, argv_size := length args\<rparr>"
    have r1: "unread ?q1 = r" using unread_skip[of q "?line @ [CR, LF]" r] whole(3) by simp
    then have r2: "unread ?q2 = r" by (simp add: unread_def)
    have "qb_pos q + length ?line + 2 \<le> length (querybuf q)"
      using arg_cong[OF whole(3), of length] by (simp add: unread_def)
    then have "middle ?q2 [] args tail (unread ?q2 @ fut)"
      unfolding r2 using q whole(4) by (auto simp: middle_def between_def open_query_def)
    moreover have "multibulk_header q = Some (?q2, [], None)"
      using whole(1,2) f n a args by (simp add: multibulk_header_def Let_def)
    ultimately show ?case by blast
  qed
qed

definition awaits :: "query \<Rightarrow> char list \<Rightarrow> char list list list \<Rightarrow> bool" where
  "awaits q inp reqs \<longleftrightarrow>
     (between q \<and> inp = encode_all reqs \<and> (reqtype q = REQ_UNKNOWN \<or> reqtype q = PROTO_REQ_MULTIBULK \<and> reqs \<noteq> [])) \<or>
     (\<exists>d r reqs'. reqs = (d @ r) # reqs' \<and> r \<noteq> [] \<and> middle q d r (encode_all reqs') inp)"

lemma encode_all_Cons: "encode_all (req # reqs) = encode_request req @ encode_all reqs"
  by (simp add: encode_all_def)

lemma encode_all_Nil [simp]: "encode_all [] = []"
  by (simp add: encode_all_def)

lemma multibulk_awaits:
  assumes a: "awaits q (unread q @ fut) (req # reqs)" and t: "reqtype q = PROTO_REQ_MULTIBULK" and f: "request_fits limit req" "limit \<le> LLONG_MAX - 2"
  shows "(\<exists>q'. processMultibulkBuffer limit q = Some (q', [], True) \<and> middle q' req [] (encode_all reqs) (unread q' @ fut)) \<or>
    (\<exists>q'. processMultibulkBuffer limit q = Some (q', [], False) \<and> awaits q' (unread q' @ fut) (req # reqs) \<and> length (encode_all reqs) < length fut)"
proof -
  have loop: ?thesis if p: "processMultibulkBuffer limit q = multibulk_loop limit q1" and m: "middle q1 d r (encode_all reqs) (unread q1 @ fut)" "d @ r = req"
    for q1 d r
  proof -
    have "\<forall>b\<in>set r. int (length b) \<le> limit" using f(1) m(2) by (auto simp: request_fits_def)
    from multibulk_loop_middle[OF m(1) this f(2)] show ?thesis unfolding p m(2) awaits_def by blast
  qed
  from a consider (header) "between q" "unread q @ fut = encode_request req @ encode_all reqs"
    | (mid) d r where "req = d @ r" "r \<noteq> []" "middle q d r (encode_all reqs) (unread q @ fut)"
    by (auto simp: awaits_def encode_all_Cons)
  then show ?thesis
  proof cases
    case header
    have mb: "multibulklen q = 0" using header(1) by (simp add: between_def)
    have "req \<noteq> []" "length req \<le> 1024 * 1024" using f(1) by (simp_all add: request_fits_def)
    from multibulk_header_between[OF header(1) t header(2) this] show ?thesis
    proof
      assume w: "multibulk_header q = Some (q, [], Some False) \<and> length (encode_all reqs) < length fut"
      then have "processMultibulkBuffer limit q = Some (q, [], False)" using mb by (simp add: processMultibulkBuffer_def)
      then show ?thesis using w a by blast
    next
      assume "\<exists>q'. multibulk_header q = Some (q', [], None) \<and> middle q' [] req (encode_all reqs) (unread q' @ fut)"
      then obtain q' where q': "multibulk_header q = Some (q', [], None)" "middle q' [] req (encode_all reqs) (unread q' @ fut)" by blast
      have "multibulklen q' > 0" using q'(2) f(1) by (auto simp: middle_def request_fits_def)
      then have "processMultibulkBuffer limit q = multibulk_loop limit q'" using mb q'(1) by (simp add: processMultibulkBuffer_def)
      from loop[OF this q'(2)] show ?thesis by simp
    qed
  next
    case mid
    have "multibulklen q > 0" using mid by (simp add: middle_def)
    then have "processMultibulkBuffer limit q = multibulk_loop limit q" by (simp add: processMultibulkBuffer_def)
    from loop[OF this mid(3)] show ?thesis using mid(1) by simp
  qed
qed

lemma awaits_empty: "awaits q [] reqs \<Longrightarrow> reqs = [] \<and> between q \<and> reqtype q = REQ_UNKNOWN"
  by (cases reqs) (auto simp: awaits_def encode_all_Cons encode_request_def middle_def encode_bulk_def)

lemma awaits_needs: "awaits q inp (req # reqs) \<Longrightarrow> length (encode_all reqs) < length inp"
  by (auto simp: awaits_def encode_all_Cons encode_request_def middle_def encode_bulk_def neq_Nil_conv)

lemma awaits_open: "awaits q inp reqs \<Longrightarrow> open_query q"
  by (auto simp: awaits_def between_def middle_def)

lemma middle_reset: "middle q req [] tail inp \<Longrightarrow> between (resetClient q) \<and> reqtype (resetClient q) = REQ_UNKNOWN \<and>
    unread (resetClient q) = unread q \<and> inp = tail \<and> q_argv q = req"
  by (auto simp: middle_def between_def resetClient_def open_query_def unread_def)

lemma determine_unread [simp]: "unread (determine_reqtype q) = unread q"
  by (simp add: determine_reqtype_def unread_def)

lemma awaits_start:
  assumes "awaits q (unread q @ fut) (req # reqs)" "unread q \<noteq> []"
  shows "awaits (determine_reqtype q) (unread q @ fut) (req # reqs) \<and> reqtype (determine_reqtype q) = PROTO_REQ_MULTIBULK"
proof (cases "reqtype q = REQ_UNKNOWN")
  case True
  have "unread q @ fut = CHR ''*'' # tl (encode_all (req # reqs))"
    using assms(1) True by (auto simp: awaits_def middle_def encode_all_Cons encode_request_def)
  then have "hd (unread q) = CHR ''*''" using assms(2) by (cases "unread q") auto
  then have "querybuf q ! qb_pos q = CHR ''*''" using assms(2) by (simp add: unread_def hd_drop_conv_nth)
  then have "determine_reqtype q = q\<lparr>reqtype := PROTO_REQ_MULTIBULK\<rparr>" using True by (simp add: determine_reqtype_def)
  moreover have "awaits (q\<lparr>reqtype := PROTO_REQ_MULTIBULK\<rparr>) (unread q @ fut) (req # reqs)"
    using assms(1) True by (auto simp: awaits_def between_def open_query_def middle_def)
  ultimately show ?thesis by simp
next
  case False
  then have "determine_reqtype q = q" by (simp add: determine_reqtype_def)
  then show ?thesis using assms(1) False by (auto simp: awaits_def middle_def)
qed

lemma input_loop_awaits:
  assumes "awaits q (unread q @ fut) reqs" "\<forall>r\<in>set reqs. request_fits limit r" "limit \<le> LLONG_MAX - 2"
  shows "\<exists>q' d reqs'. input_loop limit q = Some (q', map Query d) \<and> reqs = d @ reqs' \<and> awaits q' (unread q' @ fut) reqs' \<and>
    (fut = [] \<longrightarrow> unread q' = []) \<and> (reqs' \<noteq> [] \<longrightarrow> length (encode_all (tl reqs')) < length fut)"
  using assms
proof (induction reqs arbitrary: q)
  case Nil
  then have "unread q = []" by (auto simp: awaits_def)
  then have "input_loop limit q = Some (q, [])" by (subst input_loop.simps) (simp add: unread_def)
  then show ?case using Nil(1) \<open>unread q = []\<close> by auto
next
  case (Cons req reqs)
  show ?case
  proof (cases "unread q = []")
    case True
    then have "input_loop limit q = Some (q, [])" by (subst input_loop.simps) (simp add: unread_def)
    moreover have "length (encode_all reqs) < length fut" using awaits_needs[OF Cons.prems(1)] True by simp
    ultimately show ?thesis using Cons.prems(1) True by (intro exI[of _ q] exI[of _ "[]"] exI[of _ "req # reqs"]) simp
  next
    case False
    let ?q = "determine_reqtype q"
    have s: "awaits ?q (unread ?q @ fut) (req # reqs)" "reqtype ?q = PROTO_REQ_MULTIBULK"
      using awaits_start[OF Cons.prems(1) False] by simp_all
    have c: "qb_pos q < length (querybuf q) \<and> \<not> closing q"
      using False awaits_open[OF Cons.prems(1)] by (simp add: unread_def open_query_def)
    have st: "input_loop limit q = do {
        (q, evs, ok) \<leftarrow> processMultibulkBuffer limit ?q;
        if \<not> ok then Some (q, evs) else if q_argv q = [] then input_loop limit (resetClient q)
        else do {
          let args = q_argv q;
          (q, evs) \<leftarrow> input_loop limit (if is_quit args then q\<lparr>closing := True\<rparr> else resetClient q);
          Some (q, Query args # evs) } }"
      unfolding input_loop.simps[of limit q] if_P[OF c] Let_def s(2) by simp
    have f: "request_fits limit req" using Cons.prems(2) by simp
    from multibulk_awaits[OF s f Cons.prems(3)] show ?thesis
    proof
      assume "\<exists>q'. processMultibulkBuffer limit ?q = Some (q', [], True) \<and> middle q' req [] (encode_all reqs) (unread q' @ fut)"
      then obtain q' where q': "processMultibulkBuffer limit ?q = Some (q', [], True)" "middle q' req [] (encode_all reqs) (unread q' @ fut)" by blast
      note r = middle_reset[OF q'(2)]
      have "awaits (resetClient q') (unread (resetClient q') @ fut) reqs" using r by (simp add: awaits_def)
      then obtain q2 d reqs' where q2: "input_loop limit (resetClient q') = Some (q2, map Query d)" "reqs = d @ reqs'"
          "awaits q2 (unread q2 @ fut) reqs'" "fut = [] \<longrightarrow> unread q2 = []" "reqs' \<noteq> [] \<longrightarrow> length (encode_all (tl reqs')) < length fut"
        using Cons.IH[of "resetClient q'"] Cons.prems(2,3) by auto
      have "input_loop limit q = Some (q2, map Query (req # d))"
        unfolding st using q'(1) r q2(1) f by (simp add: request_fits_def)
      then show ?thesis using q2 by (intro exI[of _ q2] exI[of _ "req # d"] exI[of _ reqs']) simp
    next
      assume "\<exists>q'. processMultibulkBuffer limit ?q = Some (q', [], False) \<and> awaits q' (unread q' @ fut) (req # reqs) \<and> length (encode_all reqs) < length fut"
      then obtain q' where q': "processMultibulkBuffer limit ?q = Some (q', [], False)" "awaits q' (unread q' @ fut) (req # reqs)"
          "length (encode_all reqs) < length fut" by blast
      have "input_loop limit q = Some (q', [])" unfolding st using q'(1) by simp
      then show ?thesis using q' by (intro exI[of _ q'] exI[of _ "[]"] exI[of _ "req # reqs"]) auto
    qed
  qed
qed

lemma awaits_trim: "awaits q inp reqs \<Longrightarrow> awaits (q\<lparr>querybuf := unread q, qb_pos := 0\<rparr>) inp reqs"
  by (auto simp: awaits_def between_def middle_def open_query_def)

lemma awaits_more: "awaits q inp reqs \<Longrightarrow> awaits (q\<lparr>querybuf := querybuf q @ b\<rparr>) inp reqs"
  by (auto simp: awaits_def between_def middle_def open_query_def)

lemma unread_more: "open_query q \<Longrightarrow> unread (q\<lparr>querybuf := querybuf q @ b\<rparr>) = unread q @ b"
  by (simp add: unread_def open_query_def)

lemma awaits_length: "awaits q inp reqs \<Longrightarrow> length inp \<le> length (encode_all reqs)"
  by (auto simp: awaits_def middle_def encode_all_Cons encode_request_def encode_bulk_def)

lemma read_awaits:
  assumes a: "awaits q (querybuf q @ b @ fut) reqs" and f: "\<forall>r\<in>set reqs. request_fits limit r" "limit \<le> LLONG_MAX - 2"
    and z: "qb_pos q = 0" "length (querybuf q @ b) \<le> maxlen"
  shows "\<exists>q' d reqs'. readQueryFromClient maxlen limit q b = Some (q', map Query d) \<and> reqs = d @ reqs' \<and>
    awaits q' (querybuf q' @ fut) reqs' \<and> qb_pos q' = 0 \<and> (fut = [] \<longrightarrow> querybuf q' = []) \<and>
    (reqs' \<noteq> [] \<longrightarrow> length (encode_all (tl reqs')) < length fut)"
proof -
  let ?q = "q\<lparr>querybuf := querybuf q @ b\<rparr>"
  have "awaits ?q (unread ?q @ fut) reqs" using awaits_more[OF a, of b] z(1) by (simp add: unread_def)
  from input_loop_awaits[OF this f] obtain q1 d reqs' where q1: "input_loop limit ?q = Some (q1, map Query d)" "reqs = d @ reqs'"
      "awaits q1 (unread q1 @ fut) reqs'" "fut = [] \<longrightarrow> unread q1 = []" "reqs' \<noteq> [] \<longrightarrow> length (encode_all (tl reqs')) < length fut" by blast
  let ?q1 = "q1\<lparr>querybuf := unread q1, qb_pos := 0\<rparr>"
  have "readQueryFromClient maxlen limit q b = Some (?q1, map Query d)"
    using q1(1) z(2) by (simp add: readQueryFromClient_def processInputBuffer_def Let_def)
  moreover have "awaits ?q1 (querybuf ?q1 @ fut) reqs'" using awaits_trim[OF q1(3)] by simp
  ultimately show ?thesis using q1(2,4,5) by (intro exI[of _ ?q1] exI[of _ d] exI[of _ reqs']) simp
qed

lemma read_all_awaits:
  assumes "awaits q (querybuf q @ concat bs) reqs" "\<forall>r\<in>set reqs. request_fits limit r" "limit \<le> LLONG_MAX - 2"
    "qb_pos q = 0" "length (encode_all reqs) \<le> maxlen" "concat bs = [] \<longrightarrow> querybuf q = []"
  shows "\<exists>q'. read_all maxlen limit q bs = Some (q', map Query reqs) \<and> awaits q' [] [] \<and> querybuf q' = [] \<and> qb_pos q' = 0"
  using assms
proof (induction bs arbitrary: q reqs)
  case Nil
  then show ?case using awaits_empty[of q reqs] by simp
next
  case (Cons b bs)
  obtain q1 d reqs' where q1: "readQueryFromClient maxlen limit q b = Some (q1, map Query d)" "reqs = d @ reqs'"
      "awaits q1 (querybuf q1 @ concat bs) reqs'" "qb_pos q1 = 0" "concat bs = [] \<longrightarrow> querybuf q1 = []"
    using read_awaits[OF _ Cons.prems(2-4), of b "concat bs" maxlen] awaits_length[OF Cons.prems(1)] Cons.prems(1,5) by auto
  have "length (encode_all reqs') \<le> maxlen" using Cons.prems(5) q1(2) by (simp add: encode_all_def)
  then obtain q2 where "read_all maxlen limit q1 bs = Some (q2, map Query reqs')" "awaits q2 [] []" "querybuf q2 = []" "qb_pos q2 = 0"
    using Cons.IH[OF q1(3)] Cons.prems(2,3) q1(2,4,5) by auto
  then show ?case using q1(1,2) by simp
qed

section \<open>Arbitrary input\<close>

definition resp_ok :: "int \<Rightarrow> query \<Rightarrow> bool" where
  "resp_ok limit q \<longleftrightarrow>
     qb_pos q \<le> length (querybuf q) \<and> \<not> q_master q \<and> \<not> closing q \<and>
     (if multibulklen q = 0
      then bulklen q = -1 \<and> q_argv q = [] \<and> (reqtype q = PROTO_REQ_MULTIBULK \<longrightarrow> (\<exists>cs. unread q = CHR ''*'' # cs))
      else reqtype q = PROTO_REQ_MULTIBULK \<and> argv_size q = length (q_argv q) + multibulklen q \<and>
        (bulklen q = -1 \<or> 0 \<le> bulklen q \<and> bulklen q \<le> limit) \<and> (\<forall>b\<in>set (q_argv q). int (length b) \<le> limit))"

text \<open>What is left after a step of the parser.\<close>

definition parsed :: "int \<Rightarrow> nat \<Rightarrow> query \<Rightarrow> query \<times> query_event list \<times> bool \<Rightarrow> bool" where
  "parsed limit n q res \<longleftrightarrow>
     (case res of (q', evs, ok) \<Rightarrow>
        qb_pos q' \<le> length (querybuf q') \<and> \<not> q_master q' \<and>
        (if ok then evs = [] \<and> \<not> closing q' \<and> length (unread q') < length (unread q) \<and> (\<forall>b\<in>set (q_argv q'). length b \<le> n)
         else (evs = [] \<and> resp_ok limit q' \<and> length (unread q') \<le> length (unread q)) \<or>
           (closing q' \<and> (\<exists>msg. evs = [Protocol_Error msg]) \<and> length (unread q') \<le> length (unread q))))"

lemma strchr_bound: "strchr s c = Some n \<Longrightarrow> n < length s"
  by (auto simp: strchr_def Let_def cstr_def split: if_splits intro: less_le_trans[OF _ length_takeWhile_le])

lemma token_loop_length: "token_loop m p cur = Some (q, cur') \<Longrightarrow> length cur' + length q \<le> length cur + length p"
proof (induction "length p" arbitrary: m p cur rule: less_induct)
  case less
  have IH: "token_loop m p' cur = Some (q, cur') \<Longrightarrow> length p' < length p \<Longrightarrow> length cur' + length q \<le> length cur + length p'" for m p' cur
    using less.hyps by blast
  show ?case
  proof (cases p)
    case (Cons c p')
    with less.prems show ?thesis
      by (cases m) (auto simp: token_loop.simps split: if_splits dest!: IH)
  qed (use less.prems in \<open>cases m; simp add: token_loop.simps\<close>)
qed

lemma splitargs_loop_length:
  "splitargs_loop p acc = Some args \<Longrightarrow> \<forall>a\<in>set acc. length a \<le> n \<Longrightarrow> length p \<le> n \<Longrightarrow> \<forall>a\<in>set args. length a \<le> n"
proof (induction p acc rule: splitargs_loop.induct)
  case (1 p acc)
  let ?p = "dropWhile isspace p"
  show ?case
  proof (cases "?p = []")
    case True
    then show ?thesis using 1(2,3) by (subst (asm) splitargs_loop.simps) (simp add: Let_def)
  next
    case False
    then obtain r cur where t: "token_loop Plain ?p [] = Some (r, cur)" "splitargs_loop r (acc @ [cur]) = Some args"
      using 1(2) by (subst (asm) splitargs_loop.simps) (auto simp: Let_def split: bind_splits)
    have "length cur + length r \<le> n" using token_loop_length[OF t(1)] length_dropWhile_le[of isspace p] 1(4) by simp
    then show ?thesis using 1(1)[OF refl False t(1) refl t(2)] 1(3) by auto
  qed
qed

lemma sdssplitargs_length: "sdssplitargs line = Some args \<Longrightarrow> \<forall>a\<in>set args. length a \<le> length line"
  using splitargs_loop_length[of "cstr line" "[]" args "length line"] length_takeWhile_le by (auto simp: sdssplitargs_def cstr_def)

lemma inline_parsed:
  assumes q: "resp_ok limit q" "multibulklen q = 0" and n: "length (unread q) \<le> n"
  shows "parsed limit n q (processInlineBuffer q)"
proof (cases "strchr (unread q) LF")
  case None
  then show ?thesis using q by (auto simp: processInlineBuffer_def parsed_def setProtocolError_def resp_ok_def unread_def)
next
  case (Some nl)
  have nl: "nl < length (unread q)" using strchr_bound[OF Some] .
  define crlf where "crlf \<longleftrightarrow> nl \<noteq> 0 \<and> unread q ! (nl - 1) = CR"
  define querylen where "querylen = (if crlf then nl - 1 else nl)"
  define lf where "lf = (if crlf then 2 else 1 :: nat)"
  have s: "querylen + lf = nl + 1" "0 < lf" by (auto simp: querylen_def lf_def crlf_def)
  show ?thesis
  proof (cases "sdssplitargs (take querylen (unread q))")
    case None
    have "processInlineBuffer q = (setProtocolError q, [Protocol_Error ''Protocol error: unbalanced quotes in request''], False)"
      using None unfolding processInlineBuffer_def Some querylen_def crlf_def by (simp add: Let_def)
    then show ?thesis using q by (auto simp: parsed_def setProtocolError_def resp_ok_def unread_def)
  next
    case (Some argv)
    have p: "processInlineBuffer q = (q\<lparr>qb_pos := qb_pos q + querylen + lf, q_argv := argv\<rparr>, [], True)"
      using Some q(1) \<open>strchr (unread q) LF = Some nl\<close> unfolding processInlineBuffer_def querylen_def crlf_def lf_def
      by (simp add: Let_def resp_ok_def)
    have "\<forall>a\<in>set argv. length a \<le> n"
      using sdssplitargs_length[OF Some] n by (auto intro: order_trans)
    then show ?thesis unfolding p using q(1) s nl by (auto simp: parsed_def resp_ok_def unread_def)
  qed
qed

lemma header_parsed:
  assumes q: "resp_ok limit q" "multibulklen q = 0" "reqtype q = PROTO_REQ_MULTIBULK"
  shows "\<exists>q' evs ret. multibulk_header q = Some (q', evs, ret) \<and>
    (case ret of Some ok \<Rightarrow> parsed limit n q (q', evs, ok)
     | None \<Rightarrow> evs = [] \<and> resp_ok limit q' \<and> multibulklen q' \<noteq> 0 \<and> length (unread q') < length (unread q))"
proof (cases "strchr (unread q) CR")
  case None
  then show ?thesis using q by (auto simp: multibulk_header_def parsed_def setProtocolError_def resp_ok_def unread_def)
next
  case (Some nl)
  obtain cs where cs: "unread q = CHR ''*'' # cs" using q by (auto simp: resp_ok_def)
  have f: "fetch (querybuf q) (qb_pos q) = Some CHR ''*''" using unread_fetch[OF cs] .
  have nl: "nl < length (unread q)" using strchr_bound[OF Some] .
  have a: "q_argv q = []" using q by (simp add: resp_ok_def)
  show ?thesis
  proof (cases "int nl > int (length (unread q)) - 2")
    case True
    then show ?thesis using Some a q by (auto simp: multibulk_header_def parsed_def resp_ok_def)
  next
    case False
    then have l: "qb_pos q + nl + 2 \<le> length (querybuf q)" by (simp add: unread_def)
    then have "length (unread (q\<lparr>qb_pos := qb_pos q + nl + 2\<rparr>)) < length (unread q)" by (simp add: unread_def)
    then show ?thesis
      using Some False f a q l
      by (cases "string2ll (take (nl - 1) (drop 1 (unread q)))")
        (auto simp: multibulk_header_def parsed_def setProtocolError_def resp_ok_def unread_def Let_def)
  qed
qed

lemma bulklen_parsed:
  assumes q: "resp_ok limit q" "multibulklen q \<noteq> 0"
  shows "\<exists>q' evs go. read_bulklen limit q = Some (q', evs, go) \<and> multibulklen q' = multibulklen q \<and>
    (if go then evs = [] \<and> resp_ok limit q' \<and> 0 \<le> bulklen q' \<and> bulklen q' \<le> limit \<and> length (unread q') \<le> length (unread q)
     else parsed limit n q (q', evs, False))"
proof (cases "bulklen q = -1")
  case False
  then show ?thesis using q by (auto simp: read_bulklen_def resp_ok_def)
next
  case True
  show ?thesis
  proof (cases "strchr (unread q) CR")
    case None
    then show ?thesis using q True by (auto simp: read_bulklen_def parsed_def setProtocolError_def resp_ok_def unread_def)
  next
    case (Some nl)
    have nl: "nl < length (unread q)" using strchr_bound[OF Some] .
    then obtain c cs where cs: "unread q = c # cs" by (cases "unread q") auto
    have f: "fetch (querybuf q) (qb_pos q) = Some c" using unread_fetch[OF cs] .
    show ?thesis
    proof (cases "int nl > int (length (unread q)) - 2 \<or> c \<noteq> CHR ''$''")
      case True
      then show ?thesis using Some \<open>bulklen q = -1\<close> f q by (auto simp: read_bulklen_def parsed_def setProtocolError_def resp_ok_def unread_def)
    next
      case False
      then have l: "qb_pos q + nl + 2 \<le> length (querybuf q)" using nl by (auto simp: unread_def)
      show ?thesis
      proof (cases "string2ll (take (nl - 1) (drop 1 (unread q)))")
        case None
        then show ?thesis
          using Some False f q \<open>bulklen q = -1\<close> by (auto simp: read_bulklen_def parsed_def setProtocolError_def resp_ok_def unread_def)
      next
        case (Some ll)
        let ?q1 = "q\<lparr>qb_pos := qb_pos q + nl + 2\<rparr>"
        let ?q2 = "if ll \<ge> int PROTO_MBULK_BIG_ARG \<and> int (length (unread ?q1)) \<le> ll + 2 then ?q1\<lparr>querybuf := unread ?q1, qb_pos := 0\<rparr> else ?q1"
        have m: "\<not> q_master q" using q(1) by (simp add: resp_ok_def)
        show ?thesis
        proof (cases "ll < 0 \<or> ll > limit")
          case True
          have "read_bulklen limit q = Some (setProtocolError q, [Protocol_Error ''Protocol error: invalid bulk length''], False)"
            unfolding read_bulklen_def using Some \<open>strchr (unread q) CR = Some nl\<close> False f True m \<open>bulklen q = -1\<close> by simp
          then show ?thesis using q by (auto simp: parsed_def setProtocolError_def resp_ok_def unread_def)
        next
          case ok: False
          have "read_bulklen limit q = Some (?q2\<lparr>bulklen := ll\<rparr>, [], True)"
            unfolding read_bulklen_def using Some \<open>strchr (unread q) CR = Some nl\<close> False f ok m \<open>bulklen q = -1\<close> by (simp add: Let_def)
          moreover have "length (unread (?q2\<lparr>bulklen := ll\<rparr>)) \<le> length (unread q)" by (auto simp: unread_def)
          moreover have "resp_ok limit (?q2\<lparr>bulklen := ll\<rparr>)" using q l ok by (simp add: resp_ok_def)
          ultimately show ?thesis using ok by (intro exI[of _ "?q2\<lparr>bulklen := ll\<rparr>"] exI[of _ "[]"] exI[of _ True]) simp
        qed
      qed
    qed
  qed
qed

lemma take_bulk_parsed:
  assumes q: "resp_ok limit q" "multibulklen q \<noteq> 0" "0 \<le> bulklen q" "bulklen q \<le> limit" "bulklen q + 2 \<le> int (length (unread q))"
  shows "\<exists>q'. take_bulk q = Some q' \<and> length (unread q') < length (unread q) \<and> multibulklen q' = multibulklen q - 1 \<and>
    qb_pos q' \<le> length (querybuf q') \<and> \<not> q_master q' \<and> \<not> closing q' \<and> bulklen q' = -1 \<and>
    (\<forall>b\<in>set (q_argv q'). int (length b) \<le> limit) \<and> reqtype q' = PROTO_REQ_MULTIBULK \<and> argv_size q' = length (q_argv q') + multibulklen q'"
proof -
  define n where "n = nat (bulklen q)"
  let ?q = "q\<lparr>q_argv := q_argv q @ [take n (unread q)], bulklen := -1, multibulklen := multibulklen q - 1\<rparr>"
  have n: "int n = bulklen q" using q(3) by (simp add: n_def)
  have l: "n + 2 \<le> length (unread q)" "qb_pos q + n + 2 \<le> length (querybuf q)" using q(5) n q(1) by (auto simp: unread_def resp_ok_def)
  have t: "take_bulk q = Some (if qb_pos q = 0 \<and> n \<ge> PROTO_MBULK_BIG_ARG \<and> length (querybuf q) = n + 2
      then ?q\<lparr>querybuf := []\<rparr> else ?q\<lparr>qb_pos := qb_pos q + n + 2\<rparr>)"
    using q(1,2) by (auto simp: take_bulk_def resp_ok_def n_def Let_def)
  show ?thesis unfolding t using q n l by (auto simp: resp_ok_def unread_def)
qed

lemma loop_parsed:
  assumes "resp_ok limit q" "multibulklen q \<noteq> 0" "0 \<le> limit" "limit \<le> LLONG_MAX - 2" "nat limit \<le> n"
  shows "\<exists>q' evs ok. multibulk_loop limit q = Some (q', evs, ok) \<and> parsed limit n q (q', evs, ok)"
  using assms
proof (induction "multibulklen q" arbitrary: q rule: less_induct)
  case less
  obtain q1 evs go where q1: "read_bulklen limit q = Some (q1, evs, go)" "multibulklen q1 = multibulklen q"
      "if go then evs = [] \<and> resp_ok limit q1 \<and> 0 \<le> bulklen q1 \<and> bulklen q1 \<le> limit \<and> length (unread q1) \<le> length (unread q)
       else parsed limit n q (q1, evs, False)"
    using bulklen_parsed[OF less.prems(1,2)] by blast
  show ?case
  proof (cases go)
    case False
    then have "multibulk_loop limit q = Some (q1, evs, False)" using q1(1) less.prems(2) by (subst multibulk_loop.simps) simp
    then show ?thesis using q1(3) False by auto
  next
    case True
    note g = q1(3)[unfolded if_P[OF True]]
    show ?thesis
    proof (cases "int (length (unread q1)) < bulklen q1 + 2")
      case True
      then have "multibulk_loop limit q = Some (q1, [], False)"
        using q1(1) g less.prems(2,4) \<open>go\<close> by (subst multibulk_loop.simps) simp
      then show ?thesis using g by (auto simp: parsed_def resp_ok_def)
    next
      case False
      then obtain q2 where q2: "take_bulk q1 = Some q2" "length (unread q2) < length (unread q1)" "multibulklen q2 = multibulklen q1 - 1"
          "qb_pos q2 \<le> length (querybuf q2)" "\<not> q_master q2" "\<not> closing q2" "bulklen q2 = -1" "\<forall>b\<in>set (q_argv q2). int (length b) \<le> limit"
          "reqtype q2 = PROTO_REQ_MULTIBULK" "argv_size q2 = length (q_argv q2) + multibulklen q2"
        using take_bulk_parsed[of limit q1] g q1(2) less.prems(2) by auto
      have e: "multibulk_loop limit q = multibulk_loop limit q2"
        using q1(1) g less.prems(2,4) \<open>go\<close> False q2(1) by (subst multibulk_loop.simps) simp
      show ?thesis
      proof (cases "multibulklen q2 = 0")
        case True
        then have "multibulk_loop limit q2 = Some (q2, [], True)" by (subst multibulk_loop.simps) simp
        moreover have "\<forall>b\<in>set (q_argv q2). length b \<le> n" using q2(8) less.prems(3,5) by force
        ultimately show ?thesis unfolding e using q2 g by (auto simp: parsed_def)
      next
        case False
        have "resp_ok limit q2" using q2 False by (simp add: resp_ok_def)
        then obtain q3 evs ok where q3: "multibulk_loop limit q2 = Some (q3, evs, ok)" "parsed limit n q2 (q3, evs, ok)"
          using less.hyps[of q2] False q2(3) q1(2) less.prems(2-5) by auto
        have "length (unread q2) \<le> length (unread q)" using q2(2) g by simp
        then have "parsed limit n q (q3, evs, ok)" using q3(2) by (auto simp: parsed_def split: if_splits)
        then show ?thesis unfolding e using q3(1) by blast
      qed
    qed
  qed
qed

lemma multibulk_parsed:
  assumes q: "resp_ok limit q" "reqtype q = PROTO_REQ_MULTIBULK" and l: "0 \<le> limit" "limit \<le> LLONG_MAX - 2" "nat limit \<le> n"
  shows "\<exists>res. processMultibulkBuffer limit q = Some res \<and> parsed limit n q res"
proof (cases "multibulklen q = 0")
  case False
  then show ?thesis using loop_parsed[OF q(1) False l] by (auto simp: processMultibulkBuffer_def)
next
  case True
  obtain q1 evs ret where h: "multibulk_header q = Some (q1, evs, ret)" "case ret of Some ok \<Rightarrow> parsed limit n q (q1, evs, ok)
     | None \<Rightarrow> evs = [] \<and> resp_ok limit q1 \<and> multibulklen q1 \<noteq> 0 \<and> length (unread q1) < length (unread q)"
    using header_parsed[OF q(1) True q(2)] by blast
  show ?thesis
  proof (cases ret)
    case None
    then have h': "resp_ok limit q1" "multibulklen q1 \<noteq> 0" "length (unread q1) < length (unread q)" using h(2) by simp_all
    obtain q2 evs' ok where "multibulk_loop limit q1 = Some (q2, evs', ok)" "parsed limit n q1 (q2, evs', ok)"
      using loop_parsed[OF h'(1,2) l] by blast
    then have "processMultibulkBuffer limit q = Some (q2, evs', ok)" "parsed limit n q (q2, evs', ok)"
      using True h(1) h'(2,3) None by (auto simp: processMultibulkBuffer_def parsed_def split: if_splits)
    then show ?thesis by blast
  next
    case (Some ok)
    then show ?thesis using True h by (auto simp: processMultibulkBuffer_def)
  qed
qed

lemma resp_ok_determine: "resp_ok limit q \<Longrightarrow> unread q \<noteq> [] \<Longrightarrow> resp_ok limit (determine_reqtype q)"
proof (cases "reqtype q = REQ_UNKNOWN")
  case True
  assume q: "resp_ok limit q" "unread q \<noteq> []"
  then have "querybuf q ! qb_pos q = hd (unread q)" by (simp add: unread_def hd_drop_conv_nth)
  moreover obtain c cs where "unread q = c # cs" using q(2) by (cases "unread q") auto
  moreover have "multibulklen q = 0" using q(1) True by (auto simp: resp_ok_def split: if_splits)
  ultimately show ?thesis using q(1) True by (auto simp: resp_ok_def determine_reqtype_def unread_def)
qed (simp add: determine_reqtype_def)

text \<open>
  Whatever the input is: requests with at least one argument, and possibly a protocol error, after which the
  connection is closed and nothing more is executed.
\<close>

definition sound_events :: "nat \<Rightarrow> query \<Rightarrow> query_event list \<Rightarrow> bool" where
  "sound_events n q evs \<longleftrightarrow>
     (\<exists>reqs errs. evs = map Query reqs @ errs \<and> (\<forall>r\<in>set reqs. r \<noteq> [] \<and> (\<forall>b\<in>set r. length b \<le> n)) \<and>
        (errs = [] \<or> closing q \<and> (\<exists>msg. errs = [Protocol_Error msg])))"

lemma sound_events_Nil: "sound_events n q []"
  unfolding sound_events_def by (intro exI[of _ "[]"]) simp

lemma sound_events_Cons: "sound_events n q evs \<Longrightarrow> args \<noteq> [] \<Longrightarrow> \<forall>b\<in>set args. length b \<le> n \<Longrightarrow> sound_events n q (Query args # evs)"
proof -
  assume e: "sound_events n q evs" and args: "args \<noteq> []" "\<forall>b\<in>set args. length b \<le> n"
  from e obtain reqs errs where "evs = map Query reqs @ errs" "\<forall>r\<in>set reqs. r \<noteq> [] \<and> (\<forall>b\<in>set r. length b \<le> n)"
      "errs = [] \<or> closing q \<and> (\<exists>msg. errs = [Protocol_Error msg])"
    unfolding sound_events_def by blast
  then show ?thesis using args unfolding sound_events_def by (intro exI[of _ "args # reqs"] exI[of _ errs]) auto
qed

definition query_ok :: "int \<Rightarrow> query \<Rightarrow> bool" where
  "query_ok limit q \<longleftrightarrow> closing q \<or> resp_ok limit q"

lemma input_loop_sound:
  assumes "query_ok limit q" "qb_pos q \<le> length (querybuf q)" "0 \<le> limit" "limit \<le> LLONG_MAX - 2" "nat limit \<le> n" "length (unread q) \<le> n"
  shows "\<exists>q' evs. input_loop limit q = Some (q', evs) \<and> query_ok limit q' \<and> qb_pos q' \<le> length (querybuf q') \<and>
    length (unread q') \<le> length (unread q) \<and> sound_events n q' evs"
  using assms
proof (induction "length (unread q)" arbitrary: q rule: less_induct)
  case less
  show ?case
  proof (cases "qb_pos q < length (querybuf q) \<and> \<not> closing q")
    case False
    have "input_loop limit q = Some (q, [])" unfolding input_loop.simps[of limit q] if_not_P[OF False] ..
    then show ?thesis using less.prems sound_events_Nil by blast
  next
    case True
    let ?q = "determine_reqtype q"
    have u: "unread q \<noteq> []" using True by (simp add: unread_def)
    have r: "resp_ok limit ?q" using resp_ok_determine[OF _ u] less.prems(1) True by (simp add: query_ok_def)
    have n: "length (unread ?q) \<le> n" using less.prems(6) by simp
    obtain q1 evs ok where q1: "(if reqtype ?q = PROTO_REQ_INLINE then Some (processInlineBuffer ?q) else processMultibulkBuffer limit ?q) = Some (q1, evs, ok)"
        "parsed limit n ?q (q1, evs, ok)"
    proof (cases "reqtype ?q = PROTO_REQ_INLINE")
      case True
      then have "multibulklen ?q = 0" using r by (auto simp: resp_ok_def split: if_splits)
      then have "parsed limit n ?q (processInlineBuffer ?q)" using inline_parsed[OF r] n by blast
      then show thesis using that True by (cases "processInlineBuffer ?q") auto
    next
      case False
      then have "reqtype ?q = PROTO_REQ_MULTIBULK" by (cases "reqtype q") (auto simp: determine_reqtype_def split: if_splits)
      from multibulk_parsed[OF r this less.prems(3-5)] show thesis using that False by auto
    qed
    have st: "input_loop limit q = (if \<not> ok then Some (q1, evs) else if q_argv q1 = [] then input_loop limit (resetClient q1)
        else do {
          (q, evs) \<leftarrow> input_loop limit (if is_quit (q_argv q1) then q1\<lparr>closing := True\<rparr> else resetClient q1);
          Some (q, Query (q_argv q1) # evs) })"
      unfolding input_loop.simps[of limit q] if_P[OF True] Let_def q1(1) by simp
    show ?thesis
    proof (cases ok)
      case False
      then show ?thesis unfolding st using q1(2) sound_events_Nil[of n q1]
        by (fastforce simp: parsed_def query_ok_def resp_ok_def sound_events_def)
    next
      case ok: True
      then have p: "qb_pos q1 \<le> length (querybuf q1)" "\<not> q_master q1" "\<not> closing q1" "length (unread q1) < length (unread q)"
          "\<forall>b\<in>set (q_argv q1). length b \<le> n"
        using q1(2) by (simp_all add: parsed_def)
      have IH: "\<exists>q' evs. input_loop limit q2 = Some (q', evs) \<and> query_ok limit q' \<and> qb_pos q' \<le> length (querybuf q') \<and>
          length (unread q') \<le> length (unread q) \<and> sound_events n q' evs"
        if "query_ok limit q2" "unread q2 = unread q1" "qb_pos q2 \<le> length (querybuf q2)" for q2
        using less.hyps[of q2] that less.prems(3-6) p(4) by force
      have reset: "query_ok limit (resetClient q1)" "unread (resetClient q1) = unread q1" "qb_pos (resetClient q1) \<le> length (querybuf (resetClient q1))"
        using p by (auto simp: query_ok_def resp_ok_def resetClient_def unread_def)
      have quit: "query_ok limit (q1\<lparr>closing := True\<rparr>)" "unread (q1\<lparr>closing := True\<rparr>) = unread q1" "qb_pos (q1\<lparr>closing := True\<rparr>) \<le> length (querybuf (q1\<lparr>closing := True\<rparr>))"
        using p by (auto simp: query_ok_def unread_def)
      show ?thesis
      proof (cases "q_argv q1 = []")
        case True
        then show ?thesis unfolding st using ok IH[OF reset] by simp
      next
        case False
        obtain q3 evs' where q3: "input_loop limit (if is_quit (q_argv q1) then q1\<lparr>closing := True\<rparr> else resetClient q1) = Some (q3, evs')"
            "query_ok limit q3" "qb_pos q3 \<le> length (querybuf q3)" "length (unread q3) \<le> length (unread q)" "sound_events n q3 evs'"
          using IH[OF reset] IH[OF quit] by (cases "is_quit (q_argv q1)") auto
        then show ?thesis unfolding st using ok False sound_events_Cons[OF q3(5) False p(5)] by simp
      qed
    qed
  qed
qed

lemma closing_read:
  assumes "closing q" "qb_pos q = 0"
  shows "\<exists>q'. readQueryFromClient maxlen limit q b = Some (q', []) \<and> closing q' \<and> qb_pos q' = 0"
proof -
  let ?q = "q\<lparr>querybuf := querybuf q @ b\<rparr>"
  have "input_loop limit ?q = Some (?q, [])" unfolding input_loop.simps[of limit ?q] using assms(1) by simp
  then show ?thesis using assms by (simp add: readQueryFromClient_def processInputBuffer_def Let_def)
qed

lemma query_ok_trim: "query_ok limit q \<Longrightarrow> query_ok limit (q\<lparr>querybuf := unread q, qb_pos := 0\<rparr>)"
  by (auto simp: query_ok_def resp_ok_def unread_def)

lemma query_ok_more: "query_ok limit q \<Longrightarrow> qb_pos q = 0 \<Longrightarrow> query_ok limit (q\<lparr>querybuf := querybuf q @ b\<rparr>)"
  by (auto simp: query_ok_def resp_ok_def unread_def)

lemma read_sound:
  assumes "query_ok limit q" "qb_pos q = 0" "0 \<le> limit" "limit \<le> LLONG_MAX - 2"
  shows "\<exists>q' evs. readQueryFromClient maxlen limit q b = Some (q', evs) \<and> query_ok limit q' \<and> qb_pos q' = 0 \<and>
    sound_events (max maxlen (nat limit)) q' evs"
proof (cases "length (querybuf q @ b) > maxlen")
  case True
  then show ?thesis using assms sound_events_Nil by (auto simp: readQueryFromClient_def Let_def query_ok_def)
next
  case False
  let ?q = "q\<lparr>querybuf := querybuf q @ b\<rparr>" and ?n = "max maxlen (nat limit)"
  have "length (unread ?q) \<le> ?n" using False assms(2) by (simp add: unread_def)
  then obtain q1 evs where q1: "input_loop limit ?q = Some (q1, evs)" "query_ok limit q1" "sound_events ?n q1 evs"
    using input_loop_sound[OF query_ok_more[OF assms(1,2)] _ assms(3,4), of b ?n] assms(2) by auto
  then show ?thesis
    using False query_ok_trim[OF q1(2)] by (auto simp: readQueryFromClient_def processInputBuffer_def Let_def sound_events_def)
qed

lemma read_all_closing: "closing q \<Longrightarrow> qb_pos q = 0 \<Longrightarrow> \<exists>q'. read_all maxlen limit q bs = Some (q', []) \<and> closing q'"
proof (induction bs arbitrary: q)
  case (Cons b bs)
  obtain q1 where q1: "readQueryFromClient maxlen limit q b = Some (q1, [])" "closing q1" "qb_pos q1 = 0"
    using closing_read[OF Cons.prems] by blast
  then show ?case using Cons.IH[OF q1(2,3)] by auto
qed simp

lemma sound_events_append:
  assumes "sound_events n q1 evs1" "sound_events n q2 evs2" "closing q1 \<Longrightarrow> closing q2 \<and> evs2 = []"
  shows "sound_events n q2 (evs1 @ evs2)"
proof -
  obtain r1 e1 where 1: "evs1 = map Query r1 @ e1" "\<forall>r\<in>set r1. r \<noteq> [] \<and> (\<forall>b\<in>set r. length b \<le> n)"
      "e1 = [] \<or> closing q1 \<and> (\<exists>msg. e1 = [Protocol_Error msg])" using assms(1) unfolding sound_events_def by blast
  obtain r2 e2 where 2: "evs2 = map Query r2 @ e2" "\<forall>r\<in>set r2. r \<noteq> [] \<and> (\<forall>b\<in>set r. length b \<le> n)"
      "e2 = [] \<or> closing q2 \<and> (\<exists>msg. e2 = [Protocol_Error msg])" using assms(2) unfolding sound_events_def by blast
  show ?thesis
  proof (cases "e1 = []")
    case True
    then show ?thesis using 1 2 unfolding sound_events_def by (intro exI[of _ "r1 @ r2"] exI[of _ e2]) auto
  next
    case False
    then show ?thesis using 1 assms(3) unfolding sound_events_def by (intro exI[of _ r1] exI[of _ e1]) auto
  qed
qed

lemma read_all_sound:
  assumes "query_ok limit q" "qb_pos q = 0" "0 \<le> limit" "limit \<le> LLONG_MAX - 2"
  shows "\<exists>q' evs. read_all maxlen limit q bs = Some (q', evs) \<and> sound_events (max maxlen (nat limit)) q' evs"
  using assms
proof (induction bs arbitrary: q)
  case Nil
  then show ?case using sound_events_Nil by auto
next
  case (Cons b bs)
  obtain q1 evs1 where q1: "readQueryFromClient maxlen limit q b = Some (q1, evs1)" "query_ok limit q1" "qb_pos q1 = 0"
      "sound_events (max maxlen (nat limit)) q1 evs1"
    using read_sound[OF Cons.prems] by blast
  obtain q2 evs2 where q2: "read_all maxlen limit q1 bs = Some (q2, evs2)" "sound_events (max maxlen (nat limit)) q2 evs2"
    using Cons.IH[OF q1(2,3) Cons.prems(3,4)] by blast
  have "closing q1 \<Longrightarrow> closing q2 \<and> evs2 = []" using read_all_closing[OF _ q1(3), of maxlen limit bs] q2(1) by auto
  then show ?case using sound_events_append[OF q1(4) q2(2)] q1(1) q2(1) by simp
qed

section \<open>Properties\<close>

lemma new_query_awaits: "awaits new_query (encode_all reqs) reqs"
  by (simp add: awaits_def between_def open_query_def new_query_def)

text \<open>
  C7: what the client library sends is what the server executes. Requests that respect the limits of the
  server are formatted without an access outside of the buffer, and when their bytes arrive, cut into pieces
  in any way, the parser delivers exactly these requests, in order and with all bytes of their arguments, and
  is then ready for the next request.
\<close>

theorem requests_roundtrip:
  assumes "\<forall>n. length (malloced n) = n" "\<forall>r\<in>set reqs. request_fits limit r \<and> length (encode_request r) < 2 ^ 31 - 1"
    "limit \<le> LLONG_MAX - 2" "length (encode_all reqs) \<le> maxlen"
  shows "\<exists>outs. map (redisFormatCommandArgv malloced) reqs = map Some outs \<and>
    (\<forall>pieces. concat pieces = concat (map snd outs) \<longrightarrow>
       (\<exists>q. read_all maxlen limit new_query pieces = Some (q, map Query reqs) \<and> querybuf q = [] \<and> reqtype q = REQ_UNKNOWN \<and> \<not> closing q))"
proof -
  let ?outs = "map (\<lambda>r. (length (encode_request r), encode_request r)) reqs"
  have "map (redisFormatCommandArgv malloced) reqs = map Some ?outs"
    using assms(1,2) by (auto intro!: redisFormatCommandArgv_spec)
  moreover have "\<exists>q. read_all maxlen limit new_query pieces = Some (q, map Query reqs) \<and> querybuf q = [] \<and> reqtype q = REQ_UNKNOWN \<and> \<not> closing q"
    if "concat pieces = concat (map snd ?outs)" for pieces
  proof -
    have "concat pieces = encode_all reqs" using that by (simp add: encode_all_def comp_def)
    then obtain q where "read_all maxlen limit new_query pieces = Some (q, map Query reqs)" "awaits q [] []" "querybuf q = []"
      using read_all_awaits[of new_query pieces reqs limit maxlen] new_query_awaits[of reqs] assms(2-4) by (auto simp: new_query_def)
    then show ?thesis using awaits_empty[of q "[]"] by (auto simp: between_def open_query_def)
  qed
  ultimately show ?thesis by blast
qed

theorem requests_roundtrip_witness:
  "\<exists>q. read_all 1000 1000 new_query [''*2'' @ [CR], [LF] @ ''$3'' @ [CR, LF] @ ''GE'', ''T'' @ [CR, LF] @ ''$1'' @ [CR, LF] @ [CR], [CR, LF]] =
    Some (q, [Query [''GET'', [CR]]]) \<and> querybuf q = [] \<and> \<not> closing q"
proof -
  let ?p = "[''*2'' @ [CR], [LF] @ ''$3'' @ [CR, LF] @ ''GE'', ''T'' @ [CR, LF] @ ''$1'' @ [CR, LF] @ [CR], [CR, LF]]"
  have e: "encode_request [''GET'', [CR]] = concat ?p"
    by (simp add: encode_request_def encode_bulk_def show_nat.simps digit_char_def char_of_def bit_0)
  have f: "request_fits 1000 [''GET'', [CR]]"
    by (simp add: request_fits_def is_quit_def cstr_def NUL_def tolower_def)
  have m: "\<forall>n. length (replicate n NUL) = n" by simp
  have h: "\<forall>r\<in>set [[''GET'', [CR]]]. request_fits 1000 r \<and> length (encode_request r) < 2 ^ 31 - 1" "1000 \<le> LLONG_MAX - 2"
      "length (encode_all [[''GET'', [CR]]]) \<le> 1000"
    using e f by (simp_all add: encode_all_def LLONG_MAX_def)
  obtain outs where o: "map (redisFormatCommandArgv (\<lambda>n. replicate n NUL)) [[''GET'', [CR]]] = map Some outs"
      "\<forall>pieces. concat pieces = concat (map snd outs) \<longrightarrow> (\<exists>q. read_all 1000 1000 new_query pieces = Some (q, map Query [[''GET'', [CR]]]) \<and>
        querybuf q = [] \<and> reqtype q = REQ_UNKNOWN \<and> \<not> closing q)"
    using requests_roundtrip[OF m h] by blast
  have c: "concat (map snd outs) = concat ?p"
    using o(1) redisFormatCommandArgv_spec[of "\<lambda>n. replicate n NUL" "[''GET'', [CR]]"] e by auto
  then show ?thesis using o(2)[rule_format, OF c[symmetric]] by (simp only: list.map) blast
qed



end
