(* ===== verification/Output.thy ===== *)
theory Output
  imports TString
begin

text \<open>
  The output buffers of a client (\<open>networking.c\<close>): replies are appended to a static buffer and, when it is
  full, to a list of blocks; placeholders for the length of an array are filled in later; the socket takes
  the bytes in pieces of any size. \<open>None\<close> stands for a failed assertion, an access outside of a buffer or
  through a null pointer.
\<close>

section \<open>State\<close>

definition PROTO_REPLY_CHUNK_BYTES :: nat where
  "PROTO_REPLY_CHUNK_BYTES = 16 * 1024"

definition NET_MAX_WRITES_PER_EVENT :: nat where
  "NET_MAX_WRITES_PER_EVENT = 1024 * 64"

definition OBJ_SHARED_BULKHDR_LEN :: int where
  "OBJ_SHARED_BULKHDR_LEN = 32"

text \<open>A block: the size is the length of \<open>rb_buf\<close>.\<close>

record clientReplyBlock =
  rb_buf :: "char list"
  rb_used :: nat

text \<open>
  The part of the client that concerns its output. The nodes of the reply list have identities, which stand
  for their addresses; a node without a block is a placeholder. \<open>reply_off\<close> stands for the flags
  \<open>CLIENT_REPLY_OFF\<close> and \<open>CLIENT_REPLY_SKIP\<close>, \<open>write_handler\<close> for an installed write handler.
\<close>

record out_client =
  buf :: "char list"
  bufpos :: nat
  oreply :: "(nat \<times> clientReplyBlock option) list"
  next_node :: nat
  sentlen :: nat
  reply_bytes :: int
  resp :: nat
  CLIENT_CLOSE_AFTER_REPLY :: bool
  CLIENT_CLOSE_ASAP :: bool
  reply_off :: bool
  out_master :: bool
  CLIENT_PENDING_WRITE :: bool
  write_handler :: bool
  obuf_soft_limit_reached_time :: int

text \<open>
  The limits for the class of the client, the time, whether the memory limit leaves room, and the allocator:
  \<open>alloc n\<close> is the usable part behind the header of a new block that was requested with room for \<open>n\<close> bytes.
\<close>

record net_conf =
  hard_limit_bytes :: int
  soft_limit_bytes :: int
  soft_limit_seconds :: int
  unixtime :: int
  below_maxmemory :: bool
  alloc :: "nat \<Rightarrow> char list"

abbreviation CRLF :: "char list" where "CRLF \<equiv> [CHR 0x0D, CHR 0x0A]"

definition clientHasPendingReplies :: "out_client \<Rightarrow> bool" where
  "clientHasPendingReplies c \<longleftrightarrow> bufpos c \<noteq> 0 \<or> oreply c \<noteq> []"

definition clientInstallWriteHandler :: "out_client \<Rightarrow> out_client" where
  "clientInstallWriteHandler c = c\<lparr>CLIENT_PENDING_WRITE := True\<rparr>"

definition prepareClientToWrite :: "out_client \<Rightarrow> out_client \<times> bool" where
  "prepareClientToWrite c =
     (if CLIENT_CLOSE_ASAP c then (c, False)
      else if reply_off c then (c, False)
      else if out_master c then (c, False)
      else (if \<not> clientHasPendingReplies c then clientInstallWriteHandler c else c, True))"

section \<open>Limits\<close>

text \<open>A node of the list takes 24 bytes, the header of a block 16.\<close>

definition getClientOutputBufferMemoryUsage :: "out_client \<Rightarrow> int" where
  "getClientOutputBufferMemoryUsage c = reply_bytes c + (24 + 16) * int (length (oreply c))"

definition checkClientOutputBufferLimits :: "net_conf \<Rightarrow> out_client \<Rightarrow> out_client \<times> bool" where
  "checkClientOutputBufferLimits cf c =
     (let used_mem = getClientOutputBufferMemoryUsage c;
          hard = (hard_limit_bytes cf \<noteq> 0 \<and> used_mem \<ge> hard_limit_bytes cf);
          soft = (soft_limit_bytes cf \<noteq> 0 \<and> used_mem \<ge> soft_limit_bytes cf)
      in if soft then
           if obuf_soft_limit_reached_time c = 0 then (c\<lparr>obuf_soft_limit_reached_time := unixtime cf\<rparr>, hard)
           else (c, unixtime cf - obuf_soft_limit_reached_time c > soft_limit_seconds cf \<or> hard)
         else (c\<lparr>obuf_soft_limit_reached_time := 0\<rparr>, hard))"

definition freeClientAsync :: "out_client \<Rightarrow> out_client" where
  "freeClientAsync c = c\<lparr>CLIENT_CLOSE_ASAP := True\<rparr>"

text \<open>
  The assertion that \<open>reply_bytes\<close> is far from \<open>SIZE_MAX\<close> is left out: \<open>reply_bytes\<close> is the memory
  that the blocks take.
\<close>

definition asyncCloseClientOnOutputBufferLimitReached :: "net_conf \<Rightarrow> out_client \<Rightarrow> out_client" where
  "asyncCloseClientOnOutputBufferLimitReached cf c =
     (if reply_bytes c = 0 \<or> CLIENT_CLOSE_ASAP c then c
      else let (c, reached) = checkClientOutputBufferLimits cf c in if reached then freeClientAsync c else c)"

section \<open>Appending\<close>

definition addReplyToBuffer :: "out_client \<Rightarrow> char list \<Rightarrow> (out_client \<times> bool) option" where
  "addReplyToBuffer c s =
     (let available = length (buf c) - bufpos c
      in if CLIENT_CLOSE_AFTER_REPLY c then Some (c, True)
         else if oreply c \<noteq> [] then Some (c, False)
         else if length s > available then Some (c, False)
         else do {
           b \<leftarrow> write_at (buf c) (bufpos c) s;
           Some (c\<lparr>buf := b, bufpos := bufpos c + length s\<rparr>, True)
         })"

text \<open>What fits is copied to the last block; the rest of the string is returned.\<close>

definition fill_tail :: "out_client \<Rightarrow> char list \<Rightarrow> (out_client \<times> char list) option" where
  "fill_tail c s =
     (if oreply c = [] then Some (c, s)
      else case last (oreply c) of
        (node, None) \<Rightarrow> Some (c, s)
      | (node, Some tail) \<Rightarrow> do {
          let avail = length (rb_buf tail) - rb_used tail;
          let copy = (if avail \<ge> length s then length s else avail);
          b \<leftarrow> write_at (rb_buf tail) (rb_used tail) (take copy s);
          Some (c\<lparr>oreply := butlast (oreply c) @ [(node, Some \<lparr>rb_buf = b, rb_used = rb_used tail + copy\<rparr>)]\<rparr>, drop copy s)
        })"

definition addReplyProtoToList :: "net_conf \<Rightarrow> out_client \<Rightarrow> char list \<Rightarrow> out_client option" where
  "addReplyProtoToList cf c s =
     (if CLIENT_CLOSE_AFTER_REPLY c then Some c
      else do {
        (c, s) \<leftarrow> fill_tail c s;
        c \<leftarrow> (if s \<noteq> [] then do {
               let size = (if length s < PROTO_REPLY_CHUNK_BYTES then PROTO_REPLY_CHUNK_BYTES else length s);
               b \<leftarrow> write_at (alloc cf size) 0 s;
               Some (c\<lparr>oreply := oreply c @ [(next_node c, Some \<lparr>rb_buf = b, rb_used = length s\<rparr>)],
                      next_node := next_node c + 1, reply_bytes := reply_bytes c + int (length b)\<rparr>)
             } else Some c);
        Some (asyncCloseClientOnOutputBufferLimitReached cf c)
      })"

definition addReplyProto :: "net_conf \<Rightarrow> out_client \<Rightarrow> char list \<Rightarrow> out_client option" where
  "addReplyProto cf c s =
     (let (c, ok) = prepareClientToWrite c
      in if \<not> ok then Some c
         else do {
           (c, done) \<leftarrow> addReplyToBuffer c s;
           if done then Some c else addReplyProtoToList cf c s
         })"

text \<open>A string object: its bytes, or the integer it is encoded as.\<close>

datatype payload = Sds_Encoded "char list" | Int_Encoded int

definition addReply :: "net_conf \<Rightarrow> out_client \<Rightarrow> payload \<Rightarrow> out_client option" where
  "addReply cf c obj =
     (case obj of
        Sds_Encoded s \<Rightarrow> addReplyProto cf c s
      | Int_Encoded n \<Rightarrow> do {
          (b, len) \<leftarrow> ll2string (replicate 32 NUL) 32 n;
          addReplyProto cf c (take len b)
        })"

definition addReplyErrorLength :: "net_conf \<Rightarrow> out_client \<Rightarrow> char list \<Rightarrow> out_client option" where
  "addReplyErrorLength cf c s = do {
     c \<leftarrow> (if s = [] \<or> hd s \<noteq> CHR ''-'' then addReplyProto cf c ''-ERR '' else Some c);
     c \<leftarrow> addReplyProto cf c s;
     addReplyProto cf c CRLF
   }"

definition addReplyStatusLength :: "net_conf \<Rightarrow> out_client \<Rightarrow> char list \<Rightarrow> out_client option" where
  "addReplyStatusLength cf c s = do {
     c \<leftarrow> addReplyProto cf c ''+'';
     c \<leftarrow> addReplyProto cf c s;
     addReplyProto cf c CRLF
   }"

section \<open>Placeholders\<close>

definition trimReplyUnusedTailSpace :: "net_conf \<Rightarrow> out_client \<Rightarrow> out_client option" where
  "trimReplyUnusedTailSpace cf c =
     (if oreply c = [] then Some c
      else case last (oreply c) of
        (node, None) \<Rightarrow> Some c
      | (node, Some tail) \<Rightarrow>
          let size = length (rb_buf tail); used = rb_used tail
          in if size - used > size div 4 \<and> used < PROTO_REPLY_CHUNK_BYTES then do {
               b \<leftarrow> write_at (alloc cf used) 0 (take used (rb_buf tail));
               Some (c\<lparr>oreply := butlast (oreply c) @ [(node, Some \<lparr>rb_buf = b, rb_used = used\<rparr>)],
                      reply_bytes := reply_bytes c + int (length b) - int size\<rparr>)
             } else Some c)"

definition addReplyDeferredLen :: "net_conf \<Rightarrow> out_client \<Rightarrow> (out_client \<times> nat option) option" where
  "addReplyDeferredLen cf c =
     (let (c, ok) = prepareClientToWrite c
      in if \<not> ok then Some (c, None)
         else do {
           c \<leftarrow> trimReplyUnusedTailSpace cf c;
           Some (c\<lparr>oreply := oreply c @ [(next_node c, None)], next_node := next_node c + 1\<rparr>, Some (next_node c))
         })"

text \<open>The header is glued to the next block if there is room in it, or becomes the block of the placeholder.\<close>

definition room_for_header :: "char list \<Rightarrow> clientReplyBlock \<Rightarrow> bool" where
  "room_for_header lenstr next \<longleftrightarrow>
     length (rb_buf next) - rb_used next \<ge> length lenstr \<and> rb_used next < PROTO_REPLY_CHUNK_BYTES * 4"

definition glue_header :: "char list \<Rightarrow> clientReplyBlock \<Rightarrow> clientReplyBlock option" where
  "glue_header lenstr next = do {
     b \<leftarrow> read_at (rb_buf next) 0 (rb_used next);
     b \<leftarrow> write_at (rb_buf next) (length lenstr) b;
     b \<leftarrow> write_at b 0 lenstr;
     Some \<lparr>rb_buf = b, rb_used = rb_used next + length lenstr\<rparr>
   }"

fun fill_placeholder :: "net_conf \<Rightarrow> char list \<Rightarrow> (nat \<times> clientReplyBlock option) list \<Rightarrow> ((nat \<times> clientReplyBlock option) list \<times> int) option" where
  "fill_placeholder cf lenstr ((node, None) # after) =
     (case after of
        (node', Some next) # after' \<Rightarrow>
          if room_for_header lenstr next then do { nb \<leftarrow> glue_header lenstr next; Some ((node', Some nb) # after', 0) }
          else do { b \<leftarrow> write_at (alloc cf (length lenstr)) 0 lenstr;
                    Some ((node, Some \<lparr>rb_buf = b, rb_used = length lenstr\<rparr>) # after, int (length b)) }
      | _ \<Rightarrow> do { b \<leftarrow> write_at (alloc cf (length lenstr)) 0 lenstr;
                  Some ((node, Some \<lparr>rb_buf = b, rb_used = length lenstr\<rparr>) # after, int (length b)) })"
| "fill_placeholder cf lenstr _ = None"

definition setDeferredAggregateLen :: "net_conf \<Rightarrow> out_client \<Rightarrow> nat option \<Rightarrow> int \<Rightarrow> char \<Rightarrow> out_client option" where
  "setDeferredAggregateLen cf c node len prefix =
     (if len < 0 then None
      else case node of
        None \<Rightarrow> Some c
      | Some node \<Rightarrow> do {
          (rest, added) \<leftarrow> fill_placeholder cf (prefix # show_int len @ CRLF) (dropWhile (\<lambda>(n, _). n \<noteq> node) (oreply c));
          Some (asyncCloseClientOnOutputBufferLimitReached cf
            (c\<lparr>oreply := takeWhile (\<lambda>(n, _). n \<noteq> node) (oreply c) @ rest, reply_bytes := reply_bytes c + added\<rparr>))
        })"

definition setDeferredArrayLen :: "net_conf \<Rightarrow> out_client \<Rightarrow> nat option \<Rightarrow> int \<Rightarrow> out_client option" where
  "setDeferredArrayLen cf c node len = setDeferredAggregateLen cf c node len (CHR ''*'')"

definition setDeferredMapLen :: "net_conf \<Rightarrow> out_client \<Rightarrow> nat option \<Rightarrow> int \<Rightarrow> out_client option" where
  "setDeferredMapLen cf c node len =
     setDeferredAggregateLen cf c node (if resp c = 2 then len * 2 else len) (if resp c = 2 then CHR ''*'' else CHR ''%'')"

definition setDeferredSetLen :: "net_conf \<Rightarrow> out_client \<Rightarrow> nat option \<Rightarrow> int \<Rightarrow> out_client option" where
  "setDeferredSetLen cf c node len = setDeferredAggregateLen cf c node len (if resp c = 2 then CHR ''*'' else CHR ''~'')"

section \<open>Replies\<close>

text \<open>The shared headers for small numbers.\<close>

definition shared_mbulkhdr :: "int \<Rightarrow> payload" where
  "shared_mbulkhdr j = Sds_Encoded (CHR ''*'' # show_int j @ CRLF)"

definition shared_bulkhdr :: "int \<Rightarrow> payload" where
  "shared_bulkhdr j = Sds_Encoded (CHR ''$'' # show_int j @ CRLF)"

definition addReplyLongLongWithPrefix :: "net_conf \<Rightarrow> out_client \<Rightarrow> int \<Rightarrow> char \<Rightarrow> out_client option" where
  "addReplyLongLongWithPrefix cf c ll prefix =
     (if prefix = CHR ''*'' \<and> ll < OBJ_SHARED_BULKHDR_LEN \<and> ll \<ge> 0 then addReply cf c (shared_mbulkhdr ll)
      else if prefix = CHR ''$'' \<and> ll < OBJ_SHARED_BULKHDR_LEN \<and> ll \<ge> 0 then addReply cf c (shared_bulkhdr ll)
      else do {
        (b, len) \<leftarrow> ll2string (replicate 127 NUL) 127 ll;
        b \<leftarrow> write_at (prefix # b) (len + 1) CRLF;
        b \<leftarrow> read_at b 0 (len + 3);
        addReplyProto cf c b
      })"

definition addReplyLongLong :: "net_conf \<Rightarrow> out_client \<Rightarrow> int \<Rightarrow> out_client option" where
  "addReplyLongLong cf c ll =
     (if ll = 0 then addReply cf c (Sds_Encoded ('':0'' @ CRLF))
      else if ll = 1 then addReply cf c (Sds_Encoded ('':1'' @ CRLF))
      else addReplyLongLongWithPrefix cf c ll (CHR '':''))"

definition addReplyAggregateLen :: "net_conf \<Rightarrow> out_client \<Rightarrow> nat \<Rightarrow> char \<Rightarrow> out_client option" where
  "addReplyAggregateLen cf c len prefix =
     (if prefix = CHR ''*'' \<and> int len < OBJ_SHARED_BULKHDR_LEN then addReply cf c (shared_mbulkhdr (int len))
      else addReplyLongLongWithPrefix cf c (int len) prefix)"

definition addReplyArrayLen :: "net_conf \<Rightarrow> out_client \<Rightarrow> nat \<Rightarrow> out_client option" where
  "addReplyArrayLen cf c len = addReplyAggregateLen cf c len (CHR ''*'')"

definition addReplyMapLen :: "net_conf \<Rightarrow> out_client \<Rightarrow> nat \<Rightarrow> out_client option" where
  "addReplyMapLen cf c len =
     addReplyAggregateLen cf c (if resp c = 2 then len * 2 else len) (if resp c = 2 then CHR ''*'' else CHR ''%'')"

definition addReplySetLen :: "net_conf \<Rightarrow> out_client \<Rightarrow> nat \<Rightarrow> out_client option" where
  "addReplySetLen cf c len = addReplyAggregateLen cf c len (if resp c = 2 then CHR ''*'' else CHR ''~'')"

definition addReplyNull :: "net_conf \<Rightarrow> out_client \<Rightarrow> out_client option" where
  "addReplyNull cf c = (if resp c = 2 then addReplyProto cf c (''$-1'' @ CRLF) else addReplyProto cf c (''_'' @ CRLF))"

definition addReplyNullArray :: "net_conf \<Rightarrow> out_client \<Rightarrow> out_client option" where
  "addReplyNullArray cf c = (if resp c = 2 then addReplyProto cf c (''*-1'' @ CRLF) else addReplyProto cf c (''_'' @ CRLF))"

definition addReplyBool :: "net_conf \<Rightarrow> out_client \<Rightarrow> bool \<Rightarrow> out_client option" where
  "addReplyBool cf c b =
     (if resp c = 2 then addReply cf c (Sds_Encoded (if b then '':1'' @ CRLF else '':0'' @ CRLF))
      else addReplyProto cf c (if b then ''#t'' @ CRLF else ''#f'' @ CRLF))"

definition payload_len :: "payload \<Rightarrow> nat" where
  "payload_len obj = (case obj of Sds_Encoded s \<Rightarrow> length s | Int_Encoded n \<Rightarrow> length (show_int n))"

definition addReplyBulkLen :: "net_conf \<Rightarrow> out_client \<Rightarrow> payload \<Rightarrow> out_client option" where
  "addReplyBulkLen cf c obj =
     (if int (payload_len obj) < OBJ_SHARED_BULKHDR_LEN then addReply cf c (shared_bulkhdr (int (payload_len obj)))
      else addReplyLongLongWithPrefix cf c (int (payload_len obj)) (CHR ''$''))"

definition addReplyBulkObject :: "net_conf \<Rightarrow> out_client \<Rightarrow> payload \<Rightarrow> out_client option" where
  "addReplyBulkObject cf c obj = do {
     c \<leftarrow> addReplyBulkLen cf c obj;
     c \<leftarrow> addReply cf c obj;
     addReply cf c (Sds_Encoded CRLF)
   }"

definition addReplyBulkCBuffer :: "net_conf \<Rightarrow> out_client \<Rightarrow> char list \<Rightarrow> out_client option" where
  "addReplyBulkCBuffer cf c p = do {
     c \<leftarrow> addReplyLongLongWithPrefix cf c (int (length p)) (CHR ''$'');
     c \<leftarrow> addReplyProto cf c p;
     addReply cf c (Sds_Encoded CRLF)
   }"

definition addReplyBulkLongLong :: "net_conf \<Rightarrow> out_client \<Rightarrow> int \<Rightarrow> out_client option" where
  "addReplyBulkLongLong cf c ll = do {
     (b, len) \<leftarrow> ll2string (replicate 64 NUL) 64 ll;
     b \<leftarrow> read_at b 0 len;
     addReplyBulkCBuffer cf c b
   }"

text \<open>The extension is cut or filled with blanks to three characters.\<close>

definition addReplyVerbatim :: "net_conf \<Rightarrow> out_client \<Rightarrow> char list \<Rightarrow> char list \<Rightarrow> out_client option" where
  "addReplyVerbatim cf c s ext =
     (if resp c = 2 then addReplyBulkCBuffer cf c s
      else do {
        c \<leftarrow> addReplyProto cf c (CHR ''='' # show_nat (length s + 4) @ CRLF @ take 3 (cstr ext @ ''   '') @ '':'');
        c \<leftarrow> addReplyProto cf c s;
        addReplyProto cf c CRLF
      })"

section \<open>Writing to the socket\<close>

text \<open>
  What the socket answers to a write: it takes at most so many of the bytes that are offered, or the write
  fails, with the connection still open or not.
\<close>

datatype write_result = Wrote nat | Write_Failed bool

text \<open>One write of the head of the output: the new state and the bytes that were taken, none if the write stopped there.\<close>

definition write_buffer :: "out_client \<Rightarrow> nat \<Rightarrow> (out_client \<times> char list) option" where
  "write_buffer c n = do {
     s \<leftarrow> read_at (buf c) (sentlen c) (bufpos c - sentlen c);
     let s = take n s;
     Some (if s \<noteq> [] \<and> sentlen c + length s = bufpos c then c\<lparr>bufpos := 0, sentlen := 0\<rparr> else c\<lparr>sentlen := sentlen c + length s\<rparr>, s)
   }"

definition delete_first :: "out_client \<Rightarrow> clientReplyBlock \<Rightarrow> out_client" where
  "delete_first c blk = c\<lparr>reply_bytes := reply_bytes c - int (length (rb_buf blk)), oreply := tl (oreply c)\<rparr>"

definition write_block :: "out_client \<Rightarrow> clientReplyBlock \<Rightarrow> nat \<Rightarrow> (out_client \<times> char list) option" where
  "write_block c blk n = do {
     s \<leftarrow> read_at (rb_buf blk) (sentlen c) (rb_used blk - sentlen c);
     let s = take n s;
     if s \<noteq> [] \<and> sentlen c + length s = rb_used blk then
       let c = (delete_first c blk)\<lparr>sentlen := 0\<rparr>
       in if oreply c = [] \<and> reply_bytes c \<noteq> 0 then None else Some (c, s)
     else Some (c\<lparr>sentlen := sentlen c + length s\<rparr>, s)
   }"

definition write_head :: "out_client \<Rightarrow> nat \<Rightarrow> (out_client \<times> char list) option" where
  "write_head c n =
     (if bufpos c > 0 then write_buffer c n
      else case oreply c of (node, Some blk) # _ \<Rightarrow> write_block c blk n | _ \<Rightarrow> None)"

text \<open>The loop: the state, the bytes that were taken, and whether the connection is lost.\<close>

lemma write_head_shrinks: "write_head c n = Some (c', s) \<Longrightarrow> length (oreply c') \<le> length (oreply c)"
  by (auto simp: write_head_def write_buffer_def write_block_def delete_first_def Let_def
      split: if_splits list.splits option.splits bind_splits)

function write_loop :: "net_conf \<Rightarrow> out_client \<Rightarrow> nat \<Rightarrow> write_result list \<Rightarrow> (out_client \<times> char list \<times> bool) option" where
  "write_loop cf c totwritten ws =
     (if \<not> clientHasPendingReplies c then Some (c, [], False)
      else if bufpos c = 0 \<and> snd (hd (oreply c)) = None then None
      else if bufpos c = 0 \<and> rb_used (the (snd (hd (oreply c)))) = 0
      then write_loop cf (delete_first c (the (snd (hd (oreply c))))) totwritten ws
      else case ws of
        [] \<Rightarrow> Some (c, [], False)
      | Write_Failed connected # ws \<Rightarrow> Some (c, [], \<not> connected)
      | Wrote n # ws \<Rightarrow> do {
          (c, s) \<leftarrow> write_head c n;
          if s = [] then Some (c, [], False)
          else if totwritten + length s > NET_MAX_WRITES_PER_EVENT \<and> below_maxmemory cf then Some (c, s, False)
          else do {
            (c, s', lost) \<leftarrow> write_loop cf c (totwritten + length s) ws;
            Some (c, s @ s', lost)
          }
        })"
  by pat_completeness auto

termination
proof (relation "measure (\<lambda>(cf, c, tot, ws). length ws + length (oreply c))", goal_cases)
  case (2 cf c tot ws)
  then show ?case by (cases "oreply c") (auto simp: delete_first_def clientHasPendingReplies_def)
next
  case (3 cf c tot ws w wss n x c' s)
  then show ?case using write_head_shrinks[of c n c' s] by simp
qed simp

declare write_loop.simps [simp del]

text \<open>The result says whether the client is still valid.\<close>

definition writeToClient :: "net_conf \<Rightarrow> out_client \<Rightarrow> bool \<Rightarrow> write_result list \<Rightarrow> (out_client \<times> char list \<times> bool) option" where
  "writeToClient cf c handler_installed ws = do {
     (c, s, lost) \<leftarrow> write_loop cf c 0 ws;
     if lost then Some (freeClientAsync c, s, False)
     else if \<not> clientHasPendingReplies c then do {
       let c = c\<lparr>sentlen := 0, write_handler := (if handler_installed then False else write_handler c)\<rparr>;
       if CLIENT_CLOSE_AFTER_REPLY c then Some (freeClientAsync c, s, False) else Some (c, s, True)
     }
     else Some (c, s, True)
   }"

definition sendReplyToClient :: "net_conf \<Rightarrow> out_client \<Rightarrow> write_result list \<Rightarrow> (out_client \<times> char list) option" where
  "sendReplyToClient cf c ws = do { (c, s, ok) \<leftarrow> writeToClient cf c True ws; Some (c, s) }"

text \<open>What is done for a client before the event loop sleeps; \<open>installed\<close> says whether a write handler could be installed.\<close>

definition handleClientWithPendingWrites :: "net_conf \<Rightarrow> out_client \<Rightarrow> write_result list \<Rightarrow> bool \<Rightarrow> (out_client \<times> char list) option" where
  "handleClientWithPendingWrites cf c ws installed =
     (if \<not> CLIENT_PENDING_WRITE c then Some (c, [])
      else
        let c = c\<lparr>CLIENT_PENDING_WRITE := False\<rparr>
        in if CLIENT_CLOSE_ASAP c then Some (c, [])
           else do {
             (c, s, ok) \<leftarrow> writeToClient cf c False ws;
             if ok \<and> clientHasPendingReplies c
             then Some (if installed then c\<lparr>write_handler := True\<rparr> else freeClientAsync c, s)
             else Some (c, s)
           })"

section \<open>Sequences of calls\<close>

text \<open>
  The calls that build replies. A reply whose number of elements is known only afterwards is written between
  \<open>addReplyDeferredLen\<close> and \<open>setDeferredAggregateLen\<close>.
\<close>

datatype deferred_kind = Deferred_Array | Deferred_Map | Deferred_Set

datatype reply_call =
    Add_Proto "char list"
  | Add_Object payload
  | Add_Error "char list"
  | Add_Status "char list"
  | Add_LongLong int
  | Add_ArrayLen nat
  | Add_MapLen nat
  | Add_SetLen nat
  | Add_Null
  | Add_NullArray
  | Add_Bool bool
  | Add_Bulk payload
  | Add_BulkCBuffer "char list"
  | Add_BulkLongLong int
  | Add_Verbatim "char list" "char list"
  | Add_Deferred deferred_kind nat "reply_call list"

definition set_deferred :: "net_conf \<Rightarrow> deferred_kind \<Rightarrow> out_client \<Rightarrow> nat option \<Rightarrow> int \<Rightarrow> out_client option" where
  "set_deferred cf k c node len =
     (case k of Deferred_Array \<Rightarrow> setDeferredArrayLen cf c node len
      | Deferred_Map \<Rightarrow> setDeferredMapLen cf c node len
      | Deferred_Set \<Rightarrow> setDeferredSetLen cf c node len)"

fun do_call :: "net_conf \<Rightarrow> out_client \<Rightarrow> reply_call \<Rightarrow> out_client option"
  and do_calls :: "net_conf \<Rightarrow> out_client \<Rightarrow> reply_call list \<Rightarrow> out_client option" where
  "do_call cf c (Add_Proto s) = addReplyProto cf c s"
| "do_call cf c (Add_Object obj) = addReply cf c obj"
| "do_call cf c (Add_Error s) = addReplyErrorLength cf c s"
| "do_call cf c (Add_Status s) = addReplyStatusLength cf c s"
| "do_call cf c (Add_LongLong n) = addReplyLongLong cf c n"
| "do_call cf c (Add_ArrayLen n) = addReplyArrayLen cf c n"
| "do_call cf c (Add_MapLen n) = addReplyMapLen cf c n"
| "do_call cf c (Add_SetLen n) = addReplySetLen cf c n"
| "do_call cf c Add_Null = addReplyNull cf c"
| "do_call cf c Add_NullArray = addReplyNullArray cf c"
| "do_call cf c (Add_Bool b) = addReplyBool cf c b"
| "do_call cf c (Add_Bulk obj) = addReplyBulkObject cf c obj"
| "do_call cf c (Add_BulkCBuffer s) = addReplyBulkCBuffer cf c s"
| "do_call cf c (Add_BulkLongLong n) = addReplyBulkLongLong cf c n"
| "do_call cf c (Add_Verbatim s ext) = addReplyVerbatim cf c s ext"
| "do_call cf c (Add_Deferred k n cs) = do {
     (c, node) \<leftarrow> addReplyDeferredLen cf c;
     c \<leftarrow> do_calls cf c cs;
     set_deferred cf k c node (int n)
   }"
| "do_calls cf c [] = Some c"
| "do_calls cf c (x # xs) = do { c \<leftarrow> do_call cf c x; do_calls cf c xs }"

text \<open>
  What happens to a client: calls, the flag that closes the connection after the reply, and the two places
  where its output is written.
\<close>

datatype out_event =
    Calls "reply_call list"
  | Close_After_Reply
  | Before_Sleep net_conf "write_result list" bool
  | Writable net_conf "write_result list"

fun out_step :: "net_conf \<Rightarrow> out_client \<Rightarrow> out_event \<Rightarrow> (out_client \<times> char list) option" where
  "out_step cf c (Calls cs) = do { c \<leftarrow> do_calls cf c cs; Some (c, []) }"
| "out_step cf c Close_After_Reply = Some (c\<lparr>CLIENT_CLOSE_AFTER_REPLY := True\<rparr>, [])"
| "out_step cf c (Before_Sleep cf' ws installed) = handleClientWithPendingWrites cf' c ws installed"
| "out_step cf c (Writable cf' ws) = (if write_handler c \<and> \<not> CLIENT_CLOSE_ASAP c then sendReplyToClient cf' c ws else Some (c, []))"

fun out_run :: "net_conf \<Rightarrow> out_client \<Rightarrow> out_event list \<Rightarrow> (out_client \<times> char list) option" where
  "out_run cf c [] = Some (c, [])"
| "out_run cf c (ev # evs) = do {
     (c, s) \<leftarrow> out_step cf c ev;
     (c, s') \<leftarrow> out_run cf c evs;
     Some (c, s @ s')
   }"

definition new_output :: "char list \<Rightarrow> out_client" where
  "new_output uninitialised = \<lparr>buf = uninitialised, bufpos = 0, oreply = [], next_node = 0, sentlen = 0, reply_bytes = 0, resp = 2,
     CLIENT_CLOSE_AFTER_REPLY = False, CLIENT_CLOSE_ASAP = False, reply_off = False, out_master = False,
     CLIENT_PENDING_WRITE = False, write_handler = False, obuf_soft_limit_reached_time = 0\<rparr>"

section \<open>Specification\<close>

text \<open>The protocol text of a call, and what is left of it once the connection is being closed.\<close>

definition header :: "char \<Rightarrow> nat \<Rightarrow> char list" where
  "header prefix n = prefix # show_nat n @ CRLF"

definition payload_bytes :: "payload \<Rightarrow> char list" where
  "payload_bytes obj = (case obj of Sds_Encoded s \<Rightarrow> s | Int_Encoded n \<Rightarrow> show_int n)"

definition bulk_text :: "char list \<Rightarrow> char list" where
  "bulk_text s = header (CHR ''$'') (length s) @ s @ CRLF"

definition deferred_header :: "bool \<Rightarrow> deferred_kind \<Rightarrow> nat \<Rightarrow> char list" where
  "deferred_header resp2 k n =
     (case k of Deferred_Array \<Rightarrow> header (CHR ''*'') n
      | Deferred_Map \<Rightarrow> if resp2 then header (CHR ''*'') (n * 2) else header (CHR ''%'') n
      | Deferred_Set \<Rightarrow> header (if resp2 then CHR ''*'' else CHR ''~'') n)"

fun call_text :: "bool \<Rightarrow> reply_call \<Rightarrow> char list" where
  "call_text resp2 (Add_Proto s) = s"
| "call_text resp2 (Add_Object obj) = payload_bytes obj"
| "call_text resp2 (Add_Error s) = (if s \<noteq> [] \<and> hd s = CHR ''-'' then [] else ''-ERR '') @ s @ CRLF"
| "call_text resp2 (Add_Status s) = CHR ''+'' # s @ CRLF"
| "call_text resp2 (Add_LongLong n) = CHR '':'' # show_int n @ CRLF"
| "call_text resp2 (Add_ArrayLen n) = header (CHR ''*'') n"
| "call_text resp2 (Add_MapLen n) = (if resp2 then header (CHR ''*'') (n * 2) else header (CHR ''%'') n)"
| "call_text resp2 (Add_SetLen n) = header (if resp2 then CHR ''*'' else CHR ''~'') n"
| "call_text resp2 Add_Null = (if resp2 then ''$-1'' else ''_'') @ CRLF"
| "call_text resp2 Add_NullArray = (if resp2 then ''*-1'' else ''_'') @ CRLF"
| "call_text resp2 (Add_Bool b) = (if resp2 then CHR '':'' # show_nat (if b then 1 else 0) else CHR ''#'' # (if b then ''t'' else ''f'')) @ CRLF"
| "call_text resp2 (Add_Bulk obj) = bulk_text (payload_bytes obj)"
| "call_text resp2 (Add_BulkCBuffer s) = bulk_text s"
| "call_text resp2 (Add_BulkLongLong n) = bulk_text (show_int n)"
| "call_text resp2 (Add_Verbatim s ext) = (if resp2 then bulk_text s
     else header (CHR ''='') (length s + 4) @ take 3 (cstr ext @ ''   '') @ '':'' @ s @ CRLF)"
| "call_text resp2 (Add_Deferred k n cs) = deferred_header resp2 k n @ concat (map (call_text resp2) cs)"

text \<open>A connection that is being closed takes only the headers of deferred replies.\<close>

fun closing_text :: "bool \<Rightarrow> reply_call \<Rightarrow> char list" where
  "closing_text resp2 (Add_Deferred k n cs) = deferred_header resp2 k n @ concat (map (closing_text resp2) cs)"
| "closing_text resp2 _ = []"

text \<open>The numbers in a call are \<open>long long\<close>.\<close>

definition fits_ll :: "int \<Rightarrow> bool" where
  "fits_ll n \<longleftrightarrow> LLONG_MIN \<le> n \<and> n \<le> LLONG_MAX"

fun call_ok :: "reply_call \<Rightarrow> bool" where
  "call_ok (Add_Object (Int_Encoded n)) \<longleftrightarrow> fits_ll n"
| "call_ok (Add_LongLong n) \<longleftrightarrow> fits_ll n"
| "call_ok (Add_ArrayLen n) \<longleftrightarrow> fits_ll (int n)"
| "call_ok (Add_MapLen n) \<longleftrightarrow> fits_ll (int n * 2)"
| "call_ok (Add_SetLen n) \<longleftrightarrow> fits_ll (int n)"
| "call_ok (Add_Bulk (Int_Encoded n)) \<longleftrightarrow> fits_ll n"
| "call_ok (Add_Bulk (Sds_Encoded s)) \<longleftrightarrow> fits_ll (int (length s))"
| "call_ok (Add_BulkCBuffer s) \<longleftrightarrow> fits_ll (int (length s))"
| "call_ok (Add_BulkLongLong n) \<longleftrightarrow> fits_ll n"
| "call_ok (Add_Verbatim s ext) \<longleftrightarrow> fits_ll (int (length s))"
| "call_ok (Add_Deferred k n cs) \<longleftrightarrow> fits_ll (int n * 2) \<and> (\<forall>x\<in>set cs. call_ok x)"
| "call_ok _ \<longleftrightarrow> True"

text \<open>All that was ever written, for a sequence of events.\<close>

fun stream_text :: "bool \<Rightarrow> bool \<Rightarrow> out_event list \<Rightarrow> char list" where
  "stream_text resp2 closing [] = []"
| "stream_text resp2 closing (Calls cs # evs) =
     concat (map (if closing then closing_text resp2 else call_text resp2) cs) @ stream_text resp2 closing evs"
| "stream_text resp2 closing (Close_After_Reply # evs) = stream_text resp2 True evs"
| "stream_text resp2 closing (_ # evs) = stream_text resp2 closing evs"

definition alloc_ok :: "net_conf \<Rightarrow> bool" where
  "alloc_ok cf \<longleftrightarrow> (\<forall>n. n \<le> length (alloc cf n))"

fun out_event_ok :: "out_event \<Rightarrow> bool" where
  "out_event_ok (Calls cs) \<longleftrightarrow> (\<forall>x\<in>set cs. call_ok x)"
| "out_event_ok _ \<longleftrightarrow> True"

section \<open>What the buffers hold\<close>

datatype piece = Byte char | Hole nat

fun node_pieces :: "nat \<times> clientReplyBlock option \<Rightarrow> piece list" where
  "node_pieces (n, None) = [Hole n]"
| "node_pieces (n, Some b) = map Byte (take (rb_used b) (rb_buf b))"

definition whole :: "out_client \<Rightarrow> piece list" where
  "whole c = map Byte (take (bufpos c) (buf c)) @ concat (map node_pieces (oreply c))"

definition pending :: "out_client \<Rightarrow> piece list" where
  "pending c = drop (sentlen c) (whole c)"

fun node_ok :: "nat \<times> clientReplyBlock option \<Rightarrow> bool" where
  "node_ok (n, None) \<longleftrightarrow> True"
| "node_ok (n, Some b) \<longleftrightarrow> 0 < rb_used b \<and> rb_used b \<le> length (rb_buf b)"

fun node_size :: "nat \<times> clientReplyBlock option \<Rightarrow> nat" where
  "node_size (n, None) = 0"
| "node_size (n, Some b) = length (rb_buf b)"

fun front :: "nat \<Rightarrow> (nat \<times> clientReplyBlock option) list \<Rightarrow> nat" where
  "front (Suc n) _ = Suc n"
| "front 0 ((n, Some b) # _) = rb_used b"
| "front 0 _ = 1"

definition sent_ok :: "out_client \<Rightarrow> bool" where
  "sent_ok c \<longleftrightarrow> sentlen c < front (bufpos c) (oreply c)"

definition scheduled :: "out_client \<Rightarrow> bool" where
  "scheduled c \<longleftrightarrow> (clientHasPendingReplies c \<longrightarrow> CLIENT_PENDING_WRITE c \<or> write_handler c \<or> CLIENT_CLOSE_ASAP c)"

definition out_ok :: "out_client \<Rightarrow> bool" where
  "out_ok c \<longleftrightarrow> bufpos c \<le> length (buf c) \<and> (\<forall>x\<in>set (oreply c). node_ok x \<and> fst x < next_node c) \<and> distinct (map fst (oreply c)) \<and>
     reply_bytes c = int (sum_list (map node_size (oreply c))) \<and> sent_ok c \<and> scheduled c \<and> \<not> reply_off c \<and> \<not> out_master c"

definition holes :: "out_client \<Rightarrow> nat set" where
  "holes c = {n. (n, None) \<in> set (oreply c)}"

text \<open>The default for normal clients.\<close>

definition no_limits :: "net_conf \<Rightarrow> bool" where
  "no_limits cf \<longleftrightarrow> hard_limit_bytes cf = 0 \<and> soft_limit_bytes cf = 0"

text \<open>A step that appends bytes, unless the client is to be closed for its limits.\<close>

definition emits :: "net_conf \<Rightarrow> out_client \<Rightarrow> char list \<Rightarrow> out_client \<Rightarrow> bool" where
  "emits cf c s c' \<longleftrightarrow> out_ok c' \<and> resp c' = resp c \<and> CLIENT_CLOSE_AFTER_REPLY c' = CLIENT_CLOSE_AFTER_REPLY c \<and> holes c' = holes c \<and>
     (CLIENT_CLOSE_ASAP c \<longrightarrow> CLIENT_CLOSE_ASAP c') \<and> (\<not> CLIENT_CLOSE_ASAP c' \<longrightarrow> pending c' = pending c @ map Byte s) \<and>
     (no_limits cf \<longrightarrow> CLIENT_CLOSE_ASAP c' = CLIENT_CLOSE_ASAP c)"

lemma emits_refl: "out_ok c \<Longrightarrow> emits cf c [] c"
  by (simp add: emits_def)

lemma emits_trans: "emits cf c s c1 \<Longrightarrow> emits cf c1 t c2 \<Longrightarrow> emits cf c (s @ t) c2"
  by (auto simp: emits_def)

lemma emits_ok: "emits cf c s c' \<Longrightarrow> out_ok c'"
  by (simp add: emits_def)

lemma async_cases:
  obtains b t where "asyncCloseClientOnOutputBufferLimitReached cf c = c\<lparr>CLIENT_CLOSE_ASAP := b, obuf_soft_limit_reached_time := t\<rparr>"
    "CLIENT_CLOSE_ASAP c \<Longrightarrow> b" "no_limits cf \<Longrightarrow> b = CLIENT_CLOSE_ASAP c"
proof -
  have "\<exists>b t. asyncCloseClientOnOutputBufferLimitReached cf c = c\<lparr>CLIENT_CLOSE_ASAP := b, obuf_soft_limit_reached_time := t\<rparr> \<and>
      (CLIENT_CLOSE_ASAP c \<longrightarrow> b) \<and> (no_limits cf \<longrightarrow> b = CLIENT_CLOSE_ASAP c)"
    by (cases c) (auto simp: asyncCloseClientOnOutputBufferLimitReached_def checkClientOutputBufferLimits_def freeClientAsync_def no_limits_def Let_def)
  then show ?thesis using that by blast
qed

lemmas out_defs = out_ok_def sent_ok_def scheduled_def pending_def whole_def holes_def clientHasPendingReplies_def

lemma flag_emits:
  assumes "emits cf c s c'" "CLIENT_CLOSE_ASAP c' \<Longrightarrow> b" "no_limits cf \<Longrightarrow> b = CLIENT_CLOSE_ASAP c'"
  shows "emits cf c s (c'\<lparr>CLIENT_CLOSE_ASAP := b, obuf_soft_limit_reached_time := t\<rparr>)"
proof -
  let ?c = "c'\<lparr>CLIENT_CLOSE_ASAP := b, obuf_soft_limit_reached_time := t\<rparr>"
  have "sent_ok ?c = sent_ok c'" "pending ?c = pending c'" "holes ?c = holes c'" "clientHasPendingReplies ?c = clientHasPendingReplies c'"
    by (simp_all add: sent_ok_def pending_def whole_def holes_def clientHasPendingReplies_def)
  then show ?thesis using assms by (auto simp: emits_def out_ok_def scheduled_def)
qed

lemma async_emits: "emits cf c s c' \<Longrightarrow> emits cf c s (asyncCloseClientOnOutputBufferLimitReached cf c')"
  by (rule async_cases[of cf c']) (simp add: flag_emits)

lemma sent_le: "out_ok c \<Longrightarrow> sentlen c \<le> length (whole c)"
  by (cases "(bufpos c, oreply c)" rule: front.cases) (auto simp: out_defs)

lemma pending_more: "out_ok c \<Longrightarrow> whole c' = whole c @ map Byte s \<Longrightarrow> sentlen c' = sentlen c \<Longrightarrow> pending c' = pending c @ map Byte s"
  using sent_le[of c] by (simp add: pending_def)

lemma prepare_spec:
  assumes "out_ok c"
  shows "(prepareClientToWrite c = (c, False) \<and> CLIENT_CLOSE_ASAP c) \<or>
    (\<exists>c'. prepareClientToWrite c = (c', True) \<and> \<not> CLIENT_CLOSE_ASAP c \<and> emits cf c [] c' \<and>
       (CLIENT_PENDING_WRITE c' \<or> write_handler c') \<and> oreply c' = oreply c \<and> next_node c' = next_node c \<and> \<not> CLIENT_CLOSE_ASAP c')"
  using assms by (auto simp: prepareClientToWrite_def clientInstallWriteHandler_def emits_def out_defs)

section \<open>Changes of the reply list\<close>

abbreviation listed :: "out_client \<Rightarrow> bool" where
  "listed c \<equiv> CLIENT_PENDING_WRITE c \<or> write_handler c \<or> CLIENT_CLOSE_ASAP c"

lemma front_Cons: "front p ((n, x) # xs) = front p [(n, x)]"
  by (cases p; cases x) auto

lemma front_append: "xs \<noteq> [] \<Longrightarrow> front p (xs @ ys) = front p xs"
proof (cases xs)
  case (Cons y ys')
  then show ?thesis by (cases y; cases p; cases "snd y") auto
qed simp

lemma replace_ok:
  assumes ok: "out_ok c" and l: "oreply c = xs @ ys" and n: "\<forall>x\<in>set ys'. node_ok x \<and> fst x < m" "next_node c \<le> m" "distinct (map fst (xs @ ys'))"
    and r: "r = reply_bytes c - int (sum_list (map node_size ys)) + int (sum_list (map node_size ys'))"
    and s: "xs = [] \<Longrightarrow> bufpos c = 0 \<Longrightarrow> sentlen c < front 0 ys'" and w: "listed c"
  shows "out_ok (c\<lparr>oreply := xs @ ys', next_node := m, reply_bytes := r\<rparr>)"
proof -
  let ?c = "c\<lparr>oreply := xs @ ys', next_node := m, reply_bytes := r\<rparr>"
  have "\<forall>x\<in>set (xs @ ys'). node_ok x \<and> fst x < m"
  proof
    fix x assume "x \<in> set (xs @ ys')"
    then consider "x \<in> set (oreply c)" | "x \<in> set ys'" using l by auto
    then show "node_ok x \<and> fst x < m" using ok n(1,2) by cases (auto simp: out_ok_def)
  qed
  moreover have "r = int (sum_list (map node_size (xs @ ys')))" using ok l r by (simp add: out_ok_def)
  moreover have "sent_ok ?c"
  proof (cases "xs = []")
    case True
    have "sentlen c < front (bufpos c) (oreply c)" using ok by (simp add: out_ok_def sent_ok_def)
    then show ?thesis using True s by (cases "bufpos c") (auto simp: sent_ok_def)
  next
    case False
    then show ?thesis using ok l by (simp add: out_ok_def sent_ok_def front_append)
  qed
  moreover have "scheduled ?c" using w by (auto simp: scheduled_def)
  ultimately show ?thesis using ok n(3) by (simp add: out_ok_def)
qed

lemma replace_emits:
  assumes ok: "out_ok c" and l: "oreply c = xs @ ys" and n: "\<forall>x\<in>set ys'. node_ok x \<and> fst x < m" "next_node c \<le> m" "distinct (map fst (xs @ ys'))"
    and r: "r = reply_bytes c - int (sum_list (map node_size ys)) + int (sum_list (map node_size ys'))"
    and s: "xs = [] \<Longrightarrow> bufpos c = 0 \<Longrightarrow> sentlen c < front 0 ys'" and w: "listed c"
    and p: "concat (map node_pieces ys') = concat (map node_pieces ys) @ map Byte t"
    and h: "{n. (n, None) \<in> set ys'} = {n. (n, None) \<in> set ys}"
  shows "emits cf c t (c\<lparr>oreply := xs @ ys', next_node := m, reply_bytes := r\<rparr>)"
proof -
  let ?c = "c\<lparr>oreply := xs @ ys', next_node := m, reply_bytes := r\<rparr>"
  have "whole ?c = whole c @ map Byte t" using l p by (simp add: whole_def)
  then have "pending ?c = pending c @ map Byte t" by (rule pending_more[OF ok]) simp
  moreover have "holes ?c = holes c" using l h by (auto simp: holes_def)
  ultimately show ?thesis using replace_ok[OF ok l n r s w] by (simp add: emits_def)
qed

section \<open>Appending bytes\<close>

definition accepted :: "out_client \<Rightarrow> char list \<Rightarrow> char list" where
  "accepted c s = (if CLIENT_CLOSE_AFTER_REPLY c then [] else s)"

lemma addReplyToBuffer_spec:
  assumes ok: "out_ok c" and w: "listed c"
  shows "(\<exists>c'. addReplyToBuffer c s = Some (c', True) \<and> emits cf c (accepted c s) c') \<or>
    (addReplyToBuffer c s = Some (c, False) \<and> \<not> CLIENT_CLOSE_AFTER_REPLY c)"
proof (cases "CLIENT_CLOSE_AFTER_REPLY c \<or> oreply c \<noteq> [] \<or> length s > length (buf c) - bufpos c")
  case True
  then show ?thesis using emits_refl[OF ok] by (auto simp: addReplyToBuffer_def accepted_def Let_def)
next
  case False
  let ?b = "take (bufpos c) (buf c) @ s @ drop (bufpos c + length s) (buf c)"
  let ?c = "c\<lparr>buf := ?b, bufpos := bufpos c + length s\<rparr>"
  have b: "bufpos c \<le> length (buf c)" using ok by (simp add: out_ok_def)
  then have "bufpos c + length s \<le> length (buf c)" using False by linarith
  then have e: "addReplyToBuffer c s = Some (?c, True)" using False by (simp add: addReplyToBuffer_def Let_def)
  have "whole ?c = whole c @ map Byte s" using False b by (simp add: whole_def)
  then have p: "pending ?c = pending c @ map Byte s" by (rule pending_more[OF ok]) simp
  have "sentlen c < front (bufpos c) []" using ok False by (simp add: out_ok_def sent_ok_def)
  then have "sent_ok ?c" using False by (cases "bufpos c"; cases "length s") (auto simp: sent_ok_def)
  then have "out_ok ?c" using ok w False b by (auto simp: out_ok_def scheduled_def)
  then show ?thesis using e p False by (auto simp: emits_def accepted_def holes_def)
qed

lemma fill_tail_spec:
  assumes ok: "out_ok c" and w: "listed c"
  shows "\<exists>c' k. fill_tail c s = Some (c', drop k s) \<and> emits cf c (take k s) c' \<and> listed c' \<and>
    CLIENT_CLOSE_AFTER_REPLY c' = CLIENT_CLOSE_AFTER_REPLY c"
proof (cases "oreply c = [] \<or> snd (last (oreply c)) = None")
  case True
  then have "fill_tail c s = Some (c, drop 0 s)" by (auto simp: fill_tail_def split: prod.splits)
  then show ?thesis using emits_refl[OF ok] w by (intro exI[of _ c] exI[of _ 0]) simp
next
  case False
  then obtain xs n tail where l: "oreply c = xs @ [(n, Some tail)]" by (cases "oreply c" rule: rev_cases) auto
  define k where "k = (if length (rb_buf tail) - rb_used tail \<ge> length s then length s else length (rb_buf tail) - rb_used tail)"
  have t: "0 < rb_used tail" "rb_used tail \<le> length (rb_buf tail)" "n < next_node c" "distinct (map fst xs)" "n \<notin> fst ` set xs"
    using ok l by (auto simp: out_ok_def)
  define b where "b = take (rb_used tail) (rb_buf tail) @ take k s @ drop (rb_used tail + length (take k s)) (rb_buf tail)"
  define nb where "nb = \<lparr>rb_buf = b, rb_used = rb_used tail + k\<rparr>"
  have k: "k \<le> length s" "rb_used tail + k \<le> length (rb_buf tail)" using t(2) by (auto simp: k_def)
  have lb: "length b = length (rb_buf tail)" using k t(2) by (simp add: b_def)
  have tb: "take (rb_used nb) (rb_buf nb) = take (rb_used tail) (rb_buf tail) @ take k s" using k t(2) by (simp add: nb_def b_def)
  let ?c = "c\<lparr>oreply := xs @ [(n, Some nb)], next_node := next_node c, reply_bytes := reply_bytes c\<rparr>"
  have "write_at (rb_buf tail) (rb_used tail) (take k s) = Some b" unfolding b_def using k by (intro write_at_in) simp
  then have "fill_tail c s = Some (?c, drop k s)" using l by (simp add: fill_tail_def Let_def nb_def flip: k_def)
  moreover have "emits cf c (take k s) ?c"
  proof (rule replace_emits[OF ok l])
    show "concat (map node_pieces [(n, Some nb)]) = concat (map node_pieces [(n, Some tail)]) @ map Byte (take k s)" using tb by simp
    have "sentlen c < front (bufpos c) (oreply c)" using ok by (simp add: out_ok_def sent_ok_def)
    then show "xs = [] \<Longrightarrow> bufpos c = 0 \<Longrightarrow> sentlen c < front 0 [(n, Some nb)]" using l by (simp add: nb_def)
  qed (use t k lb w in \<open>auto simp: nb_def\<close>)
  ultimately show ?thesis using w by (intro exI[of _ ?c] exI[of _ k]) simp
qed

lemma new_block_emits:
  assumes ok: "out_ok c" and w: "listed c" and s: "s \<noteq> []" "length s \<le> length b"
  shows "emits cf c s (c\<lparr>oreply := oreply c @ [(next_node c, Some \<lparr>rb_buf = s @ drop (length s) b, rb_used = length s\<rparr>)],
    next_node := next_node c + 1, reply_bytes := reply_bytes c + int (length b)\<rparr>)"
proof (rule replace_emits[OF ok, of _ "[]"])
  have d: "distinct (map fst (oreply c))" "\<forall>x\<in>set (oreply c). fst x < next_node c" using ok by (auto simp: out_ok_def)
  then show "distinct (map fst (oreply c @ [(next_node c, Some \<lparr>rb_buf = s @ drop (length s) b, rb_used = length s\<rparr>)]))" by fastforce
  have "oreply c = [] \<Longrightarrow> bufpos c = 0 \<Longrightarrow> sentlen c = 0" using ok by (simp add: out_ok_def sent_ok_def)
  then show "oreply c = [] \<Longrightarrow> bufpos c = 0 \<Longrightarrow> sentlen c < front 0 [(next_node c, Some \<lparr>rb_buf = s @ drop (length s) b, rb_used = length s\<rparr>)]"
    using s by simp
qed (use s w in auto)

lemma addReplyProtoToList_spec:
  assumes cf: "alloc_ok cf" and ok: "out_ok c" and w: "listed c"
  shows "\<exists>c'. addReplyProtoToList cf c s = Some c' \<and> emits cf c (accepted c s) c'"
proof (cases "CLIENT_CLOSE_AFTER_REPLY c")
  case True
  then show ?thesis using emits_refl[OF ok] by (simp add: addReplyProtoToList_def accepted_def)
next
  case False
  obtain c1 k where c1: "fill_tail c s = Some (c1, drop k s)" "emits cf c (take k s) c1" "listed c1" using fill_tail_spec[OF ok w] by blast
  show ?thesis
  proof (cases "drop k s = []")
    case True
    then have "addReplyProtoToList cf c s = Some (asyncCloseClientOnOutputBufferLimitReached cf c1)"
      using False c1(1) by (simp add: addReplyProtoToList_def)
    moreover have "take k s = s" using True by simp
    ultimately show ?thesis using async_emits[OF c1(2)] False by (simp add: accepted_def)
  next
    case t: False
    define u where "u = drop k s"
    define size where "size = (if length u < PROTO_REPLY_CHUNK_BYTES then PROTO_REPLY_CHUNK_BYTES else length u)"
    have u: "s = take k s @ u" "u \<noteq> []" using t by (simp_all add: u_def)
    have "length u \<le> size" by (simp add: size_def)
    then have z: "length u \<le> length (alloc cf size)" using cf by (meson alloc_ok_def le_trans)
    then have "write_at (alloc cf size) 0 u = Some (u @ drop (length u) (alloc cf size))" by simp
    moreover have "length (u @ drop (length u) (alloc cf size)) = length (alloc cf size)" using z by simp
    ultimately have "addReplyProtoToList cf c s = Some (asyncCloseClientOnOutputBufferLimitReached cf
       (c1\<lparr>oreply := oreply c1 @ [(next_node c1, Some \<lparr>rb_buf = u @ drop (length u) (alloc cf size), rb_used = length u\<rparr>)],
         next_node := next_node c1 + 1, reply_bytes := reply_bytes c1 + int (length (alloc cf size))\<rparr>))"
      using False c1(1) u(2) unfolding addReplyProtoToList_def u_def[symmetric] by (simp add: Let_def flip: u_def size_def del: length_append)
    moreover note async_emits[OF emits_trans[OF c1(2) new_block_emits[OF emits_ok[OF c1(2)] c1(3) u(2) z]]]
    ultimately show ?thesis using False u(1) by (simp add: accepted_def)
  qed
qed

lemma addReplyProto_spec:
  assumes cf: "alloc_ok cf" and ok: "out_ok c"
  shows "\<exists>c'. addReplyProto cf c s = Some c' \<and> emits cf c (accepted c s) c'"
  using prepare_spec[OF ok]
proof
  assume "prepareClientToWrite c = (c, False) \<and> CLIENT_CLOSE_ASAP c"
  then show ?thesis using ok by (auto simp: addReplyProto_def emits_def)
next
  assume "\<exists>c'. prepareClientToWrite c = (c', True) \<and> \<not> CLIENT_CLOSE_ASAP c \<and> emits cf c [] c' \<and>
       (CLIENT_PENDING_WRITE c' \<or> write_handler c') \<and> oreply c' = oreply c \<and> next_node c' = next_node c \<and> \<not> CLIENT_CLOSE_ASAP c'"
  then obtain c1 where c1: "prepareClientToWrite c = (c1, True)" "emits cf c [] c1" "listed c1" by blast
  have a: "accepted c1 s = accepted c s" using c1(2) by (simp add: accepted_def emits_def)
  note to_list = addReplyProtoToList_spec[OF cf emits_ok[OF c1(2)] c1(3), of s]
  from addReplyToBuffer_spec[OF emits_ok[OF c1(2)] c1(3), of s cf] show ?thesis
    using c1(1) a to_list emits_trans[OF c1(2)] by (auto simp: addReplyProto_def)
qed

section \<open>Replies\<close>

definition adds :: "net_conf \<Rightarrow> out_client \<Rightarrow> out_client option \<Rightarrow> char list \<Rightarrow> bool" where
  "adds cf c r s \<longleftrightarrow> (\<exists>c'. r = Some c' \<and> emits cf c (accepted c s) c')"

lemma adds_bind:
  assumes "adds cf c r s" "\<And>c'. out_ok c' \<Longrightarrow> resp c' = resp c \<Longrightarrow> adds cf c' (g c') t"
  shows "adds cf c (r \<bind> g) (s @ t)"
proof -
  obtain c1 where c1: "r = Some c1" "emits cf c (accepted c s) c1" using assms(1) by (auto simp: adds_def)
  then have e: "out_ok c1" "resp c1 = resp c" "CLIENT_CLOSE_AFTER_REPLY c1 = CLIENT_CLOSE_AFTER_REPLY c" by (simp_all add: emits_def)
  then obtain c2 where c2: "g c1 = Some c2" "emits cf c1 (accepted c1 t) c2" using assms(2)[of c1] by (auto simp: adds_def)
  have "accepted c s @ accepted c1 t = accepted c (s @ t)" using e(3) by (simp add: accepted_def)
  then show ?thesis using emits_trans[OF c1(2) c2(2)] c1(1) c2(1) by (simp add: adds_def)
qed

lemma adds_nothing: "out_ok c \<Longrightarrow> adds cf c (Some c) []"
  using emits_refl by (simp add: adds_def accepted_def)

lemma addReplyProto_adds: "alloc_ok cf \<Longrightarrow> out_ok c \<Longrightarrow> adds cf c (addReplyProto cf c s) s"
  using addReplyProto_spec by (simp add: adds_def)

lemma ll2string_text:
  assumes "fits_ll n" "20 < sz"
  shows "\<exists>b. ll2string (replicate sz NUL) sz n = Some (show_int n @ b, length (show_int n)) \<and> length (show_int n @ b) = sz"
proof -
  have "length (show_int n) < sz" using assms length_show_int_le[of n] by (simp add: fits_ll_def)
  then show ?thesis using ll2string_spec[of n sz "replicate sz NUL"] assms(1) by (simp add: fits_ll_def)
qed

lemma addReply_adds:
  assumes "alloc_ok cf" "out_ok c" "case obj of Sds_Encoded s \<Rightarrow> True | Int_Encoded n \<Rightarrow> fits_ll n"
  shows "adds cf c (addReply cf c obj) (payload_bytes obj)"
proof (cases obj)
  case (Sds_Encoded s)
  then show ?thesis using addReplyProto_adds[OF assms(1,2)] by (simp add: addReply_def payload_bytes_def)
next
  case (Int_Encoded n)
  then obtain b where "ll2string (replicate 32 NUL) 32 n = Some (show_int n @ b, length (show_int n))" using ll2string_text[of n 32] assms(3) by auto
  then show ?thesis using addReplyProto_adds[OF assms(1,2)] Int_Encoded by (simp add: addReply_def payload_bytes_def)
qed

lemma sds_adds: "alloc_ok cf \<Longrightarrow> out_ok c \<Longrightarrow> adds cf c (addReply cf c (Sds_Encoded s)) s"
  using addReply_adds[of cf c "Sds_Encoded s"] by (simp add: payload_bytes_def)

lemma prefix_adds:
  assumes "alloc_ok cf" "out_ok c" "fits_ll ll"
  shows "adds cf c (addReplyLongLongWithPrefix cf c ll prefix) (prefix # show_int ll @ CRLF)"
proof (cases "(prefix = CHR ''*'' \<or> prefix = CHR ''$'') \<and> ll < OBJ_SHARED_BULKHDR_LEN \<and> ll \<ge> 0")
  case True
  then show ?thesis using sds_adds[OF assms(1,2), of "prefix # show_int ll @ CRLF"]
    by (auto simp: addReplyLongLongWithPrefix_def shared_mbulkhdr_def shared_bulkhdr_def)
next
  case False
  obtain b where b: "ll2string (replicate 127 NUL) 127 ll = Some (show_int ll @ b, length (show_int ll))" "length (show_int ll @ b) = 127"
    using ll2string_text[of ll 127] assms(3) by auto
  have l: "length (show_int ll) \<le> 20" using assms(3) length_show_int_le[of ll] by (simp add: fits_ll_def)
  define i where "i = show_int ll"
  have "length (prefix # i @ b) = 128" "length i \<le> 20" using b(2) l by (simp_all add: i_def)
  then have w: "write_at (prefix # i @ b) (length i + 1) CRLF = Some (prefix # i @ CRLF @ drop 2 b)"
    by (simp add: write_at_def)
  have "take (length (prefix # i @ CRLF)) ((prefix # i @ CRLF) @ drop 2 b) = prefix # i @ CRLF" by (simp only: take_append take_all_iff order_refl diff_self_eq_0 take0 append_Nil2)
  then have "read_at (prefix # i @ CRLF @ drop 2 b) 0 (length i + 3) = Some (prefix # i @ CRLF)" by (simp add: read_at_def numeral_3_eq_3)
  then show ?thesis using False w b(1) addReplyProto_adds[OF assms(1,2)]
    by (auto simp: addReplyLongLongWithPrefix_def i_def)
qed

lemma header_int: "prefix # show_int (int n) @ CRLF = header prefix n"
  by (simp add: header_def show_int_def)

lemma aggregate_adds: "alloc_ok cf \<Longrightarrow> out_ok c \<Longrightarrow> fits_ll (int n) \<Longrightarrow> adds cf c (addReplyAggregateLen cf c n prefix) (header prefix n)"
  using prefix_adds[of cf c "int n" prefix] sds_adds[of cf c "CHR ''*'' # show_int (int n) @ CRLF"]
  by (auto simp: addReplyAggregateLen_def shared_mbulkhdr_def header_int)

lemma payload_length: "payload_len obj = length (payload_bytes obj)"
  by (simp add: payload_len_def payload_bytes_def split: payload.splits)

lemma bulklen_adds:
  "alloc_ok cf \<Longrightarrow> out_ok c \<Longrightarrow> fits_ll (int (payload_len obj)) \<Longrightarrow> adds cf c (addReplyBulkLen cf c obj) (header (CHR ''$'') (payload_len obj))"
  using prefix_adds[of cf c "int (payload_len obj)" "CHR ''$''"] sds_adds[of cf c "CHR ''$'' # show_int (int (payload_len obj)) @ CRLF"]
  by (auto simp: addReplyBulkLen_def shared_bulkhdr_def header_int)

lemma fits_show: "fits_ll n \<Longrightarrow> fits_ll (int (length (show_int n)))"
  using length_show_int_le[of n] by (simp add: fits_ll_def LLONG_MAX_def LLONG_MIN_def)

lemma bulk_adds:
  assumes "alloc_ok cf" "out_ok c" "case obj of Sds_Encoded s \<Rightarrow> fits_ll (int (length s)) | Int_Encoded n \<Rightarrow> fits_ll n"
  shows "adds cf c (addReplyBulkObject cf c obj) (bulk_text (payload_bytes obj))"
proof -
  have "fits_ll (int (payload_len obj))" "case obj of Sds_Encoded s \<Rightarrow> True | Int_Encoded n \<Rightarrow> fits_ll n"
    using assms(3) fits_show by (auto simp: payload_len_def split: payload.splits)
  then show ?thesis unfolding addReplyBulkObject_def bulk_text_def payload_length[symmetric]
    by (intro adds_bind bulklen_adds addReply_adds sds_adds assms)
qed

lemma cbuffer_adds:
  assumes "alloc_ok cf" "out_ok c" "fits_ll (int (length s))"
  shows "adds cf c (addReplyBulkCBuffer cf c s) (bulk_text s)"
  unfolding addReplyBulkCBuffer_def bulk_text_def header_int[symmetric]
  by (intro adds_bind prefix_adds addReplyProto_adds sds_adds assms)

lemma bulk_longlong_adds:
  assumes "alloc_ok cf" "out_ok c" "fits_ll n"
  shows "adds cf c (addReplyBulkLongLong cf c n) (bulk_text (show_int n))"
proof -
  obtain b where "ll2string (replicate 64 NUL) 64 n = Some (show_int n @ b, length (show_int n))" using ll2string_text[of n 64] assms(3) by auto
  then show ?thesis using cbuffer_adds[OF assms(1,2) fits_show[OF assms(3)]] by (simp add: addReplyBulkLongLong_def read_at_def)
qed

lemma error_adds:
  assumes "alloc_ok cf" "out_ok c"
  shows "adds cf c (addReplyErrorLength cf c s) (call_text r (Add_Error s))"
  unfolding addReplyErrorLength_def call_text.simps
  by (intro adds_bind addReplyProto_adds assms) (use adds_nothing[OF assms(2)] addReplyProto_adds[OF assms] in auto)

lemma status_adds:
  assumes "alloc_ok cf" "out_ok c"
  shows "adds cf c (addReplyStatusLength cf c s) (call_text r (Add_Status s))"
  using adds_bind[OF addReplyProto_adds[OF assms, of "''+''"] adds_bind[OF addReplyProto_adds[OF assms(1)] addReplyProto_adds[OF assms(1)]], of s CRLF]
  by (simp add: addReplyStatusLength_def)

lemma longlong_adds:
  assumes "alloc_ok cf" "out_ok c" "fits_ll n"
  shows "adds cf c (addReplyLongLong cf c n) (CHR '':'' # show_int n @ CRLF)"
  using prefix_adds[OF assms, of "CHR '':''"] sds_adds[OF assms(1,2), of "'':'' @ show_int n @ CRLF"]
  by (auto simp: addReplyLongLong_def show_int_def show_nat.simps digit_char_def char_of_def bit_0)

lemma verbatim_adds:
  assumes "alloc_ok cf" "out_ok c" "fits_ll (int (length s))"
  shows "adds cf c (addReplyVerbatim cf c s ext) (call_text (resp c = 2) (Add_Verbatim s ext))"
proof (cases "resp c = 2")
  case True
  then show ?thesis using cbuffer_adds[OF assms] by (simp add: addReplyVerbatim_def)
next
  case False
  note b = adds_bind[OF addReplyProto_adds[OF assms(1,2)] adds_bind[OF addReplyProto_adds[OF assms(1)] addReplyProto_adds[OF assms(1)]],
      of "CHR ''='' # show_nat (length s + 4) @ CRLF @ take 3 (cstr ext @ ''   '') @ '':''" s CRLF]
  then show ?thesis using False by (simp add: addReplyVerbatim_def header_def)
qed

section \<open>Deferred lengths\<close>

lemma trim_spec:
  assumes cf: "alloc_ok cf" and ok: "out_ok c" and w: "listed c"
  shows "\<exists>c'. trimReplyUnusedTailSpace cf c = Some c' \<and> emits cf c [] c' \<and> listed c' \<and> CLIENT_CLOSE_ASAP c' = CLIENT_CLOSE_ASAP c \<and>
    next_node c' = next_node c"
proof (cases "oreply c = [] \<or> snd (last (oreply c)) = None")
  case True
  then have "trimReplyUnusedTailSpace cf c = Some c" by (auto simp: trimReplyUnusedTailSpace_def split: prod.splits)
  then show ?thesis using emits_refl[OF ok] w by simp
next
  case False
  then obtain xs n tail where l: "oreply c = xs @ [(n, Some tail)]" by (cases "oreply c" rule: rev_cases) auto
  define used where "used = rb_used tail"
  have t: "0 < used" "used \<le> length (rb_buf tail)" "n < next_node c" "distinct (map fst xs)" "n \<notin> fst ` set xs"
    using ok l by (auto simp: out_ok_def used_def)
  show ?thesis
  proof (cases "length (rb_buf tail) - used > length (rb_buf tail) div 4 \<and> used < PROTO_REPLY_CHUNK_BYTES")
    case True
    have a: "used \<le> length (alloc cf used)" using cf by (simp add: alloc_ok_def)
    define b where "b = take used (rb_buf tail) @ drop used (alloc cf used)"
    define nb where "nb = \<lparr>rb_buf = b, rb_used = used\<rparr>"
    let ?c = "c\<lparr>oreply := xs @ [(n, Some nb)], next_node := next_node c, reply_bytes := reply_bytes c + int (length b) - int (length (rb_buf tail))\<rparr>"
    have "write_at (alloc cf used) 0 (take used (rb_buf tail)) = Some b" using a t(2) by (simp add: b_def)
    moreover have lb: "length b = length (alloc cf used)" using a t(2) by (simp add: b_def)
    ultimately have "trimReplyUnusedTailSpace cf c = Some ?c"
      using l True by (simp add: trimReplyUnusedTailSpace_def Let_def nb_def flip: used_def)
    moreover have "emits cf c [] ?c"
    proof (rule replace_emits[OF ok l])
      show "concat (map node_pieces [(n, Some nb)]) = concat (map node_pieces [(n, Some tail)]) @ map Byte []"
        using t(2) by (simp add: nb_def b_def used_def)
      have "sentlen c < front (bufpos c) (oreply c)" using ok by (simp add: out_ok_def sent_ok_def)
      then show "xs = [] \<Longrightarrow> bufpos c = 0 \<Longrightarrow> sentlen c < front 0 [(n, Some nb)]" using l by (simp add: nb_def used_def)
    qed (use t a lb w in \<open>auto simp: nb_def\<close>)
    ultimately show ?thesis using w by (intro exI[of _ ?c]) simp
  next
    case False
    then have "trimReplyUnusedTailSpace cf c = Some c" using l by (auto simp: trimReplyUnusedTailSpace_def Let_def simp flip: used_def)
    then show ?thesis using emits_refl[OF ok] w by simp
  qed
qed

lemma hole_in_nodes: "Hole n \<in> set (concat (map node_pieces xs)) \<longleftrightarrow> (n, None) \<in> set xs"
proof (induction xs)
  case (Cons x xs)
  then show ?case by (cases x; cases "snd x") auto
qed simp

lemma hole_pending: "Hole n \<in> set (pending c) \<Longrightarrow> n \<in> holes c"
  using hole_in_nodes[of n "oreply c"] by (auto simp: pending_def whole_def holes_def dest!: in_set_dropD)

lemma deferred_spec:
  assumes cf: "alloc_ok cf" and ok: "out_ok c"
  shows "(addReplyDeferredLen cf c = Some (c, None) \<and> CLIENT_CLOSE_ASAP c) \<or>
    (\<exists>c' n. addReplyDeferredLen cf c = Some (c', Some n) \<and> out_ok c' \<and> \<not> CLIENT_CLOSE_ASAP c \<and> \<not> CLIENT_CLOSE_ASAP c' \<and> resp c' = resp c \<and>
       CLIENT_CLOSE_AFTER_REPLY c' = CLIENT_CLOSE_AFTER_REPLY c \<and> n \<notin> holes c \<and> holes c' = insert n (holes c) \<and>
       pending c' = pending c @ [Hole n])"
  using prepare_spec[OF ok]
proof
  assume "prepareClientToWrite c = (c, False) \<and> CLIENT_CLOSE_ASAP c"
  then show ?thesis by (auto simp: addReplyDeferredLen_def)
next
  assume "\<exists>c'. prepareClientToWrite c = (c', True) \<and> \<not> CLIENT_CLOSE_ASAP c \<and> emits cf c [] c' \<and>
       (CLIENT_PENDING_WRITE c' \<or> write_handler c') \<and> oreply c' = oreply c \<and> next_node c' = next_node c \<and> \<not> CLIENT_CLOSE_ASAP c'"
  then obtain c1 where c1: "prepareClientToWrite c = (c1, True)" "\<not> CLIENT_CLOSE_ASAP c" "emits cf c [] c1" "listed c1" "\<not> CLIENT_CLOSE_ASAP c1" by blast
  obtain c2 where c2: "trimReplyUnusedTailSpace cf c1 = Some c2" "emits cf c1 [] c2" "listed c2" "\<not> CLIENT_CLOSE_ASAP c2"
    using trim_spec[OF cf emits_ok[OF c1(3)] c1(4)] c1(5) by auto
  have e: "emits cf c [] c2" using emits_trans[OF c1(3) c2(2)] by simp
  let ?n = "next_node c2"
  let ?c = "c2\<lparr>oreply := oreply c2 @ [(?n, None)], next_node := ?n + 1, reply_bytes := reply_bytes c2\<rparr>"
  have o: "\<forall>x\<in>set (oreply c2). fst x < ?n" "distinct (map fst (oreply c2))" "sentlen c2 < front (bufpos c2) (oreply c2)"
    using e by (auto simp: emits_def out_ok_def sent_ok_def)
  have "addReplyDeferredLen cf c = Some (?c, Some ?n)" using c1(1) c2(1) by (simp add: addReplyDeferredLen_def)
  moreover have "out_ok ?c"
    by (rule replace_ok[OF emits_ok[OF e], of _ "[]"]) (use o c2(3) in \<open>auto simp: less_Suc_eq\<close>)
  moreover have "?n \<notin> holes c2" using o(1) by (auto simp: holes_def)
  moreover have "holes ?c = insert ?n (holes c2)" by (auto simp: holes_def)
  moreover have "pending ?c = pending c2 @ [Hole ?n]" using sent_le[OF emits_ok[OF e]] by (simp add: pending_def whole_def)
  ultimately show ?thesis using e c1(2) c2(4) by (intro disjI2 exI[of _ ?c] exI[of _ ?n]) (simp add: emits_def)
qed

definition fills :: "nat \<Rightarrow> char list \<Rightarrow> (nat \<times> clientReplyBlock option) list \<Rightarrow> (nat \<times> clientReplyBlock option) list \<Rightarrow> int \<Rightarrow> bool" where
  "fills n s ys rest added \<longleftrightarrow> (\<forall>x\<in>set rest. node_ok x) \<and> fst ` set rest \<subseteq> insert n (fst ` set ys) \<and>
     (distinct (n # map fst ys) \<longrightarrow> distinct (map fst rest)) \<and> int (sum_list (map node_size rest)) = int (sum_list (map node_size ys)) + added \<and>
     concat (map node_pieces rest) = map Byte s @ concat (map node_pieces ys) \<and> (\<forall>m. (m, None) \<in> set rest \<longleftrightarrow> (m, None) \<in> set ys) \<and>
     0 < front 0 rest"

lemma glue_header_spec:
  assumes "node_ok (n, Some nx)" "room_for_header s nx"
  obtains nb where "glue_header s nx = Some nb" "node_ok (n, Some nb)" "length (rb_buf nb) = length (rb_buf nx)"
    "take (rb_used nb) (rb_buf nb) = s @ take (rb_used nx) (rb_buf nx)"
proof -
  define u where "u = take (rb_used nx) (rb_buf nx)"
  have l: "length s + length u \<le> length (rb_buf nx)" "length u = rb_used nx" using assms by (auto simp: room_for_header_def u_def)
  define b1 where "b1 = take (length s) (rb_buf nx) @ u @ drop (length s + length u) (rb_buf nx)"
  define b2 where "b2 = s @ u @ drop (length s + length u) (rb_buf nx)"
  have "write_at (rb_buf nx) (length s) u = Some b1" "write_at b1 0 s = Some b2" using l by (auto simp: b1_def b2_def write_at_def)
  then have "glue_header s nx = Some \<lparr>rb_buf = b2, rb_used = rb_used nx + length s\<rparr>" using assms(1) by (simp add: glue_header_def u_def)
  moreover have "length b2 = length (rb_buf nx)" using l by (simp add: b2_def)
  moreover have "take (rb_used nx + length s) b2 = s @ u" using l(2) by (simp add: b2_def)
  ultimately show ?thesis using that[of "\<lparr>rb_buf = b2, rb_used = rb_used nx + length s\<rparr>"] assms l by (simp add: u_def)
qed

lemma fill_placeholder_spec:
  assumes cf: "alloc_ok cf" and ys: "\<forall>x\<in>set ys. node_ok x" and s: "s \<noteq> []"
  shows "\<exists>rest added. fill_placeholder cf s ((n, None) # ys) = Some (rest, added) \<and> fills n s ys rest added"
proof -
  define b where "b = s @ drop (length s) (alloc cf (length s))"
  have "length s \<le> length (alloc cf (length s))" using cf by (simp add: alloc_ok_def)
  then have w: "write_at (alloc cf (length s)) 0 s = Some b" "length s \<le> length b" "take (length s) b = s" by (simp_all add: b_def)
  have fresh: "fills n s ys ((n, Some \<lparr>rb_buf = b, rb_used = length s\<rparr>) # ys) (int (length b))"
    using ys s w by (auto simp: fills_def)
  show ?thesis
  proof (cases "\<exists>m nx ys'. ys = (m, Some nx) # ys' \<and> room_for_header s nx")
    case True
    then obtain m nx ys' where y: "ys = (m, Some nx) # ys'" "room_for_header s nx" by blast
    obtain nb where nb: "glue_header s nx = Some nb" "node_ok (m, Some nb)" "length (rb_buf nb) = length (rb_buf nx)"
        "take (rb_used nb) (rb_buf nb) = s @ take (rb_used nx) (rb_buf nx)"
      using glue_header_spec[of m nx s] ys y by auto
    have "fills n s ys ((m, Some nb) # ys') 0" using ys y nb by (auto simp: fills_def)
    then show ?thesis using y nb by simp
  next
    case False
    then have "fill_placeholder cf s ((n, None) # ys) = Some ((n, Some \<lparr>rb_buf = b, rb_used = length s\<rparr>) # ys, int (length b))"
      using w(1) by (auto split: list.splits option.splits)
    then show ?thesis using fresh by blast
  qed
qed

definition plugs :: "net_conf \<Rightarrow> out_client \<Rightarrow> nat \<Rightarrow> char list \<Rightarrow> out_client \<Rightarrow> bool" where
  "plugs cf c n s c' \<longleftrightarrow> out_ok c' \<and> resp c' = resp c \<and> CLIENT_CLOSE_AFTER_REPLY c' = CLIENT_CLOSE_AFTER_REPLY c \<and>
     holes c' = holes c - {n} \<and> (CLIENT_CLOSE_ASAP c \<longrightarrow> CLIENT_CLOSE_ASAP c') \<and>
     (no_limits cf \<longrightarrow> CLIENT_CLOSE_ASAP c' = CLIENT_CLOSE_ASAP c) \<and>
     (\<forall>p q. \<not> CLIENT_CLOSE_ASAP c' \<longrightarrow> Hole n \<notin> set p \<longrightarrow> Hole n \<notin> set q \<longrightarrow> pending c = p @ Hole n # q \<longrightarrow>
        pending c' = p @ map Byte s @ q)"

lemma setDeferred_spec:
  assumes cf: "alloc_ok cf" and ok: "out_ok c" and n: "n \<in> holes c" and len: "0 \<le> len"
  shows "\<exists>c'. setDeferredAggregateLen cf c (Some n) len prefix = Some c' \<and> plugs cf c n (prefix # show_int len @ CRLF) c'"
proof -
  let ?s = "prefix # show_int len @ CRLF"
  obtain xs ys where l: "oreply c = xs @ (n, None) # ys" using n split_list[of "(n, None)" "oreply c"] by (auto simp: holes_def)
  have d: "distinct (map fst xs)" "n \<notin> fst ` set xs" "n \<notin> fst ` set ys" "distinct (map fst ys)" "fst ` set xs \<inter> fst ` set ys = {}"
      "\<forall>x\<in>set ys. node_ok x \<and> fst x < next_node c" "n < next_node c"
    using ok l by (auto simp: out_ok_def)
  have w: "listed c" using ok l by (auto simp: out_ok_def scheduled_def clientHasPendingReplies_def)
  have sp: "takeWhile (\<lambda>(m, _). m \<noteq> n) (oreply c) = xs" "dropWhile (\<lambda>(m, _). m \<noteq> n) (oreply c) = (n, None) # ys"
    using d(2) l by (force simp: takeWhile_append dropWhile_append)+
  obtain rest added where f: "fill_placeholder cf ?s ((n, None) # ys) = Some (rest, added)" "fills n ?s ys rest added"
    using fill_placeholder_spec[OF cf, of ys ?s n] d(6) by auto
  note F = f(2)[unfolded fills_def]
  define c1 where "c1 = c\<lparr>oreply := xs @ rest, next_node := next_node c, reply_bytes := reply_bytes c + added\<rparr>"
  have e: "setDeferredAggregateLen cf c (Some n) len prefix = Some (asyncCloseClientOnOutputBufferLimitReached cf c1)"
    using len f(1) sp by (simp add: setDeferredAggregateLen_def c1_def)
  have s0: "xs = [] \<Longrightarrow> bufpos c = 0 \<Longrightarrow> sentlen c = 0" using ok l by (simp add: out_ok_def sent_ok_def)
  have ok1: "out_ok c1" unfolding c1_def
  proof (rule replace_ok[OF ok l])
    have r: "fst ` set rest \<subseteq> insert n (fst ` set ys)" "distinct (map fst rest)" using F d by auto
    then show "distinct (map fst (xs @ rest))" using d(1,2,5) by auto
    show "\<forall>x\<in>set rest. node_ok x \<and> fst x < next_node c"
    proof
      fix x assume "x \<in> set rest"
      then have "fst x = n \<or> fst x \<in> fst ` set ys" "node_ok x" using r(1) F by auto
      then show "node_ok x \<and> fst x < next_node c" using d(6,7) by auto
    qed
  qed (use F w s0 in auto)
  have "\<And>m. (m, None) \<in> set rest \<longleftrightarrow> (m, None) \<in> set ys" using F by blast
  moreover have "(n, None) \<notin> set xs" "(n, None) \<notin> set ys" using d(2,3) by (metis fst_conv imageI)+
  ultimately have h1: "holes c1 = holes c - {n}" unfolding holes_def c1_def l by auto
  define pre where "pre = map Byte (take (bufpos c) (buf c)) @ concat (map node_pieces xs)"
  define post where "post = concat (map node_pieces ys)"
  have "sentlen c < front (bufpos c) (oreply c)" using ok by (simp add: out_ok_def sent_ok_def)
  have b: "bufpos c \<le> length (buf c)" using ok by (simp add: out_ok_def)
  have s: "sentlen c \<le> length pre"
  proof (cases "xs = []")
    case True
    then show ?thesis using \<open>sentlen c < front _ _\<close> l b by (cases "bufpos c") (auto simp: pre_def)
  next
    case False
    then have "sentlen c < front (bufpos c) xs" using \<open>sentlen c < front _ _\<close> l by (simp add: front_append)
    then show ?thesis using b False ok l by (cases "(bufpos c, xs)" rule: front.cases) (auto simp: pre_def out_ok_def)
  qed
  have p: "pending c = drop (sentlen c) pre @ Hole n # post" "pending c1 = drop (sentlen c) pre @ map Byte ?s @ post"
    using s l F by (auto simp: pending_def whole_def pre_def post_def c1_def)
  have "pending c1 = p @ map Byte ?s @ q" if "Hole n \<notin> set p" "Hole n \<notin> set q" "pending c = p @ Hole n # q" for p q
    using that p append_Cons_eq_iff[OF that(1,2), of "drop (sentlen c) pre" post] by simp
  moreover have "resp c1 = resp c" "CLIENT_CLOSE_AFTER_REPLY c1 = CLIENT_CLOSE_AFTER_REPLY c" "CLIENT_CLOSE_ASAP c1 = CLIENT_CLOSE_ASAP c"
    by (simp_all add: c1_def)
  moreover note async_emits[OF emits_refl[OF ok1], of cf, unfolded emits_def]
  ultimately show ?thesis unfolding e by (intro exI[of _ "asyncCloseClientOnOutputBufferLimitReached cf c1"]) (simp add: h1 plugs_def)
qed

section \<open>Calls\<close>

definition text_for :: "out_client \<Rightarrow> reply_call \<Rightarrow> char list" where
  "text_for c x = (if CLIENT_CLOSE_AFTER_REPLY c then closing_text (resp c = 2) x else call_text (resp c = 2) x)"

lemma emits_text_for: "emits cf c s c' \<Longrightarrow> text_for c' = text_for c"
  by (rule ext) (simp add: emits_def text_for_def)

lemma adds_text:
  "adds cf c r (call_text (resp c = 2) x) \<Longrightarrow> closing_text (resp c = 2) x = [] \<Longrightarrow> \<exists>c'. r = Some c' \<and> emits cf c (text_for c x) c'"
  by (auto simp: adds_def accepted_def text_for_def)

lemma fits_half: "fits_ll (int n * 2) \<Longrightarrow> fits_ll (int n)"
  by (simp add: fits_ll_def LLONG_MIN_def)

lemma simple_call_spec:
  assumes cf: "alloc_ok cf" and ok: "out_ok c" and x: "call_ok x" "\<And>k n cs. x \<noteq> Add_Deferred k n cs"
  shows "\<exists>c'. do_call cf c x = Some c' \<and> emits cf c (text_for c x) c'"
proof (rule adds_text)
  show "closing_text (resp c = 2) x = []" using x(2) by (cases x) auto
  show "adds cf c (do_call cf c x) (call_text (resp c = 2) x)"
  proof (cases x)
    case (Add_Object obj)
    then show ?thesis using addReply_adds[OF cf ok, of obj] x(1) by (cases obj) auto
  next
    case (Add_ArrayLen n)
    then show ?thesis using aggregate_adds[OF cf ok, of n] x(1) by (simp add: addReplyArrayLen_def)
  next
    case (Add_MapLen n)
    then show ?thesis using aggregate_adds[OF cf ok, of "n * 2"] aggregate_adds[OF cf ok, of n] fits_half[of n] x(1) by (simp add: addReplyMapLen_def)
  next
    case (Add_SetLen n)
    then show ?thesis using aggregate_adds[OF cf ok, of n] x(1) by (simp add: addReplySetLen_def)
  next
    case (Add_Bool b)
    then show ?thesis using sds_adds[OF cf ok, of "'':1'' @ CRLF"] sds_adds[OF cf ok, of "'':0'' @ CRLF"] addReplyProto_adds[OF cf ok]
      by (simp add: addReplyBool_def show_nat.simps digit_char_def char_of_def bit_0)
  next
    case (Add_Bulk obj)
    then show ?thesis using bulk_adds[OF cf ok, of obj] x(1) by (cases obj) auto
  next
    case (Add_Error s)
    then show ?thesis using error_adds[OF cf ok, of s "resp c = 2"] by (simp only: do_call.simps)
  next
    case (Add_Status s)
    then show ?thesis using status_adds[OF cf ok, of s "resp c = 2"] by (simp only: do_call.simps)
  next
    case (Add_Verbatim s ext)
    then show ?thesis using verbatim_adds[OF cf ok, of s ext] x(1) by (simp only: do_call.simps call_ok.simps)
  qed (use x addReplyProto_adds[OF cf ok] longlong_adds[OF cf ok] cbuffer_adds[OF cf ok] bulk_longlong_adds[OF cf ok] in
      \<open>simp_all add: addReplyNull_def addReplyNullArray_def\<close>)
qed

lemma set_deferred_spec:
  assumes cf: "alloc_ok cf" and ok: "out_ok c" and n: "n \<in> holes c"
  shows "\<exists>c'. set_deferred cf k c (Some n) (int len) = Some c' \<and> plugs cf c n (deferred_header (resp c = 2) k len) c'"
proof -
  have h: "CHR ''*'' # show_int (int len * 2) @ CRLF = header (CHR ''*'') (len * 2)" using header_int[of _ "len * 2"] by simp
  have *: "\<exists>c'. setDeferredAggregateLen cf c (Some n) (int len) p = Some c' \<and> plugs cf c n (header p len) c'" for p
    using setDeferred_spec[OF cf ok n, of "int len" p] by (simp add: header_int)
  have "\<exists>c'. setDeferredAggregateLen cf c (Some n) (int len * 2) (CHR ''*'') = Some c' \<and> plugs cf c n (header (CHR ''*'') (len * 2)) c'"
    using setDeferred_spec[OF cf ok n, of "int len * 2" "CHR ''*''"] by (simp add: h)
  then show ?thesis using *[of "CHR ''*''"] *[of "CHR ''%''"] *[of "CHR ''~''"]
    by (cases k; cases "resp c = 2") (simp_all add: set_deferred_def setDeferredArrayLen_def setDeferredMapLen_def setDeferredSetLen_def deferred_header_def)
qed

lemma deferred_call:
  assumes cf: "alloc_ok cf" and ok: "out_ok c"
    and inner: "\<And>c1. out_ok c1 \<Longrightarrow> \<exists>c'. do_calls cf c1 cs = Some c' \<and> emits cf c1 (concat (map (text_for c1) cs)) c'"
  shows "\<exists>c'. do_call cf c (Add_Deferred k n cs) = Some c' \<and> emits cf c (text_for c (Add_Deferred k n cs)) c'"
  using deferred_spec[OF cf ok]
proof
  assume a: "addReplyDeferredLen cf c = Some (c, None) \<and> CLIENT_CLOSE_ASAP c"
  obtain c1 where c1: "do_calls cf c cs = Some c1" "emits cf c (concat (map (text_for c) cs)) c1" using inner[OF ok] by blast
  have "set_deferred cf k c1 None (int n) = Some c1"
    by (cases k) (simp_all add: set_deferred_def setDeferredArrayLen_def setDeferredMapLen_def setDeferredSetLen_def setDeferredAggregateLen_def)
  then show ?thesis using a c1 by (simp add: emits_def)
next
  assume "\<exists>c' m. addReplyDeferredLen cf c = Some (c', Some m) \<and> out_ok c' \<and> \<not> CLIENT_CLOSE_ASAP c \<and> \<not> CLIENT_CLOSE_ASAP c' \<and> resp c' = resp c \<and>
     CLIENT_CLOSE_AFTER_REPLY c' = CLIENT_CLOSE_AFTER_REPLY c \<and> m \<notin> holes c \<and> holes c' = insert m (holes c) \<and> pending c' = pending c @ [Hole m]"
  then obtain c1 m where c1: "addReplyDeferredLen cf c = Some (c1, Some m)" "out_ok c1" "resp c1 = resp c"
      "CLIENT_CLOSE_AFTER_REPLY c1 = CLIENT_CLOSE_AFTER_REPLY c" "m \<notin> holes c" "holes c1 = insert m (holes c)"
      "pending c1 = pending c @ [Hole m]" "\<not> CLIENT_CLOSE_ASAP c" "\<not> CLIENT_CLOSE_ASAP c1" by blast
  let ?t = "concat (map (text_for c) cs)"
  have "text_for c1 = text_for c" using c1(3,4) by (auto simp: text_for_def)
  then obtain c2 where c2: "do_calls cf c1 cs = Some c2" "emits cf c1 ?t c2" using inner[OF c1(2)] by metis
  have m: "m \<in> holes c2" using c2(2) c1(6) by (simp add: emits_def)
  obtain c3 where c3: "set_deferred cf k c2 (Some m) (int n) = Some c3" "out_ok c3" "resp c3 = resp c2"
      "CLIENT_CLOSE_AFTER_REPLY c3 = CLIENT_CLOSE_AFTER_REPLY c2" "holes c3 = holes c2 - {m}" "CLIENT_CLOSE_ASAP c2 \<longrightarrow> CLIENT_CLOSE_ASAP c3"
      "no_limits cf \<longrightarrow> CLIENT_CLOSE_ASAP c3 = CLIENT_CLOSE_ASAP c2"
      "\<And>p q. \<not> CLIENT_CLOSE_ASAP c3 \<Longrightarrow> Hole m \<notin> set p \<Longrightarrow> Hole m \<notin> set q \<Longrightarrow> pending c2 = p @ Hole m # q \<Longrightarrow>
         pending c3 = p @ map Byte (deferred_header (resp c2 = 2) k n) @ q"
    using set_deferred_spec[OF cf emits_ok[OF c2(2)] m, of k n] unfolding plugs_def by blast
  have "pending c3 = pending c @ map Byte (deferred_header (resp c = 2) k n) @ map Byte ?t" if "\<not> CLIENT_CLOSE_ASAP c3"
  proof -
    have "pending c2 = pending c @ Hole m # map Byte ?t" using that c2(2) c1(7) c3(6) by (simp add: emits_def)
    moreover have "Hole m \<notin> set (pending c)" using c1(5) hole_pending by blast
    moreover have "Hole m \<notin> set (map Byte ?t)" "resp c2 = resp c" using c2(2) c1(3) by (auto simp: emits_def)
    ultimately show ?thesis using c3(8)[OF that, of "pending c" "map Byte ?t"] by simp
  qed
  moreover have "text_for c (Add_Deferred k n cs) = deferred_header (resp c = 2) k n @ ?t" by (auto simp: text_for_def intro: arg_cong[where f = concat])
  ultimately show ?thesis using c1 c2 c3 by (simp add: emits_def)
qed

lemma do_calls_each:
  assumes "\<And>x c. x \<in> set xs \<Longrightarrow> out_ok c \<Longrightarrow> \<exists>c'. do_call cf c x = Some c' \<and> emits cf c (text_for c x) c'" "out_ok c"
  shows "\<exists>c'. do_calls cf c xs = Some c' \<and> emits cf c (concat (map (text_for c) xs)) c'"
  using assms
proof (induction xs arbitrary: c)
  case Nil
  then show ?case using emits_refl by simp
next
  case (Cons x xs)
  obtain c1 where c1: "do_call cf c x = Some c1" "emits cf c (text_for c x) c1" using Cons.prems(1)[of x c] Cons.prems(2) by auto
  have "\<exists>c'. do_calls cf c1 xs = Some c' \<and> emits cf c1 (concat (map (text_for c1) xs)) c'"
    by (rule Cons.IH) (use Cons.prems(1) emits_ok[OF c1(2)] in auto)
  then obtain c2 where c2: "do_calls cf c1 xs = Some c2" "emits cf c1 (concat (map (text_for c) xs)) c2"
    unfolding emits_text_for[OF c1(2)] by blast
  then show ?case using c1 emits_trans[OF c1(2) c2(2)] by simp
qed

lemma do_call_spec:
  assumes cf: "alloc_ok cf"
  shows "out_ok c \<Longrightarrow> call_ok x \<Longrightarrow> \<exists>c'. do_call cf c x = Some c' \<and> emits cf c (text_for c x) c'"
proof (induction x arbitrary: c)
  case (Add_Deferred k n cs)
  show ?case
  proof (rule deferred_call[OF cf Add_Deferred.prems(1)])
    fix c1 assume "out_ok c1"
    then show "\<exists>c'. do_calls cf c1 cs = Some c' \<and> emits cf c1 (concat (map (text_for c1) cs)) c'"
      by (rule do_calls_each[rotated]) (use Add_Deferred in auto)
  qed
qed (rule simple_call_spec[OF cf]; simp)+

lemma do_calls_spec:
  "alloc_ok cf \<Longrightarrow> out_ok c \<Longrightarrow> \<forall>x\<in>set xs. call_ok x \<Longrightarrow> \<exists>c'. do_calls cf c xs = Some c' \<and> emits cf c (concat (map (text_for c) xs)) c'"
  by (rule do_calls_each) (auto intro: do_call_spec)

section \<open>Writing\<close>

text \<open>
  What holds while the output is written, when the flag that had scheduled the client is already cleared, and
  a step that takes bytes from the front.
\<close>

definition core_ok :: "out_client \<Rightarrow> bool" where
  "core_ok c \<longleftrightarrow> bufpos c \<le> length (buf c) \<and> (\<forall>x\<in>set (oreply c). node_ok x \<and> fst x < next_node c) \<and> distinct (map fst (oreply c)) \<and>
     reply_bytes c = int (sum_list (map node_size (oreply c))) \<and> sent_ok c \<and> \<not> reply_off c \<and> \<not> out_master c"

lemma out_core: "out_ok c \<longleftrightarrow> core_ok c \<and> scheduled c"
  by (auto simp: out_ok_def core_ok_def)

definition takes :: "out_client \<Rightarrow> char list \<Rightarrow> out_client \<Rightarrow> bool" where
  "takes c s c' \<longleftrightarrow> core_ok c' \<and> holes c' = holes c \<and> pending c = map Byte s @ pending c' \<and> resp c' = resp c \<and>
     CLIENT_CLOSE_AFTER_REPLY c' = CLIENT_CLOSE_AFTER_REPLY c \<and> CLIENT_CLOSE_ASAP c' = CLIENT_CLOSE_ASAP c \<and>
     CLIENT_PENDING_WRITE c' = CLIENT_PENDING_WRITE c \<and> write_handler c' = write_handler c"

lemma takes_refl: "core_ok c \<Longrightarrow> takes c [] c"
  by (simp add: takes_def)

lemma takes_trans: "takes c s c1 \<Longrightarrow> takes c1 t c2 \<Longrightarrow> takes c (s @ t) c2"
  by (simp add: takes_def)

lemma front_pos: "\<forall>x\<in>set xs. node_ok x \<Longrightarrow> 0 < front 0 xs"
  by (cases "(0::nat, xs)" rule: front.cases) auto

lemma write_buffer_spec:
  assumes ok: "core_ok c" and b: "bufpos c > 0"
  shows "\<exists>c' s. write_buffer c n = Some (c', s) \<and> takes c s c'"
proof -
  have z: "sentlen c < bufpos c" "bufpos c \<le> length (buf c)" using ok b by (cases "bufpos c"; auto simp: core_ok_def sent_ok_def)+
  define t where "t = drop (sentlen c) (take (bufpos c) (buf c))"
  define s where "s = take n t"
  have t: "length t = bufpos c - sentlen c" "read_at (buf c) (sentlen c) (bufpos c - sentlen c) = Some t"
    using z by (simp_all add: t_def read_at_def take_drop)
  have w: "write_buffer c n = Some (if s \<noteq> [] \<and> sentlen c + length s = bufpos c then c\<lparr>bufpos := 0, sentlen := 0\<rparr> else c\<lparr>sentlen := sentlen c + length s\<rparr>, s)"
    using t(2) unfolding write_buffer_def s_def Let_def by simp
  define rest where "rest = concat (map node_pieces (oreply c))"
  have p: "pending c = map Byte t @ rest" using z by (simp add: pending_def whole_def rest_def t_def drop_map)
  have pos: "0 < front 0 (oreply c)" using ok by (intro front_pos) (simp add: core_ok_def)
  show ?thesis
  proof (cases "s \<noteq> [] \<and> sentlen c + length s = bufpos c")
    case True
    let ?c = "c\<lparr>bufpos := 0, sentlen := 0\<rparr>"
    have "length s = length t" using True t(1) by linarith
    then have "s = t" by (simp add: s_def)
    moreover have "pending ?c = rest" by (simp add: pending_def whole_def rest_def)
    ultimately have "takes c s ?c" using p ok pos by (simp add: takes_def core_ok_def sent_ok_def holes_def)
    then show ?thesis using True w by simp
  next
    case False
    let ?c = "c\<lparr>sentlen := sentlen c + length s\<rparr>"
    have "length s \<le> length t" by (simp add: s_def)
    then have l: "sentlen c + length s < bufpos c" using False t(1) z(1) by (cases "s = []") auto
    have "pending ?c = map Byte (drop (length s) t) @ rest"
      using z l by (simp add: pending_def whole_def rest_def t_def drop_map add.commute)
    moreover have "t = s @ drop (length s) t" by (simp add: s_def append_eq_conv_conj min_def)
    ultimately have "pending c = map Byte s @ pending ?c" using p by (metis append.assoc map_append)
    moreover have "sent_ok ?c" using l by (cases "bufpos c") (simp_all add: sent_ok_def)
    ultimately have "takes c s ?c" using ok by (simp add: takes_def core_ok_def holes_def)
    then show ?thesis using False w by auto
  qed
qed

lemma delete_first_ok:
  assumes "core_ok c" "oreply c = (n, Some blk) # rest" "bufpos c = 0"
  shows "core_ok ((delete_first c blk)\<lparr>sentlen := 0\<rparr>)"
proof -
  have "0 < front 0 rest" using assms by (intro front_pos) (simp add: core_ok_def)
  then show ?thesis using assms by (simp add: core_ok_def delete_first_def sent_ok_def)
qed

lemma write_block_spec:
  assumes ok: "core_ok c" and b: "bufpos c = 0" and l: "oreply c = (m, Some blk) # rest"
  shows "\<exists>c' s. write_block c blk n = Some (c', s) \<and> takes c s c'"
proof -
  have z: "sentlen c < rb_used blk" "rb_used blk \<le> length (rb_buf blk)" using ok b l by (auto simp: core_ok_def sent_ok_def)
  define t where "t = drop (sentlen c) (take (rb_used blk) (rb_buf blk))"
  define s where "s = take n t"
  have t: "length t = rb_used blk - sentlen c" "read_at (rb_buf blk) (sentlen c) (rb_used blk - sentlen c) = Some t"
    using z by (simp_all add: t_def read_at_def take_drop)
  define pr where "pr = concat (map node_pieces rest)"
  have p: "pending c = map Byte t @ pr" using z b l by (simp add: pending_def whole_def pr_def t_def drop_map)
  show ?thesis
  proof (cases "s \<noteq> [] \<and> sentlen c + length s = rb_used blk")
    case True
    define c' where "c' = (delete_first c blk)\<lparr>sentlen := 0\<rparr>"
    have ok': "core_ok c'" using delete_first_ok[OF ok l b] by (simp add: c'_def)
    have f: "oreply c' = rest" "bufpos c' = 0" using l b by (simp_all add: c'_def delete_first_def)
    then have "oreply c' = [] \<longrightarrow> reply_bytes c' = 0" using ok' by (simp add: core_ok_def)
    then have w: "write_block c blk n = Some (c', s)" using True t(2) unfolding write_block_def s_def Let_def c'_def by simp
    have "length s = length t" using True t(1) by linarith
    then have "s = t" by (simp add: s_def)
    moreover have "pending c' = pr" using f by (simp add: c'_def pending_def whole_def pr_def)
    ultimately have "takes c s c'" using p ok' l by (simp add: takes_def holes_def) (simp add: c'_def delete_first_def)
    then show ?thesis using w by simp
  next
    case False
    let ?c = "c\<lparr>sentlen := sentlen c + length s\<rparr>"
    have w: "write_block c blk n = Some (?c, s)" using False t(2) unfolding write_block_def s_def Let_def by auto
    have "length s \<le> length t" by (simp add: s_def)
    then have lt: "sentlen c + length s < rb_used blk" using False t(1) z(1) by (cases "s = []") auto
    have "pending ?c = map Byte (drop (length s) t) @ pr"
      using z lt b l by (simp add: pending_def whole_def pr_def t_def drop_map add.commute)
    moreover have "t = s @ drop (length s) t" by (simp add: s_def append_eq_conv_conj min_def)
    ultimately have "pending c = map Byte s @ pending ?c" using p by (metis append.assoc map_append)
    moreover have "sent_ok ?c" using lt b l by (simp add: sent_ok_def)
    ultimately have "takes c s ?c" using ok by (simp add: takes_def core_ok_def holes_def)
    then show ?thesis using w by auto
  qed
qed

lemma has_pending: "core_ok c \<Longrightarrow> clientHasPendingReplies c \<longleftrightarrow> pending c \<noteq> []"
proof -
  assume ok: "core_ok c"
  have "sentlen c < front (bufpos c) (oreply c)" using ok by (simp add: core_ok_def sent_ok_def)
  then show ?thesis using ok
    by (cases "(bufpos c, oreply c)" rule: front.cases) (auto simp: clientHasPendingReplies_def pending_def whole_def core_ok_def)
qed

lemma write_head_spec:
  assumes ok: "core_ok c" and p: "clientHasPendingReplies c" and h: "holes c = {}"
  shows "\<exists>c' s. write_head c n = Some (c', s) \<and> takes c s c'"
proof (cases "bufpos c > 0")
  case True
  then show ?thesis using write_buffer_spec[OF ok] by (simp add: write_head_def)
next
  case False
  then obtain m blk rest where l: "oreply c = (m, Some blk) # rest"
    using p h by (cases "(0::nat, oreply c)" rule: front.cases) (auto simp: clientHasPendingReplies_def holes_def)
  then show ?thesis using write_block_spec[OF ok _ l] False by (simp add: write_head_def)
qed

lemma write_loop_spec:
  "core_ok c \<Longrightarrow> holes c = {} \<Longrightarrow> \<exists>c' s lost. write_loop cf c tot ws = Some (c', s, lost) \<and> takes c s c' \<and> (lost \<longrightarrow> Write_Failed False \<in> set ws)"
proof (induction cf c tot ws rule: write_loop.induct)
  case (1 cf c tot ws)
  note ok = 1(3) and h = 1(4)
  show ?case
  proof (cases "clientHasPendingReplies c")
    case False
    then show ?thesis using takes_refl[OF ok] by (auto simp: write_loop.simps[of cf c])
  next
    case p: True
    have nodes: "bufpos c = 0 \<Longrightarrow> \<exists>m blk rest. oreply c = (m, Some blk) # rest \<and> rb_used blk \<noteq> 0"
      using p h ok by (cases "(0::nat, oreply c)" rule: front.cases) (auto simp: clientHasPendingReplies_def holes_def core_ok_def)
    then have no: "\<not> (bufpos c = 0 \<and> snd (hd (oreply c)) = None)" "\<not> (bufpos c = 0 \<and> rb_used (the (snd (hd (oreply c)))) = 0)" by (cases "bufpos c = 0"; fastforce)+
    note unfold = write_loop.simps[of cf c tot ws] if_not_P[OF no(1)] if_not_P[OF no(2)]
    show ?thesis
    proof (cases "\<exists>n ws'. ws = Wrote n # ws'")
      case False
      then show ?thesis using takes_refl[OF ok] p by (auto simp: unfold split: list.splits write_result.splits)
    next
      case True
      then obtain n ws' where ws: "ws = Wrote n # ws'" by blast
      obtain c1 s where c1: "write_head c n = Some (c1, s)" "takes c s c1" using write_head_spec[OF ok p h] by blast
      have o1: "core_ok c1" "holes c1 = {}" using c1(2) h by (simp_all add: takes_def)
      have eq: "write_loop cf c tot ws = (if s = [] then Some (c1, [], False)
          else if tot + length s > NET_MAX_WRITES_PER_EVENT \<and> below_maxmemory cf then Some (c1, s, False)
          else do { (c, s', lost) \<leftarrow> write_loop cf c1 (tot + length s) ws'; Some (c, s @ s', lost) })"
        unfolding unfold using p c1(1) by (simp add: ws)
      show ?thesis
      proof (cases "s = [] \<or> (tot + length s > NET_MAX_WRITES_PER_EVENT \<and> below_maxmemory cf)")
        case True
        then show ?thesis using c1(2) unfolding eq by auto
      next
        case False
        from 1(2)[OF _ no ws refl c1(1) refl _ _ o1] p False
        have "\<exists>c' s' lost. write_loop cf c1 (tot + length s) ws' = Some (c', s', lost) \<and> takes c1 s' c' \<and> (lost \<longrightarrow> Write_Failed False \<in> set ws')"
          by auto
        then obtain c2 s' lost where c2: "write_loop cf c1 (tot + length s) ws' = Some (c2, s', lost)" "takes c1 s' c2"
            "lost \<longrightarrow> Write_Failed False \<in> set ws'" by blast
        then show ?thesis using False takes_trans[OF c1(2) c2(2)] ws unfolding eq by auto
      qed
    qed
  qed
qed

text \<open>A write event as a whole: it may also close the client.\<close>

definition delivers :: "out_client \<Rightarrow> char list \<Rightarrow> out_client \<Rightarrow> bool" where
  "delivers c s c' \<longleftrightarrow> core_ok c' \<and> holes c' = {} \<and> pending c = map Byte s @ pending c' \<and> resp c' = resp c \<and>
     CLIENT_CLOSE_AFTER_REPLY c' = CLIENT_CLOSE_AFTER_REPLY c \<and> (CLIENT_CLOSE_ASAP c \<longrightarrow> CLIENT_CLOSE_ASAP c')"

lemma freeClientAsync_simps [simp]:
  "core_ok (freeClientAsync c) = core_ok c" "pending (freeClientAsync c) = pending c" "holes (freeClientAsync c) = holes c"
  "clientHasPendingReplies (freeClientAsync c) = clientHasPendingReplies c" "resp (freeClientAsync c) = resp c"
  "CLIENT_CLOSE_AFTER_REPLY (freeClientAsync c) = CLIENT_CLOSE_AFTER_REPLY c" "CLIENT_CLOSE_ASAP (freeClientAsync c)"
  "CLIENT_PENDING_WRITE (freeClientAsync c) = CLIENT_PENDING_WRITE c" "write_handler (freeClientAsync c) = write_handler c"
  by (simp_all add: freeClientAsync_def core_ok_def sent_ok_def pending_def whole_def holes_def clientHasPendingReplies_def)

lemma delivers_free: "delivers c s c' \<Longrightarrow> delivers c s (freeClientAsync c')"
  by (simp add: delivers_def)

lemma writeToClient_spec:
  assumes ok: "core_ok c" and h: "holes c = {}"
  shows "\<exists>c' s valid. writeToClient cf c installed ws = Some (c', s, valid) \<and> delivers c s c' \<and> (\<not> valid \<longrightarrow> CLIENT_CLOSE_ASAP c') \<and>
    CLIENT_PENDING_WRITE c' = CLIENT_PENDING_WRITE c \<and> (clientHasPendingReplies c' \<longrightarrow> write_handler c' = write_handler c) \<and>
    (Write_Failed False \<notin> set ws \<longrightarrow> \<not> CLIENT_CLOSE_AFTER_REPLY c \<longrightarrow> valid \<and> CLIENT_CLOSE_ASAP c' = CLIENT_CLOSE_ASAP c)"
proof -
  obtain c1 s lost where c1: "write_loop cf c 0 ws = Some (c1, s, lost)" "takes c s c1" "lost \<longrightarrow> Write_Failed False \<in> set ws" using write_loop_spec[OF ok h] by blast
  note T = c1(2)[unfolded takes_def]
  have d1: "delivers c s c1" using T h by (simp add: delivers_def)
  consider (lost) lost | (more) "\<not> lost" "clientHasPendingReplies c1" | (all) "\<not> lost" "\<not> clientHasPendingReplies c1" by blast
  then show ?thesis
  proof cases
    case lost
    then have "writeToClient cf c installed ws = Some (freeClientAsync c1, s, False)" using c1(1) by (simp add: writeToClient_def)
    then show ?thesis using delivers_free[OF d1] T c1(3) lost by auto
  next
    case more
    then have "writeToClient cf c installed ws = Some (c1, s, True)" using c1(1) by (simp add: writeToClient_def)
    then show ?thesis using d1 T by auto
  next
    case all
    define c2 where "c2 = c1\<lparr>sentlen := 0, write_handler := (if installed then False else write_handler c1)\<rparr>"
    have n: "bufpos c1 = 0" "oreply c1 = []" "pending c1 = []" using all has_pending[of c1] T by (auto simp: clientHasPendingReplies_def)
    then have "core_ok c2" "pending c2 = []" "holes c2 = {}" "\<not> clientHasPendingReplies c2"
      using T by (auto simp: c2_def core_ok_def sent_ok_def pending_def whole_def holes_def clientHasPendingReplies_def)
    moreover have "resp c2 = resp c1" "CLIENT_CLOSE_AFTER_REPLY c2 = CLIENT_CLOSE_AFTER_REPLY c1" "CLIENT_CLOSE_ASAP c2 = CLIENT_CLOSE_ASAP c1"
        "CLIENT_PENDING_WRITE c2 = CLIENT_PENDING_WRITE c1" by (simp_all add: c2_def)
    ultimately have d2: "delivers c s c2" "\<not> clientHasPendingReplies c2" "CLIENT_PENDING_WRITE c2 = CLIENT_PENDING_WRITE c"
        "CLIENT_CLOSE_ASAP c2 = CLIENT_CLOSE_ASAP c" "CLIENT_CLOSE_AFTER_REPLY c2 = CLIENT_CLOSE_AFTER_REPLY c"
      using T n(3) by (simp_all add: delivers_def)
    have "writeToClient cf c installed ws = Some (if CLIENT_CLOSE_AFTER_REPLY c2 then freeClientAsync c2 else c2, s, \<not> CLIENT_CLOSE_AFTER_REPLY c2)"
      using c1(1) all by (simp add: writeToClient_def c2_def Let_def)
    then show ?thesis using d2 delivers_free[OF d2(1)] by simp
  qed
qed

lemma before_sleep_spec:
  assumes ok: "out_ok c" and h: "holes c = {}"
  shows "\<exists>c' s. handleClientWithPendingWrites cf c ws installed = Some (c', s) \<and> delivers c s c' \<and> scheduled c' \<and>
    (Write_Failed False \<notin> set ws \<longrightarrow> installed \<longrightarrow> \<not> CLIENT_CLOSE_AFTER_REPLY c \<longrightarrow> CLIENT_CLOSE_ASAP c' = CLIENT_CLOSE_ASAP c)"
proof (cases "CLIENT_PENDING_WRITE c")
  case False
  then show ?thesis using ok h by (simp add: handleClientWithPendingWrites_def delivers_def out_core)
next
  case True
  let ?c = "c\<lparr>CLIENT_PENDING_WRITE := False\<rparr>"
  have same: "core_ok ?c = core_ok c" "pending ?c = pending c" "holes ?c = holes c" "resp ?c = resp c"
      "CLIENT_CLOSE_AFTER_REPLY ?c = CLIENT_CLOSE_AFTER_REPLY c" "CLIENT_CLOSE_ASAP ?c = CLIENT_CLOSE_ASAP c"
    by (simp_all add: core_ok_def sent_ok_def pending_def whole_def holes_def)
  show ?thesis
  proof (cases "CLIENT_CLOSE_ASAP c")
    case t: True
    then have "delivers c [] ?c" "scheduled ?c" using ok h same by (simp_all add: delivers_def out_core scheduled_def)
    then show ?thesis using True t by (auto simp: handleClientWithPendingWrites_def Let_def)
  next
    case False
    obtain c1 s valid where c1: "writeToClient cf ?c False ws = Some (c1, s, valid)" "delivers ?c s c1" "\<not> valid \<longrightarrow> CLIENT_CLOSE_ASAP c1"
        "Write_Failed False \<notin> set ws \<longrightarrow> \<not> CLIENT_CLOSE_AFTER_REPLY c \<longrightarrow> CLIENT_CLOSE_ASAP c1 = CLIENT_CLOSE_ASAP c"
      using writeToClient_spec[of ?c cf False ws] same ok h by (auto simp: out_core)
    have d: "delivers c s c1" using c1(2) same by (simp add: delivers_def)
    let ?h = "c1\<lparr>write_handler := True\<rparr>"
    have "delivers c s ?h" using d by (simp add: delivers_def core_ok_def sent_ok_def pending_def whole_def holes_def)
    moreover have "scheduled ?h" "scheduled (freeClientAsync c1)" by (simp_all add: scheduled_def)
    moreover have "\<not> (valid \<and> clientHasPendingReplies c1) \<Longrightarrow> scheduled c1" using c1(3) by (auto simp: scheduled_def)
    ultimately show ?thesis using True False c1(1,4) d delivers_free[OF d]
      by (cases "valid \<and> clientHasPendingReplies c1"; cases installed) (auto simp: handleClientWithPendingWrites_def Let_def)
  qed
qed

lemma writable_spec:
  assumes ok: "out_ok c" and h: "holes c = {}"
  shows "\<exists>c' s. sendReplyToClient cf c ws = Some (c', s) \<and> delivers c s c' \<and> scheduled c' \<and>
    (Write_Failed False \<notin> set ws \<longrightarrow> \<not> CLIENT_CLOSE_AFTER_REPLY c \<longrightarrow> CLIENT_CLOSE_ASAP c' = CLIENT_CLOSE_ASAP c)"
proof -
  obtain c1 s valid where c1: "writeToClient cf c True ws = Some (c1, s, valid)" "delivers c s c1" "\<not> valid \<longrightarrow> CLIENT_CLOSE_ASAP c1"
      "CLIENT_PENDING_WRITE c1 = CLIENT_PENDING_WRITE c" "clientHasPendingReplies c1 \<longrightarrow> write_handler c1 = write_handler c"
      "Write_Failed False \<notin> set ws \<longrightarrow> \<not> CLIENT_CLOSE_AFTER_REPLY c \<longrightarrow> CLIENT_CLOSE_ASAP c1 = CLIENT_CLOSE_ASAP c"
    using writeToClient_spec[of c cf True ws] ok h by (auto simp: out_core)
  have "clientHasPendingReplies c1 \<Longrightarrow> clientHasPendingReplies c" using has_pending[of c] has_pending[of c1] c1(2) ok
    by (auto simp: delivers_def out_core)
  then have "scheduled c1" using ok c1 by (auto simp: out_core scheduled_def delivers_def)
  then show ?thesis using c1(1,2,6) by (simp add: sendReplyToClient_def)
qed

definition text_of :: "out_client \<Rightarrow> out_event list \<Rightarrow> char list" where
  "text_of c evs = stream_text (resp c = 2) (CLIENT_CLOSE_AFTER_REPLY c) evs"

lemma out_run_spec:
  assumes cf: "alloc_ok cf" and "out_ok c" "holes c = {}" "\<forall>ev\<in>set evs. out_event_ok ev"
  shows "\<exists>c' s. out_run cf c evs = Some (c', s) \<and> out_ok c' \<and> holes c' = {} \<and> (CLIENT_CLOSE_ASAP c \<longrightarrow> CLIENT_CLOSE_ASAP c') \<and>
    (\<not> CLIENT_CLOSE_ASAP c' \<longrightarrow> pending c @ map Byte (text_of c evs) = map Byte s @ pending c')"
  using assms(2-4)
proof (induction evs arbitrary: c)
  case Nil
  then show ?case by (simp add: text_of_def)
next
  case (Cons ev evs)
  note ok = Cons.prems(1) and h = Cons.prems(2)
  have "\<exists>c1 s t. out_step cf c ev = Some (c1, s) \<and> out_ok c1 \<and> holes c1 = {} \<and> (CLIENT_CLOSE_ASAP c \<longrightarrow> CLIENT_CLOSE_ASAP c1) \<and>
      (\<not> CLIENT_CLOSE_ASAP c1 \<longrightarrow> pending c @ map Byte t = map Byte s @ pending c1) \<and> text_of c (ev # evs) = t @ text_of c1 evs"
  proof (cases ev)
    case (Calls cs)
    then obtain c1 where c1: "do_calls cf c cs = Some c1" "emits cf c (concat (map (text_for c) cs)) c1"
      using do_calls_spec[OF cf ok, of cs] Cons.prems(3) by auto
    have "text_of c (ev # evs) = concat (map (text_for c) cs) @ text_of c1 evs"
      using c1(2) Calls by (cases "CLIENT_CLOSE_AFTER_REPLY c") (simp_all add: text_of_def text_for_def[abs_def] emits_def)
    then show ?thesis using c1 h Calls by (auto simp: emits_def)
  next
    case Close_After_Reply
    let ?c = "c\<lparr>CLIENT_CLOSE_AFTER_REPLY := True\<rparr>"
    have "out_ok ?c" "holes ?c = {}" "pending ?c = pending c"
      using ok h by (simp_all add: out_ok_def sent_ok_def scheduled_def clientHasPendingReplies_def holes_def pending_def whole_def)
    then show ?thesis using Close_After_Reply by (intro exI[of _ ?c] exI[of _ "[]"]) (simp add: text_of_def)
  next
    case (Before_Sleep cf' ws installed)
    then show ?thesis using before_sleep_spec[OF ok h, of cf' ws installed]
      by (fastforce simp: delivers_def out_core text_of_def)
  next
    case (Writable cf' ws)
    show ?thesis
    proof (cases "write_handler c \<and> \<not> CLIENT_CLOSE_ASAP c")
      case True
      then show ?thesis using writable_spec[OF ok h, of cf' ws] Writable by (fastforce simp: delivers_def out_core text_of_def)
    next
      case False
      then have "out_step cf c ev = Some (c, [])" using Writable by auto
      then show ?thesis using ok h Writable by (intro exI[of _ c] exI[of _ "[]"]) (simp add: text_of_def)
    qed
  qed
  then obtain c1 s t where c1: "out_step cf c ev = Some (c1, s)" "out_ok c1" "holes c1 = {}" "CLIENT_CLOSE_ASAP c \<longrightarrow> CLIENT_CLOSE_ASAP c1"
      "\<not> CLIENT_CLOSE_ASAP c1 \<longrightarrow> pending c @ map Byte t = map Byte s @ pending c1" "text_of c (ev # evs) = t @ text_of c1 evs" by blast
  obtain c2 s' where c2: "out_run cf c1 evs = Some (c2, s')" "out_ok c2" "holes c2 = {}" "CLIENT_CLOSE_ASAP c1 \<longrightarrow> CLIENT_CLOSE_ASAP c2"
      "\<not> CLIENT_CLOSE_ASAP c2 \<longrightarrow> pending c1 @ map Byte (text_of c1 evs) = map Byte s' @ pending c2"
    using Cons.IH[OF c1(2,3)] Cons.prems(3) by auto
  have "pending c @ map Byte (t @ text_of c1 evs) = map Byte (s @ s') @ pending c2" if "\<not> CLIENT_CLOSE_ASAP c2"
    using that c1(5) c2(4,5) by (metis append.assoc map_append)
  then show ?case using c1(1,4,6) c2 by auto
qed

section \<open>Properties\<close>

lemma no_holes_bytes: "holes c = {} \<Longrightarrow> \<exists>s. pending c = map Byte s"
proof -
  assume h: "holes c = {}"
  have "\<exists>s. concat (map node_pieces xs) = map Byte s" if "\<forall>n. (n, None) \<notin> set xs" for xs
    using that
  proof (induction xs)
    case (Cons x xs)
    then obtain b s where "snd x = Some b" "concat (map node_pieces xs) = map Byte s" by (cases x; cases "snd x") auto
    then have "concat (map node_pieces (x # xs)) = map Byte (take (rb_used b) (rb_buf b) @ s)" by (cases x) simp
    then show ?case by blast
  qed simp
  then obtain s where "concat (map node_pieces (oreply c)) = map Byte s" using h unfolding holes_def by blast
  then have "pending c = map Byte (drop (sentlen c) (take (bufpos c) (buf c) @ s))" by (simp add: pending_def whole_def drop_map)
  then show ?thesis by blast
qed

lemma new_output_ok: "out_ok (new_output u) \<and> holes (new_output u) = {} \<and> pending (new_output u) = []"
  by (simp add: new_output_def out_ok_def sent_ok_def scheduled_def clientHasPendingReplies_def holes_def pending_def whole_def)

lemma inj_Byte: "map Byte s = map Byte t \<longleftrightarrow> s = t"
  by (rule inj_map_eq_map) (simp add: inj_def)

lemma new_output_run:
  assumes "alloc_ok cf" "\<forall>ev\<in>set evs. out_event_ok ev"
  shows "\<exists>c s rest. out_run cf (new_output u) evs = Some (c, s) \<and> out_ok c \<and> holes c = {} \<and> pending c = map Byte rest \<and>
    (\<not> CLIENT_CLOSE_ASAP c \<longrightarrow> stream_text True False evs = s @ rest)"
proof -
  obtain c s where r: "out_run cf (new_output u) evs = Some (c, s)" "out_ok c" "holes c = {}"
      "\<not> CLIENT_CLOSE_ASAP c \<longrightarrow> map Byte (text_of (new_output u) evs) = map Byte s @ pending c"
    using out_run_spec[OF assms(1) _ _ assms(2), of "new_output u"] new_output_ok[of u] by auto
  obtain rest where rest: "pending c = map Byte rest" using no_holes_bytes[OF r(3)] by blast
  have "text_of (new_output u) evs = stream_text True False evs" by (simp add: text_of_def new_output_def)
  then have "stream_text True False evs = s @ rest" if "\<not> CLIENT_CLOSE_ASAP c"
    using that r(4) rest by (simp add: inj_Byte flip: map_append)
  then show ?thesis using r rest by blast
qed

text \<open>
  C9: no byte of a reply is lost, sent twice or sent out of order. Whatever replies are built, deferred
  lengths included, and however the socket takes the bytes in between, no access is out of bounds, the
  bytes that were sent followed by the bytes still in the buffers are exactly the text of all replies, unless
  the client exceeded its limits or lost its connection, and while there is something to send, the client is
  scheduled for writing or about to be closed.
\<close>

theorem replies_delivered:
  assumes "alloc_ok cf" "\<forall>ev\<in>set evs. out_event_ok ev"
  shows "\<exists>c s rest. out_run cf (new_output u) evs = Some (c, s) \<and> pending c = map Byte rest \<and>
    (\<not> CLIENT_CLOSE_ASAP c \<longrightarrow> stream_text True False evs = s @ rest) \<and>
    (rest \<noteq> [] \<longrightarrow> CLIENT_PENDING_WRITE c \<or> write_handler c \<or> CLIENT_CLOSE_ASAP c)"
proof -
  obtain c s rest where r: "out_run cf (new_output u) evs = Some (c, s)" "out_ok c" "pending c = map Byte rest"
      "\<not> CLIENT_CLOSE_ASAP c \<longrightarrow> stream_text True False evs = s @ rest"
    using new_output_run[OF assms, of u] by blast
  moreover have "rest \<noteq> [] \<longrightarrow> CLIENT_PENDING_WRITE c \<or> write_handler c \<or> CLIENT_CLOSE_ASAP c"
    using r(2,3) has_pending[of c] by (auto simp: out_core scheduled_def)
  ultimately show ?thesis by blast
qed

definition demo_conf :: net_conf where
  "demo_conf = \<lparr>hard_limit_bytes = 0, soft_limit_bytes = 0, soft_limit_seconds = 0, unixtime = 1, below_maxmemory = True,
     alloc = (\<lambda>n. replicate (n + 8) NUL)\<rparr>"

theorem replies_delivered_witness:
  "\<exists>c s rest. out_run demo_conf (new_output [])
      [Calls [Add_Status ''OK'', Add_Deferred Deferred_Array 1 [Add_LongLong 42]], Before_Sleep demo_conf [Wrote 3, Wrote 1] True, Writable demo_conf [Wrote 7]] = Some (c, s) \<and>
    pending c = map Byte rest \<and> (\<not> CLIENT_CLOSE_ASAP c \<longrightarrow> ''+OK'' @ CRLF @ ''*1'' @ CRLF @ '':42'' @ CRLF = s @ rest)"
proof -
  let ?evs = "[Calls [Add_Status ''OK'', Add_Deferred Deferred_Array 1 [Add_LongLong 42]], Before_Sleep demo_conf [Wrote 3, Wrote 1] True, Writable demo_conf [Wrote 7]]"
  have "alloc_ok demo_conf" "\<forall>ev\<in>set ?evs. out_event_ok ev"
    by (simp_all add: alloc_ok_def demo_conf_def fits_ll_def LLONG_MIN_def LLONG_MAX_def)
  then obtain c s rest where "out_run demo_conf (new_output []) ?evs = Some (c, s)" "pending c = map Byte rest"
      "\<not> CLIENT_CLOSE_ASAP c \<longrightarrow> stream_text True False ?evs = s @ rest"
    using replies_delivered[of demo_conf ?evs "[]"] by blast
  moreover have "stream_text True False ?evs = ''+OK'' @ CRLF @ ''*1'' @ CRLF @ '':42'' @ CRLF"
    by (simp add: deferred_header_def header_def show_int_def show_nat.simps digit_char_def char_of_def bit_0)
  ultimately show ?thesis by metis
qed

end
