(* ===== verification/Wire.thy ===== *)
theory Wire
  imports Interleaving Query Output
begin

text \<open>
  The path of a request: bytes arrive on a connection, the parser delivers requests, each is looked up in the
  command table and executed, its reply goes to the output buffers, and the socket takes the bytes of the
  replies. Connections are interleaved arbitrarily.
\<close>

section \<open>The server with its connections\<close>

definition all_commands :: "command list" where
  "all_commands = map StrCmd [GET, SET, SETNX, SETEX, PSETEX, APPEND, STRLEN, SETRANGE, GETRANGE, INCR, DECR, MGET, INCRBY, DECRBY,
     GETSET, MSET, MSETNX] @ [MULTI, EXEC, DISCARD, WATCH, UNWATCH]"

text \<open>The entry of the table whose name is equal up to case.\<close>

definition lookupCommand :: "char list \<Rightarrow> command option" where
  "lookupCommand name = find (\<lambda>cmd. fst (command_table cmd) = map tolower (cstr name)) all_commands"

record wire =
  w_server :: server
  w_query :: "nat \<Rightarrow> query"
  w_out :: "nat \<Rightarrow> out_client"

definition shared_ok_object :: payload where
  "shared_ok_object = Sds_Encoded (''+OK'' @ CRLF)"

text \<open>
  What is done with the requests of one read. A command may write the parts of its reply with several calls;
  \<open>render\<close> gives the calls.
\<close>

fun serve :: "net_conf \<Rightarrow> (reply \<Rightarrow> reply_call list) \<Rightarrow> nat \<Rightarrow> wire \<Rightarrow> query_event list \<Rightarrow> wire option" where
  "serve cf render c W [] = Some W"
| "serve cf render c W (Query args # evs) =
     (if is_quit args then do {
        out \<leftarrow> addReply cf (w_out W c) shared_ok_object;
        serve cf render c (W\<lparr>w_out := (w_out W)(c := out\<lparr>CLIENT_CLOSE_AFTER_REPLY := True\<rparr>)\<rparr>) evs
      } else do {
        (S, rep) \<leftarrow> handle_request (w_server W) c (lookupCommand (hd args)) args;
        out \<leftarrow> do_calls cf (w_out W c) (render rep);
        serve cf render c (W\<lparr>w_server := S, w_out := (w_out W)(c := out)\<rparr>) evs
      })"
| "serve cf render c W (Protocol_Error msg # evs) = do {
     out \<leftarrow> addReplyErrorLength cf (w_out W c) msg;
     serve cf render c (W\<lparr>w_out := (w_out W)(c := out\<lparr>CLIENT_CLOSE_AFTER_REPLY := True\<rparr>)\<rparr>) evs
   }"

definition receive :: "net_conf \<Rightarrow> (reply \<Rightarrow> reply_call list) \<Rightarrow> nat \<Rightarrow> wire \<Rightarrow> nat \<Rightarrow> char list \<Rightarrow> wire option" where
  "receive cf render maxlen W c bytes = do {
     let q = (w_query W c)\<lparr>closing := CLIENT_CLOSE_AFTER_REPLY (w_out W c) \<or> CLIENT_CLOSE_ASAP (w_out W c)\<rparr>;
     (q', evs) \<leftarrow> readQueryFromClient maxlen (proto_max_bulk_len (rdb (w_server W))) q bytes;
     let W = W\<lparr>w_query := (w_query W)(c := q')\<rparr>;
     let W = (if length (querybuf q) + length bytes > maxlen then W\<lparr>w_out := (w_out W)(c := freeClientAsync (w_out W c))\<rparr> else W);
     serve cf render c W evs
   }"

datatype wire_event =
    Receive nat "char list"
  | Before_Sleep_Write nat net_conf "write_result list" bool
  | Socket_Writable nat net_conf "write_result list"
  | Time_Passes nat

definition put_out :: "wire \<Rightarrow> nat \<Rightarrow> out_client \<times> char list \<Rightarrow> wire \<times> (nat \<times> char list)" where
  "put_out W c r = (W\<lparr>w_out := (w_out W)(c := fst r)\<rparr>, (c, snd r))"

fun wire_step :: "net_conf \<Rightarrow> (reply \<Rightarrow> reply_call list) \<Rightarrow> nat \<Rightarrow> wire \<Rightarrow> wire_event \<Rightarrow> (wire \<times> (nat \<times> char list)) option" where
  "wire_step cf render maxlen W (Receive c bytes) = do { W \<leftarrow> receive cf render maxlen W c bytes; Some (W, (c, [])) }"
| "wire_step cf render maxlen W (Before_Sleep_Write c cf' ws installed) =
     do { r \<leftarrow> handleClientWithPendingWrites cf' (w_out W c) ws installed; Some (put_out W c r) }"
| "wire_step cf render maxlen W (Socket_Writable c cf' ws) =
     (if write_handler (w_out W c) \<and> \<not> CLIENT_CLOSE_ASAP (w_out W c)
      then do { r \<leftarrow> sendReplyToClient cf' (w_out W c) ws; Some (put_out W c r) } else Some (W, (c, [])))"
| "wire_step cf render maxlen W (Time_Passes d) =
     do { (S, _) \<leftarrow> handle (w_server W) (Wait d); Some (W\<lparr>w_server := S\<rparr>, (0, [])) }"

text \<open>The final state, and the bytes that were sent on each connection.\<close>

fun wire_run :: "net_conf \<Rightarrow> (reply \<Rightarrow> reply_call list) \<Rightarrow> nat \<Rightarrow> wire \<Rightarrow> wire_event list \<Rightarrow> (wire \<times> (nat \<Rightarrow> char list)) option" where
  "wire_run cf render maxlen W [] = Some (W, \<lambda>_. [])"
| "wire_run cf render maxlen W (ev # evs) = do {
     (W, (c, s)) \<leftarrow> wire_step cf render maxlen W ev;
     (W, sent) \<leftarrow> wire_run cf render maxlen W evs;
     Some (W, sent(c := s @ sent c))
   }"

definition fresh_wire :: "server \<Rightarrow> char list \<Rightarrow> wire" where
  "fresh_wire S u = \<lparr>w_server = S, w_query = (\<lambda>_. new_query), w_out = (\<lambda>_. new_output u)\<rparr>"

section \<open>Specification\<close>

fun encode_reply :: "reply \<Rightarrow> char list" where
  "encode_reply RNull = ''$-1'' @ CRLF"
| "encode_reply RNullArray = ''*-1'' @ CRLF"
| "encode_reply (RStatus s) = CHR ''+'' # s @ CRLF"
| "encode_reply (RInt n) = CHR '':'' # show_int n @ CRLF"
| "encode_reply (RBulk b) = bulk_text b"
| "encode_reply (RError e) = CHR ''-'' # e @ CRLF"
| "encode_reply (RArray rs) = header (CHR ''*'') (length rs) @ concat (map encode_reply rs)"

text \<open>Replies with \<open>long long\<close> integers and lengths.\<close>

fun reply_fits :: "reply \<Rightarrow> bool" where
  "reply_fits (RInt n) \<longleftrightarrow> fits_ll n"
| "reply_fits (RBulk b) \<longleftrightarrow> fits_ll (int (length b))"
| "reply_fits (RArray rs) \<longleftrightarrow> fits_ll (int (length rs)) \<and> (\<forall>r\<in>set rs. reply_fits r)"
| "reply_fits _ \<longleftrightarrow> True"

definition renders :: "(reply \<Rightarrow> reply_call list) \<Rightarrow> bool" where
  "renders render \<longleftrightarrow> (\<forall>rep. reply_fits rep \<longrightarrow> (\<forall>x\<in>set (render rep). call_ok x) \<and> concat (map (call_text True) (render rep)) = encode_reply rep)"

text \<open>How many requests are complete after so many bytes.\<close>

fun complete :: "nat \<Rightarrow> char list list list \<Rightarrow> nat" where
  "complete n [] = 0"
| "complete n (r # rs) = (if length (encode_request r) \<le> n then Suc (complete (n - length (encode_request r)) rs) else 0)"

definition as_request :: "nat \<Rightarrow> char list list \<Rightarrow> event" where
  "as_request c args = Request c (lookupCommand (hd args)) args"

text \<open>
  The events as the server sees them, when the clients send the requests \<open>reqs\<close> and \<open>got\<close> bytes of each have
  arrived before.
\<close>

fun log_of :: "(nat \<Rightarrow> char list list list) \<Rightarrow> (nat \<Rightarrow> nat) \<Rightarrow> wire_event list \<Rightarrow> event list" where
  "log_of reqs got [] = []"
| "log_of reqs got (Receive c b # evs) =
     map (as_request c) (drop (complete (got c) (reqs c)) (take (complete (got c + length b) (reqs c)) (reqs c))) @
     log_of reqs (got(c := got c + length b)) evs"
| "log_of reqs got (Time_Passes d # evs) = Wait d # log_of reqs got evs"
| "log_of reqs got (_ # evs) = log_of reqs got evs"

fun run_log :: "server \<Rightarrow> event list \<Rightarrow> (server \<times> (nat \<times> reply) list) option" where
  "run_log S [] = Some (S, [])"
| "run_log S (ev # evs) = do {
     (S, rep) \<leftarrow> handle S ev;
     (S, reps) \<leftarrow> run_log S evs;
     Some (S, (case (ev, rep) of (Request c _ _, Some r) \<Rightarrow> [(c, r)] | _ \<Rightarrow> []) @ reps)
   }"

definition replies_to :: "nat \<Rightarrow> (nat \<times> reply) list \<Rightarrow> reply list" where
  "replies_to c reps = map snd (filter (\<lambda>(d, r). d = c) reps)"

fun arrivals :: "nat \<Rightarrow> wire_event list \<Rightarrow> char list" where
  "arrivals c [] = []"
| "arrivals c (Receive d b # evs) = (if d = c then b else []) @ arrivals c evs"
| "arrivals c (_ # evs) = arrivals c evs"

text \<open>Reads within the size of the buffer, and connections that are not lost.\<close>

fun live_event :: "wire_event \<Rightarrow> bool" where
  "live_event (Receive c b) \<longleftrightarrow> length b \<le> PROTO_IOBUF_LEN"
| "live_event (Before_Sleep_Write c cf ws installed) \<longleftrightarrow> Write_Failed False \<notin> set ws \<and> installed"
| "live_event (Socket_Writable c cf ws) \<longleftrightarrow> Write_Failed False \<notin> set ws"
| "live_event (Time_Passes d) \<longleftrightarrow> True"

section \<open>Serving requests\<close>

definition out_good :: "out_client \<Rightarrow> bool" where
  "out_good c \<longleftrightarrow> out_ok c \<and> holes c = {} \<and> resp c = 2 \<and> \<not> CLIENT_CLOSE_AFTER_REPLY c \<and> \<not> CLIENT_CLOSE_ASAP c"

lemma render_spec:
  assumes "alloc_ok cf" "no_limits cf" "renders render" "out_good c" "reply_fits rep"
  shows "\<exists>c'. do_calls cf c (render rep) = Some c' \<and> out_good c' \<and> pending c' = pending c @ map Byte (encode_reply rep)"
proof -
  have r: "\<forall>x\<in>set (render rep). call_ok x" "concat (map (call_text True) (render rep)) = encode_reply rep"
    using assms(3,5) by (auto simp: renders_def)
  obtain c' where c': "do_calls cf c (render rep) = Some c'" "emits cf c (concat (map (text_for c) (render rep))) c'"
    using do_calls_spec[OF assms(1) _ r(1)] assms(4) by (auto simp: out_good_def)
  have "text_for c = call_text True" using assms(4) by (auto simp: text_for_def out_good_def)
  then show ?thesis using c' assms(2,4) r(2) by (auto simp: emits_def out_good_def)
qed

lemma run_log_append:
  "run_log S (xs @ ys) = do { (S, reps) \<leftarrow> run_log S xs; (S, reps') \<leftarrow> run_log S ys; Some (S, reps @ reps') }"
  by (induction xs arbitrary: S) (auto simp: split_def split: Option.bind_splits)

lemma run_log_request:
  "run_log S (as_request c r # evs) = do {
     (S, rep) \<leftarrow> handle_request S c (lookupCommand (hd r)) r; (S, reps) \<leftarrow> run_log S evs; Some (S, (c, rep) # reps) }"
  by (auto simp: as_request_def split: Option.bind_splits)

lemma serve_spec:
  assumes "alloc_ok cf" "no_limits cf" "renders render" "\<forall>r\<in>set d. \<not> is_quit r" "out_good (w_out W c)"
    "run_log (w_server W) (map (as_request c) d) = Some (S', reps)" "\<forall>x\<in>set reps. reply_fits (snd x)"
  shows "\<exists>out. serve cf render c W (map Query d) = Some (W\<lparr>w_server := S', w_out := (w_out W)(c := out)\<rparr>) \<and> out_good out \<and>
    pending out = pending (w_out W c) @ map Byte (concat (map encode_reply (map snd reps))) \<and> (\<forall>x\<in>set reps. fst x = c)"
  using assms(4-7)
proof (induction d arbitrary: W reps)
  case Nil
  then show ?case by (intro exI[of _ "w_out W c"]) simp
next
  case (Cons r d)
  obtain S1 rep where h: "handle_request (w_server W) c (lookupCommand (hd r)) r = Some (S1, rep)"
    using Cons.prems(3) by (auto simp: run_log_request bind_eq_Some_conv simp del: run_log.simps)
  obtain reps' where rl: "run_log S1 (map (as_request c) d) = Some (S', reps')" "reps = (c, rep) # reps'"
    using Cons.prems(3) h by (auto simp: run_log_request bind_eq_Some_conv simp del: run_log.simps)
  obtain out where out: "do_calls cf (w_out W c) (render rep) = Some out" "out_good out" "pending out = pending (w_out W c) @ map Byte (encode_reply rep)"
    using render_spec[OF assms(1-3) Cons.prems(2), of rep] Cons.prems(4) rl(2) by auto
  let ?W = "W\<lparr>w_server := S1, w_out := (w_out W)(c := out)\<rparr>"
  have "\<exists>out'. serve cf render c ?W (map Query d) = Some (?W\<lparr>w_server := S', w_out := (w_out ?W)(c := out')\<rparr>) \<and> out_good out' \<and>
      pending out' = pending (w_out ?W c) @ map Byte (concat (map encode_reply (map snd reps'))) \<and> (\<forall>x\<in>set reps'. fst x = c)"
    using Cons.prems(1,4) out(2) rl by (intro Cons.IH) auto
  then obtain out' where o': "serve cf render c ?W (map Query d) = Some (?W\<lparr>w_server := S', w_out := (w_out ?W)(c := out')\<rparr>)" "out_good out'"
      "pending out' = pending out @ map Byte (concat (map encode_reply (map snd reps')))" "\<forall>x\<in>set reps'. fst x = c" by auto
  have "?W\<lparr>w_server := S', w_out := (w_out ?W)(c := out')\<rparr> = W\<lparr>w_server := S', w_out := (w_out W)(c := out')\<rparr>" by simp
  moreover have "serve cf render c W (map Query (r # d)) = serve cf render c ?W (map Query d)"
    using h out(1) Cons.prems(1) by simp
  ultimately have "serve cf render c W (map Query (r # d)) = Some (W\<lparr>w_server := S', w_out := (w_out W)(c := out')\<rparr>)"
    using o'(1) by (simp only:)
  moreover have "pending out' = pending (w_out W c) @ map Byte (concat (map encode_reply (map snd reps)))" "\<forall>x\<in>set reps. fst x = c"
    using o'(3,4) out(3) rl(2) by simp_all
  ultimately show ?case using o'(2) by blast
qed

section \<open>Connections\<close>

text \<open>A connection on which the requests \<open>todo\<close> are still to be executed, when \<open>fut\<close> is what is still to arrive.\<close>

definition conn_ok :: "wire \<Rightarrow> nat \<Rightarrow> char list list list \<Rightarrow> char list \<Rightarrow> bool" where
  "conn_ok W c todo fut \<longleftrightarrow>
     awaits (w_query W c) (querybuf (w_query W c) @ fut) todo \<and> qb_pos (w_query W c) = 0 \<and>
     (todo \<noteq> [] \<longrightarrow> length (encode_all (tl todo)) < length fut) \<and> out_good (w_out W c)"

lemma encode_all_append: "encode_all (xs @ ys) = encode_all xs @ encode_all ys"
  by (simp add: encode_all_def)

lemma complete_split:
  "length (encode_all d) \<le> n \<Longrightarrow> r \<noteq> [] \<longrightarrow> n < length (encode_all d) + length (encode_request (hd r)) \<Longrightarrow> complete n (d @ r) = length d"
proof (induction d arbitrary: n)
  case Nil
  then show ?case by (cases r) auto
next
  case (Cons x d)
  have n: "length (encode_request x) + length (encode_all d) \<le> n" using Cons.prems(1) by (simp add: encode_all_Cons)
  have "complete (n - length (encode_request x)) (d @ r) = length d"
    by (rule Cons.IH) (use n Cons.prems(2) in \<open>auto simp: encode_all_Cons\<close>)
  then show ?case using n by simp
qed

definition rest_of :: "char list list list \<Rightarrow> char list \<Rightarrow> bool" where
  "rest_of r fut \<longleftrightarrow> length fut \<le> length (encode_all r) \<and> (r \<noteq> [] \<longrightarrow> length (encode_all (tl r)) < length fut)"

lemma rest_complete:
  assumes "rest_of r fut" "length (encode_all (d @ r)) = n + length fut"
  shows "complete n (d @ r) = length d"
proof (rule complete_split)
  show "length (encode_all d) \<le> n" using assms by (simp add: encode_all_append rest_of_def)
  show "r \<noteq> [] \<longrightarrow> n < length (encode_all d) + length (encode_request (hd r))"
    using assms by (cases r) (auto simp: rest_of_def encode_all_append encode_all_Cons)
qed

lemma conn_rest: "conn_ok W c r fut \<Longrightarrow> rest_of r fut"
  using awaits_length[of "w_query W c" "querybuf (w_query W c) @ fut" r] by (simp add: conn_ok_def rest_of_def)

lemma receive_spec:
  assumes cf: "alloc_ok cf" "no_limits cf" "renders render"
    and q: "conn_ok W c r (b @ fut)" "\<forall>x\<in>set r. request_fits (proto_max_bulk_len (rdb (w_server W))) x"
      "proto_max_bulk_len (rdb (w_server W)) \<le> LLONG_MAX - 2" "\<forall>x\<in>set r. length (encode_request x) + length b \<le> maxlen"
  obtains d r' q' where "r = d @ r'" "rest_of r' fut" "\<And>S' reps. run_log (w_server W) (map (as_request c) d) = Some (S', reps) \<Longrightarrow> \<forall>x\<in>set reps. reply_fits (snd x) \<Longrightarrow>
      \<exists>W' out. receive cf render maxlen W c b = Some W' \<and> W' = W\<lparr>w_server := S', w_query := (w_query W)(c := q'), w_out := (w_out W)(c := out)\<rparr> \<and>
        conn_ok W' c r' fut \<and> pending out = pending (w_out W c) @ map Byte (concat (map encode_reply (map snd reps))) \<and> (\<forall>x\<in>set reps. fst x = c)"
proof -
  let ?q = "w_query W c" and ?limit = "proto_max_bulk_len (rdb (w_server W))"
  have o: "out_good (w_out W c)" "awaits ?q (querybuf ?q @ b @ fut) r" "qb_pos ?q = 0" using q(1) by (simp_all add: conn_ok_def)
  have "length (querybuf ?q) + length (b @ fut) \<le> length (encode_all r)" using awaits_length[OF o(2)] by simp
  then have len: "length (querybuf ?q @ b) \<le> maxlen" using q(1,4) by (cases r) (auto simp: conn_ok_def encode_all_Cons)
  obtain q' d r' where q': "readQueryFromClient maxlen ?limit ?q b = Some (q', map Query d)" "r = d @ r'" "awaits q' (querybuf q' @ fut) r'"
      "qb_pos q' = 0" "r' \<noteq> [] \<longrightarrow> length (encode_all (tl r')) < length fut"
    using read_awaits[OF o(2) q(2,3) o(3) len] by blast
  have "\<not> closing ?q" using awaits_open[OF o(2)] by (simp add: open_query_def)
  then have cl: "?q\<lparr>closing := CLIENT_CLOSE_AFTER_REPLY (w_out W c) \<or> CLIENT_CLOSE_ASAP (w_out W c)\<rparr> = ?q" using o(1) by (simp add: out_good_def)
  have nq: "\<forall>x\<in>set d. \<not> is_quit x" using q(2) q'(2) by (auto simp: request_fits_def)
  let ?W = "W\<lparr>w_query := (w_query W)(c := q')\<rparr>"
  have rc: "receive cf render maxlen W c b = serve cf render c ?W (map Query d)"
    unfolding receive_def Let_def cl using q'(1) len by simp
  show thesis
  proof (rule that[OF q'(2)])
    show "rest_of r' fut" using awaits_length[OF q'(3)] q'(5) by (simp add: rest_of_def)
  next
    fix S' reps assume s: "run_log (w_server W) (map (as_request c) d) = Some (S', reps)" "\<forall>x\<in>set reps. reply_fits (snd x)"
    obtain out where out: "serve cf render c ?W (map Query d) = Some (?W\<lparr>w_server := S', w_out := (w_out W)(c := out)\<rparr>)" "out_good out"
        "pending out = pending (w_out W c) @ map Byte (concat (map encode_reply (map snd reps)))" "\<forall>x\<in>set reps. fst x = c"
      using serve_spec[OF cf nq, of ?W c S' reps] o(1) s by auto
    let ?W' = "W\<lparr>w_server := S', w_query := (w_query W)(c := q'), w_out := (w_out W)(c := out)\<rparr>"
    have "conn_ok ?W' c r' fut" using q'(3-5) out(2) by (simp add: conn_ok_def)
    then show "\<exists>W' out. receive cf render maxlen W c b = Some W' \<and> W' = W\<lparr>w_server := S', w_query := (w_query W)(c := q'), w_out := (w_out W)(c := out)\<rparr> \<and>
        conn_ok W' c r' fut \<and> pending out = pending (w_out W c) @ map Byte (concat (map encode_reply (map snd reps))) \<and> (\<forall>x\<in>set reps. fst x = c)"
      using rc out by (intro exI[of _ ?W'] exI[of _ out]) simp
  qed
qed

section \<open>Runs\<close>

lemma handle_limit:
  assumes "reachable S" "event_ok S ev" "handle S ev = Some (S', rep)"
  shows "reachable S'" "proto_max_bulk_len (rdb S') = proto_max_bulk_len (rdb S)"
proof -
  show "reachable S'" using reachable.step[OF assms] .
  show "proto_max_bulk_len (rdb S') = proto_max_bulk_len (rdb S)"
  proof (cases "of_client ev")
    case None
    then show ?thesis using assms(3) by (cases ev) auto
  next
    case (Some c)
    then show ?thesis using handle_others[OF reachable_inv[OF assms(1)] assms(2,3)] by (simp add: others_ok_def)
  qed
qed

lemma run_log_spec:
  assumes "reachable S" "events_ok S (xs @ ys)"
  obtains S' reps where "run_log S xs = Some (S', reps)" "reachable S'" "events_ok S' ys" "proto_max_bulk_len (rdb S') = proto_max_bulk_len (rdb S)"
proof -
  have "\<exists>S' reps. run_log S xs = Some (S', reps) \<and> reachable S' \<and> events_ok S' ys \<and> proto_max_bulk_len (rdb S') = proto_max_bulk_len (rdb S)"
    using assms
  proof (induction xs arbitrary: S)
    case (Cons x xs)
    obtain S1 rep where h: "handle S x = Some (S1, rep)" using handle_spec[OF reachable_inv[OF Cons.prems(1)], of x] Cons.prems(2) by auto
    have "reachable S1" "proto_max_bulk_len (rdb S1) = proto_max_bulk_len (rdb S)" using handle_limit[OF Cons.prems(1) _ h] Cons.prems(2) by simp_all
    then show ?case using Cons.IH[of S1] Cons.prems(2) h by auto
  qed simp
  then show thesis using that by blast
qed

lemma replies_to_append [simp]: "replies_to c (xs @ ys) = replies_to c xs @ replies_to c ys"
  by (simp add: replies_to_def)

lemma replies_to_all: "\<forall>x\<in>set reps. fst x = c \<Longrightarrow> replies_to d reps = (if d = c then map snd reps else [])"
  by (induction reps) (auto simp: replies_to_def)

text \<open>What is known of a connection before some events: what was sent, what was executed, what arrives and what comes later.\<close>

definition conn_at :: "wire \<Rightarrow> nat \<Rightarrow> char list list list \<Rightarrow> nat \<Rightarrow> char list \<Rightarrow> bool" where
  "conn_at W c reqs got arr \<longleftrightarrow>
     (\<exists>d r fut. reqs = d @ r \<and> conn_ok W c r (arr @ fut) \<and> length (encode_all reqs) = got + length (arr @ fut))"

definition wire_ok :: "nat \<Rightarrow> (nat \<Rightarrow> char list list list) \<Rightarrow> wire \<Rightarrow> (nat \<Rightarrow> nat) \<Rightarrow> wire_event list \<Rightarrow> bool" where
  "wire_ok maxlen reqs W got evs \<longleftrightarrow> reachable (w_server W) \<and> proto_max_bulk_len (rdb (w_server W)) \<le> LLONG_MAX - 2 \<and>
     (\<forall>c. (\<forall>x\<in>set (reqs c). request_fits (proto_max_bulk_len (rdb (w_server W))) x \<and> length (encode_request x) + PROTO_IOBUF_LEN \<le> maxlen) \<and>
        conn_at W c (reqs c) (got c) (arrivals c evs))"

lemma conn_at_cong: "conn_at W c reqs got arr \<Longrightarrow> w_query W' c = w_query W c \<Longrightarrow> w_out W' c = w_out W c \<Longrightarrow> conn_at W' c reqs got arr"
  by (simp add: conn_at_def conn_ok_def)

lemma conn_at_out:
  "conn_at W c reqs got arr \<Longrightarrow> w_query W' c = w_query W c \<Longrightarrow> out_good (w_out W' c) \<Longrightarrow> conn_at W' c reqs got arr"
  unfolding conn_at_def conn_ok_def by metis

lemma conn_at_good: "conn_at W c reqs got arr \<Longrightarrow> out_good (w_out W c)"
  by (auto simp: conn_at_def conn_ok_def)

lemma write_step:
  assumes w: "wire_ok maxlen reqs W got (ev # evs)" and a: "\<And>c. arrivals c (ev # evs) = arrivals c evs"
    and o: "delivers (w_out W c) s out" "scheduled out" "CLIENT_CLOSE_ASAP out = CLIENT_CLOSE_ASAP (w_out W c)"
  shows "wire_ok maxlen reqs (W\<lparr>w_out := (w_out W)(c := out)\<rparr>) got evs"
proof -
  let ?W = "W\<lparr>w_out := (w_out W)(c := out)\<rparr>"
  have at: "conn_at W d (reqs d) (got d) (arrivals d evs)" for d using w unfolding wire_ok_def a by blast
  have "out_good out" using conn_at_good[OF at[of c]] o by (simp add: delivers_def out_good_def out_core)
  then have "conn_at ?W d (reqs d) (got d) (arrivals d evs)" for d
    using conn_at_cong[OF at[of d], of ?W] conn_at_out[OF at[of d], of ?W] by (cases "d = c") simp_all
  then show ?thesis using w by (simp add: wire_ok_def)
qed

lemma wire_good: "wire_ok maxlen reqs W got evs \<Longrightarrow> out_good (w_out W c)"
  using conn_at_good by (fastforce simp: wire_ok_def)

lemma receive_step:
  assumes cf: "alloc_ok cf" "no_limits cf" "renders render"
    and w: "wire_ok maxlen reqs W got (Receive c b # evs)" and l: "live_event (Receive c b)" and ok: "events_ok (w_server W) (log_of reqs got (Receive c b # evs))"
    and r: "run_log (w_server W) (log_of reqs got (Receive c b # evs)) = Some (S', reps)" "\<forall>x\<in>set reps. reply_fits (snd x)"
  shows "\<exists>W1 reps1 reps2. receive cf render maxlen W c b = Some W1 \<and> reps = reps1 @ reps2 \<and> wire_ok maxlen reqs W1 (got(c := got c + length b)) evs \<and>
    events_ok (w_server W1) (log_of reqs (got(c := got c + length b)) evs) \<and>
    run_log (w_server W1) (log_of reqs (got(c := got c + length b)) evs) = Some (S', reps2) \<and>
    (\<forall>d. pending (w_out W d) @ map Byte (concat (map encode_reply (replies_to d reps1))) = pending (w_out W1 d))"
proof -
  let ?limit = "proto_max_bulk_len (rdb (w_server W))" and ?got = "got(c := got c + length b)"
  have W: "reachable (w_server W)" "?limit \<le> LLONG_MAX - 2" "\<And>d. \<forall>x\<in>set (reqs d). request_fits ?limit x"
      "\<And>d. \<forall>x\<in>set (reqs d). length (encode_request x) + PROTO_IOBUF_LEN \<le> maxlen"
      "\<And>d. conn_at W d (reqs d) (got d) (arrivals d (Receive c b # evs))"
    using w by (simp_all add: wire_ok_def)
  obtain p q fut where q: "reqs c = p @ q" "conn_ok W c q (b @ arrivals c evs @ fut)"
      "length (encode_all (reqs c)) = got c + length (b @ arrivals c evs @ fut)"
    using W(5)[of c] by (auto simp: conn_at_def)
  have "\<forall>x\<in>set q. request_fits ?limit x" "\<forall>x\<in>set q. length (encode_request x) + length b \<le> maxlen"
    using W(3)[of c] W(4)[of c] q(1) l by (fastforce, intro ballI) (fastforce intro: order_trans[OF add_left_mono])
  from receive_spec[OF cf q(2) this(1) W(2) this(2)] obtain d r' q' where d: "q = d @ r'" "rest_of r' (arrivals c evs @ fut)"
      "\<And>S' reps. run_log (w_server W) (map (as_request c) d) = Some (S', reps) \<Longrightarrow> \<forall>x\<in>set reps. reply_fits (snd x) \<Longrightarrow>
      \<exists>W' out. receive cf render maxlen W c b = Some W' \<and> W' = W\<lparr>w_server := S', w_query := (w_query W)(c := q'), w_out := (w_out W)(c := out)\<rparr> \<and>
        conn_ok W' c r' (arrivals c evs @ fut) \<and> pending out = pending (w_out W c) @ map Byte (concat (map encode_reply (map snd reps))) \<and> (\<forall>x\<in>set reps. fst x = c)"
    by metis
  have "complete (got c) (reqs c) = length p" using rest_complete[OF conn_rest[OF q(2)], of p "got c"] q(1,3) by simp
  moreover have "complete (got c + length b) (reqs c) = length (p @ d)"
    using rest_complete[OF d(2), of "p @ d" "got c + length b"] q(1,3) d(1) by simp
  ultimately have log: "log_of reqs got (Receive c b # evs) = map (as_request c) d @ log_of reqs ?got evs" using q(1) d(1) by simp
  obtain S1 reps1 where s1: "run_log (w_server W) (map (as_request c) d) = Some (S1, reps1)" "reachable S1" "events_ok S1 (log_of reqs ?got evs)"
      "proto_max_bulk_len (rdb S1) = ?limit"
    using run_log_spec[OF W(1) ok[unfolded log]] by blast
  obtain reps2 where r2: "run_log S1 (log_of reqs ?got evs) = Some (S', reps2)" "reps = reps1 @ reps2"
    using r(1) s1(1) unfolding log run_log_append by (auto simp: bind_eq_Some_conv)
  obtain out where out: "receive cf render maxlen W c b = Some (W\<lparr>w_server := S1, w_query := (w_query W)(c := q'), w_out := (w_out W)(c := out)\<rparr>)"
      "conn_ok (W\<lparr>w_server := S1, w_query := (w_query W)(c := q'), w_out := (w_out W)(c := out)\<rparr>) c r' (arrivals c evs @ fut)"
      "pending out = pending (w_out W c) @ map Byte (concat (map encode_reply (map snd reps1)))" "\<forall>x\<in>set reps1. fst x = c"
    using d(3)[OF s1(1)] r(2) r2(2) by auto
  define W1 where "W1 = W\<lparr>w_server := S1, w_query := (w_query W)(c := q'), w_out := (w_out W)(c := out)\<rparr>"
  have f: "w_server W1 = S1" "\<And>e. e \<noteq> c \<Longrightarrow> w_query W1 e = w_query W e" "\<And>e. w_out W1 e = (if e = c then out else w_out W e)" by (simp_all add: W1_def)
  have "reqs c = (p @ d) @ r'" using q(1) d(1) by simp
  then have "conn_at W1 c (reqs c) (?got c) (arrivals c evs)" using out(2) q(3)
    unfolding conn_at_def by (intro exI[of _ "p @ d"] exI[of _ r'] exI[of _ fut]) (simp add: W1_def)
  moreover have "conn_at W1 e (reqs e) (?got e) (arrivals e evs)" if "e \<noteq> c" for e using conn_at_cong[OF W(5)[of e], of W1] f that by simp
  ultimately have "conn_at W1 e (reqs e) (?got e) (arrivals e evs)" for e by (cases "e = c") simp_all
  then have "wire_ok maxlen reqs W1 ?got evs" using W(2-4) s1(2,4) f(1) by (simp add: wire_ok_def)
  moreover have "pending (w_out W e) @ map Byte (concat (map encode_reply (replies_to e reps1))) = pending (w_out W1 e)" for e
    using out(3) replies_to_all[OF out(4), of e] by (simp add: f(3))
  ultimately show ?thesis using out(1) r2 s1(3) f(1) by (intro exI[of _ W1] exI[of _ reps1] exI[of _ reps2]) (simp add: W1_def)
qed

text \<open>One event, and what is left of the log and the replies.\<close>

definition advances :: "net_conf \<Rightarrow> (reply \<Rightarrow> reply_call list) \<Rightarrow> nat \<Rightarrow> (nat \<Rightarrow> char list list list) \<Rightarrow> wire \<Rightarrow> wire_event \<Rightarrow> wire_event list \<Rightarrow>
    server \<Rightarrow> (nat \<times> reply) list \<Rightarrow> bool" where
  "advances cf render maxlen reqs W ev evs S' reps \<longleftrightarrow>
     (\<exists>W1 c s reps1 reps2 got1. wire_step cf render maxlen W ev = Some (W1, (c, s)) \<and> reps = reps1 @ reps2 \<and>
        wire_ok maxlen reqs W1 got1 evs \<and> events_ok (w_server W1) (log_of reqs got1 evs) \<and>
        run_log (w_server W1) (log_of reqs got1 evs) = Some (S', reps2) \<and>
        (\<forall>d. pending (w_out W d) @ map Byte (concat (map encode_reply (replies_to d reps1))) =
             map Byte (if d = c then s else []) @ pending (w_out W1 d)))"

lemma advances_write:
  assumes "wire_ok maxlen reqs W got (ev # evs)" "\<And>c. arrivals c (ev # evs) = arrivals c evs" "log_of reqs got (ev # evs) = log_of reqs got evs"
    "events_ok (w_server W) (log_of reqs got (ev # evs))" "run_log (w_server W) (log_of reqs got (ev # evs)) = Some (S', reps)"
    "delivers (w_out W c) s out" "scheduled out" "CLIENT_CLOSE_ASAP out = CLIENT_CLOSE_ASAP (w_out W c)"
    "wire_step cf render maxlen W ev = Some (W\<lparr>w_out := (w_out W)(c := out)\<rparr>, (c, s))"
  shows "advances cf render maxlen reqs W ev evs S' reps"
proof -
  have "pending (w_out W c) = map Byte s @ pending out" using assms(6) by (simp add: delivers_def)
  then show ?thesis unfolding advances_def using write_step[OF assms(1,2,6-8)] assms(3-5,9)
    by (intro exI[of _ "W\<lparr>w_out := (w_out W)(c := out)\<rparr>"] exI[of _ c] exI[of _ s] exI[of _ "[]"] exI[of _ reps] exI[of _ got])
      (simp add: replies_to_def)
qed

lemma idle_delivers: "out_good c \<Longrightarrow> delivers c [] c \<and> scheduled c"
  by (simp add: out_good_def delivers_def out_core)

lemma wire_step_spec:
  assumes cf: "alloc_ok cf" "no_limits cf" "renders render"
    and w: "wire_ok maxlen reqs W got (ev # evs)" and l: "live_event ev" and ok: "events_ok (w_server W) (log_of reqs got (ev # evs))"
    and r: "run_log (w_server W) (log_of reqs got (ev # evs)) = Some (S', reps)" "\<forall>x\<in>set reps. reply_fits (snd x)"
  shows "advances cf render maxlen reqs W ev evs S' reps"
proof (cases ev)
  case (Receive c b)
  then obtain W1 reps1 reps2 where "receive cf render maxlen W c b = Some W1" "reps = reps1 @ reps2" "wire_ok maxlen reqs W1 (got(c := got c + length b)) evs"
      "events_ok (w_server W1) (log_of reqs (got(c := got c + length b)) evs)"
      "run_log (w_server W1) (log_of reqs (got(c := got c + length b)) evs) = Some (S', reps2)"
      "\<And>d. pending (w_out W d) @ map Byte (concat (map encode_reply (replies_to d reps1))) = pending (w_out W1 d)"
    using receive_step[OF cf, of maxlen reqs W got c b evs S' reps] w l ok r by blast
  then show ?thesis unfolding advances_def using Receive
    by (intro exI[of _ W1] exI[of _ c] exI[of _ "[]"] exI[of _ reps1] exI[of _ reps2] exI[of _ "got(c := got c + length b)"]) simp
next
  case (Before_Sleep_Write c cf' ws installed)
  obtain out s where o: "handleClientWithPendingWrites cf' (w_out W c) ws installed = Some (out, s)" "delivers (w_out W c) s out" "scheduled out"
      "CLIENT_CLOSE_ASAP out = CLIENT_CLOSE_ASAP (w_out W c)"
    using before_sleep_spec[of "w_out W c" cf' ws installed] wire_good[OF w, of c] l Before_Sleep_Write by (auto simp: out_good_def)
  show ?thesis by (rule advances_write[OF w _ _ ok r(1) o(2-4)]) (use o(1) Before_Sleep_Write in \<open>simp_all add: put_out_def\<close>)
next
  case (Socket_Writable c cf' ws)
  show ?thesis
  proof (cases "write_handler (w_out W c)")
    case True
    obtain out s where o: "sendReplyToClient cf' (w_out W c) ws = Some (out, s)" "delivers (w_out W c) s out" "scheduled out"
        "CLIENT_CLOSE_ASAP out = CLIENT_CLOSE_ASAP (w_out W c)"
      using writable_spec[of "w_out W c" cf' ws] wire_good[OF w, of c] l Socket_Writable by (auto simp: out_good_def)
    show ?thesis by (rule advances_write[OF w _ _ ok r(1) o(2-4)])
        (use o(1) True wire_good[OF w, of c] Socket_Writable in \<open>simp_all add: put_out_def out_good_def\<close>)
  next
    case False
    have "W\<lparr>w_out := (w_out W)(c := w_out W c)\<rparr> = W" by simp
    then show ?thesis using advances_write[OF w _ _ ok r(1), of c "[]" "w_out W c" cf render] idle_delivers[OF wire_good[OF w, of c]]
        False Socket_Writable by simp
  qed
next
  case (Time_Passes d)
  obtain S1 where h: "handle (w_server W) (Wait d) = Some (S1, None)" by simp
  have e: "event_ok (w_server W) (Wait d)" by simp
  note lim = handle_limit[OF _ e h]
  have W: "reachable (w_server W)" using w by (simp add: wire_ok_def)
  let ?W = "W\<lparr>w_server := S1\<rparr>"
  have "conn_at ?W c (reqs c) (got c) (arrivals c evs)" for c
    using w Time_Passes conn_at_cong[of W c "reqs c" "got c" "arrivals c evs" ?W] by (simp add: wire_ok_def)
  then have "wire_ok maxlen reqs ?W got evs" using w lim[OF W] by (simp add: wire_ok_def)
  moreover have "run_log S1 (log_of reqs got evs) = Some (S', reps)" "events_ok S1 (log_of reqs got evs)"
    using r(1) ok h Time_Passes by (auto split: Option.bind_splits)
  ultimately show ?thesis unfolding advances_def using h Time_Passes
    by (intro exI[of _ ?W] exI[of _ 0] exI[of _ "[]"] exI[of _ "[]"] exI[of _ reps] exI[of _ got]) (simp add: replies_to_def)
qed

lemma wire_run_spec:
  assumes cf: "alloc_ok cf" "no_limits cf" "renders render"
    and "wire_ok maxlen reqs W got evs" "\<forall>ev\<in>set evs. live_event ev" "events_ok (w_server W) (log_of reqs got evs)"
      "run_log (w_server W) (log_of reqs got evs) = Some (S', reps)" "\<forall>x\<in>set reps. reply_fits (snd x)"
  shows "\<exists>W' sent got'. wire_run cf render maxlen W evs = Some (W', sent) \<and> w_server W' = S' \<and> wire_ok maxlen reqs W' got' [] \<and>
    (\<forall>c. pending (w_out W c) @ map Byte (concat (map encode_reply (replies_to c reps))) = map Byte (sent c) @ pending (w_out W' c))"
  using assms(4-8)
proof (induction evs arbitrary: W got reps)
  case Nil
  then show ?case by (auto simp: replies_to_def)
next
  case (Cons ev evs)
  obtain W1 c s reps1 reps2 got1 where st: "wire_step cf render maxlen W ev = Some (W1, (c, s))" "reps = reps1 @ reps2"
      "wire_ok maxlen reqs W1 got1 evs" "events_ok (w_server W1) (log_of reqs got1 evs)" "run_log (w_server W1) (log_of reqs got1 evs) = Some (S', reps2)"
      "\<And>d. pending (w_out W d) @ map Byte (concat (map encode_reply (replies_to d reps1))) = map Byte (if d = c then s else []) @ pending (w_out W1 d)"
    using wire_step_spec[OF cf Cons.prems(1) _ Cons.prems(3-5)] Cons.prems(2) unfolding advances_def by auto
  obtain W' sent got' where r: "wire_run cf render maxlen W1 evs = Some (W', sent)" "w_server W' = S'" "wire_ok maxlen reqs W' got' []"
      "\<And>d. pending (w_out W1 d) @ map Byte (concat (map encode_reply (replies_to d reps2))) = map Byte (sent d) @ pending (w_out W' d)"
    using Cons.IH[OF st(3) _ st(4,5)] Cons.prems(2,5) st(2) by auto
  have "pending (w_out W d) @ map Byte (concat (map encode_reply (replies_to d reps))) = map Byte ((sent(c := s @ sent c)) d) @ pending (w_out W' d)" for d
  proof -
    have "pending (w_out W d) @ map Byte (concat (map encode_reply (replies_to d reps))) =
        (pending (w_out W d) @ map Byte (concat (map encode_reply (replies_to d reps1)))) @ map Byte (concat (map encode_reply (replies_to d reps2)))"
      by (simp add: st(2))
    also have "\<dots> = map Byte (if d = c then s else []) @ pending (w_out W1 d) @ map Byte (concat (map encode_reply (replies_to d reps2)))"
      by (simp add: st(6))
    also have "\<dots> = map Byte ((sent(c := s @ sent c)) d) @ pending (w_out W' d)" unfolding r(4) by simp
    finally show ?thesis .
  qed
  then show ?case using st(1) r(1-3) by auto
qed

section \<open>Properties\<close>

text \<open>The plainest way to write a reply.\<close>

fun reply_calls :: "reply \<Rightarrow> reply_call list" where
  "reply_calls RNull = [Add_Null]"
| "reply_calls RNullArray = [Add_NullArray]"
| "reply_calls (RStatus s) = [Add_Status s]"
| "reply_calls (RInt n) = [Add_LongLong n]"
| "reply_calls (RBulk b) = [Add_Bulk (Sds_Encoded b)]"
| "reply_calls (RError e) = [Add_Error (CHR ''-'' # e)]"
| "reply_calls (RArray rs) = Add_ArrayLen (length rs) # concat (map reply_calls rs)"

lemma reply_calls_text: "concat (map (call_text True) (reply_calls rep)) = encode_reply rep"
proof (induction rep)
  case (RArray rs)
  then have "concat (map (call_text True) (concat (map reply_calls rs))) = concat (map encode_reply rs)"
    by (induction rs) auto
  then show ?case by simp
qed (simp_all add: payload_bytes_def)

lemma reply_calls_ok: "reply_fits rep \<Longrightarrow> \<forall>x\<in>set (reply_calls rep). call_ok x"
  by (induction rep) auto

lemma renders_plain: "renders reply_calls"
  using reply_calls_text reply_calls_ok by (auto simp: renders_def)

lemma fresh_wire_ok:
  assumes "reachable S" "\<forall>c. \<forall>r\<in>set (reqs c). request_fits (proto_max_bulk_len (rdb S)) r \<and> length (encode_request r) + PROTO_IOBUF_LEN \<le> maxlen"
    "\<forall>c. \<exists>fut. encode_all (reqs c) = arrivals c evs @ fut"
  shows "wire_ok maxlen reqs (fresh_wire S u) (\<lambda>_. 0) evs"
proof -
  have "conn_at (fresh_wire S u) c (reqs c) 0 (arrivals c evs)" for c
  proof -
    obtain fut where fut: "encode_all (reqs c) = arrivals c evs @ fut" using assms(3) by blast
    have "reqs c \<noteq> [] \<longrightarrow> length (encode_all (tl (reqs c))) < length (encode_all (reqs c))"
      by (cases "reqs c") (simp_all add: encode_all_Cons encode_request_def)
    then have "conn_ok (fresh_wire S u) c (reqs c) (arrivals c evs @ fut)"
      using new_query_awaits[of "reqs c"] new_output_ok[of u] fut
      by (simp add: conn_ok_def fresh_wire_def out_good_def new_output_def new_query_def)
    then show ?thesis using fut unfolding conn_at_def by (intro exI[of _ "[]"] exI[of _ "reqs c"] exI[of _ fut]) simp
  qed
  moreover have "proto_max_bulk_len (rdb S) \<le> LLONG_MAX - 2"
    using invD(1)[OF reachable_inv[OF assms(1)]] reachable_inv[OF assms(1)] by (simp add: minv_def limits_ok_def MAX_STR_def LLONG_MAX_def)
  ultimately show ?thesis using assms(1,2) by (simp add: wire_ok_def fresh_wire_def)
qed

lemma wire_answers:
  assumes "alloc_ok cf" "no_limits cf" "renders render" "reachable S"
    "\<forall>c. \<forall>r\<in>set (reqs c). request_fits (proto_max_bulk_len (rdb S)) r \<and> length (encode_request r) + PROTO_IOBUF_LEN \<le> maxlen"
    "\<forall>c. \<exists>fut. encode_all (reqs c) = arrivals c evs @ fut" "\<forall>ev\<in>set evs. live_event ev" "events_ok S (log_of reqs (\<lambda>_. 0) evs)"
    "\<forall>S' reps. run_log S (log_of reqs (\<lambda>_. 0) evs) = Some (S', reps) \<longrightarrow> (\<forall>x\<in>set reps. reply_fits (snd x))"
  shows "\<exists>W sent reps. wire_run cf render maxlen (fresh_wire S u) evs = Some (W, sent) \<and>
    run_log S (log_of reqs (\<lambda>_. 0) evs) = Some (w_server W, reps) \<and>
    (\<forall>c. \<exists>rest. pending (w_out W c) = map Byte rest \<and> concat (map encode_reply (replies_to c reps)) = sent c @ rest)"
proof -
  have "events_ok S (log_of reqs (\<lambda>_. 0) evs @ [])" using assms(8) by simp
  then obtain S' reps where r: "run_log S (log_of reqs (\<lambda>_. 0) evs) = Some (S', reps)" using run_log_spec[OF assms(4)] by blast
  have s: "w_server (fresh_wire S u) = S" by (simp add: fresh_wire_def)
  obtain W sent got where W: "wire_run cf render maxlen (fresh_wire S u) evs = Some (W, sent)" "w_server W = S'" "wire_ok maxlen reqs W got []"
      "\<And>c. pending (w_out (fresh_wire S u) c) @ map Byte (concat (map encode_reply (replies_to c reps))) = map Byte (sent c) @ pending (w_out W c)"
    using wire_run_spec[OF assms(1-3) fresh_wire_ok[OF assms(4-6)] assms(7), of u, unfolded s, OF assms(8) r] assms(9) r by auto
  have "\<exists>rest. pending (w_out W c) = map Byte rest \<and> concat (map encode_reply (replies_to c reps)) = sent c @ rest" for c
  proof -
    obtain rest where rest: "pending (w_out W c) = map Byte rest" using no_holes_bytes wire_good[OF W(3), of c] by (auto simp: out_good_def)
    have "pending (w_out (fresh_wire S u) c) = []" using new_output_ok[of u] by (simp add: fresh_wire_def)
    then show ?thesis using W(4)[of c] rest by (simp add: inj_Byte flip: map_append)
  qed
  then show ?thesis using W(1,2) r by auto
qed


definition demo_reqs :: "nat \<Rightarrow> char list list list" where
  "demo_reqs c = (if c = 0 then [[''SET'', ''k'', ''v'']] else if c = 1 then [[''get'', ''k'']] else [])"

definition demo_events :: "wire_event list" where
  "demo_events = [Receive 0 (''*3'' @ CRLF @ ''$3'' @ CRLF @ ''S''), Receive 0 (''ET'' @ CRLF @ ''$1'' @ CRLF @ ''k'' @ CRLF @ ''$1'' @ CRLF @ ''v'' @ CRLF),
     Receive 1 (''*2'' @ CRLF @ ''$3'' @ CRLF @ ''get'' @ CRLF @ ''$1'' @ CRLF @ ''k'' @ CRLF), Before_Sleep_Write 1 demo_conf [Wrote 3] True,
     Before_Sleep_Write 0 demo_conf [Wrote 9] True]"

lemma demo_encoded:
  "encode_request [''SET'', ''k'', ''v''] = ''*3'' @ CRLF @ ''$3'' @ CRLF @ ''SET'' @ CRLF @ ''$1'' @ CRLF @ ''k'' @ CRLF @ ''$1'' @ CRLF @ ''v'' @ CRLF"
  "encode_request [''get'', ''k''] = ''*2'' @ CRLF @ ''$3'' @ CRLF @ ''get'' @ CRLF @ ''$1'' @ CRLF @ ''k'' @ CRLF"
  by (simp_all add: encode_request_def encode_bulk_def show_nat.simps digit_char_def char_of_def bit_0)

lemma demo_lookup: "lookupCommand ''SET'' = Some (StrCmd SET)" "lookupCommand ''get'' = Some (StrCmd GET)"
  by code_simp+

lemma demo_log:
  "log_of demo_reqs (\<lambda>_. 0) demo_events = [Request 0 (Some (StrCmd SET)) [''SET'', ''k'', ''v''], Request 1 (Some (StrCmd GET)) [''get'', ''k'']]"
  by (simp add: demo_reqs_def demo_events_def demo_encoded as_request_def demo_lookup)

lemma demo_run:
  "map_option snd (run_log demo_server [Request 0 (Some (StrCmd SET)) [''SET'', ''k'', ''v''], Request 1 (Some (StrCmd GET)) [''get'', ''k'']]) =
   Some [(0, RStatus ''OK''), (1, RBulk ''v'')]"
  by code_simp

text \<open>The run of two clients above meets the hypotheses.\<close>

lemma demo_conf_ok: "alloc_ok demo_conf" "no_limits demo_conf"
  by (simp_all add: alloc_ok_def no_limits_def demo_conf_def)

lemma demo_requests_fit:
  "\<forall>c. \<forall>r\<in>set (demo_reqs c). request_fits (proto_max_bulk_len (rdb demo_server)) r \<and> length (encode_request r) + PROTO_IOBUF_LEN \<le> 100000"
  by (simp add: demo_reqs_def demo_encoded request_fits_def is_quit_def cstr_def NUL_def tolower_def demo_server_def start_def PROTO_IOBUF_LEN_def)

lemma demo_arrivals: "\<forall>c. \<exists>fut. encode_all (demo_reqs c) = arrivals c demo_events @ fut"
  by (simp add: demo_reqs_def demo_events_def encode_all_def demo_encoded)

lemma demo_live: "\<forall>ev\<in>set demo_events. live_event ev"
  by (simp add: demo_events_def PROTO_IOBUF_LEN_def)

lemma demo_events_ok: "events_ok demo_server (log_of demo_reqs (\<lambda>_. 0) demo_events)"
  unfolding demo_log
  by (rule events_ok_any[OF reachable_inv[OF demo_reachable]])
    (auto simp: request_ok_def MAX_STR_def demo_server_def start_def session_of_def arity_error_def OBJ_SET_NO_FLAGS_def)

lemma demo_replies: "\<exists>S'. run_log demo_server (log_of demo_reqs (\<lambda>_. 0) demo_events) = Some (S', [(0, RStatus ''OK''), (1, RBulk ''v'')])"
  using demo_run unfolding demo_log by auto


end
