(* ===== verification/Reader.thy ===== *)
theory Reader
  imports SdsArgs
begin

text \<open>
  The reader of replies of the client library (\<open>deps/hiredis/read.c\<close>) with its default functions to build
  reply objects (\<open>hiredis.c\<close>). Nested replies are read with a stack of tasks, and reading stops and resumes
  wherever the input ends. Reply objects live in a heap and refer to each other by their index, which stands
  for the address. \<open>None\<close> stands for a failed assertion or an access out of bounds.
\<close>

section \<open>State\<close>

datatype reply_type =
    REDIS_REPLY_STRING | REDIS_REPLY_ARRAY | REDIS_REPLY_INTEGER | REDIS_REPLY_NIL | REDIS_REPLY_STATUS | REDIS_REPLY_ERROR
  | REDIS_REPLY_DOUBLE | REDIS_REPLY_BOOL | REDIS_REPLY_MAP | REDIS_REPLY_SET | REDIS_REPLY_VERB

record redisReply =
  ro_type :: reply_type
  integer :: int
  str :: "char list"
  vtype :: "char list"
  element :: "nat option list"

text \<open>A task without a type is one whose type byte was not read yet; its parent is the task below it on the stack.\<close>

record redisReadTask =
  t_type :: "reply_type option"
  t_elements :: int
  t_idx :: int
  t_obj :: "nat option"

text \<open>The top of the stack comes first; an empty stack is \<open>ridx == -1\<close>.\<close>

record redisReader =
  r_err :: "string option"
  r_buf :: "char list"
  r_pos :: nat
  rstack :: "redisReadTask list"
  r_reply :: "nat option"
  r_heap :: "redisReply list"

text \<open>
  What the library relies on: whether an array of so many elements can be allocated, and whether \<open>strtod\<close>
  takes a whole string and does not return a NaN.
\<close>

record reader_env =
  can_alloc :: "nat \<Rightarrow> bool"
  is_double :: "char list \<Rightarrow> bool"

definition unread_bytes :: "redisReader \<Rightarrow> char list" where
  "unread_bytes r = drop (r_pos r) (r_buf r)"

definition advance :: "redisReader \<Rightarrow> nat \<Rightarrow> redisReader" where
  "advance r n = r\<lparr>r_pos := r_pos r + n\<rparr>"

definition redisReaderSetError :: "redisReader \<Rightarrow> string \<Rightarrow> redisReader" where
  "redisReaderSetError r msg = r\<lparr>r_reply := None, r_buf := [], r_pos := 0, rstack := [], r_err := Some msg\<rparr>"

section \<open>Input\<close>

text \<open>The first carriage return that is followed by a line feed.\<close>

fun seekNewline :: "char list \<Rightarrow> nat option" where
  "seekNewline (a # b # s) =
     (if a = CHR 0x0D \<and> b = CHR 0x0A then Some 0 else map_option Suc (seekNewline (b # s)))"
| "seekNewline _ = None"

text \<open>\<open>read.c\<close> has its own copy of the function of \<open>util.c\<close>.\<close>

definition reader_string2ll :: "char list \<Rightarrow> int option" where
  "reader_string2ll s = string2ll s"

definition readBytes :: "redisReader \<Rightarrow> nat \<Rightarrow> (redisReader \<times> char list) option" where
  "readBytes r n = (if length (unread_bytes r) \<ge> n then Some (advance r n, take n (unread_bytes r)) else None)"

definition readLine :: "redisReader \<Rightarrow> (redisReader \<times> char list) option" where
  "readLine r = map_option (\<lambda>len. (advance r (len + 2), take len (unread_bytes r))) (seekNewline (unread_bytes r))"

section \<open>Reply objects\<close>

definition is_aggregate :: "reply_type \<Rightarrow> bool" where
  "is_aggregate t \<longleftrightarrow> t = REDIS_REPLY_ARRAY \<or> t = REDIS_REPLY_MAP \<or> t = REDIS_REPLY_SET"

text \<open>A new object is entered at the index of the task in the object of the parent task.\<close>

definition link_object :: "redisReadTask list \<Rightarrow> redisReply list \<Rightarrow> redisReply \<Rightarrow> (redisReply list \<times> nat) option" where
  "link_object stack h obj =
     (case stack of
        cur # prv # _ \<Rightarrow> do {
          p \<leftarrow> t_obj prv;
          po \<leftarrow> fetch h p;
          if \<not> is_aggregate (ro_type po) \<or> t_idx cur < 0 then None
          else do {
            el \<leftarrow> store (element po) (nat (t_idx cur)) (Some (length h));
            Some (h[p := po\<lparr>element := el\<rparr>] @ [obj], length h)
          }
        }
      | _ \<Rightarrow> Some (h @ [obj], length h))"

definition createReplyObject :: "reply_type \<Rightarrow> redisReply" where
  "createReplyObject t = \<lparr>ro_type = t, integer = 0, str = [], vtype = [], element = []\<rparr>"

definition createStringReply :: "redisReadTask list \<Rightarrow> redisReply list \<Rightarrow> reply_type \<Rightarrow> char list \<Rightarrow> (redisReply list \<times> nat) option" where
  "createStringReply stack h t s =
     (if t \<notin> {REDIS_REPLY_ERROR, REDIS_REPLY_STATUS, REDIS_REPLY_STRING, REDIS_REPLY_VERB} then None
      else if t = REDIS_REPLY_VERB then
        (if length s < 4 then None
         else link_object stack h ((createReplyObject t)\<lparr>vtype := take 3 s, str := drop 4 s\<rparr>))
      else link_object stack h ((createReplyObject t)\<lparr>str := s\<rparr>))"

definition createArrayObject :: "redisReadTask list \<Rightarrow> redisReply list \<Rightarrow> reply_type \<Rightarrow> nat \<Rightarrow> (redisReply list \<times> nat) option" where
  "createArrayObject stack h t elements = link_object stack h ((createReplyObject t)\<lparr>element := replicate elements None\<rparr>)"

definition createIntegerObject :: "redisReadTask list \<Rightarrow> redisReply list \<Rightarrow> int \<Rightarrow> (redisReply list \<times> nat) option" where
  "createIntegerObject stack h v = link_object stack h ((createReplyObject REDIS_REPLY_INTEGER)\<lparr>integer := v\<rparr>)"

definition createDoubleObject :: "redisReadTask list \<Rightarrow> redisReply list \<Rightarrow> char list \<Rightarrow> (redisReply list \<times> nat) option" where
  "createDoubleObject stack h s = link_object stack h ((createReplyObject REDIS_REPLY_DOUBLE)\<lparr>str := s\<rparr>)"

definition createNilObject :: "redisReadTask list \<Rightarrow> redisReply list \<Rightarrow> (redisReply list \<times> nat) option" where
  "createNilObject stack h = link_object stack h (createReplyObject REDIS_REPLY_NIL)"

definition createBoolObject :: "redisReadTask list \<Rightarrow> redisReply list \<Rightarrow> bool \<Rightarrow> (redisReply list \<times> nat) option" where
  "createBoolObject stack h b = link_object stack h ((createReplyObject REDIS_REPLY_BOOL)\<lparr>integer := (if b then 1 else 0)\<rparr>)"

section \<open>Items\<close>

fun moveToNextTask :: "redisReadTask list \<Rightarrow> redisReadTask list option" where
  "moveToNextTask (cur # prv # stack) =
     (case t_type prv of
        None \<Rightarrow> None
      | Some t \<Rightarrow>
          if \<not> is_aggregate t then None
          else if t_idx cur = t_elements prv - 1 then moveToNextTask (prv # stack)
          else if \<not> t_idx cur < t_elements prv then None
          else Some (cur\<lparr>t_type := None, t_elements := -1, t_idx := t_idx cur + 1\<rparr> # prv # stack))"
| "moveToNextTask _ = Some []"

text \<open>The object \<open>i\<close> of the new heap is complete: it is the reply if its task is at the bottom of the stack.\<close>

definition item_done :: "redisReader \<Rightarrow> redisReply list \<times> nat \<Rightarrow> (redisReader \<times> bool) option" where
  "item_done r obj = do {
     let (h, i) = obj;
     let root = (length (rstack r) = 1);
     stack \<leftarrow> moveToNextTask (rstack r);
     Some (r\<lparr>r_heap := h, rstack := stack, r_reply := (if root then Some i else r_reply r)\<rparr>, True)
   }"

text \<open>The result says whether the item was read; if not, there is an error, or the input is not complete.\<close>

definition processLineItem :: "reader_env \<Rightarrow> redisReader \<Rightarrow> reply_type \<Rightarrow> (redisReader \<times> bool) option" where
  "processLineItem env r t =
     (case readLine r of
        None \<Rightarrow> Some (r, False)
      | Some (r, line) \<Rightarrow>
          if t = REDIS_REPLY_INTEGER then
            (case reader_string2ll line of
               None \<Rightarrow> Some (redisReaderSetError r ''Bad integer value'', False)
             | Some v \<Rightarrow> do { obj \<leftarrow> createIntegerObject (rstack r) (r_heap r) v; item_done r obj })
          else if t = REDIS_REPLY_DOUBLE then
            if length line \<ge> 326 then Some (redisReaderSetError r ''Double value is too large'', False)
            else if map tolower (cstr line) = '',inf'' \<or> map tolower (cstr line) = '',-inf'' \<or> is_double env (cstr line)
            then do { obj \<leftarrow> createDoubleObject (rstack r) (r_heap r) line; item_done r obj }
            else Some (redisReaderSetError r ''Bad double value'', False)
          else if t = REDIS_REPLY_NIL then do { obj \<leftarrow> createNilObject (rstack r) (r_heap r); item_done r obj }
          else if t = REDIS_REPLY_BOOL then do {
            obj \<leftarrow> createBoolObject (rstack r) (r_heap r) (line \<noteq> [] \<and> (hd line = CHR ''t'' \<or> hd line = CHR ''T''));
            item_done r obj
          }
          else do { obj \<leftarrow> createStringReply (rstack r) (r_heap r) t line; item_done r obj })"

definition processBulkItem :: "redisReader \<Rightarrow> reply_type \<Rightarrow> (redisReader \<times> bool) option" where
  "processBulkItem r t =
     (case seekNewline (unread_bytes r) of
        None \<Rightarrow> Some (r, False)
      | Some s \<Rightarrow>
          (case reader_string2ll (take s (unread_bytes r)) of
             None \<Rightarrow> Some (redisReaderSetError r ''Bad bulk string length'', False)
           | Some len \<Rightarrow>
               if len < -1 then Some (redisReaderSetError r ''Bulk string length out of range'', False)
               else if len = -1 then do { obj \<leftarrow> createNilObject (rstack r) (r_heap r); item_done (advance r (s + 2)) obj }
               else if len + 2 > LLONG_MAX then None
               else if s + 2 + nat len + 2 \<le> length (unread_bytes r) then
                 if t = REDIS_REPLY_VERB \<and> (len < 4 \<or> unread_bytes r ! (s + 5) \<noteq> CHR '':'')
                 then Some (redisReaderSetError r ''Verbatim string 4 bytes of content type are missing or incorrectly encoded.'', False)
                 else do {
                   obj \<leftarrow> createStringReply (rstack r) (r_heap r) t (take (nat len) (drop (s + 2) (unread_bytes r)));
                   item_done (advance r (s + 2 + nat len + 2)) obj
                 }
               else Some (r, False)))"

text \<open>The number of elements is an \<open>int\<close> in the task.\<close>

definition to_int :: "int \<Rightarrow> int" where
  "to_int v = sint (word_of_int v :: 32 word)"

definition processAggregateItem :: "reader_env \<Rightarrow> redisReader \<Rightarrow> reply_type \<Rightarrow> (redisReader \<times> bool) option" where
  "processAggregateItem env r t =
     (if length (rstack r) = 9 then Some (redisReaderSetError r ''No support for nested multi bulk replies with depth > 7'', False)
      else case readLine r of
        None \<Rightarrow> Some (r, False)
      | Some (r, line) \<Rightarrow>
          (case reader_string2ll line of
             None \<Rightarrow> Some (redisReaderSetError r ''Bad multi-bulk length'', False)
           | Some elements \<Rightarrow>
               if elements < -1 then Some (redisReaderSetError r ''Multi-bulk length out of range'', False)
               else if elements = -1 then do { obj \<leftarrow> createNilObject (rstack r) (r_heap r); item_done r obj }
               else if t = REDIS_REPLY_MAP \<and> elements * 2 > LLONG_MAX then None
               else do {
                 let elements = (if t = REDIS_REPLY_MAP then elements * 2 else elements);
                 if \<not> can_alloc env (nat elements) then Some (redisReaderSetError r ''Out of memory'', False)
                 else do {
                   (h, i) \<leftarrow> createArrayObject (rstack r) (r_heap r) t (nat elements);
                   if elements > 0 then
                     (case rstack r of
                        cur # stack \<Rightarrow>
                          Some (r\<lparr>r_heap := h, r_reply := (if stack = [] then Some i else r_reply r),
                                 rstack := \<lparr>t_type = None, t_elements = -1, t_idx = 0, t_obj = None\<rparr> #
                                           cur\<lparr>t_elements := to_int elements, t_obj := Some i\<rparr> # stack\<rparr>, True)
                      | [] \<Rightarrow> None)
                   else item_done r (h, i)
                 }
               }))"

definition type_of_byte :: "char \<Rightarrow> reply_type option" where
  "type_of_byte c =
     (if c = CHR ''-'' then Some REDIS_REPLY_ERROR
      else if c = CHR ''+'' then Some REDIS_REPLY_STATUS
      else if c = CHR '':'' then Some REDIS_REPLY_INTEGER
      else if c = CHR '','' then Some REDIS_REPLY_DOUBLE
      else if c = CHR ''_'' then Some REDIS_REPLY_NIL
      else if c = CHR ''$'' then Some REDIS_REPLY_STRING
      else if c = CHR ''*'' then Some REDIS_REPLY_ARRAY
      else if c = CHR ''%'' then Some REDIS_REPLY_MAP
      else if c = CHR ''~'' then Some REDIS_REPLY_SET
      else if c = CHR ''#'' then Some REDIS_REPLY_BOOL
      else if c = CHR ''='' then Some REDIS_REPLY_VERB
      else None)"

definition process_typed :: "reader_env \<Rightarrow> redisReader \<Rightarrow> reply_type \<Rightarrow> (redisReader \<times> bool) option" where
  "process_typed env r t =
     (if t \<in> {REDIS_REPLY_STRING, REDIS_REPLY_VERB} then processBulkItem r t
      else if is_aggregate t then processAggregateItem env r t
      else processLineItem env r t)"

text \<open>The byte in quotes, escaped as in \<open>sdscatrepr\<close>.\<close>

definition chrtos :: "char \<Rightarrow> char list" where
  "chrtos byte = QUOTE # repr_char byte @ [QUOTE]"

definition processItem :: "reader_env \<Rightarrow> redisReader \<Rightarrow> (redisReader \<times> bool) option" where
  "processItem env r =
     (case rstack r of
        [] \<Rightarrow> None
      | cur # stack \<Rightarrow>
          (case t_type cur of
             Some t \<Rightarrow> process_typed env r t
           | None \<Rightarrow>
               (case readBytes r 1 of
                  None \<Rightarrow> Some (r, False)
                | Some (r, p) \<Rightarrow>
                    (case type_of_byte (hd p) of
                       None \<Rightarrow> Some (redisReaderSetError r (''Protocol error, got '' @ chrtos (hd p) @ '' as reply type byte''), False)
                     | Some t \<Rightarrow> process_typed env (r\<lparr>rstack := cur\<lparr>t_type := Some t\<rparr> # stack\<rparr>) t))))"

partial_function (option) process_items :: "reader_env \<Rightarrow> redisReader \<Rightarrow> redisReader option" where
  "process_items env r =
     (if rstack r = [] then Some r
      else do { (r, ok) \<leftarrow> processItem env r; if ok then process_items env r else Some r })"

section \<open>Interface\<close>

definition redisReaderCreate :: redisReader where
  "redisReaderCreate = \<lparr>r_err = None, r_buf = [], r_pos = 0, rstack = [], r_reply = None, r_heap = []\<rparr>"

definition redisReaderFeed :: "redisReader \<Rightarrow> char list \<Rightarrow> redisReader \<times> bool" where
  "redisReaderFeed r bytes = (if r_err r \<noteq> None then (r, False) else (r\<lparr>r_buf := r_buf r @ bytes\<rparr>, True))"

text \<open>The state, whether there was no error, and the reply if there is one.\<close>

definition redisReaderGetReply :: "reader_env \<Rightarrow> redisReader \<Rightarrow> (redisReader \<times> bool \<times> nat option) option" where
  "redisReaderGetReply env r =
     (if r_err r \<noteq> None then Some (r, False, None)
      else if r_buf r = [] then Some (r, True, None)
      else do {
        let r = (if rstack r = [] then r\<lparr>rstack := [\<lparr>t_type = None, t_elements = -1, t_idx = -1, t_obj = None\<rparr>]\<rparr> else r);
        r \<leftarrow> process_items env r;
        if r_err r \<noteq> None then Some (r, False, None)
        else do {
          let r = (if r_pos r \<ge> 1024 then r\<lparr>r_buf := unread_bytes r, r_pos := 0\<rparr> else r);
          if rstack r = [] then Some (r\<lparr>r_reply := None\<rparr>, True, r_reply r) else Some (r, True, None)
        }
      })"

section \<open>Replies\<close>

text \<open>What an object of the heap stands for, and the text of replies.\<close>

datatype hreply = HString reply_type "char list" | HInteger int | HNil | HArray "hreply list"

inductive represents :: "redisReply list \<Rightarrow> nat \<Rightarrow> hreply \<Rightarrow> bool" for h where
  string: "i < length h \<Longrightarrow> ro_type (h ! i) = t \<Longrightarrow> str (h ! i) = s \<Longrightarrow> represents h i (HString t s)"
| int: "i < length h \<Longrightarrow> ro_type (h ! i) = REDIS_REPLY_INTEGER \<Longrightarrow> integer (h ! i) = n \<Longrightarrow> represents h i (HInteger n)"
| nil: "i < length h \<Longrightarrow> ro_type (h ! i) = REDIS_REPLY_NIL \<Longrightarrow> represents h i HNil"
| array: "i < length h \<Longrightarrow> ro_type (h ! i) = REDIS_REPLY_ARRAY \<Longrightarrow> element (h ! i) = map Some is \<Longrightarrow> \<forall>j\<in>set is. i < j \<Longrightarrow>
    list_all2 (represents h) is ts \<Longrightarrow> represents h i (HArray ts)"

abbreviation BREAK :: "char list" where "BREAK \<equiv> [CHR 0x0D, CHR 0x0A]"

inductive encodes :: "reader_env \<Rightarrow> char list \<Rightarrow> hreply \<Rightarrow> bool" for env where
  status: "CHR 0x0A \<notin> set s \<Longrightarrow> encodes env (CHR ''+'' # s @ BREAK) (HString REDIS_REPLY_STATUS s)"
| error: "CHR 0x0A \<notin> set s \<Longrightarrow> encodes env (CHR ''-'' # s @ BREAK) (HString REDIS_REPLY_ERROR s)"
| integer: "LLONG_MIN \<le> n \<Longrightarrow> n \<le> LLONG_MAX \<Longrightarrow> encodes env (CHR '':'' # show_int n @ BREAK) (HInteger n)"
| null: "encodes env (''$-1'' @ BREAK) HNil"
| null_array: "encodes env (''*-1'' @ BREAK) HNil"
| bulk: "int (length s) + 2 \<le> LLONG_MAX \<Longrightarrow>
    encodes env (CHR ''$'' # show_nat (length s) @ BREAK @ s @ BREAK) (HString REDIS_REPLY_STRING s)"
| array: "list_all2 (encodes env) bs ts \<Longrightarrow> length ts < 2 ^ 31 \<Longrightarrow> can_alloc env (length ts) \<Longrightarrow>
    encodes env (CHR ''*'' # show_nat (length ts) @ BREAK @ concat bs) (HArray ts)"

fun hdepth :: "hreply \<Rightarrow> nat" where
  "hdepth (HArray ts) = Suc (Max (insert 0 (set (map hdepth ts))))"
| "hdepth _ = 0"

section \<open>Lines\<close>

lemma seek_line: "CHR 0x0A \<notin> set s \<Longrightarrow> seekNewline (s @ CHR 0x0D # CHR 0x0A # rest) = Some (length s)"
proof (induction s)
  case (Cons a s)
  then show ?case by (cases s) auto
qed simp

lemma seek_append: "seekNewline s = Some n \<Longrightarrow> seekNewline (s @ t) = Some n \<and> n + 2 \<le> length s"
proof (induction s arbitrary: n rule: seekNewline.induct)
  case (1 a b s)
  then show ?case by (auto split: if_splits)
qed simp_all

lemma show_no_break: "CHR 0x0A \<notin> set (show_nat n)" "CHR 0x0A \<notin> set (show_int v)"
  using show_nat_digits[of n] show_nat_digits[of "nat (- v)"] show_nat_digits[of "nat v"] by (auto simp: show_int_def list_all_iff is_digit_def)

definition bounded :: "redisReader \<Rightarrow> bool" where
  "bounded r \<longleftrightarrow> r_pos r \<le> length (r_buf r)"

lemma advance_simps [simp]:
  "r_err (advance r n) = r_err r" "rstack (advance r n) = rstack r" "r_reply (advance r n) = r_reply r" "r_heap (advance r n) = r_heap r"
  "unread_bytes (advance r n) = drop n (unread_bytes r)" "bounded r \<Longrightarrow> n \<le> length (unread_bytes r) \<Longrightarrow> bounded (advance r n)"
  by (auto simp: advance_def unread_bytes_def bounded_def add.commute)

lemma readLine_line:
  assumes "unread_bytes r = s @ BREAK @ rest" "CHR 0x0A \<notin> set s"
  shows "readLine r = Some (advance r (length s + 2), s)" "unread_bytes (advance r (length s + 2)) = rest"
  using assms seek_line[OF assms(2), of rest] by (simp_all add: readLine_def)

section \<open>The stack and the heap\<close>

fun stack_ok :: "int \<Rightarrow> redisReadTask list \<Rightarrow> bool" where
  "stack_ok i [] \<longleftrightarrow> True"
| "stack_ok i (prv # stack) \<longleftrightarrow> (\<exists>t. t_type prv = Some t \<and> is_aggregate t) \<and> i < t_elements prv \<and> stack_ok (t_idx prv) stack"

lemma move_defined: "stack_ok (t_idx cur) stack \<Longrightarrow> \<exists>s. moveToNextTask (cur # stack) = Some s"
  by (induction stack arbitrary: cur) auto

lemma move_cong: "t_idx cur' = t_idx cur \<Longrightarrow> t_obj cur' = t_obj cur \<Longrightarrow> moveToNextTask (cur' # stack) = moveToNextTask (cur # stack)"
  by (cases stack) (auto split: option.splits)

fun task_slot_ok :: "redisReply list \<Rightarrow> int \<Rightarrow> redisReadTask list \<Rightarrow> bool" where
  "task_slot_ok h i [] \<longleftrightarrow> True"
| "task_slot_ok h i (prv # stack) \<longleftrightarrow>
     (case t_obj prv of None \<Rightarrow> False
      | Some p \<Rightarrow> p < length h \<and> is_aggregate (ro_type (h ! p)) \<and> 0 \<le> i \<and> nat i < length (element (h ! p)))"

fun plug :: "redisReply list \<Rightarrow> int \<Rightarrow> redisReadTask list \<Rightarrow> nat \<Rightarrow> redisReply list" where
  "plug h i [] n = h"
| "plug h i (prv # stack) n = (let p = the (t_obj prv) in h[p := (h ! p)\<lparr>element := (element (h ! p))[nat i := Some n]\<rparr>])"

lemma length_plug [simp]: "length (plug h i stack n) = length h"
  by (cases stack) (simp_all add: Let_def)

lemma link_spec: "task_slot_ok h (t_idx cur) stack \<Longrightarrow> link_object (cur # stack) h obj = Some (plug h (t_idx cur) stack (length h) @ [obj], length h)"
  by (cases stack) (auto simp: link_object_def Let_def split: option.splits)

lemma represents_stable:
  assumes "represents h i t" "\<forall>j. i \<le> j \<longrightarrow> j < length h \<longrightarrow> j < length h' \<and> h' ! j = h ! j"
  shows "represents h' i t"
  using assms
proof (induction rule: represents.induct)
  case (array i "is" ts)
  have "list_all2 (represents h') is ts"
    using array.IH
  proof (rule list.rel_mono_strong)
    fix j t assume "j \<in> set is" "represents h j t \<and> ((\<forall>k. j \<le> k \<longrightarrow> k < length h \<longrightarrow> k < length h' \<and> h' ! k = h ! k) \<longrightarrow> represents h' j t)"
    then show "represents h' j t" using array.hyps(4) array.prems by (meson le_trans less_imp_le)
  qed
  then show ?case using array by (intro represents.array) auto
qed (auto intro: represents.intros)

text \<open>One reply was read: what has changed.\<close>

definition reads :: "reader_env \<Rightarrow> redisReader \<Rightarrow> redisReadTask \<Rightarrow> redisReadTask list \<Rightarrow> hreply \<Rightarrow> char list \<Rightarrow> redisReader \<Rightarrow> bool" where
  "reads env r cur stack t rest r' \<longleftrightarrow>
     process_items env r = process_items env r' \<and> (\<exists>ob. moveToNextTask (cur\<lparr>t_obj := ob\<rparr> # stack) = Some (rstack r')) \<and>
     unread_bytes r' = rest \<and> bounded r' \<and> r_err r' = None \<and> r_reply r' = (if stack = [] then Some (length (r_heap r)) else r_reply r) \<and>
     length (r_heap r) < length (r_heap r') \<and>
     (\<forall>j<length (r_heap r). r_heap r' ! j = plug (r_heap r) (t_idx cur) stack (length (r_heap r)) ! j) \<and>
     represents (r_heap r') (length (r_heap r)) t"

definition ready :: "redisReader \<Rightarrow> redisReadTask \<Rightarrow> redisReadTask list \<Rightarrow> bool" where
  "ready r cur stack \<longleftrightarrow> rstack r = cur # stack \<and> t_type cur = None \<and> r_err r = None \<and> bounded r \<and>
     task_slot_ok (r_heap r) (t_idx cur) stack \<and> stack_ok (t_idx cur) stack"

definition typed :: "redisReader \<Rightarrow> reply_type \<Rightarrow> redisReader" where
  "typed r t = (advance r 1)\<lparr>rstack := (hd (rstack r))\<lparr>t_type := Some t\<rparr> # tl (rstack r)\<rparr>"

lemma processItem_typed:
  assumes "ready r cur stack" "unread_bytes r = c # s" "type_of_byte c = Some t"
  shows "processItem env r = process_typed env (typed r t) t" "unread_bytes (typed r t) = s" "rstack (typed r t) = cur\<lparr>t_type := Some t\<rparr> # stack"
    "r_heap (typed r t) = r_heap r" "r_reply (typed r t) = r_reply r" "r_err (typed r t) = None" "bounded (typed r t)"
proof -
  have u: "unread_bytes ((advance r 1)\<lparr>rstack := x\<rparr>) = s" "bounded ((advance r 1)\<lparr>rstack := x\<rparr>)" for x
    using assms(1,2) advance_simps(6)[of r 1] advance_simps(5)[of r 1]
    by (simp_all add: unread_bytes_def advance_def bounded_def ready_def)
  show "processItem env r = process_typed env (typed r t) t" "unread_bytes (typed r t) = s" "rstack (typed r t) = cur\<lparr>t_type := Some t\<rparr> # stack"
      "r_heap (typed r t) = r_heap r" "r_reply (typed r t) = r_reply r" "r_err (typed r t) = None" "bounded (typed r t)"
    using assms u by (simp_all add: processItem_def typed_def ready_def readBytes_def)
qed

lemma process_items_step:
  "rstack r \<noteq> [] \<Longrightarrow> processItem env r = Some (r', True) \<Longrightarrow> process_items env r = process_items env r'"
  by (simp add: process_items.simps[of env r])

lemma leaf_reads:
  assumes rd: "ready r cur stack" and p: "processItem env r = item_done r1 (plug (r_heap r) (t_idx cur) stack (length (r_heap r)) @ [obj], length (r_heap r))"
    and r1: "rstack r1 = cur\<lparr>t_type := t\<rparr> # stack" "r_reply r1 = r_reply r" "r_err r1 = None" "bounded r1" "unread_bytes r1 = rest"
    and t: "represents (plug (r_heap r) (t_idx cur) stack (length (r_heap r)) @ [obj]) (length (r_heap r)) x"
  shows "\<exists>r'. reads env r cur stack x rest r'"
proof -
  let ?h = "plug (r_heap r) (t_idx cur) stack (length (r_heap r)) @ [obj]" and ?i = "length (r_heap r)"
  obtain s where s: "moveToNextTask (cur\<lparr>t_type := t\<rparr> # stack) = Some s" using move_defined[of "cur\<lparr>t_type := t\<rparr>" stack] rd by (auto simp: ready_def)
  define r' where "r' = r1\<lparr>r_heap := ?h, rstack := s, r_reply := (if stack = [] then Some ?i else r_reply r)\<rparr>"
  have "processItem env r = Some (r', True)" using p r1 s by (auto simp: item_done_def r'_def)
  then have "process_items env r = process_items env r'" using rd by (intro process_items_step) (simp_all add: ready_def)
  moreover have "moveToNextTask (cur\<lparr>t_obj := t_obj cur\<rparr> # stack) = Some (rstack r')" using s move_cong[of "cur\<lparr>t_type := t\<rparr>" cur stack] by (simp add: r'_def)
  moreover have "unread_bytes r' = rest" "bounded r'" using r1 by (simp_all add: r'_def unread_bytes_def bounded_def)
  ultimately show ?thesis using r1(3) t unfolding reads_def
    by (intro exI[of _ r'] conjI exI[of _ "t_obj cur"]) (simp_all add: r'_def nth_append)
qed

lemma last_in: "length (plug h i stack n @ [obj]) = Suc (length h)" "(plug h i stack n @ [obj]) ! length h = obj"
  by (simp_all add: nth_append)

lemma line_reads:
  assumes rd: "ready r cur stack" and u: "unread_bytes r = c # s @ BREAK @ rest" "type_of_byte c = Some t" "CHR 0x0A \<notin> set s"
    and k: "t \<in> {REDIS_REPLY_ERROR, REDIS_REPLY_STATUS}"
  shows "\<exists>r'. reads env r cur stack (HString t s) rest r'"
proof -
  note T = processItem_typed[OF rd u(1,2)]
  note L = readLine_line[OF T(2) u(3)]
  let ?r1 = "advance (typed r t) (length s + 2)"
  let ?obj = "(createReplyObject t)\<lparr>str := s\<rparr>"
  have sl: "task_slot_ok (r_heap r) (t_idx (cur\<lparr>t_type := Some t\<rparr>)) stack" using rd by (simp add: ready_def)
  have "processItem env r = processLineItem env (typed r t) t" using T(1) k by (auto simp: process_typed_def is_aggregate_def)
  also have "\<dots> = item_done ?r1 (plug (r_heap r) (t_idx cur) stack (length (r_heap r)) @ [?obj], length (r_heap r))"
    using k L(1) T(3,4) link_spec[OF sl, of ?obj] by (auto simp: processLineItem_def createStringReply_def)
  finally show ?thesis
    by (rule leaf_reads[OF rd]) (use T L u(1) in \<open>auto intro!: represents.string simp: last_in createReplyObject_def\<close>)
qed

lemma integer_reads:
  assumes rd: "ready r cur stack" and u: "unread_bytes r = CHR '':'' # show_int n @ BREAK @ rest" and n: "LLONG_MIN \<le> n" "n \<le> LLONG_MAX"
  shows "\<exists>r'. reads env r cur stack (HInteger n) rest r'"
proof -
  have b: "type_of_byte (CHR '':'') = Some REDIS_REPLY_INTEGER" by (simp add: type_of_byte_def)
  note T = processItem_typed[OF rd u b]
  note L = readLine_line[OF T(2) show_no_break(2)]
  let ?r1 = "advance (typed r REDIS_REPLY_INTEGER) (length (show_int n) + 2)"
  let ?obj = "(createReplyObject REDIS_REPLY_INTEGER)\<lparr>integer := n\<rparr>"
  have sl: "task_slot_ok (r_heap r) (t_idx (cur\<lparr>t_type := Some REDIS_REPLY_INTEGER\<rparr>)) stack" using rd by (simp add: ready_def)
  have v: "reader_string2ll (show_int n) = Some n" using n by (simp add: reader_string2ll_def string2ll_spec)
  have "processItem env r = item_done ?r1 (plug (r_heap r) (t_idx cur) stack (length (r_heap r)) @ [?obj], length (r_heap r))"
    using L(1) T(1,3,4) v link_spec[OF sl, of ?obj] by (simp add: process_typed_def is_aggregate_def processLineItem_def createIntegerObject_def)
  then show ?thesis
    by (rule leaf_reads[OF rd]) (use T L u in \<open>auto intro!: represents.int simp: last_in createReplyObject_def\<close>)
qed

lemma minus_one: "show_int (- 1) = ''-1''" "reader_string2ll ''-1'' = Some (- 1)"
proof -
  show s: "show_int (- 1) = ''-1''" by (simp add: show_int_def show_nat.simps digit_char_def char_of_def bit_0)
  show "reader_string2ll ''-1'' = Some (- 1)" using s by (simp add: reader_string2ll_def string2ll_spec LLONG_MIN_def LLONG_MAX_def)
qed

lemma null_reads:
  assumes rd: "ready r cur stack" and u: "unread_bytes r = ''$-1'' @ BREAK @ rest"
  shows "\<exists>r'. reads env r cur stack HNil rest r'"
proof -
  have u': "unread_bytes r = CHR ''$'' # ''-1'' @ BREAK @ rest" using u by simp
  have b: "type_of_byte (CHR ''$'') = Some REDIS_REPLY_STRING" by (simp add: type_of_byte_def)
  note T = processItem_typed[OF rd u' b]
  let ?obj = "createReplyObject REDIS_REPLY_NIL" and ?r = "typed r REDIS_REPLY_STRING"
  have sl: "task_slot_ok (r_heap r) (t_idx (cur\<lparr>t_type := Some REDIS_REPLY_STRING\<rparr>)) stack" using rd by (simp add: ready_def)
  have "processItem env r = processBulkItem ?r REDIS_REPLY_STRING" using T(1) by (simp add: process_typed_def)
  also have "\<dots> = item_done (advance ?r 4) (plug (r_heap r) (t_idx cur) stack (length (r_heap r)) @ [?obj], length (r_heap r))"
    using T(2,3,4) minus_one(2) link_spec[OF sl, of ?obj] by (simp add: processBulkItem_def createNilObject_def numeral_eq_Suc)
  finally show ?thesis
    by (rule leaf_reads[OF rd]) (use T u in \<open>auto intro!: represents.nil simp: last_in createReplyObject_def\<close>)
qed

lemma bulk_reads:
  assumes rd: "ready r cur stack" and u: "unread_bytes r = CHR ''$'' # show_nat (length s) @ BREAK @ s @ BREAK @ rest" and s: "int (length s) + 2 \<le> LLONG_MAX"
  shows "\<exists>r'. reads env r cur stack (HString REDIS_REPLY_STRING s) rest r'"
proof -
  have b: "type_of_byte (CHR ''$'') = Some REDIS_REPLY_STRING" by (simp add: type_of_byte_def)
  note T = processItem_typed[OF rd u b]
  let ?obj = "(createReplyObject REDIS_REPLY_STRING)\<lparr>str := s\<rparr>" and ?r = "typed r REDIS_REPLY_STRING"
  define d where "d = show_nat (length s)"
  have sl: "task_slot_ok (r_heap r) (t_idx (cur\<lparr>t_type := Some REDIS_REPLY_STRING\<rparr>)) stack" using rd by (simp add: ready_def)
  have ud: "unread_bytes ?r = d @ CHR 0x0D # CHR 0x0A # s @ BREAK @ rest" using T(2) by (simp add: d_def)
  have dr: "drop (length d + 2 + length s + 2) (unread_bytes ?r) = rest" unfolding ud by (simp add: numeral_eq_Suc)
  have sk: "seekNewline (unread_bytes ?r) = Some (length d)" unfolding ud by (rule seek_line) (simp add: d_def show_no_break)
  have v: "reader_string2ll d = Some (int (length s))" using s by (simp add: reader_string2ll_def string2ll_spec d_def show_int_def LLONG_MIN_def)
  have "processItem env r = processBulkItem ?r REDIS_REPLY_STRING" using T(1) by (simp add: process_typed_def)
  also have "\<dots> = item_done (advance ?r (length d + 2 + length s + 2)) (plug (r_heap r) (t_idx cur) stack (length (r_heap r)) @ [?obj], length (r_heap r))"
    using sk v s T(3,4) link_spec[OF sl, of ?obj] unfolding processBulkItem_def ud by (simp add: createStringReply_def)
  finally show ?thesis
    by (rule leaf_reads[OF rd]) (use T ud dr in \<open>auto intro!: represents.string simp: last_in createReplyObject_def simp del: drop_append\<close>)
qed

lemma aggregate_reads_nil:
  assumes rd: "ready r cur stack" and u: "unread_bytes r = ''*-1'' @ BREAK @ rest" and l: "length stack < 8"
  shows "\<exists>r'. reads env r cur stack HNil rest r'"
proof -
  have u': "unread_bytes r = CHR ''*'' # ''-1'' @ BREAK @ rest" using u by simp
  have b: "type_of_byte (CHR ''*'') = Some REDIS_REPLY_ARRAY" by (simp add: type_of_byte_def)
  note T = processItem_typed[OF rd u' b]
  note L = readLine_line[OF T(2)]
  let ?obj = "createReplyObject REDIS_REPLY_NIL" and ?r = "typed r REDIS_REPLY_ARRAY"
  have sl: "task_slot_ok (r_heap r) (t_idx (cur\<lparr>t_type := Some REDIS_REPLY_ARRAY\<rparr>)) stack" using rd by (simp add: ready_def)
  have "processItem env r = processAggregateItem env ?r REDIS_REPLY_ARRAY" using T(1) by (simp add: process_typed_def is_aggregate_def)
  also have "\<dots> = item_done (advance ?r 4) (plug (r_heap r) (t_idx cur) stack (length (r_heap r)) @ [?obj], length (r_heap r))"
    using T(2,3,4) L(1) minus_one(2) l link_spec[OF sl, of ?obj] by (simp add: processAggregateItem_def createNilObject_def numeral_eq_Suc)
  finally show ?thesis
    by (rule leaf_reads[OF rd]) (use T u in \<open>auto intro!: represents.nil simp: last_in createReplyObject_def\<close>)
qed

lemma to_int_small: "n < 2 ^ 31 \<Longrightarrow> to_int (int n) = int n"
  using sint_of_int32[of "int n"] by (simp add: to_int_def)

lemma array_header:
  assumes rd: "ready r cur stack" and u: "unread_bytes r = CHR ''*'' # show_nat n @ BREAK @ rest" and l: "length stack < 8"
    and n: "int n \<le> LLONG_MAX" "can_alloc env n"
  defines "h \<equiv> plug (r_heap r) (t_idx cur) stack (length (r_heap r)) @ [(createReplyObject REDIS_REPLY_ARRAY)\<lparr>element := replicate n None\<rparr>]"
  obtains r1 where "rstack r1 = cur\<lparr>t_type := Some REDIS_REPLY_ARRAY\<rparr> # stack" "r_reply r1 = r_reply r" "r_err r1 = None" "bounded r1" "unread_bytes r1 = rest"
    "n = 0 \<Longrightarrow> processItem env r = item_done r1 (h, length (r_heap r))"
    "n > 0 \<Longrightarrow> processItem env r = Some (r1\<lparr>r_heap := h, r_reply := (if stack = [] then Some (length (r_heap r)) else r_reply r),
       rstack := \<lparr>t_type = None, t_elements = -1, t_idx = 0, t_obj = None\<rparr> #
         cur\<lparr>t_type := Some REDIS_REPLY_ARRAY, t_elements := to_int (int n), t_obj := Some (length (r_heap r))\<rparr> # stack\<rparr>, True)"
proof -
  have b: "type_of_byte (CHR ''*'') = Some REDIS_REPLY_ARRAY" by (simp add: type_of_byte_def)
  note T = processItem_typed[OF rd u b]
  note L = readLine_line[OF T(2) show_no_break(1)]
  let ?obj = "(createReplyObject REDIS_REPLY_ARRAY)\<lparr>element := replicate n None\<rparr>" and ?r = "typed r REDIS_REPLY_ARRAY"
  let ?r1 = "advance ?r (length (show_nat n) + 2)"
  have sl: "task_slot_ok (r_heap r) (t_idx (cur\<lparr>t_type := Some REDIS_REPLY_ARRAY\<rparr>)) stack" using rd by (simp add: ready_def)
  have v: "reader_string2ll (show_nat n) = Some (int n)"
    using n(1) by (simp add: reader_string2ll_def string2ll_spec show_int_def LLONG_MIN_def)
  have p: "processItem env r = processAggregateItem env ?r REDIS_REPLY_ARRAY" using T(1) by (simp add: process_typed_def is_aggregate_def)
  have c: "createArrayObject (rstack ?r1) (r_heap ?r1) REDIS_REPLY_ARRAY n = Some (h, length (r_heap r))"
    using T(3,4) link_spec[OF sl, of ?obj] by (simp add: createArrayObject_def h_def)
  have q: "rstack ?r1 = cur\<lparr>t_type := Some REDIS_REPLY_ARRAY\<rparr> # stack" "r_reply ?r1 = r_reply r" "r_err ?r1 = None" "bounded ?r1" "unread_bytes ?r1 = rest"
    using T L by simp_all
  show thesis
  proof (rule that[OF q])
    show "processItem env r = item_done ?r1 (h, length (r_heap r))" if "n = 0"
      unfolding p processAggregateItem_def using T(3) L(1) v l c n that by simp
    show "processItem env r = Some (?r1\<lparr>r_heap := h, r_reply := (if stack = [] then Some (length (r_heap r)) else r_reply r),
       rstack := \<lparr>t_type = None, t_elements = -1, t_idx = 0, t_obj = None\<rparr> #
         cur\<lparr>t_type := Some REDIS_REPLY_ARRAY, t_elements := to_int (int n), t_obj := Some (length (r_heap r))\<rparr> # stack\<rparr>, True)" if "n > 0"
      unfolding p processAggregateItem_def using T(3,5) L(1) v l c n that by simp
  qed
qed

section \<open>Nested replies\<close>

definition reads_text :: "reader_env \<Rightarrow> char list \<Rightarrow> hreply \<Rightarrow> bool" where
  "reads_text env b t \<longleftrightarrow> (\<forall>r cur stack rest. ready r cur stack \<longrightarrow> unread_bytes r = b @ rest \<longrightarrow> length stack + hdepth t \<le> 7 \<longrightarrow>
     (\<exists>r'. reads env r cur stack t rest r'))"

text \<open>The elements from index \<open>k\<close> on of the array \<open>i\<close>.\<close>

definition in_array :: "redisReader \<Rightarrow> redisReadTask \<Rightarrow> redisReadTask \<Rightarrow> redisReadTask list \<Rightarrow> nat \<Rightarrow> nat \<Rightarrow> nat \<Rightarrow> bool" where
  "in_array r ch cur stack i k n \<longleftrightarrow> rstack r = ch # cur # stack \<and> t_type ch = None \<and> t_idx ch = int k \<and> r_err r = None \<and> bounded r \<and>
     t_obj cur = Some i \<and> t_type cur = Some REDIS_REPLY_ARRAY \<and> t_elements cur = int n \<and> stack_ok (t_idx cur) stack \<and>
     i < length (r_heap r) \<and> ro_type (r_heap r ! i) = REDIS_REPLY_ARRAY \<and> length (element (r_heap r ! i)) = n"

definition reads_rest :: "reader_env \<Rightarrow> redisReader \<Rightarrow> redisReadTask \<Rightarrow> redisReadTask list \<Rightarrow> nat \<Rightarrow> nat \<Rightarrow> hreply list \<Rightarrow> char list \<Rightarrow> redisReader \<Rightarrow> nat list \<Rightarrow> bool" where
  "reads_rest env r cur stack i k ts rest r' is \<longleftrightarrow>
     process_items env r = process_items env r' \<and> moveToNextTask (cur # stack) = Some (rstack r') \<and> unread_bytes r' = rest \<and> bounded r' \<and>
     r_err r' = None \<and> r_reply r' = r_reply r \<and> length (r_heap r) \<le> length (r_heap r') \<and>
     (\<forall>j<length (r_heap r). j \<noteq> i \<longrightarrow> r_heap r' ! j = r_heap r ! j) \<and>
     r_heap r' ! i = (r_heap r ! i)\<lparr>element := take k (element (r_heap r ! i)) @ map Some is\<rparr> \<and>
     (\<forall>j\<in>set is. length (r_heap r) \<le> j) \<and> list_all2 (represents (r_heap r')) is ts"

lemma in_array_ready: "in_array r ch cur stack i k n \<Longrightarrow> k < n \<Longrightarrow> ready r ch (cur # stack)"
  by (simp add: in_array_def ready_def is_aggregate_def)

lemma first_child:
  assumes a: "in_array r ch cur stack i k n" "k < n" and r: "reads env r ch (cur # stack) t rest r1"
  shows "r_heap r1 ! i = (r_heap r ! i)\<lparr>element := (element (r_heap r ! i))[k := Some (length (r_heap r))]\<rparr>"
    "\<And>j. j < length (r_heap r) \<Longrightarrow> j \<noteq> i \<Longrightarrow> r_heap r1 ! j = r_heap r ! j" "r_reply r1 = r_reply r"
    "Suc k = n \<Longrightarrow> moveToNextTask (cur # stack) = Some (rstack r1)"
    "Suc k \<noteq> n \<Longrightarrow> \<exists>ch1. in_array r1 ch1 cur stack i (Suc k) n"
proof -
  have p: "\<And>j. j < length (r_heap r) \<Longrightarrow> r_heap r1 ! j = plug (r_heap r) (int k) (cur # stack) (length (r_heap r)) ! j"
    using r a(1) by (simp add: reads_def in_array_def)
  show h: "r_heap r1 ! i = (r_heap r ! i)\<lparr>element := (element (r_heap r ! i))[k := Some (length (r_heap r))]\<rparr>"
      "\<And>j. j < length (r_heap r) \<Longrightarrow> j \<noteq> i \<Longrightarrow> r_heap r1 ! j = r_heap r ! j"
    using p a(1) by (auto simp: in_array_def Let_def)
  show "r_reply r1 = r_reply r" using r by (simp add: reads_def)
  obtain ob where m: "moveToNextTask (ch\<lparr>t_obj := ob\<rparr> # cur # stack) = Some (rstack r1)" using r by (auto simp: reads_def)
  then show "moveToNextTask (cur # stack) = Some (rstack r1)" if "Suc k = n" using that a by (auto simp: in_array_def is_aggregate_def)
  show "\<exists>ch1. in_array r1 ch1 cur stack i (Suc k) n" if "Suc k \<noteq> n"
  proof (intro exI[of _ "ch\<lparr>t_obj := ob, t_type := None, t_elements := -1, t_idx := int k + 1\<rparr>"])
    have "rstack r1 = ch\<lparr>t_obj := ob, t_type := None, t_elements := -1, t_idx := int k + 1\<rparr> # cur # stack"
      using m a that by (auto simp: in_array_def is_aggregate_def split: if_splits)
    then show "in_array r1 (ch\<lparr>t_obj := ob, t_type := None, t_elements := -1, t_idx := int k + 1\<rparr>) cur stack i (Suc k) n"
      using a(1) r h(1) by (auto simp: in_array_def reads_def)
  qed
qed

lemma children_read:
  assumes "list_all2 (reads_text env) bs ts" "ts \<noteq> []" "in_array r ch cur stack i k (k + length ts)" "unread_bytes r = concat bs @ rest"
    "\<forall>t\<in>set ts. Suc (length stack) + hdepth t \<le> 7"
  shows "\<exists>r' is. reads_rest env r cur stack i k ts rest r' is"
  using assms
proof (induction bs ts arbitrary: r ch k rule: list_all2_induct)
  case (Cons b bs t ts)
  let ?n = "k + length (t # ts)" and ?h = "r_heap r"
  have u: "unread_bytes r = b @ concat bs @ rest" using Cons.prems(3) by simp
  obtain r1 where r1: "reads env r ch (cur # stack) t (concat bs @ rest) r1"
    using Cons.hyps(1) in_array_ready[OF Cons.prems(2)] u Cons.prems(4) unfolding reads_text_def by fastforce
  note F = first_child[OF Cons.prems(2) _ r1, simplified]
  note R = r1[unfolded reads_def]
  have el: "length (element (?h ! i)) = ?n" "i < length ?h" using Cons.prems(2) by (simp_all add: in_array_def)
  show ?case
  proof (cases "ts = []")
    case True
    have "(element (?h ! i))[k := Some (length ?h)] = take k (element (?h ! i)) @ map Some [length ?h]"
      using el(1) True by (simp add: upd_conv_take_nth_drop)
    then have "reads_rest env r cur stack i k (t # ts) rest r1 [length ?h]" unfolding reads_rest_def
      using R F True Cons.hyps(2) by simp
    then show ?thesis by blast
  next
    case False
    then obtain ch1 where ch1: "in_array r1 ch1 cur stack i (Suc k) (Suc k + length ts)" using F(5) by auto
    obtain r' "is" where r': "reads_rest env r1 cur stack i (Suc k) ts rest r' is"
      using Cons.IH[OF False ch1] R Cons.prems(4) by auto
    note Q = r'[unfolded reads_rest_def]
    have "take (Suc k) ((element (?h ! i))[k := Some (length ?h)]) = take k (element (?h ! i)) @ [Some (length ?h)]"
      using el(1) by (simp add: take_Suc_conv_app_nth)
    then have i': "r_heap r' ! i = (?h ! i)\<lparr>element := take k (element (?h ! i)) @ map Some (length ?h # is)\<rparr>" using Q F(1) by simp
    have "represents (r_heap r') (length ?h) t"
    proof (rule represents_stable[of "r_heap r1"])
      show "\<forall>j. length ?h \<le> j \<longrightarrow> j < length (r_heap r1) \<longrightarrow> j < length (r_heap r') \<and> r_heap r' ! j = r_heap r1 ! j"
        using Q el(2) by auto
    qed (use R in simp)
    then have "reads_rest env r cur stack i k (t # ts) rest r' (length ?h # is)" unfolding reads_rest_def
      using Q R F(2,3) i' by auto
    then show ?thesis by blast
  qed
qed simp

lemma hdepth_child: "t \<in> set ts \<Longrightarrow> Suc (hdepth t) \<le> hdepth (HArray ts)"
  by simp

lemma array_reads:
  assumes c: "list_all2 (reads_text env) bs ts" and n: "length ts < 2 ^ 31" "can_alloc env (length ts)"
  shows "reads_text env (CHR ''*'' # show_nat (length ts) @ BREAK @ concat bs) (HArray ts)"
  unfolding reads_text_def
proof (intro allI impI)
  fix r cur stack rest assume rd: "ready r cur stack" and u0: "unread_bytes r = (CHR ''*'' # show_nat (length ts) @ BREAK @ concat bs) @ rest"
    and d: "length stack + hdepth (HArray ts) \<le> 7"
  have u: "unread_bytes r = CHR ''*'' # show_nat (length ts) @ BREAK @ concat bs @ rest" using u0 by simp
  have l: "length stack < 8" and ll: "int (length ts) \<le> LLONG_MAX" using d n(1) by (simp_all add: LLONG_MAX_def)
  let ?i = "length (r_heap r)"
  define h where "h = plug (r_heap r) (t_idx cur) stack ?i @ [(createReplyObject REDIS_REPLY_ARRAY)\<lparr>element := replicate (length ts) None\<rparr>]"
  define cur' where "cur' = cur\<lparr>t_type := Some REDIS_REPLY_ARRAY, t_elements := int (length ts), t_obj := Some ?i\<rparr>"
  obtain r1 where r1: "rstack r1 = cur\<lparr>t_type := Some REDIS_REPLY_ARRAY\<rparr> # stack" "r_reply r1 = r_reply r" "r_err r1 = None" "bounded r1"
      "unread_bytes r1 = concat bs @ rest" "length ts = 0 \<Longrightarrow> processItem env r = item_done r1 (h, ?i)"
      "length ts > 0 \<Longrightarrow> processItem env r = Some (r1\<lparr>r_heap := h, r_reply := (if stack = [] then Some ?i else r_reply r),
         rstack := \<lparr>t_type = None, t_elements = -1, t_idx = 0, t_obj = None\<rparr> # cur' # stack\<rparr>, True)"
    using array_header[OF rd u l ll n(2), unfolded to_int_small[OF n(1)]] unfolding h_def cur'_def by metis
  have hi: "length h = Suc ?i" "h ! ?i = (createReplyObject REDIS_REPLY_ARRAY)\<lparr>element := replicate (length ts) None\<rparr>"
    by (simp_all add: h_def nth_append)
  show "\<exists>r'. reads env r cur stack (HArray ts) rest r'"
  proof (cases "ts = []")
    case True
    have "represents h ?i (HArray [])"
      using hi True by (intro represents.array[of _ _ "[]"]) (simp_all add: createReplyObject_def)
    then show ?thesis using leaf_reads[OF rd r1(6)[unfolded h_def] r1(1-5)] True c by (simp add: h_def)
  next
    case False
    define ch where "ch = \<lparr>t_type = None, t_elements = -1, t_idx = 0, t_obj = (None :: nat option)\<rparr>"
    define r2 where "r2 = r1\<lparr>r_heap := h, r_reply := (if stack = [] then Some ?i else r_reply r), rstack := ch # cur' # stack\<rparr>"
    have st: "processItem env r = Some (r2, True)" using r1(7) False by (simp add: r2_def ch_def)
    have so: "stack_ok (t_idx cur) stack" using rd by (simp add: ready_def)
    have a: "in_array r2 ch cur' stack ?i 0 (0 + length ts)"
      using r1 so hi by (simp add: in_array_def r2_def ch_def cur'_def bounded_def createReplyObject_def)
    have u2: "unread_bytes r2 = concat bs @ rest" using r1(5) by (simp add: r2_def unread_bytes_def)
    have dd: "\<forall>t\<in>set ts. Suc (length stack) + hdepth t \<le> 7"
    proof
      fix t assume "t \<in> set ts"
      from hdepth_child[OF this] show "Suc (length stack) + hdepth t \<le> 7" using d by linarith
    qed
    obtain r' "is" where r': "reads_rest env r2 cur' stack ?i 0 ts rest r' is" using children_read[OF c False a u2 dd] by blast
    note Q = r'[unfolded reads_rest_def]
    have h2: "r_heap r2 = h" "r_reply r2 = (if stack = [] then Some ?i else r_reply r)" by (simp_all add: r2_def)
    have i': "r_heap r' ! ?i = (createReplyObject REDIS_REPLY_ARRAY)\<lparr>element := map Some is\<rparr>" using Q h2 hi by simp
    have "represents (r_heap r') ?i (HArray ts)"
      using Q i' h2 hi by (intro represents.array[of _ _ "is"]) (auto simp: createReplyObject_def Suc_le_eq)
    moreover have "process_items env r = process_items env r'" using process_items_step[OF _ st] rd Q by (simp add: ready_def)
    moreover have "moveToNextTask (cur\<lparr>t_obj := Some ?i\<rparr> # stack) = Some (rstack r')"
      using Q move_cong[of cur' "cur\<lparr>t_obj := Some ?i\<rparr>" stack] by (simp add: cur'_def)
    moreover have "\<forall>j<?i. r_heap r' ! j = plug (r_heap r) (t_idx cur) stack ?i ! j"
      using Q h2 by (auto simp: h_def nth_append)
    ultimately have "reads env r cur stack (HArray ts) rest r'" using Q h2 hi(1) unfolding reads_def by auto
    then show ?thesis by blast
  qed
qed

lemma encoded_reads: "encodes env b t \<Longrightarrow> reads_text env b t"
proof (induction rule: encodes.induct)
  case (array bs ts)
  then have "list_all2 (reads_text env) bs ts" by (auto elim: list.rel_mono_strong)
  then show ?case using array_reads array.hyps by blast
next
  case (status s)
  then show ?case using line_reads[of _ _ _ "CHR ''+''" s _ REDIS_REPLY_STATUS] by (fastforce simp: reads_text_def type_of_byte_def)
next
  case (error s)
  then show ?case using line_reads[of _ _ _ "CHR ''-''" s _ REDIS_REPLY_ERROR] by (fastforce simp: reads_text_def type_of_byte_def)
next
  case (integer n)
  then show ?case using integer_reads[of _ _ _ n] by (fastforce simp: reads_text_def)
next
  case null
  then show ?case using null_reads by (fastforce simp: reads_text_def)
next
  case null_array
  then show ?case using aggregate_reads_nil by (fastforce simp: reads_text_def)
next
  case (bulk s)
  then show ?case using bulk_reads[of _ _ _ s] by (fastforce simp: reads_text_def)
qed

section \<open>Input in pieces\<close>

text \<open>The same reader with more input behind its own, wherever its buffer begins.\<close>

definition extends :: "char list \<Rightarrow> redisReader \<Rightarrow> redisReader \<Rightarrow> bool" where
  "extends v r r' \<longleftrightarrow> bounded r \<and> bounded r' \<and> r' = r\<lparr>r_buf := r_buf r', r_pos := r_pos r'\<rparr> \<and> unread_bytes r' = unread_bytes r @ v"

lemma extends_fields:
  assumes "extends v r r'"
  shows "r_err r' = r_err r" "rstack r' = rstack r" "r_reply r' = r_reply r" "r_heap r' = r_heap r" "unread_bytes r' = unread_bytes r @ v"
  using assms unfolding extends_def by (metis redisReader.ext_inject redisReader.surjective redisReader.update_convs(2,3))+

lemma extendsI:
  assumes "bounded r" "bounded r'" "r_err r' = r_err r" "rstack r' = rstack r" "r_reply r' = r_reply r" "r_heap r' = r_heap r"
    "unread_bytes r' = unread_bytes r @ v"
  shows "extends v r r'"
  using assms by (simp add: extends_def)

lemma extends_advance:
  assumes "extends v r r'" "n \<le> length (unread_bytes r)"
  shows "extends v (advance r n) (advance r' n)"
proof -
  note f = extends_fields[OF assms(1)]
  have "bounded r" "bounded r'" using assms(1) by (simp_all add: extends_def)
  then show ?thesis using f assms(2) advance_simps(6)[of r n] advance_simps(6)[of r' n] by (intro extendsI) simp_all
qed

lemma extends_update:
  assumes "extends v r r'"
  shows "extends v (r\<lparr>r_heap := h, rstack := s, r_reply := x\<rparr>) (r'\<lparr>r_heap := h, rstack := s, r_reply := x\<rparr>)"
  using assms extends_fields[OF assms] by (intro extendsI) (simp_all add: extends_def bounded_def unread_bytes_def)

lemma readLine_extends:
  assumes "extends v r r'" "readLine r = Some (r1, line)"
  shows "\<exists>r1'. readLine r' = Some (r1', line) \<and> extends v r1 r1'"
proof -
  obtain n where n: "seekNewline (unread_bytes r) = Some n" "r1 = advance r (n + 2)" "line = take n (unread_bytes r)"
    using assms(2) by (auto simp: readLine_def)
  from seek_append[OF n(1), of v] show ?thesis
    using extends_fields[OF assms(1)] n extends_advance[OF assms(1), of "n + 2"] by (simp add: readLine_def)
qed

lemma item_done_extends:
  assumes "extends v r r'" "item_done r x = Some (y, True)"
  shows "\<exists>y'. item_done r' x = Some (y', True) \<and> extends v y y'"
proof -
  note f = extends_fields[OF assms(1)]
  obtain h i where x: "x = (h, i)" by (cases x) simp
  let ?rep = "if length (rstack r) = 1 then Some i else r_reply r"
  obtain s where s: "moveToNextTask (rstack r) = Some s" "y = r\<lparr>r_heap := h, rstack := s, r_reply := ?rep\<rparr>"
    using assms(2) unfolding item_done_def x by (auto simp: bind_eq_Some_conv)
  have "item_done r' x = Some (r'\<lparr>r_heap := h, rstack := s, r_reply := ?rep\<rparr>, True)" using s(1) f by (simp add: item_done_def x)
  then show ?thesis using extends_update[OF assms(1)] s(2) by blast
qed

lemma item_done_True: "item_done r x \<noteq> Some (y, False)"
  by (auto simp: item_done_def split: prod.splits Option.bind_splits)

lemma line_extends:
  assumes "extends v r r'" "processLineItem env r t = Some (y, True)"
  shows "\<exists>y'. processLineItem env r' t = Some (y', True) \<and> extends v y y'"
proof -
  obtain r1 line where l: "readLine r = Some (r1, line)" using assms(2) by (cases "readLine r") (auto simp: processLineItem_def)
  obtain r1' where l': "readLine r' = Some (r1', line)" "extends v r1 r1'" using readLine_extends[OF assms(1) l] by blast
  show ?thesis using assms(2) l l'(1) extends_fields(2,4)[OF l'(2)] item_done_extends[OF l'(2)] unfolding processLineItem_def
    by (auto split: if_splits option.splits Option.bind_splits)
qed

lemma line_again: "processLineItem env r t = Some (y, False) \<Longrightarrow> r_err y = None \<Longrightarrow> y = r"
  using item_done_True by (fastforce simp: processLineItem_def redisReaderSetError_def split: if_splits option.splits Option.bind_splits)

lemma bulk_extends:
  assumes "extends v r r'" "processBulkItem r t = Some (y, True)"
  shows "\<exists>y'. processBulkItem r' t = Some (y', True) \<and> extends v y y'"
proof -
  note f = extends_fields[OF assms(1)]
  obtain s where s: "seekNewline (unread_bytes r) = Some s" using assms(2) by (cases "seekNewline (unread_bytes r)") (auto simp: processBulkItem_def)
  have s': "seekNewline (unread_bytes r') = Some s" "s + 2 \<le> length (unread_bytes r)" using seek_append[OF s, of v] f(5) by simp_all
  have tk: "take s (unread_bytes r') = take s (unread_bytes r)" using s'(2) f(5) by simp
  obtain len where len: "reader_string2ll (take s (unread_bytes r)) = Some len" "\<not> len < -1"
    using assms(2) s by (auto simp: processBulkItem_def split: option.splits if_splits)
  show ?thesis
  proof (cases "len = -1")
    case True
    then obtain x where x: "createNilObject (rstack r) (r_heap r) = Some x" "item_done (advance r (s + 2)) x = Some (y, True)"
      using assms(2) s len by (auto simp: processBulkItem_def bind_eq_Some_conv)
    have "processBulkItem r' t = item_done (advance r' (s + 2)) x" using True s'(1) tk len f(2,4) x(1) unfolding processBulkItem_def by simp
    then show ?thesis using item_done_extends[OF extends_advance[OF assms(1) s'(2)] x(2)] by simp
  next
    case False
    have c: "\<not> len + 2 > LLONG_MAX" "s + 2 + nat len + 2 \<le> length (unread_bytes r)"
        "\<not> (t = REDIS_REPLY_VERB \<and> (len < 4 \<or> unread_bytes r ! (s + 5) \<noteq> CHR '':''))"
      using assms(2) s len False by (auto simp: processBulkItem_def split: if_splits)
    then obtain x where x: "createStringReply (rstack r) (r_heap r) t (take (nat len) (drop (s + 2) (unread_bytes r))) = Some x"
        "item_done (advance r (s + 2 + nat len + 2)) x = Some (y, True)"
      using assms(2) s len False by (auto simp: processBulkItem_def bind_eq_Some_conv)
    have d: "take (nat len) (drop (s + 2) (unread_bytes r')) = take (nat len) (drop (s + 2) (unread_bytes r))" using c(2) f(5) by simp
    have v: "t = REDIS_REPLY_VERB \<Longrightarrow> \<not> len < 4 \<Longrightarrow> unread_bytes r' ! (s + 5) = unread_bytes r ! (s + 5)"
    proof -
      assume "\<not> len < 4"
      then have "s + 5 < length (unread_bytes r)" using c(2) by linarith
      then show ?thesis using f(5) by (simp add: nth_append)
    qed
    have l: "s + 2 + nat len + 2 \<le> length (unread_bytes r')" using c(2) f(5) by simp
    have "processBulkItem r' t = item_done (advance r' (s + 2 + nat len + 2)) x"
      using s'(1) tk len False c(1,3) l v x(1) d f(2,4) unfolding processBulkItem_def by auto
    then show ?thesis using item_done_extends[OF extends_advance[OF assms(1) c(2)] x(2)] by simp
  qed
qed

lemma bulk_again: "processBulkItem r t = Some (y, False) \<Longrightarrow> r_err y = None \<Longrightarrow> y = r"
  using item_done_True by (fastforce simp: processBulkItem_def redisReaderSetError_def split: if_splits option.splits Option.bind_splits)

lemma aggregate_extends:
  assumes "extends v r r'" "processAggregateItem env r t = Some (y, True)"
  shows "\<exists>y'. processAggregateItem env r' t = Some (y', True) \<and> extends v y y'"
proof -
  have n9: "length (rstack r) \<noteq> 9" using assms(2) by (auto simp: processAggregateItem_def)
  obtain r1 line where l: "readLine r = Some (r1, line)" using assms(2) n9 by (cases "readLine r") (auto simp: processAggregateItem_def)
  obtain r1' where l': "readLine r' = Some (r1', line)" "extends v r1 r1'" using readLine_extends[OF assms(1) l] by blast
  note f = extends_fields[OF l'(2)] and f0 = extends_fields(2)[OF assms(1)]
  obtain n where n: "reader_string2ll line = Some n" "\<not> n < -1"
    using assms(2) l n9 by (auto simp: processAggregateItem_def split: option.splits if_splits)
  show ?thesis
  proof (cases "n = -1")
    case True
    then obtain x where x: "createNilObject (rstack r1) (r_heap r1) = Some x" "item_done r1 x = Some (y, True)"
      using assms(2) l n n9 by (auto simp: processAggregateItem_def bind_eq_Some_conv)
    have "processAggregateItem env r' t = item_done r1' x" using True l'(1) n n9 f0 f(2,4) x(1) unfolding processAggregateItem_def by simp
    then show ?thesis using item_done_extends[OF l'(2) x(2)] by simp
  next
    case False
    define e where "e = (if t = REDIS_REPLY_MAP then n * 2 else n)"
    have c: "\<not> (t = REDIS_REPLY_MAP \<and> n * 2 > LLONG_MAX)" "can_alloc env (nat e)"
      using assms(2) l n n9 False by (auto simp: processAggregateItem_def e_def Let_def split: if_splits)
    then obtain h i where x: "createArrayObject (rstack r1) (r_heap r1) t (nat e) = Some (h, i)"
      using assms(2) l n n9 False by (auto simp: processAggregateItem_def e_def Let_def bind_eq_Some_conv split: if_splits)
    show ?thesis
    proof (cases "e > 0")
      case True
      then obtain cur stack where st: "rstack r1 = cur # stack"
        using assms(2) l n n9 False c x by (cases "rstack r1") (auto simp: processAggregateItem_def simp flip: e_def)
      let ?up = "\<lambda>r. r\<lparr>r_heap := h, r_reply := (if stack = [] then Some i else r_reply r1),
         rstack := \<lparr>t_type = None, t_elements = -1, t_idx = 0, t_obj = None\<rparr> # cur\<lparr>t_elements := to_int e, t_obj := Some i\<rparr> # stack\<rparr>"
      have y: "y = ?up r1" using assms(2) l n n9 False c x True st by (simp add: processAggregateItem_def flip: e_def)
      have "processAggregateItem env r' t = Some (?up r1', True)"
        using l'(1) n n9 f0 False c x True st f(2-4) by (simp add: processAggregateItem_def flip: e_def)
      moreover have "extends v (?up r1) (?up r1')"
        using l'(2) f by (intro extendsI) (simp_all add: extends_def bounded_def unread_bytes_def)
      ultimately show ?thesis using y by blast
    next
      case e0: False
      have "item_done r1 (h, i) = Some (y, True)" using assms(2) l n n9 False c x e0 by (simp add: processAggregateItem_def flip: e_def)
      moreover have "processAggregateItem env r' t = item_done r1' (h, i)"
        using l'(1) n n9 f0 False c x e0 f(2,4) by (auto simp: processAggregateItem_def simp flip: e_def)
      ultimately show ?thesis using item_done_extends[OF l'(2)] by simp
    qed
  qed
qed

lemma aggregate_again:
  assumes "processAggregateItem env r t = Some (y, False)" "r_err y = None"
  shows "y = r"
proof (cases "length (rstack r) = 9 \<or> readLine r = None")
  case True
  then show ?thesis using assms by (auto simp: processAggregateItem_def redisReaderSetError_def split: if_splits)
next
  case False
  then obtain r1 line where "readLine r = Some (r1, line)" by fastforce
  then show ?thesis using assms False item_done_True
    by (auto simp: processAggregateItem_def redisReaderSetError_def Let_def split: if_splits option.splits Option.bind_splits list.splits)
qed

lemma typed_extends:
  "extends v r r' \<Longrightarrow> process_typed env r t = Some (y, True) \<Longrightarrow> \<exists>y'. process_typed env r' t = Some (y', True) \<and> extends v y y'"
  unfolding process_typed_def using line_extends[of v r r'] bulk_extends[of v r r'] aggregate_extends[of v r r'] by metis

lemma typed_again: "process_typed env r t = Some (y, False) \<Longrightarrow> r_err y = None \<Longrightarrow> y = r"
  unfolding process_typed_def using line_again[of env r] bulk_again[of r] aggregate_again[of env r] by metis

text \<open>Conversely, an item that is read with the longer input is read with the shorter one, or waits for more.\<close>

definition item_or_wait :: "redisReader \<Rightarrow> (redisReader \<times> bool) option \<Rightarrow> bool" where
  "item_or_wait r x \<longleftrightarrow> x = Some (r, False) \<or> (\<exists>y. x = Some (y, True))"

lemma item_done_shrinks: "extends v r r' \<Longrightarrow> item_done r' x = Some (y, True) \<Longrightarrow> \<exists>y. item_done r x = Some (y, True)"
  using extends_fields(2)[of v r r'] by (auto simp: item_done_def bind_eq_Some_conv split: prod.splits)

lemma line_shrinks:
  assumes "extends v r r'" "processLineItem env r' t = Some (y, True)"
  shows "item_or_wait r (processLineItem env r t)"
proof (cases "readLine r")
  case None
  then show ?thesis by (simp add: item_or_wait_def processLineItem_def)
next
  case (Some p)
  obtain r1 line where l: "readLine r = Some (r1, line)" using Some by (cases p) simp
  obtain r1' where l': "readLine r' = Some (r1', line)" "extends v r1 r1'" using readLine_extends[OF assms(1) l] by blast
  show ?thesis using assms(2) l l'(1) extends_fields(2,4)[OF l'(2)] item_done_shrinks[OF l'(2)] unfolding processLineItem_def item_or_wait_def
    by (auto split: if_splits option.splits Option.bind_splits)
qed

lemma bulk_shrinks:
  assumes "extends v r r'" "processBulkItem r' t = Some (y, True)"
  shows "item_or_wait r (processBulkItem r t)"
proof (cases "seekNewline (unread_bytes r)")
  case None
  then show ?thesis by (simp add: item_or_wait_def processBulkItem_def)
next
  case s: (Some s)
  note f = extends_fields[OF assms(1)]
  have s': "seekNewline (unread_bytes r') = Some s" "s + 2 \<le> length (unread_bytes r)" using seek_append[OF s, of v] f(5) by simp_all
  have tk: "take s (unread_bytes r') = take s (unread_bytes r)" using s'(2) f(5) by simp
  obtain len where len: "reader_string2ll (take s (unread_bytes r)) = Some len" "\<not> len < -1"
    using assms(2)[unfolded processBulkItem_def s'(1) option.case tk] by (auto split: option.splits if_splits)
  note B = assms(2)[unfolded processBulkItem_def s'(1) option.case tk len(1)]
  consider "len = -1" | "len \<noteq> -1" "s + 2 + nat len + 2 \<le> length (unread_bytes r)" | "len \<noteq> -1" "\<not> s + 2 + nat len + 2 \<le> length (unread_bytes r)" by blast
  then show ?thesis
  proof cases
    case 1
    then obtain x where x: "createNilObject (rstack r) (r_heap r) = Some x" "item_done (advance r' (s + 2)) x = Some (y, True)"
      using B f(2,4) by (auto simp: bind_eq_Some_conv)
    show ?thesis using item_done_shrinks[OF extends_advance[OF assms(1) s'(2)] x(2)] x(1) 1 s len by (simp add: item_or_wait_def processBulkItem_def)
  next
    case 2
    have d: "take (nat len) (drop (s + 2) (unread_bytes r')) = take (nat len) (drop (s + 2) (unread_bytes r))" using 2(2) f(5) by simp
    have l: "s + 2 + nat len + 2 \<le> length (unread_bytes r')" using 2(2) f(5) by simp
    have v: "\<not> len < 4 \<Longrightarrow> unread_bytes r' ! (s + 5) = unread_bytes r ! (s + 5)"
    proof -
      assume "\<not> len < 4"
      then have "s + 5 < length (unread_bytes r)" using 2(2) by linarith
      then show ?thesis using f(5) by (simp add: nth_append)
    qed
    have c: "\<not> len + 2 > LLONG_MAX" "\<not> (t = REDIS_REPLY_VERB \<and> (len < 4 \<or> unread_bytes r ! (s + 5) \<noteq> CHR '':''))"
      using B 2(1) len(2) l v by (auto split: if_splits)
    then obtain x where x: "createStringReply (rstack r) (r_heap r) t (take (nat len) (drop (s + 2) (unread_bytes r))) = Some x"
        "item_done (advance r' (s + 2 + nat len + 2)) x = Some (y, True)"
      using B 2(1) len(2) l v d f(2,4) by (auto simp: bind_eq_Some_conv split: if_splits)
    show ?thesis using item_done_shrinks[OF extends_advance[OF assms(1) 2(2)] x(2)] x(1) 2 c s len by (auto simp: item_or_wait_def processBulkItem_def)
  next
    case 3
    then show ?thesis using s len B by (auto simp: item_or_wait_def processBulkItem_def split: if_splits)
  qed
qed

lemma aggregate_shrinks:
  assumes "extends v r r'" "processAggregateItem env r' t = Some (y, True)"
  shows "item_or_wait r (processAggregateItem env r t)"
proof (cases "readLine r")
  case None
  then show ?thesis using assms(2) extends_fields(2)[OF assms(1)] by (auto simp: item_or_wait_def processAggregateItem_def)
next
  case (Some p)
  obtain r1 line where l: "readLine r = Some (r1, line)" using Some by (cases p) simp
  obtain r1' where l': "readLine r' = Some (r1', line)" "extends v r1 r1'" using readLine_extends[OF assms(1) l] by blast
  note f = extends_fields(2-4)[OF l'(2)] and f0 = extends_fields(2)[OF assms(1)]
  have n9: "length (rstack r) \<noteq> 9" using assms(2) f0 by (auto simp: processAggregateItem_def)
  note A = assms(2)[unfolded processAggregateItem_def l'(1) f0 if_not_P[OF n9] option.case prod.case]
  obtain n where n: "reader_string2ll line = Some n" "\<not> n < -1" using A by (auto split: option.splits if_splits)
  define e where "e = (if t = REDIS_REPLY_MAP then n * 2 else n)"
  note A = A[unfolded n(1) option.case if_not_P[OF n(2)] e_def[symmetric] Let_def]
  note unf = processAggregateItem_def l if_not_P[OF n9] option.case prod.case n(1) if_not_P[OF n(2)] e_def[symmetric] Let_def
  show ?thesis
  proof (cases "n = -1 \<or> \<not> e > 0")
    case True
    then obtain x where x: "item_done r1' x = Some (y, True)" "processAggregateItem env r t = item_done r1 x"
      using A f unfolding unf by (auto simp: bind_eq_Some_conv split: if_splits)
    then show ?thesis using item_done_shrinks[OF l'(2)] by (simp add: item_or_wait_def)
  next
    case False
    then obtain cur stack where "rstack r1 = cur # stack" using A f by (cases "rstack r1") (auto simp: bind_eq_Some_conv split: if_splits)
    then show ?thesis using A f False unfolding unf item_or_wait_def by (auto simp: bind_eq_Some_conv split: if_splits)
  qed
qed

lemma typed_shrinks:
  assumes "extends v r r'" "process_typed env r' t = Some (y', True)"
  shows "process_typed env r t = Some (r, False) \<or> (\<exists>y. process_typed env r t = Some (y, True) \<and> extends v y y')"
proof -
  have "item_or_wait r (process_typed env r t)"
    using assms(2) line_shrinks[OF assms(1)] bulk_shrinks[OF assms(1)] aggregate_shrinks[OF assms(1)] unfolding process_typed_def by metis
  then show ?thesis using typed_extends[OF assms(1)] assms(2) by (fastforce simp: item_or_wait_def)
qed

lemma item_done_err: "item_done r x = Some (y, True) \<Longrightarrow> r_err y = r_err r"
  by (auto simp: item_done_def bind_eq_Some_conv split: prod.splits)

lemma typed_err:
  assumes "process_typed env r t = Some (y, True)"
  shows "r_err y = r_err r"
proof -
  have "processLineItem env r t = Some (y, True) \<Longrightarrow> r_err y = r_err r"
    using item_done_err[of "advance r _"]
    by (auto simp: processLineItem_def readLine_def split: option.splits Option.bind_splits if_splits)
  moreover have "processBulkItem r t = Some (y, True) \<Longrightarrow> r_err y = r_err r"
    using item_done_err[of "advance r _"]
    by (auto simp: processBulkItem_def split: option.splits Option.bind_splits if_splits)
  moreover have "processAggregateItem env r t = Some (y, True) \<Longrightarrow> r_err y = r_err r"
    using item_done_err[of "advance r _"]
    by (auto simp: processAggregateItem_def readLine_def Let_def split: option.splits Option.bind_splits if_splits list.splits)
  ultimately show ?thesis using assms unfolding process_typed_def by metis
qed

text \<open>An item begins with its type byte, unless this was read before.\<close>

definition at_type :: "redisReader \<Rightarrow> reply_type \<Rightarrow> redisReader \<Rightarrow> bool" where
  "at_type r t s \<longleftrightarrow> rstack r \<noteq> [] \<and>
     (t_type (hd (rstack r)) = Some t \<and> s = r \<or>
      t_type (hd (rstack r)) = None \<and> unread_bytes r \<noteq> [] \<and> type_of_byte (hd (unread_bytes r)) = Some t \<and> s = typed r t)"

lemma processItem_at: "at_type r t s \<Longrightarrow> processItem env r = process_typed env s t"
  by (cases "rstack r"; cases "unread_bytes r") (auto simp: at_type_def processItem_def typed_def readBytes_def)

lemma typed_simps [simp]: "r_err (typed r t) = r_err r" "rstack (typed r t) \<noteq> []" "t_type (hd (rstack (typed r t))) = Some t"
  by (simp_all add: typed_def advance_def)

lemma at_type_resumes: "at_type r t s \<Longrightarrow> at_type s t s"
  by (auto simp: at_type_def)

lemma at_type_err: "at_type r t s \<Longrightarrow> r_err s = r_err r"
  by (auto simp: at_type_def)

lemma processItem_splits:
  assumes "processItem env r = Some (y, ok)"
  shows "(\<exists>t s. at_type r t s) \<or> \<not> ok \<and> (r_err y \<noteq> None \<or> y = r \<and> t_type (hd (rstack r)) = None \<and> unread_bytes r = [])"
  using assms by (cases "unread_bytes r") (auto simp: processItem_def at_type_def readBytes_def redisReaderSetError_def split: list.splits option.splits)

lemma at_type_extends:
  assumes "extends v r r'" "at_type r t s"
  shows "\<exists>s'. at_type r' t s' \<and> extends v s s'"
proof (cases "t_type (hd (rstack r))")
  case None
  note f = extends_fields[OF assms(1)]
  have u: "unread_bytes r \<noteq> []" "type_of_byte (hd (unread_bytes r)) = Some t" "rstack r \<noteq> []" "s = typed r t" using None assms(2) by (auto simp: at_type_def)
  have "extends v (advance r 1) (advance r' 1)" using extends_advance[OF assms(1), of 1] u(1) by (simp add: Suc_le_eq)
  then have "extends v (typed r t) (typed r' t)"
    using extends_update[of v "advance r 1" "advance r' 1" "r_reply r" _ "r_heap r"] f extends_fields[of v "advance r 1" "advance r' 1"]
    unfolding typed_def extends_def by (auto simp: advance_def bounded_def unread_bytes_def)
  then show ?thesis using None u f by (auto simp: at_type_def)
qed (use assms extends_fields(2)[OF assms(1)] in \<open>auto simp: at_type_def\<close>)

lemma item_extends:
  assumes "extends v r r'" "processItem env r = Some (y, True)"
  shows "\<exists>y'. processItem env r' = Some (y', True) \<and> extends v y y'"
proof -
  obtain t s where s: "at_type r t s" using processItem_splits[OF assms(2)] by auto
  obtain s' where s': "at_type r' t s'" "extends v s s'" using at_type_extends[OF assms(1) s] by blast
  show ?thesis using typed_extends[OF s'(2)] assms(2) processItem_at[OF s] processItem_at[OF s'(1)] by simp
qed

lemma item_err: "processItem env r = Some (y, True) \<Longrightarrow> r_err y = r_err r"
  using processItem_splits[of env r y True] processItem_at typed_err at_type_err by metis

lemma items_extend:
  assumes "process_items env r = Some y" "r_err y = None" "rstack y = []" "extends v r r'"
  shows "\<exists>y'. process_items env r' = Some y' \<and> extends v y y'"
proof -
  have "r_err y = None \<longrightarrow> rstack y = [] \<longrightarrow> (\<forall>r'. extends v r r' \<longrightarrow> (\<exists>y'. process_items env r' = Some y' \<and> extends v y y'))"
    using assms(1)
  proof (induction rule: process_items.raw_induct[rotated, consumes 1, case_names step])
    case (step items env r y)
    show ?case
    proof (intro impI allI)
      fix r' assume y: "r_err y = None" "rstack y = []" and e: "extends v r r'"
      show "\<exists>y'. process_items env r' = Some y' \<and> extends v y y'"
      proof (cases "rstack r = []")
        case True
        then show ?thesis using step(2) e extends_fields(2)[OF e] by (auto simp: process_items.simps[of env r'])
      next
        case False
        then obtain r1 ok where i: "processItem env r = Some (r1, ok)" "(if ok then items env r1 else Some r1) = Some y"
          using step(2) by (auto simp: bind_eq_Some_conv)
        have ok
        proof (rule ccontr)
          assume "\<not> ok"
          then have "processItem env r = Some (y, False)" using i by simp
          then show False using processItem_splits[of env r y False] processItem_at typed_again y False by (fastforce simp: at_type_def)
        qed
        then obtain r1' where r1': "processItem env r' = Some (r1', True)" "extends v r1 r1'" using item_extends[OF e] i(1) by auto
        then show ?thesis using step(1)[of env r1 y] i(2) \<open>ok\<close> y False extends_fields(2)[OF e] process_items_step[of r' env r1'] by auto
      qed
    qed
  qed
  then show ?thesis using assms(2-4) by blast
qed

lemma item_shrinks:
  assumes "extends v r r'" "processItem env r' = Some (y', True)"
  shows "(\<exists>y. processItem env r = Some (y, True) \<and> extends v y y') \<or>
    (\<exists>y z. processItem env r = Some (y, False) \<and> r_err y = r_err r \<and> extends v y z \<and> process_items env z = process_items env r')"
proof (cases "\<exists>t s. at_type r t s")
  case True
  then obtain t s where s: "at_type r t s" by blast
  obtain s' where s': "at_type r' t s'" "extends v s s'" using at_type_extends[OF assms(1) s] by blast
  note p = processItem_at[OF s, of env] processItem_at[OF s'(1), of env] processItem_at[OF at_type_resumes[OF s'(1)], of env]
  have n: "rstack r' \<noteq> []" "rstack s' \<noteq> []" using s'(1) at_type_resumes[OF s'(1)] by (simp_all add: at_type_def)
  have eq: "process_items env s' = process_items env r'" using p n by (simp add: process_items.simps[of env s'] process_items.simps[of env r'])
  show ?thesis using typed_shrinks[OF s'(2)] assms(2) p eq s'(2) at_type_err[OF s] by fastforce
next
  case False
  obtain t s' where "at_type r' t s'" using processItem_splits[OF assms(2)] by auto
  then have "rstack r \<noteq> []" "t_type (hd (rstack r)) = None" "unread_bytes r = []"
    using False extends_fields[OF assms(1)] by (cases "unread_bytes r"; auto simp: at_type_def)+
  then have "processItem env r = Some (r, False)" by (auto simp: processItem_def readBytes_def split: list.splits)
  then show ?thesis using assms(1) by auto
qed

lemma items_shrink:
  assumes "process_items env r' = Some y'" "r_err y' = None" "rstack y' = []" "extends v r r'" "r_err r = None"
  shows "\<exists>y z. process_items env r = Some y \<and> r_err y = None \<and> extends v y z \<and> process_items env z = Some y'"
proof -
  have "r_err y' = None \<longrightarrow> rstack y' = [] \<longrightarrow> (\<forall>r. extends v r r' \<longrightarrow> r_err r = None \<longrightarrow>
      (\<exists>y z. process_items env r = Some y \<and> r_err y = None \<and> extends v y z \<and> process_items env z = Some y')) \<and> process_items env r' = Some y'"
    using assms(1)
  proof (induction rule: process_items.raw_induct[rotated, consumes 1, case_names step])
    case (step items env r' y')
    show ?case
    proof (intro impI)
      assume y: "r_err y' = None" "rstack y' = []"
      show "(\<forall>r. extends v r r' \<longrightarrow> r_err r = None \<longrightarrow>
        (\<exists>y z. process_items env r = Some y \<and> r_err y = None \<and> extends v y z \<and> process_items env z = Some y')) \<and> process_items env r' = Some y'"
      proof (cases "rstack r' = []")
        case True
        then have "y' = r'" using step(2) by simp
        moreover have "process_items env r' = Some r'" using True by (simp add: process_items.simps[of env r'])
        ultimately show ?thesis using y extends_fields(1,2) by (metis process_items.simps)
      next
        case False
        then obtain r1' ok where i: "processItem env r' = Some (r1', ok)" "(if ok then items env r1' else Some r1') = Some y'"
          using step(2) by (auto simp: bind_eq_Some_conv)
        have ok
        proof (rule ccontr)
          assume "\<not> ok"
          then have "processItem env r' = Some (y', False)" using i by simp
          then show False using processItem_splits[of env r' y' False] processItem_at typed_again y False by (fastforce simp: at_type_def)
        qed
        then have i': "processItem env r' = Some (r1', True)" "items env r1' = Some y'" using i by simp_all
        note IH = step(1)[OF i'(2), THEN mp, OF y(1), THEN mp, OF y(2)]
        have r': "process_items env r' = Some y'" using IH process_items_step[OF False i'(1)] by simp
        moreover have "\<exists>y z. process_items env r = Some y \<and> r_err y = None \<and> extends v y z \<and> process_items env z = Some y'"
          if e: "extends v r r'" and n: "r_err r = None" for r
        proof -
          have ne: "rstack r \<noteq> []" using False extends_fields(2)[OF e] by simp
          from item_shrinks[OF e i'(1)] show ?thesis
          proof (elim disjE exE conjE)
            fix y1 assume "processItem env r = Some (y1, True)" "extends v y1 r1'"
            then show ?thesis using IH item_err n process_items_step[OF ne] by metis
          next
            fix y z assume "processItem env r = Some (y, False)" "r_err y = r_err r" "extends v y z" "process_items env z = process_items env r'"
            then show ?thesis using n r' ne by (auto simp: process_items.simps[of env r])
          qed
        qed
        ultimately show ?thesis by blast
      qed
    qed
  qed
  then show ?thesis using assms(2-5) by blast
qed

section \<open>Objects handed out are not touched again\<close>

definition keeps_objects :: "redisReply list \<Rightarrow> redisReader \<Rightarrow> bool" where
  "keeps_objects h r \<longleftrightarrow> take (length h) (r_heap r) = h \<and> (\<forall>k\<in>set (rstack r). \<forall>p. t_obj k = Some p \<longrightarrow> length h \<le> p)"

lemma keeps_length: "keeps_objects h r \<Longrightarrow> length h \<le> length (r_heap r)"
  by (metis keeps_objects_def length_take min.cobounded1 min.commute)

lemma keeps_advance [simp]: "keeps_objects h (advance r n) \<longleftrightarrow> keeps_objects h r"
  by (simp add: keeps_objects_def)

lemma link_keeps:
  assumes "keeps_objects h r" "link_object (rstack r) (r_heap r) obj = Some (h', i)"
  shows "take (length h) h' = h" "length h \<le> i"
proof -
  show "take (length h) h' = h" using assms keeps_length[OF assms(1)]
    by (auto simp: link_object_def keeps_objects_def bind_eq_Some_conv split: list.splits if_splits)
  show "length h \<le> i" using assms(2) keeps_length[OF assms(1)] by (auto simp: link_object_def bind_eq_Some_conv split: list.splits if_splits)
qed

lemma move_objs: "moveToNextTask s = Some s' \<Longrightarrow> k \<in> set s' \<Longrightarrow> \<exists>k'\<in>set s. t_obj k = t_obj k'"
  by (induction s rule: moveToNextTask.induct) (force split: option.splits if_splits)+

lemma item_done_keeps:
  assumes "keeps_objects h r" "link_object (rstack r) (r_heap r) obj = Some x" "item_done r x = Some (y, ok)"
  shows "keeps_objects h y"
proof -
  obtain h' i s where x: "x = (h', i)" "moveToNextTask (rstack r) = Some s" "rstack y = s" "r_heap y = h'"
    using assms(3) by (cases x) (auto simp: item_done_def bind_eq_Some_conv)
  show ?thesis using link_keeps[of h r obj h' i] assms(1,2) x move_objs[OF x(2)] unfolding keeps_objects_def by metis
qed

lemmas creates = createStringReply_def createArrayObject_def createIntegerObject_def createDoubleObject_def createNilObject_def createBoolObject_def

lemma error_keeps [simp]: "keeps_objects h r \<Longrightarrow> keeps_objects h (redisReaderSetError r e)"
  by (simp add: keeps_objects_def redisReaderSetError_def)

lemma line_keeps:
  assumes "keeps_objects h r" "processLineItem env r t = Some (y, ok)"
  shows "keeps_objects h y"
proof (cases "readLine r")
  case (Some p)
  then obtain n where p: "p = (advance r (n + 2), take n (unread_bytes r))" by (auto simp: readLine_def)
  have k: "keeps_objects h (advance r (n + 2))" using assms(1) by simp
  show ?thesis using assms Some p item_done_keeps[OF k] 
    by (auto simp: processLineItem_def creates bind_eq_Some_conv split: option.splits if_splits)
qed (use assms in \<open>simp add: processLineItem_def\<close>)

lemma bulk_keeps:
  assumes "keeps_objects h r" "processBulkItem r t = Some (y, ok)"
  shows "keeps_objects h y"
proof -
  have k: "keeps_objects h (advance r n)" for n using assms(1) by simp
  show ?thesis using assms item_done_keeps[OF k] 
    by (auto simp: processBulkItem_def creates bind_eq_Some_conv split: option.splits if_splits)
qed

lemma aggregate_keeps:
  assumes "keeps_objects h r" "processAggregateItem env r t = Some (y, ok)"
  shows "keeps_objects h y"
proof (cases "readLine r")
  case (Some p)
  then obtain n where p: "p = (advance r (n + 2), take n (unread_bytes r))" by (auto simp: readLine_def)
  have k: "keeps_objects h (advance r (n + 2))" using assms(1) by simp
  let ?r = "advance r (n + 2)"
  show ?thesis
  proof (cases "length (rstack r) = 9 \<or> reader_string2ll (snd p) = None")
    case True
    then show ?thesis using assms Some p by (auto simp: processAggregateItem_def split: if_splits)
  next
    case False
    then obtain v where v: "reader_string2ll (take n (unread_bytes r)) = Some v" and n9: "length (rstack r) \<noteq> 9" using p by auto
    define e where "e = (if t = REDIS_REPLY_MAP then v * 2 else v)"
    note A = assms(2)[unfolded processAggregateItem_def if_not_P[OF n9] Some p option.case prod.case v e_def[symmetric] Let_def]
    show ?thesis
    proof (cases "e > 0 \<and> v > 0")
      case True
      show ?thesis
      proof (cases "can_alloc env (nat e)")
        case c: True
        obtain cur stack where st: "rstack r = cur # stack" using A True c by (cases "rstack r") (auto simp: bind_eq_Some_conv split: if_splits)
        obtain h' i where h: "createArrayObject (rstack r) (r_heap r) t (nat e) = Some (h', i)" using A True c by (auto simp: bind_eq_Some_conv split: if_splits)
        have "r_heap y = h' \<and> rstack y = \<lparr>t_type = None, t_elements = -1, t_idx = 0, t_obj = None\<rparr> # cur\<lparr>t_elements := to_int e, t_obj := Some i\<rparr> # stack"
          using A True c st h by (auto split: if_splits)
        then show ?thesis using assms(1) link_keeps[OF assms(1)] h st by (auto simp: creates keeps_objects_def)
      qed (use A True k in \<open>auto split: if_splits\<close>)
    next
      case False
      then show ?thesis using A k item_done_keeps[OF k] by (auto simp: creates bind_eq_Some_conv e_def split: if_splits)
    qed
  qed
qed (use assms in \<open>auto simp: processAggregateItem_def split: if_splits\<close>)

lemma item_keeps:
  assumes "keeps_objects h r" "processItem env r = Some (y, ok)"
  shows "keeps_objects h y"
proof -
  have k: "keeps_objects h r' \<Longrightarrow> process_typed env r' t = Some (y, ok) \<Longrightarrow> keeps_objects h y" for r' t
    unfolding process_typed_def using line_keeps bulk_keeps aggregate_keeps by metis
  have "keeps_objects h (typed r t)" if "rstack r \<noteq> []" for t using assms(1) that by (cases "rstack r") (auto simp: typed_def keeps_objects_def)
  then have "keeps_objects h y" if "at_type r t s" for t s
    using that assms processItem_at[OF that, of env] k[of s t] by (auto simp: at_type_def)
  moreover have "keeps_objects h y" if "\<nexists>t s. at_type r t s"
    using that assms by (cases "unread_bytes r") (auto simp: at_type_def processItem_def readBytes_def split: list.splits option.splits)
  ultimately show ?thesis by blast
qed

lemma items_keep:
  assumes "process_items env r = Some y"
  shows "keeps_objects h r \<Longrightarrow> keeps_objects h y"
  using assms
proof (induction rule: process_items.raw_induct[rotated, consumes 1, case_names step])
  case (step items env r y)
  then show ?case using item_keeps[OF step(3)] by (auto simp: bind_eq_Some_conv split: if_splits)
qed

section \<open>A stream of replies\<close>

text \<open>A client takes replies until there is none, each time it was given a piece of the input.\<close>

partial_function (option) get_replies :: "reader_env \<Rightarrow> redisReader \<Rightarrow> (redisReader \<times> bool \<times> nat list) option" where
  "get_replies env r = do {
     (r, ok, reply) \<leftarrow> redisReaderGetReply env r;
     case reply of
       None \<Rightarrow> Some (r, ok, [])
     | Some i \<Rightarrow> do { (r, ok, is) \<leftarrow> get_replies env r; Some (r, ok, i # is) }
   }"

primrec read_pieces :: "reader_env \<Rightarrow> redisReader \<Rightarrow> char list list \<Rightarrow> (redisReader \<times> bool \<times> nat list) option" where
  "read_pieces env r [] = Some (r, True, [])"
| "read_pieces env r (p # ps) = do {
     let (r, fed) = redisReaderFeed r p;
     (r, ok, is) \<leftarrow> get_replies env r;
     (r, ok', js) \<leftarrow> read_pieces env r ps;
     Some (r, fed \<and> ok \<and> ok', is @ js)
   }"

abbreviation root_task :: redisReadTask where
  "root_task \<equiv> \<lparr>t_type = None, t_elements = -1, t_idx = -1, t_obj = None\<rparr>"

definition reader_idle :: "redisReader \<Rightarrow> bool" where
  "reader_idle r \<longleftrightarrow> r_err r = None \<and> bounded r \<and> (rstack r = [] \<or> rstack r = [root_task])"

definition rooted :: "redisReader \<Rightarrow> redisReader" where
  "rooted r = (if rstack r = [] then r\<lparr>rstack := [root_task]\<rparr> else r)"

definition finished :: "redisReply list \<Rightarrow> redisReader \<Rightarrow> char list \<Rightarrow> hreply \<Rightarrow> bool" where
  "finished h r rest t \<longleftrightarrow> rstack r = [] \<and> r_err r = None \<and> bounded r \<and> unread_bytes r = rest \<and> r_reply r = Some (length h) \<and>
     take (length h) (r_heap r) = h \<and> represents (r_heap r) (length h) t"

text \<open>The bytes \<open>f\<close> are missing for the reply \<open>t\<close>.\<close>

definition reading :: "reader_env \<Rightarrow> redisReader \<Rightarrow> char list \<Rightarrow> redisReply list \<Rightarrow> hreply \<Rightarrow> bool" where
  "reading env r f h t \<longleftrightarrow> r_err r = None \<and> rstack r \<noteq> [] \<and> f \<noteq> [] \<and> keeps_objects h r \<and>
     (\<exists>z y. extends f r z \<and> process_items env z = Some y \<and> finished h y [] t)"

lemma idle_rooted: "reader_idle r \<Longrightarrow> ready (rooted r) root_task []" "reader_idle r \<Longrightarrow> keeps_objects (r_heap r) (rooted r)"
  by (auto simp: reader_idle_def ready_def rooted_def bounded_def keeps_objects_def)

lemma rooted_simps [simp]: "unread_bytes (rooted r) = unread_bytes r" "r_heap (rooted r) = r_heap r" "r_err (rooted r) = r_err r" "rstack (rooted r) \<noteq> []"
    "bounded (rooted r) = bounded r" "r_buf (rooted r) = r_buf r" "r_pos (rooted r) = r_pos r"
  by (simp_all add: rooted_def unread_bytes_def bounded_def)

lemma root_reads:
  assumes "ready r root_task []" "unread_bytes r = b @ rest" "encodes env b t" "hdepth t \<le> 7"
  shows "\<exists>y. process_items env r = Some y \<and> finished (r_heap r) y rest t"
proof -
  obtain y where y: "reads env r root_task [] t rest y" using encoded_reads[OF assms(3)] assms(1,2,4) unfolding reads_text_def by fastforce
  have "rstack y = []" "process_items env r = process_items env y" using y by (auto simp: reads_def)
  then have "process_items env r = Some y" by (simp add: process_items.simps[of env y])
  moreover have "take (length (r_heap r)) (r_heap y) = r_heap r" using y by (intro nth_equalityI) (auto simp: reads_def)
  ultimately show ?thesis using y \<open>rstack y = []\<close> by (intro exI[of _ y]) (simp add: finished_def reads_def)
qed

lemma partly_read:
  assumes "extends f r z" "process_items env z = Some x" "finished h x [] t" "f \<noteq> []" "r_err r = None" "keeps_objects h r"
  shows "\<exists>y. process_items env r = Some y \<and> reading env y f h t"
proof -
  obtain y z' where y: "process_items env r = Some y" "r_err y = None" "extends f y z'" "process_items env z' = Some x"
    using items_shrink[OF assms(2) _ _ assms(1,5)] assms(3) by (auto simp: finished_def)
  have "rstack y \<noteq> []"
  proof
    assume "rstack y = []"
    then have "x = z'" using y(4) extends_fields(2)[OF y(3)] by (simp add: process_items.simps[of env z'])
    then show False using assms(3,4) extends_fields(5)[OF y(3)] by (simp add: finished_def)
  qed
  then show ?thesis using y assms(3,4) items_keep[OF y(1) assms(6)] unfolding reading_def by blast
qed

lemma begins_reading:
  assumes "reader_idle r" "unread_bytes r @ f = b" "f \<noteq> []" "encodes env b t" "hdepth t \<le> 7"
  shows "\<exists>y. process_items env (rooted r) = Some y \<and> reading env y f (r_heap r) t"
proof -
  let ?z = "(rooted r)\<lparr>r_buf := r_buf r @ f\<rparr>"
  have b: "bounded r" using assms(1) by (simp add: reader_idle_def)
  have e: "extends f (rooted r) ?z" using b by (intro extendsI) (simp_all add: bounded_def unread_bytes_def)
  have "ready ?z root_task []" using idle_rooted[OF assms(1)] b by (simp add: ready_def bounded_def)
  moreover have "unread_bytes ?z = b @ []" using extends_fields(5)[OF e] assms(2) by simp
  ultimately obtain x where "process_items env ?z = Some x" "finished (r_heap r) x [] t" using root_reads[of ?z b "[]" env t] assms(4,5) by auto
  then show ?thesis using partly_read[OF e] assms(1,3) idle_rooted(2)[OF assms(1)] by (auto simp: reader_idle_def)
qed

lemma ends_reading:
  assumes "reading env r f h t" "extends (f @ g) r r'"
  shows "\<exists>y. process_items env r' = Some y \<and> finished h y g t"
proof -
  obtain z x where z: "extends f r z" "process_items env z = Some x" "finished h x [] t" using assms(1) by (auto simp: reading_def)
  have "extends g z r'" using extends_fields[OF z(1)] extends_fields[OF assms(2)] z(1) assms(2) by (intro extendsI) (simp_all add: extends_def)
  then obtain y where y: "process_items env r' = Some y" "extends g x y" using items_extend[OF z(2)] z(3) by (auto simp: finished_def)
  then show ?thesis using extends_fields[OF y(2)] z(3) y(2) by (auto simp: finished_def extends_def)
qed

lemma goes_on_reading:
  assumes "reading env r (v @ f) h t" "extends v r r'" "f \<noteq> []"
  shows "\<exists>y. process_items env r' = Some y \<and> reading env y f h t"
proof -
  obtain z x where z: "extends (v @ f) r z" "process_items env z = Some x" "finished h x [] t" using assms(1) by (auto simp: reading_def)
  note F = extends_fields[OF z(1)] extends_fields[OF assms(2)]
  have "extends f r' z" using F z(1) assms(2) by (intro extendsI) (simp_all add: extends_def)
  moreover have "r_err r' = None" "keeps_objects h r'" using assms(1) F by (simp_all add: reading_def keeps_objects_def)
  ultimately show ?thesis using partly_read z(2,3) assms(3) by blast
qed

text \<open>The buffer is cut now and then.\<close>

definition settled :: "redisReader \<Rightarrow> redisReader" where
  "settled r = (if r_pos r \<ge> 1024 then r\<lparr>r_buf := unread_bytes r, r_pos := 0\<rparr> else r)"

lemma settled_simps [simp]: "rstack (settled r) = rstack r" "r_reply (settled r) = r_reply r" "r_heap (settled r) = r_heap r" "r_err (settled r) = r_err r"
    "unread_bytes (settled r) = unread_bytes r" "bounded r \<Longrightarrow> bounded (settled r)"
  by (simp_all add: settled_def unread_bytes_def bounded_def)

lemma reply_taken [simp]: "unread_bytes (r\<lparr>r_reply := x\<rparr>) = unread_bytes r" "bounded (r\<lparr>r_reply := x\<rparr>) = bounded r"
  by (simp_all add: unread_bytes_def bounded_def)

lemma getReply_items:
  assumes "r_err r = None" "r_buf r \<noteq> []" "process_items env (rooted r) = Some y" "r_err y = None"
  shows "redisReaderGetReply env r =
    (if rstack y = [] then Some ((settled y)\<lparr>r_reply := None\<rparr>, True, r_reply y) else Some (settled y, True, None))"
  using assms by (simp add: redisReaderGetReply_def rooted_def settled_def Let_def)

lemma settled_reading: "reading env r f h t \<Longrightarrow> reading env (settled r) f h t"
proof -
  assume a: "reading env r f h t"
  have "extends f (settled r) z" if e: "extends f r z" for z
    using extends_fields[OF e] e by (intro extendsI) (simp_all add: extends_def)
  then show ?thesis using a unfolding reading_def keeps_objects_def by auto
qed

lemma get_replies_stop: "redisReaderGetReply env r = Some (r', ok, None) \<Longrightarrow> get_replies env r = Some (r', ok, [])"
  by (subst get_replies.simps) simp

lemma get_replies_wait:
  assumes "r_err r = None" "r_buf r \<noteq> []" "process_items env (rooted r) = Some y" "reading env y f h t"
  shows "get_replies env r = Some (settled y, True, []) \<and> reading env (settled y) f h t"
  using getReply_items[OF assms(1-3)] assms(4) settled_reading[OF assms(4)] get_replies_stop by (simp add: reading_def)

lemma get_replies_one:
  assumes "r_err r = None" "r_buf r \<noteq> []" "process_items env (rooted r) = Some y" "finished h y rest t"
  shows "\<exists>r'. reader_idle r' \<and> unread_bytes r' = rest \<and> take (length h) (r_heap r') = h \<and> represents (r_heap r') (length h) t \<and>
    get_replies env r = do { (r, ok, is) \<leftarrow> get_replies env r'; Some (r, ok, length h # is) }"
  using getReply_items[OF assms(1-3)] assms(4)
  by (intro exI[of _ "(settled y)\<lparr>r_reply := None\<rparr>"])
     (simp add: finished_def reader_idle_def get_replies.simps[of env r])

lemma get_replies_none:
  assumes "reader_idle r" "unread_bytes r = []"
  shows "\<exists>r'. get_replies env r = Some (r', True, []) \<and> reader_idle r' \<and> unread_bytes r' = [] \<and> r_heap r' = r_heap r"
proof (cases "r_buf r = []")
  case True
  then show ?thesis using assms by (intro exI[of _ r]) (simp add: get_replies_stop redisReaderGetReply_def reader_idle_def)
next
  case False
  have "rstack (rooted r) = [root_task]" using assms(1) by (auto simp: reader_idle_def rooted_def)
  then have "process_items env (rooted r) = Some (rooted r)" using assms(2)
    by (simp add: process_items.simps[of env "rooted r"] processItem_def readBytes_def)
  then have "redisReaderGetReply env r = Some (settled (rooted r), True, None)" using getReply_items[of r env "rooted r"] False assms(1) by (simp add: reader_idle_def)
  moreover have "reader_idle (settled (rooted r))" using assms(1) by (auto simp: reader_idle_def rooted_def bounded_def settled_def)
  ultimately show ?thesis using assms(2) by (intro exI[of _ "settled (rooted r)"]) (simp add: get_replies_stop)
qed

text \<open>Between two pieces, the replies to come are \<open>ts\<close> and the bytes to come are \<open>f\<close>.\<close>

definition awaiting :: "reader_env \<Rightarrow> redisReader \<Rightarrow> nat list \<Rightarrow> hreply list \<Rightarrow> char list list \<Rightarrow> hreply list \<Rightarrow> char list \<Rightarrow> bool" where
  "awaiting env r is dn bs ts f \<longleftrightarrow> list_all2 (encodes env) bs ts \<and> (\<forall>t\<in>set ts. hdepth t \<le> 7) \<and>
     (reader_idle r \<and> unread_bytes r = [] \<and> f = concat bs \<and> list_all2 (represents (r_heap r)) is dn \<or>
      (\<exists>h f1. bs \<noteq> [] \<and> f = f1 @ concat (tl bs) \<and> reading env r f1 h (hd ts) \<and> list_all2 (represents h) is dn))"

lemma represents_prefix: "represents h i t \<Longrightarrow> take (length h) h' = h \<Longrightarrow> represents h' i t"
  by (rule represents_stable) (auto, (metis length_take min_less_iff_conj nth_take)+)

lemma represented_prefix: "list_all2 (represents h) is ts \<Longrightarrow> take (length h) h' = h \<Longrightarrow> list_all2 (represents h') is ts"
  by (auto elim: list.rel_mono_strong intro: represents_prefix)

lemma get_replies_awaiting:
  assumes "reader_idle r" "unread_bytes r @ f = concat bs" "list_all2 (encodes env) bs ts" "\<forall>t\<in>set ts. hdepth t \<le> 7" "list_all2 (represents (r_heap r)) is dn"
  shows "\<exists>r' js. get_replies env r = Some (r', True, js) \<and>
    awaiting env r' (is @ js) (dn @ take (length js) ts) (drop (length js) bs) (drop (length js) ts) f"
  using assms
proof (induction ts arbitrary: r bs "is" dn)
  case Nil
  then show ?case using get_replies_none[of r env] by (fastforce simp: awaiting_def)
next
  case (Cons t ts)
  then obtain b bs' where b: "bs = b # bs'" "encodes env b t" "list_all2 (encodes env) bs' ts" by (auto simp: list_all2_Cons2)
  have i: "r_err r = None" using Cons.prems(1) by (simp add: reader_idle_def)
  consider "unread_bytes r = []" | g where "unread_bytes r = b @ g" "r_buf r \<noteq> []" "g @ f = concat bs'"
    | f1 where "f1 \<noteq> []" "r_buf r \<noteq> []" "unread_bytes r @ f1 = b" "f = f1 @ concat bs'"
  proof (cases "unread_bytes r = []")
    case False
    then have n: "r_buf r \<noteq> []" by (auto simp: unread_bytes_def)
    have "unread_bytes r @ f = b @ concat bs'" using Cons.prems(2) b(1) by simp
    then consider us where "unread_bytes r = b @ us" "us @ f = concat bs'" | us where "unread_bytes r @ us = b" "f = us @ concat bs'"
      by (auto simp: append_eq_append_conv2)
    then show thesis
    proof cases
      case 2
      then show thesis using that n by (cases "us = []") auto
    qed (use that n in blast)
  qed (use that in blast)
  then show ?case
  proof cases
    case 1
    then show ?thesis using get_replies_none[OF Cons.prems(1), of env] Cons.prems by (fastforce simp: awaiting_def)
  next
    case (2 g)
    have "unread_bytes (rooted r) = b @ g" using 2(1) by simp
    then obtain y where y: "process_items env (rooted r) = Some y" "finished (r_heap r) y g t"
      using root_reads[OF idle_rooted(1)[OF Cons.prems(1)] _ b(2), of g] Cons.prems(4) by auto
    obtain r' where r': "reader_idle r'" "unread_bytes r' = g" "take (length (r_heap r)) (r_heap r') = r_heap r" "represents (r_heap r') (length (r_heap r)) t"
        "get_replies env r = do { (x, ok, js) \<leftarrow> get_replies env r'; Some (x, ok, length (r_heap r) # js) }"
      using get_replies_one[OF i 2(2) y] by (elim exE conjE) (rule that)
    have "list_all2 (represents (r_heap r')) (is @ [length (r_heap r)]) (dn @ [t])"
      using represented_prefix[OF Cons.prems(5) r'(3)] r'(4) by (auto intro: list_all2_appendI)
    then obtain r2 js where "get_replies env r' = Some (r2, True, js)"
        "awaiting env r2 ((is @ [length (r_heap r)]) @ js) ((dn @ [t]) @ take (length js) ts) (drop (length js) bs') (drop (length js) ts) f"
      using Cons.IH[of r' bs' "is @ [length (r_heap r)]" "dn @ [t]"] r'(1,2) 2(3) b(3) Cons.prems(4) by auto
    then show ?thesis using r'(5) b(1) by (intro exI[of _ r2] exI[of _ "length (r_heap r) # js"]) simp
  next
    case (3 f1)
    obtain y where y: "process_items env (rooted r) = Some y" "reading env y f1 (r_heap r) t"
      using begins_reading[OF Cons.prems(1) 3(3,1) b(2)] Cons.prems(4) by auto
    show ?thesis using get_replies_wait[OF i 3(2) y] b 3(4) Cons.prems(3-5)
      by (intro exI[of _ "settled y"] exI[of _ "[]"]) (auto simp: awaiting_def)
  qed
qed

lemma awaiting_piece:
  assumes "awaiting env r is dn bs ts (p @ f)"
  shows "\<exists>r' js. get_replies env (fst (redisReaderFeed r p)) = Some (r', True, js) \<and> snd (redisReaderFeed r p) \<and>
    awaiting env r' (is @ js) (dn @ take (length js) ts) (drop (length js) bs) (drop (length js) ts) f"
proof -
  let ?a = "r\<lparr>r_buf := r_buf r @ p\<rparr>"
  note A = assms[unfolded awaiting_def]
  have n: "r_err r = None" "bounded r" using A by (auto simp: reader_idle_def reading_def extends_def)
  have F: "redisReaderFeed r p = (?a, True)" using n by (simp add: redisReaderFeed_def)
  have e: "extends p r ?a" using n by (intro extendsI) (simp_all add: bounded_def unread_bytes_def)
  show ?thesis
  proof (cases "reader_idle r \<and> unread_bytes r = [] \<and> p @ f = concat bs \<and> list_all2 (represents (r_heap r)) is dn")
    case True
    then have "reader_idle ?a" "unread_bytes ?a @ f = concat bs" "r_heap ?a = r_heap r" using extends_fields[OF e] by (auto simp: reader_idle_def bounded_def)
    then show ?thesis using get_replies_awaiting[of ?a f bs env ts "is" dn] A True F by simp
  next
    case False
    then obtain h f1 where h: "bs \<noteq> []" "p @ f = f1 @ concat (tl bs)" "reading env r f1 h (hd ts)" "list_all2 (represents h) is dn" using A by auto
    obtain b bs' t ts' where b: "bs = b # bs'" "ts = t # ts'" "list_all2 (encodes env) bs' ts'" using A h(1) by (cases bs; cases ts) auto
    have r: "rooted ?a = ?a" "r_err ?a = None" using h(3) by (simp_all add: rooted_def reading_def)
    consider "r_buf ?a = []" | f2 where "r_buf ?a \<noteq> []" "f2 \<noteq> []" "f1 = p @ f2" "f = f2 @ concat bs'" | g where "r_buf ?a \<noteq> []" "p = f1 @ g" "g @ f = concat bs'"
      using h(2) b(1) by (auto simp: append_eq_append_conv2) (metis append_Nil2)+
    then show ?thesis
    proof cases
      case 1
      then have "get_replies env ?a = Some (?a, True, [])" using r(2) by (intro get_replies_stop) (simp add: redisReaderGetReply_def)
      moreover have "?a = r" "p = []" using 1 by simp_all
      ultimately show ?thesis using assms F by simp
    next
      case (2 f2)
      obtain y where y: "process_items env (rooted ?a) = Some y" "reading env y f2 h t"
        using goes_on_reading[of env r p f2 h t ?a] h(3) e 2(2,3) b(2) r(1) by auto
      show ?thesis using get_replies_wait[OF r(2) 2(1) y] F A b(1,2) h(4) 2(4)
        by (intro exI[of _ "settled y"] exI[of _ "[]"]) (auto simp: awaiting_def)
    next
      case (3 g)
      obtain y where y: "process_items env (rooted ?a) = Some y" "finished h y g t"
        using ends_reading[of env r f1 h t g ?a] h(3) e 3(2) b(2) r(1) by auto
      obtain r' where r': "reader_idle r'" "unread_bytes r' = g" "take (length h) (r_heap r') = h" "represents (r_heap r') (length h) t"
          "get_replies env ?a = do { (r, ok, is) \<leftarrow> get_replies env r'; Some (r, ok, length h # is) }"
        using get_replies_one[OF r(2) 3(1) y] by (elim exE conjE) (rule that)
      have "list_all2 (represents (r_heap r')) (is @ [length h]) (dn @ [t])"
        using represented_prefix[OF h(4) r'(3)] r'(4) by (auto intro: list_all2_appendI)
      then obtain r2 js where "get_replies env r' = Some (r2, True, js)"
          "awaiting env r2 ((is @ [length h]) @ js) ((dn @ [t]) @ take (length js) ts') (drop (length js) bs') (drop (length js) ts') f"
        using get_replies_awaiting[of r' f bs' env ts' "is @ [length h]" "dn @ [t]"] r'(1,2) 3(3) b A by auto
      then show ?thesis using r'(5) b F by (intro exI[of _ r2] exI[of _ "length h # js"]) simp
    qed
  qed
qed

lemma pieces_awaiting:
  assumes "awaiting env r is dn bs ts (concat ps @ f)"
  shows "\<exists>r' js. read_pieces env r ps = Some (r', True, js) \<and>
    awaiting env r' (is @ js) (dn @ take (length js) ts) (drop (length js) bs) (drop (length js) ts) f"
  using assms
proof (induction ps arbitrary: r "is" dn bs ts)
  case Nil
  then show ?case by simp
next
  case (Cons p ps)
  then have "awaiting env r is dn bs ts (p @ (concat ps @ f))" by simp
  from awaiting_piece[OF this] obtain r1 js where 1: "get_replies env (fst (redisReaderFeed r p)) = Some (r1, True, js)" "snd (redisReaderFeed r p)"
      "awaiting env r1 (is @ js) (dn @ take (length js) ts) (drop (length js) bs) (drop (length js) ts) (concat ps @ f)" by blast
  from Cons.IH[OF 1(3)] obtain r2 ks where 2: "read_pieces env r1 ps = Some (r2, True, ks)"
      "awaiting env r2 ((is @ js) @ ks) ((dn @ take (length js) ts) @ take (length ks) (drop (length js) ts))
         (drop (length ks) (drop (length js) bs)) (drop (length ks) (drop (length js) ts)) f" by blast
  have "read_pieces env r (p # ps) = Some (r2, True, js @ ks)" using 1(1,2) 2(1) by (simp add: Let_def split_beta)
  then show ?case using 2(2) by (intro exI[of _ r2] exI[of _ "js @ ks"]) (simp add: take_add add.commute)
qed

lemma encodes_nonempty: "encodes env b t \<Longrightarrow> b \<noteq> []"
  by (auto elim: encodes.cases)

text \<open>
  What the reader hands out: the replies so far in their order, and it has all those of which the last byte has
  arrived.
\<close>

lemma pieces_spec:
  assumes "concat ps @ f = concat bs" "list_all2 (encodes env) bs ts" "\<forall>t\<in>set ts. hdepth t \<le> 7"
  shows "\<exists>r is. read_pieces env redisReaderCreate ps = Some (r, True, is) \<and> length is \<le> length ts \<and>
    list_all2 (represents (r_heap r)) is (take (length is) ts) \<and>
    (length is < length ts \<longrightarrow> length (concat (drop (Suc (length is)) bs)) < length f)"
proof -
  have "awaiting env redisReaderCreate [] [] bs ts (concat ps @ f)"
    using assms by (simp add: awaiting_def reader_idle_def redisReaderCreate_def bounded_def unread_bytes_def)
  from pieces_awaiting[OF this] obtain r "is" where r: "read_pieces env redisReaderCreate ps = Some (r, True, is)"
      "awaiting env r is (take (length is) ts) (drop (length is) bs) (drop (length is) ts) f" by auto
  note A = r(2)[unfolded awaiting_def]
  have n: "length is < length ts \<longrightarrow> length (concat (drop (Suc (length is)) bs)) < length f"
  proof
    assume l: "length is < length ts"
    then have "length is < length bs" using list_all2_lengthD[OF assms(2)] by simp
    then have d: "drop (length is) bs = bs ! length is # drop (Suc (length is)) bs" by (rule Cons_nth_drop_Suc[symmetric])
    have "bs ! length is \<noteq> []" using encodes_nonempty list_all2_nthD2[OF assms(2) l] by blast
    then show "length (concat (drop (Suc (length is)) bs)) < length f" using A unfolding d by (auto simp: reading_def)
  qed
  have p: "list_all2 (represents (r_heap r)) is (take (length is) ts)"
    using A represented_prefix by (auto simp: reading_def keeps_objects_def)
  have "length is \<le> length ts" using list_all2_lengthD[OF p] by simp
  then show ?thesis using r(1) p n by blast
qed


definition demo_env :: reader_env where
  "demo_env = \<lparr>can_alloc = (\<lambda>_. True), is_double = (\<lambda>_. False)\<rparr>"

lemma demo_texts:
  "encodes demo_env (''*2'' @ BREAK @ ''$3'' @ BREAK @ ''foo'' @ BREAK @ '':-7'' @ BREAK) (HArray [HString REDIS_REPLY_STRING ''foo'', HInteger (-7)])"
  "encodes demo_env (''+OK'' @ BREAK) (HString REDIS_REPLY_STATUS ''OK'')"
proof -
  have "encodes demo_env (CHR ''$'' # show_nat (length ''foo'') @ BREAK @ ''foo'' @ BREAK) (HString REDIS_REPLY_STRING ''foo'')"
    by (rule encodes.bulk) (simp add: LLONG_MAX_def)
  moreover have "encodes demo_env (CHR '':'' # show_int (-7) @ BREAK) (HInteger (-7))" by (rule encodes.integer) (simp_all add: LLONG_MAX_def LLONG_MIN_def)
  ultimately have "encodes demo_env (CHR ''*'' # show_nat (length [HString REDIS_REPLY_STRING ''foo'', HInteger (-7)]) @ BREAK @
      concat [CHR ''$'' # show_nat (length ''foo'') @ BREAK @ ''foo'' @ BREAK, CHR '':'' # show_int (-7) @ BREAK])
      (HArray [HString REDIS_REPLY_STRING ''foo'', HInteger (-7)])"
    by (intro encodes.array) (simp_all add: demo_env_def)
  then show "encodes demo_env (''*2'' @ BREAK @ ''$3'' @ BREAK @ ''foo'' @ BREAK @ '':-7'' @ BREAK) (HArray [HString REDIS_REPLY_STRING ''foo'', HInteger (-7)])"
    by (simp add: show_int_def show_nat.simps digit_char_def char_of_def bit_0)
  show "encodes demo_env (''+OK'' @ BREAK) (HString REDIS_REPLY_STATUS ''OK'')" using encodes.status[of "''OK''" demo_env] by simp
qed


section \<open>Arrays too long for an int\<close>

lemma to_int_wraps:
  assumes "2 ^ 31 \<le> v" "v \<le> 2 ^ 32"
  shows "to_int v \<le> 0"
proof -
  have "(v - 2 ^ 32) mod 2 ^ 32 = v mod 2 ^ 32" by simp
  then have "(word_of_int v :: 32 word) = word_of_int (v - 2 ^ 32)" by (simp add: word_of_int_eq_iff take_bit_eq_mod)
  then have "to_int v = sint (word_of_int (v - 2 ^ 32) :: 32 word)" unfolding to_int_def by (rule arg_cong)
  also have "\<dots> = v - 2 ^ 32" by (rule sint_of_int32) (use assms in simp_all)
  finally show ?thesis using assms by simp
qed

text \<open>
  C40: an array of 2^31 to 2^32 elements makes the client abort. The number of elements is stored in an \<open>int\<close>
  of the task, where it becomes negative or zero, so that the assertion on the index fails behind the first
  element, if the array can be allocated.
\<close>

theorem long_array_aborts:
  assumes "2 ^ 31 \<le> n" "n \<le> 2 ^ 32" "can_alloc env n"
  shows "redisReaderGetReply env (fst (redisReaderFeed redisReaderCreate (CHR ''*'' # show_nat n @ BREAK @ ''+OK'' @ BREAK))) = None"
proof -
  define s where "s = CHR ''*'' # show_nat n @ BREAK @ ''+OK'' @ BREAK"
  let ?f = "redisReaderCreate\<lparr>r_buf := s\<rparr>"
  define r0 where "r0 = rooted ?f"
  define ch where "ch = \<lparr>t_type = None, t_elements = -1, t_idx = 0, t_obj = (None :: nat option)\<rparr>"
  define cur where "cur = root_task\<lparr>t_type := Some REDIS_REPLY_ARRAY, t_elements := to_int (int n), t_obj := Some 0\<rparr>"
  have r0: "ready r0 root_task []" "r_heap r0 = []" "unread_bytes r0 = s"
    by (simp_all add: r0_def ready_def rooted_def redisReaderCreate_def bounded_def unread_bytes_def)
  have n: "int n \<le> LLONG_MAX" "n > 0" using assms(1,2) by (auto simp: LLONG_MAX_def)
  obtain r1 where r1: "unread_bytes r1 = ''+OK'' @ BREAK"
      "processItem env r0 = Some (r1\<lparr>r_heap := [(createReplyObject REDIS_REPLY_ARRAY)\<lparr>element := replicate n None\<rparr>], r_reply := Some 0, rstack := [ch, cur]\<rparr>, True)"
    using array_header[OF r0(1) _ _ n(1) assms(3), of "''+OK'' @ BREAK"] r0(2,3) n(2) by (auto simp: s_def ch_def cur_def)
  define r2 where "r2 = r1\<lparr>r_heap := [(createReplyObject REDIS_REPLY_ARRAY)\<lparr>element := replicate n None\<rparr>], r_reply := Some 0, rstack := [ch, cur]\<rparr>"
  have u2: "unread_bytes r2 = CHR ''+'' # ''OK'' @ BREAK" using r1(1) by (simp add: r2_def unread_bytes_def)
  have at: "at_type r2 REDIS_REPLY_STATUS (typed r2 REDIS_REPLY_STATUS)" using u2 by (simp add: at_type_def r2_def ch_def type_of_byte_def)
  have ut: "unread_bytes (typed r2 REDIS_REPLY_STATUS) = ''OK'' @ BREAK" using u2 by (simp add: typed_def advance_def unread_bytes_def drop_Suc drop_tl)
  have m: "moveToNextTask [ch\<lparr>t_type := Some REDIS_REPLY_STATUS\<rparr>, cur] = None"
    using to_int_wraps[of "int n"] assms(1,2) by (simp add: cur_def ch_def is_aggregate_def)
  have "processItem env r2 = None"
    using processItem_at[OF at, of env] ut m by (auto simp: process_typed_def is_aggregate_def processLineItem_def readLine_def item_done_def typed_def r2_def
      split: option.splits Option.bind_splits prod.splits)
  moreover have "rstack r2 \<noteq> []" by (simp add: r2_def)
  ultimately have "process_items env r2 = None" by (simp add: process_items.simps[of env r2])
  moreover have "process_items env r0 = process_items env r2" using process_items_step[OF _ r1(2)] r0(1) by (simp add: ready_def r2_def)
  ultimately have "process_items env (rooted ?f) = None" by (simp add: r0_def)
  then have "redisReaderGetReply env ?f = None" by (simp add: redisReaderGetReply_def rooted_def redisReaderCreate_def s_def)
  then show ?thesis by (simp add: redisReaderFeed_def redisReaderCreate_def s_def)
qed

theorem long_array_aborts_witness:
  "redisReaderGetReply demo_env (fst (redisReaderFeed redisReaderCreate (''*4294967296'' @ BREAK @ ''+OK'' @ BREAK))) = None"
proof -
  have "show_nat 4294967296 = ''4294967296''" by (simp add: show_nat.simps digit_char_def char_of_def bit_0)
  then show ?thesis using long_array_aborts[of 4294967296 demo_env] by (simp add: demo_env_def)
qed

end
