(* ===== verification/Client.thy ===== *)
theory Client
  imports Wire Reader
begin

text \<open>
  Both ends of a connection: what the reader of the client library makes of the bytes the server has sent.
\<close>

section \<open>Replies as the client sees them\<close>

fun seen :: "reply \<Rightarrow> hreply" where
  "seen RNull = HNil"
| "seen RNullArray = HNil"
| "seen (RStatus s) = HString REDIS_REPLY_STATUS s"
| "seen (RInt n) = HInteger n"
| "seen (RBulk b) = HString REDIS_REPLY_STRING b"
| "seen (RError e) = HString REDIS_REPLY_ERROR e"
| "seen (RArray rs) = HArray (map seen rs)"

text \<open>The text of a status or an error is one line.\<close>

fun one_line :: "reply \<Rightarrow> bool" where
  "one_line (RStatus s) \<longleftrightarrow> CHR 0x0A \<notin> set s"
| "one_line (RError e) \<longleftrightarrow> CHR 0x0A \<notin> set e"
| "one_line (RArray rs) \<longleftrightarrow> (\<forall>r\<in>set rs. one_line r)"
| "one_line _ \<longleftrightarrow> True"

text \<open>Numbers and lengths that the types of the client have room for.\<close>

fun small :: "reader_env \<Rightarrow> reply \<Rightarrow> bool" where
  "small env (RInt n) \<longleftrightarrow> fits_ll n"
| "small env (RBulk b) \<longleftrightarrow> int (length b) + 2 \<le> LLONG_MAX"
| "small env (RArray rs) \<longleftrightarrow> length rs < 2 ^ 31 \<and> can_alloc env (length rs) \<and> (\<forall>r\<in>set rs. small env r)"
| "small env _ \<longleftrightarrow> True"

lemma small_fits: "small env rep \<Longrightarrow> reply_fits rep"
  by (induction rep) (auto simp: fits_ll_def LLONG_MAX_def LLONG_MIN_def)

lemma seen_encoded: "one_line rep \<Longrightarrow> small env rep \<Longrightarrow> encodes env (encode_reply rep) (seen rep)"
proof (induction rep)
  case (RArray rs)
  then have "list_all2 (encodes env) (map encode_reply rs) (map seen rs)" by (auto simp: list_all2_conv_all_nth)
  then show ?case using encodes.array[of env "map encode_reply rs" "map seen rs"] RArray.prems by (simp add: header_def)
qed (use encodes.null[of env] encodes.null_array[of env] encodes.bulk[of _ env] in
  \<open>auto intro: encodes.status encodes.error encodes.integer simp: fits_ll_def bulk_text_def header_def\<close>)

section \<open>Replies of the commands\<close>

definition nice :: "nat \<Rightarrow> reply \<Rightarrow> bool" where
  "nice n rep \<longleftrightarrow> one_line rep \<and> hdepth (seen rep) \<le> n"

lemma nice_simps [simp]: "nice n RNull" "nice n RNullArray" "nice n (RInt v)" "nice n (RBulk b)"
    "nice n (RStatus s) \<longleftrightarrow> CHR 0x0A \<notin> set s" "nice n (RError s) \<longleftrightarrow> CHR 0x0A \<notin> set s"
    "nice (Suc n) (RArray rs) \<longleftrightarrow> (\<forall>r\<in>set rs. nice n r)"
  by (auto simp: nice_def)

lemma nice_mono: "nice n rep \<Longrightarrow> n \<le> m \<Longrightarrow> nice m rep"
  by (simp add: nice_def)

lemma nice_shared [simp]: "nice n shared_ok" "nice n shared_czero" "nice n shared_cone" "nice n shared_syntaxerr" "nice n shared_wrongtypeerr"
    "nice n too_long" "nice n shared_queued" "nice n shared_execaborterr" "nice n (arity_reply name) \<longleftrightarrow> CHR 0x0A \<notin> set name"
  by (simp_all add: shared_ok_def shared_czero_def shared_cone_def shared_syntaxerr_def shared_wrongtypeerr_def too_long_def shared_queued_def
    shared_execaborterr_def arity_reply_def)

lemma nice_parts:
  "spec_int b = Inl e \<Longrightarrow> nice n e" "spec_str m k = Inl e \<Longrightarrow> nice n e" "CHR 0x0A \<notin> set name \<Longrightarrow> spec_expire x u name = Inl e \<Longrightarrow> nice n e"
  by (auto simp: spec_int_def spec_str_def spec_expire_def split: option.splits "value.splits" prod.splits sum.splits if_splits)

lemma nice_get [simp]: "nice n (spec_get m k)"
  using nice_parts(2)[of m k] by (simp add: spec_get_def split: sum.splits option.splits)

lemma nice_set: "nice n ok \<Longrightarrow> nice n ab \<Longrightarrow> CHR 0x0A \<notin> set name \<Longrightarrow> nice n (snd (spec_set t m f k v x u name ok ab))"
  using nice_parts(3)[of name x u] by (simp add: spec_set_def split: sum.splits)

lemma nice_incr [simp]: "nice n (snd (spec_incr m k v))"
  using nice_parts(2)[of m k] nice_parts(1) by (auto simp: spec_incr_def split: sum.splits)

lemma nice_strings [simp]: "nice n (snd (spec_setrange limit m k b v))" "nice n (snd (spec_append limit m k v))" "nice n (snd (spec_msetgen nx args m))"
    "nice (Suc n) (spec_mget m ks)"
  using nice_parts(2)[of m k] nice_parts(1)[of b]
  by (auto simp: spec_setrange_def spec_append_def spec_msetgen_def spec_mget_def Let_def split: sum.splits option.splits "value.splits")

lemma nice_proc: "nice (Suc n) (snd (spec_proc cmd t limit args m))"
  using nice_parts(1,2)
  by (cases cmd) (auto intro!: nice_set split: option.splits sum.splits)

lemma nice_names: "CHR 0x0A \<notin> set (fst (command_table cmd))"
proof (cases cmd)
  case (StrCmd sc)
  then show ?thesis by (cases sc) simp_all
qed simp_all

lemma nice_command: "nice (Suc n) (snd (spec_command cmd t limit args m))"
  using nice_names[of "StrCmd cmd"] nice_proc by (auto simp: spec_command_def split: prod.splits)

lemma nice_exec: "\<forall>r\<in>set (snd (spec_exec t limit m q)). nice (Suc n) r"
proof (induction t limit m q rule: spec_exec.induct)
  case (2 t limit m cmd args q)
  then show ?case using nice_command[of n cmd t limit args m] by (auto simp: Let_def split: prod.splits)
qed (auto simp: Let_def split: prod.splits)

lemma no_breaks_line: "CHR 0x0A \<notin> set (no_breaks s)"
  by (auto simp: no_breaks_def)

lemma nice_request: "spec_request s touched t limit m cmd args = (s', m', rep) \<Longrightarrow> nice 2 rep"
proof -
  assume r: "spec_request s touched t limit m cmd args = (s', m', rep)"
  have c: "nice 2 (snd (spec_command sc t limit args m))" for sc using nice_mono[OF nice_command[of 0]] by simp
  have e: "nice 2 (RArray (snd (spec_exec t limit m (queued s))))" using nice_exec[of t limit m "queued s" 0] by (simp add: numeral_2_eq_2)
  show ?thesis
  proof (cases cmd)
    case None
    then show ?thesis using r no_breaks_line by (auto simp: spec_request_def)
  next
    case (Some cm)
    have "nice 2 (snd (snd (spec_request s touched t limit m (Some cm) args)))"
      using nice_names[of cm] c e by (cases cm) (auto simp: spec_request_def Let_def split: prod.splits)
    then show ?thesis using r Some by simp
  qed
qed

lemma nice_log:
  assumes "reachable S" "events_ok S xs" "run_log S xs = Some (S', reps)"
  shows "\<forall>x\<in>set reps. nice 2 (snd x)"
  using assms
proof (induction xs arbitrary: S reps)
  case (Cons x xs)
  obtain S1 rep reps1 where h: "handle S x = Some (S1, rep)" "run_log S1 xs = Some (S', reps1)"
      "reps = (case (x, rep) of (Request c _ _, Some r) \<Rightarrow> [(c, r)] | _ \<Rightarrow> []) @ reps1"
    using Cons.prems(3) by (auto simp: bind_eq_Some_conv)
  have "reachable S1" "events_ok S1 xs" using handle_limit[OF Cons.prems(1) _ h(1)] Cons.prems(2) h(1) by simp_all
  then have "\<forall>x\<in>set reps1. nice 2 (snd x)" using Cons.IH h(2) by blast
  moreover have "nice 2 r" if "x = Request c cmd args" "rep = Some r" for c cmd args r
  proof -
    obtain s m rp where sp: "spec_request (session_of S c) (dirty_cas (rdb S) c) (now (rdb S)) (proto_max_bulk_len (rdb S)) (keyspace (rdb S)) cmd args = (s, m, rp)"
      using prod_cases3 by blast
    then have "rp = r" using handle_request_spec[OF reachable_inv[OF Cons.prems(1)] _ _ sp] Cons.prems(2) h(1) that by auto
    then show ?thesis using nice_request[OF sp] by simp
  qed
  ultimately show ?case unfolding h(3) by (cases x; cases rep) auto
qed simp

section \<open>From the request to the reply object\<close>



end
