(* ===== verification/Spec2Isabelle.thy ===== *)
theory Spec2Isabelle
  imports DictScan Intset Siphash Client
begin

text \<open>
  A verification development for the in-memory server Redis 6.0.10 that the repository ships
  (\<open>src/redis-6.0.10/src\<close>) and its client library (\<open>src/redis-6.0.10/deps/hiredis\<close>).

  \<^bold>\<open>The program.\<close> A client encodes a request as an array of bulk strings and writes it to a connection. The
  server reads bytes in arbitrary pieces into a query buffer, parses them into an argument vector, looks up the
  command, creates string objects for the arguments and executes the command, or queues it while the client is
  in a transaction. A command works on a keyspace of two dictionaries (values and deadlines) over reference
  counted objects. Its reply goes to the output buffers of the client, which are written to the socket in
  pieces of any size; the reader of the client library turns the bytes back into a tree of reply objects.
  Underneath are the hash table, the dynamic strings, the sorted integer arrays, number conversion, glob
  matching, checksums and the hash function.

  \<^bold>\<open>Conventions.\<close> A C function is a HOL function of the same name that takes and returns the state. \<open>None\<close>
  stands for what must not happen: a failed assertion, an access outside of an allocation, a read of an
  uninitialised byte or a signed overflow. Errors the code reports are values. Unsigned integers of fixed width
  are words where they wrap around, signed ones are integers with the overflow written out. Pointers are indices
  into an explicit heap where sharing matters (objects, reply objects) and places in a data structure otherwise.
  Bytes of the outside world (sizes of reads and writes, the clock, the allocator, random numbers) are arguments.

  \<^bold>\<open>Theories.\<close>
  \<^item> \<open>Prelude\<close>: words, checked array access and generic lemmas. \<open>Map_Interface\<close> and \<open>Set_Interface\<close>: the
    contracts of a map and of a set as locales with what a client can rely on; the hash table and the integer
    set interpret them. \<open>SdsArgs\<close> has a third one, a sink for bytes.
  \<^item> \<open>Dict\<close>, \<open>DictScan\<close> (\<open>dict.c\<close>, \<open>dict.h\<close>): the table with incremental rehashing refines a finite map,
    rehashing ends, and a cursor scan misses no key that stays.
  \<^item> \<open>Util\<close>, \<open>Decimal\<close> (\<open>util.c\<close>): glob matching against its declarative meaning; printing and parsing of
    decimal integers are inverse to each other.
  \<^item> \<open>Sds\<close>, \<open>SdsArgs\<close> (\<open>sds.c\<close>, \<open>sds.h\<close>): strings with five header sizes refine byte lists; formatting,
    splitting, joining, quoting and parsing of arguments with their round trips.
  \<^item> \<open>Intset\<close> (\<open>intset.c\<close>): integer arrays at the byte level refine sets.
  \<^item> \<open>Crc\<close>, \<open>Siphash\<close> (\<open>crc16.c\<close>, \<open>crc64.c\<close>, \<open>crcspeed.c\<close>, \<open>siphash.c\<close>, \<open>keyHashSlot\<close> of \<open>cluster.c\<close>): the
    optimised routines equal the bitwise ones.
  \<^item> \<open>Object\<close>, \<open>Db\<close>, \<open>TString\<close> (\<open>object.c\<close>, \<open>db.c\<close>, \<open>t_string.c\<close>): reference counted strings in three encodings,
    the keyspace with lazy expiry, and the string commands. \<open>StringRefine\<close> and \<open>StringWrite\<close> show that the
    commands refine a map of byte strings with deadlines, keep reference counts exact and mark the
    clients that watch a key; \<open>Footprint\<close> bounds what a command can make the database refer to.
  \<^item> \<open>Multi\<close> (\<open>multi.c\<close>, \<open>processCommand\<close> of \<open>server.c\<close>): transactions. \<open>MultiInv\<close>, \<open>Transactions\<close>, \<open>Requests\<close>
    and \<open>Interleaving\<close> show the invariant of the server, that every request is a step of a specification with
    one session per client, that \<open>EXEC\<close> is atomic, and that watched keys are an optimistic lock.
  \<^item> \<open>Query\<close> (\<open>networking.c\<close>, \<open>redisFormatCommandArgv\<close> of \<open>hiredis.c\<close>): the parser of requests inverts the
    encoder for every division of the bytes into reads, and is safe on any input.
  \<^item> \<open>Output\<close> (\<open>networking.c\<close>): the reply functions, deferred lengths and partial writes lose, repeat and
    reorder no byte.
  \<^item> \<open>Wire\<close> puts parser, commands and output buffers together: what was sent to a client are the replies to its
    requests, whatever the interleaving of all connections.
  \<^item> \<open>Reader\<close> (\<open>read.c\<close>, \<open>hiredis.c\<close>): the reader of replies inverts the encoding for every division into
    pieces, with nested arrays; arrays too long for an \<open>int\<close> make it fail.
  \<^item> \<open>Client\<close> composes both ends: the objects a client reads are the replies to its requests.

  \<^bold>\<open>Bounds and loops.\<close> No loop is cut off by fuel. Loops without an obvious measure are partial functions
  with an option result (rehashing with a time limit, the scan of a growing table, the loops over the
  query buffer and over the items of a reply), and that they return is part of
  the theorems. The limits in the hypotheses are those of the types or the configuration: strings of at most
  \<open>MAX_STR\<close> bytes, far above the largest configurable \<open>proto-max-bulk-len\<close>; requests within the limits the
  parser checks; numbers in replies that fit a \<open>long long\<close>; arrays of less than 2^31 elements and at most
  seven levels of nesting on the side of the client (replies of the modelled commands have two).

  \<^bold>\<open>Not modelled.\<close> The other value types and their encodings (lists, hashes, sets, sorted sets, streams;
  \<open>ziplist.c\<close>, \<open>quicklist.c\<close>, \<open>listpack.c\<close>, \<open>rax.c\<close>) are opaque values here; floating point numbers
  (\<open>INCRBYFLOAT\<close>, scores, geographic indices) have no faithful counterpart in the library used. Persistence,
  replication, cluster and Sentinel (\<open>rdb.c\<close>, \<open>aof.c\<close>, \<open>rio.c\<close>, \<open>replication.c\<close>, \<open>cluster.c\<close>, \<open>sentinel.c\<close>)
  depend on files, forked processes and other servers; scripting and modules (\<open>scripting.c\<close>, \<open>module.c\<close>) on the Lua
  interpreter and on foreign code. The event loop and sockets (\<open>ae.c\<close>, \<open>anet.c\<close>, \<open>connection.c\<close>, \<open>tls.c\<close>)
  appear as the events of \<open>Wire\<close>; I/O threads, blocked and paused clients, publish/subscribe, access control,
  eviction and lazy freeing are outside of the configuration modelled. The allocator \<open>jemalloc\<close>, \<open>lua\<close> and
  \<open>linenoise\<close> are libraries the sources only call. The command line tools and the web application at the
  top of the repository (controllers, routes and workers on top of a database and a queue that are not in the
  repository) are input and output around services.
\<close>

end
